(* ===== verification/Modem_Prelude.thy ===== *)
theory Modem_Prelude
  imports Main "HOL-Library.Word"
begin

text \<open>
  The vocabulary every component shares: the fixed-width integers of the C++ code, the operations
  of \<open>std::vector\<close> that are not already a HOL list function, little-endian byte views of words
  (what \<open>memcpy\<close> and \<open>reinterpret_cast\<close> give on the code's targets), and the lemmas
  about them that carry the component proofs.

  \<^item> \<open>u8\<close>, \<open>u16\<close>, \<open>u32\<close>, \<open>u64\<close> are the unsigned types; arithmetic on them wraps.
  \<^item> \<open>vec_resize\<close> is \<open>std::vector::resize(n, x)\<close>.
  \<^item> \<open>vslice\<close> is the range \<open>[begin + i, begin + i + n)\<close>.
  \<^item> \<open>chunks\<close> cuts a vector in blocks of \<open>n\<close>, the last one possibly short.
  \<^item> the collection \<open>vec_simps\<close> holds the length, append and index rules of these.
\<close>

unbundle bit_operations_syntax

text \<open>The bits of a constant are looked up on the word, not on the integer it names.\<close>

declare bit_numeral_word_iff [simp del]

type_synonym u8 = "8 word"
type_synonym u16 = "16 word"
type_synonym u32 = "32 word"
type_synonym u64 = "64 word"

named_theorems vec_simps "rules on the vector operations"
named_theorems bit_rules "bit-wise characterisations of the code's masks"

section \<open>Vectors\<close>

definition vec_resize :: "nat \<Rightarrow> 'a \<Rightarrow> 'a list \<Rightarrow> 'a list" where
  "vec_resize n x xs = take n xs @ replicate (n - length xs) x"

definition vslice :: "nat \<Rightarrow> nat \<Rightarrow> 'a list \<Rightarrow> 'a list" where
  "vslice i n xs = take n (drop i xs)"

function chunks :: "nat \<Rightarrow> 'a list \<Rightarrow> 'a list list" where
  "chunks n xs = (if n = 0 \<or> xs = [] then [] else take n xs # chunks n (drop n xs))"
  by pat_completeness auto
termination
  by (relation "measure (\<lambda>(n, xs). length xs)") auto

declare chunks.simps [simp del]

lemma length_vec_resize [simp, vec_simps]: "length (vec_resize n x xs) = n"
  by (simp add: vec_resize_def)

lemma vec_resize_same [vec_simps]: "length xs = n \<Longrightarrow> vec_resize n x xs = xs"
  by (simp add: vec_resize_def)

lemma vec_resize_shrink: "n \<le> length xs \<Longrightarrow> vec_resize n x xs = take n xs"
  by (simp add: vec_resize_def)

lemma vec_resize_grow: "length xs \<le> n \<Longrightarrow> vec_resize n x xs = xs @ replicate (n - length xs) x"
  by (simp add: vec_resize_def)

lemma nth_vec_resize [vec_simps]:
  "i < n \<Longrightarrow> vec_resize n x xs ! i = (if i < length xs then xs ! i else x)"
  by (simp add: vec_resize_def nth_append)

lemma vec_resize_add: "vec_resize (a + b) x xs = vec_resize a x xs @ vec_resize b x (drop a xs)"
proof (cases "length xs \<le> a")
  case True
  then obtain c where "a = length xs + c" by (auto simp: le_iff_add)
  then show ?thesis by (simp add: vec_resize_def replicate_add)
next
  case False
  then show ?thesis by (simp add: vec_resize_def take_add)
qed

lemma vec_resize_take: "vec_resize n x (take n xs) = vec_resize n x xs"
  by (simp add: vec_resize_def min_def)

lemma length_vslice [simp, vec_simps]: "length (vslice i n xs) = min n (length xs - i)"
  by (simp add: vslice_def)

lemma nth_vslice [vec_simps]: "i + k < length xs \<Longrightarrow> k < n \<Longrightarrow> vslice i n xs ! k = xs ! (i + k)"
  by (simp add: vslice_def)

lemma vslice_concat:
  "\<forall>c \<in> set cs. length c = n \<Longrightarrow> j < length cs \<Longrightarrow> vslice (j * n) n (concat cs) = cs ! j"
proof (induction cs arbitrary: j)
  case Nil
  then show ?case by simp
next
  case (Cons c cs)
  then show ?case by (cases j) (simp_all add: vslice_def)
qed

lemma vslice_in: "i + n \<le> length xs \<Longrightarrow> length (vslice i n xs) = n"
  by simp

lemma chunks_Nil [simp, vec_simps]: "chunks n [] = []"
  by (simp add: chunks.simps)

lemma chunks_short: "0 < n \<Longrightarrow> xs \<noteq> [] \<Longrightarrow> length xs \<le> n \<Longrightarrow> chunks n xs = [xs]"
  by (subst chunks.simps) simp

lemma chunks_append:
  "0 < n \<Longrightarrow> length xs = n \<Longrightarrow> chunks n (xs @ ys) = xs # chunks n ys"
  by (subst chunks.simps) auto

lemma concat_chunks [simp]: "0 < n \<Longrightarrow> concat (chunks n xs) = xs"
proof (induction n xs rule: chunks.induct)
  case (1 n xs)
  then show ?case by (cases "xs = []") (simp_all add: chunks.simps [of n xs])
qed

lemma length_chunks:
  "0 < n \<Longrightarrow> length (chunks n xs) = length xs div n + (if length xs mod n = 0 then 0 else 1)"
proof (induction n xs rule: chunks.induct)
  case (1 n xs)
  show ?case
  proof (cases "xs = []")
    case True
    then show ?thesis by simp
  next
    case False
    then have step: "chunks n xs = take n xs # chunks n (drop n xs)"
      using "1.prems" by (simp add: chunks.simps [of n xs])
    show ?thesis
    proof (cases "length xs < n")
      case True
      with False step show ?thesis by simp
    next
      case ge: False
      then have "length xs div n = Suc ((length xs - n) div n)"
        and "length xs mod n = (length xs - n) mod n"
        using "1.prems" by (simp_all add: le_div_geq le_mod_geq)
      with False step 1 show ?thesis by simp
    qed
  qed
qed

lemma chunks_lengths:
  "0 < n \<Longrightarrow> length xs mod n = 0 \<Longrightarrow> c \<in> set (chunks n xs) \<Longrightarrow> length c = n"
proof (induction n xs rule: chunks.induct)
  case (1 n xs)
  show ?case
  proof (cases "xs = []")
    case True
    with "1.prems" show ?thesis by simp
  next
    case False
    with "1.prems" have ge: "n \<le> length xs"
      by (metis length_0_conv mod_less not_le)
    then have "(length xs - n) mod n = 0"
      using "1.prems"(2) by (simp add: le_mod_geq)
    with 1 False ge show ?thesis
      by (auto simp: chunks.simps [of n xs])
  qed
qed

lemma chunks_concat:
  "0 < n \<Longrightarrow> \<forall>c \<in> set cs. length c = n \<Longrightarrow> chunks n (concat cs) = cs"
  by (induction cs) (auto simp: chunks_append)

lemma quarter_cases [case_names 0 1 2 3]:
  fixes j :: nat
  obtains q where "j = 4 * q" | q where "j = 4 * q + 1" | q where "j = 4 * q + 2"
    | q where "j = 4 * q + 3"
proof -
  have "j = 4 * (j div 4) + j mod 4" by simp
  moreover have "j mod 4 = 0 \<or> j mod 4 = 1 \<or> j mod 4 = 2 \<or> j mod 4 = 3" by linarith
  ultimately show ?thesis using that by (metis add_0_right)
qed

lemma quarter_div_mod [simp]:
  "(4 * q + 1) div 4 = q" "(4 * q + 2) div 4 = q" "(4 * q + 3) div 4 = q"
  "(4 * q + 1) mod 4 = 1" "(4 * q + 2) mod 4 = 2" "(4 * q + 3) mod 4 = 3"
  "Suc (4 * q) div 4 = q" "Suc (Suc (4 * q)) div 4 = q"
  "Suc (4 * q) mod 4 = 1" "Suc (Suc (4 * q)) mod 4 = 2" for q :: nat
  by presburger+

lemma quarter_index: "s < 4 \<Longrightarrow> 4 * i + s = j \<longleftrightarrow> i = j div 4 \<and> j mod 4 = s" for i :: nat
  by auto

lemma nth_list_update_in: "j < length xs \<Longrightarrow> xs[i := v] ! j = (if i = j then v else xs ! j)"
  by (cases "i = j") simp_all

section \<open>Bytes of a word, little endian\<close>

definition word_bytes :: "u32 \<Rightarrow> u8 list" where
  "word_bytes w = [ucast w, ucast (drop_bit 8 w), ucast (drop_bit 16 w), ucast (drop_bit 24 w)]"

definition bytes_word :: "u8 \<Rightarrow> u8 \<Rightarrow> u8 \<Rightarrow> u8 \<Rightarrow> u32" where
  "bytes_word b0 b1 b2 b3 =
     ucast b0 OR push_bit 8 (ucast b1) OR push_bit 16 (ucast b2) OR push_bit 24 (ucast b3)"

text \<open>\<open>(const uint8_t* )v.data()\<close>: the bytes of a word vector.\<close>

definition vec_bytes :: "u32 list \<Rightarrow> u8 list" where
  "vec_bytes ws = concat (map word_bytes ws)"

text \<open>\<open>(const uint32_t* )bytes\<close>: whole words only, a short tail is dropped.\<close>

fun bytes_vec :: "u8 list \<Rightarrow> u32 list" where
  "bytes_vec (b0 # b1 # b2 # b3 # bs) = bytes_word b0 b1 b2 b3 # bytes_vec bs"
| "bytes_vec bs = []"

lemma length_word_bytes [simp, vec_simps]: "length (word_bytes w) = 4"
  by (simp add: word_bytes_def)

lemma length_vec_bytes [simp, vec_simps]: "length (vec_bytes ws) = 4 * length ws"
  by (induction ws) (simp_all add: vec_bytes_def)

lemma vec_bytes_Nil [simp]: "vec_bytes [] = []"
  by (simp add: vec_bytes_def)

lemma vec_bytes_eq_Nil [simp]: "vec_bytes ws = [] \<longleftrightarrow> ws = []"
  by (metis length_vec_bytes length_0_conv mult_is_0 zero_neq_numeral)

lemma vec_bytes_Cons: "vec_bytes (w # ws) = word_bytes w @ vec_bytes ws"
  by (simp add: vec_bytes_def)

lemma vec_bytes_append [vec_simps]: "vec_bytes (a @ b) = vec_bytes a @ vec_bytes b"
  by (simp add: vec_bytes_def)

lemma bytes_word_of_bytes [simp]:
  "bytes_word (ucast w) (ucast (drop_bit 8 w)) (ucast (drop_bit 16 w)) (ucast (drop_bit 24 w)) = w"
  for w :: u32
proof (rule bit_word_eqI)
  fix n
  assume "n < LENGTH(32)"
  then consider "n < 8" | "8 \<le> n" "n < 16" | "16 \<le> n" "n < 24" | "24 \<le> n" "n < 32"
    by force
  then show "bit (bytes_word (ucast w) (ucast (drop_bit 8 w)) (ucast (drop_bit 16 w))
      (ucast (drop_bit 24 w))) n = bit w n"
    by cases (auto simp: bytes_word_def bit_simps)
qed

lemma word_bytes_of_word [simp]: "word_bytes (bytes_word a b c d) = [a, b, c, d]"
proof -
  have "ucast (bytes_word a b c d) = a" "ucast (drop_bit 8 (bytes_word a b c d)) = b"
    "ucast (drop_bit 16 (bytes_word a b c d)) = c" "ucast (drop_bit 24 (bytes_word a b c d)) = d"
    unfolding bytes_word_def
    by (rule bit_word_eqI; auto simp: bit_simps dest: bit_imp_le_length)+
  then show ?thesis by (simp add: word_bytes_def)
qed

lemma bytes_vec_of_bytes [simp]: "bytes_vec (vec_bytes ws) = ws"
  by (induction ws) (simp_all add: vec_bytes_Cons word_bytes_def)

lemma bytes_vec_of_bytes_append [simp]: "length bs < 4 \<Longrightarrow> bytes_vec (vec_bytes ws @ bs) = ws"
proof (induction ws)
  case Nil
  then show ?case by (cases bs rule: bytes_vec.cases) simp_all
next
  case (Cons w ws)
  then show ?case by (simp add: vec_bytes_Cons word_bytes_def)
qed

lemma vec_bytes_of_vec: "length bs mod 4 = 0 \<Longrightarrow> vec_bytes (bytes_vec bs) = bs"
  by (induction bs rule: bytes_vec.induct) (simp_all add: vec_bytes_Cons)

lemma length_bytes_vec [simp, vec_simps]: "length (bytes_vec bs) = length bs div 4"
  by (induction bs rule: bytes_vec.induct) simp_all

lemma bytes_vec_append:
  "length xs mod 4 = 0 \<Longrightarrow> bytes_vec (xs @ ys) = bytes_vec xs @ bytes_vec ys"
  by (induction xs rule: bytes_vec.induct) simp_all

lemma bytes_vec_short: "length bs < 4 \<Longrightarrow> bytes_vec bs = []"
  by (metis div_less length_0_conv length_bytes_vec)

lemma bytes_vec_take: "bytes_vec (take (n * 4) bs) = take n (bytes_vec bs)"
proof (induction bs arbitrary: n rule: bytes_vec.induct)
  case (1 b0 b1 b2 b3 bs)
  have four: "Suc m * 4 = Suc (Suc (Suc (Suc (m * 4))))" for m by simp
  show ?case
  proof (cases n)
    case (Suc m)
    show ?thesis unfolding Suc four using 1 [of m] by simp
  qed simp
qed (simp_all add: bytes_vec_short)

lemma bytes_vec_drop: "bytes_vec (drop (n * 4) bs) = drop n (bytes_vec bs)"
proof (induction bs arbitrary: n rule: bytes_vec.induct)
  case (1 b0 b1 b2 b3 bs)
  have four: "Suc m * 4 = Suc (Suc (Suc (Suc (m * 4))))" for m by simp
  show ?case
  proof (cases n)
    case (Suc m)
    show ?thesis unfolding Suc four using 1 [of m] by simp
  qed simp
qed (simp_all add: bytes_vec_short)

lemma vec_bytes_inject [simp]: "vec_bytes a = vec_bytes b \<longleftrightarrow> a = b"
  by (metis bytes_vec_of_bytes)

section \<open>Loops that may read out of range\<close>

text \<open>A \<open>for\<close> loop whose body may be undefined, as \<open>None\<close>.\<close>

fun fold_option :: "('a \<Rightarrow> 'b \<Rightarrow> 'b option) \<Rightarrow> 'a list \<Rightarrow> 'b \<Rightarrow> 'b option" where
  "fold_option f [] s = Some s"
| "fold_option f (x # xs) s = (case f x s of None \<Rightarrow> None | Some s' \<Rightarrow> fold_option f xs s')"

definition vec_get :: "'a list \<Rightarrow> nat \<Rightarrow> 'a option" where
  "vec_get xs i = (if i < length xs then Some (xs ! i) else None)"

fun map_option_list :: "('a \<Rightarrow> 'b option) \<Rightarrow> 'a list \<Rightarrow> 'b list option" where
  "map_option_list f [] = Some []"
| "map_option_list f (x # xs) =
     (case f x of None \<Rightarrow> None
      | Some y \<Rightarrow> (case map_option_list f xs of None \<Rightarrow> None | Some ys \<Rightarrow> Some (y # ys)))"

lemma fold_option_append:
  "fold_option f (xs @ ys) s = Option.bind (fold_option f xs s) (fold_option f ys)"
  by (induction xs arbitrary: s) (auto split: option.splits)

lemma fold_option_Some:
  "(\<And>x s. x \<in> set xs \<Longrightarrow> f x s = Some (g x s)) \<Longrightarrow> fold_option f xs s = Some (fold g xs s)"
  by (induction xs arbitrary: s) simp_all

lemma map_option_list_Some:
  "(\<And>x. x \<in> set xs \<Longrightarrow> f x = Some (g x)) \<Longrightarrow> map_option_list f xs = Some (map g xs)"
  by (induction xs) simp_all

lemma map_option_list_length: "map_option_list f xs = Some ys \<Longrightarrow> length ys = length xs"
  by (induction xs arbitrary: ys) (auto split: option.splits)

lemma vec_get_in [simp, vec_simps]: "i < length xs \<Longrightarrow> vec_get xs i = Some (xs ! i)"
  by (simp add: vec_get_def)

lemma vec_get_out [simp, vec_simps]: "length xs \<le> i \<Longrightarrow> vec_get xs i = None"
  by (simp add: vec_get_def)

section \<open>Words and their masks\<close>

lemma bit_push_word [bit_rules]:
  "bit (push_bit n w) m \<longleftrightarrow> n \<le> m \<and> m < LENGTH('a) \<and> bit w (m - n)" for w :: "'a::len word"
  by (auto simp: bit_simps)

lemma bit_drop_word [bit_rules]: "bit (drop_bit n w) m \<longleftrightarrow> bit w (n + m)" for w :: "'a::len word"
  by (simp add: bit_simps)

lemma bit_ucast_word [bit_rules]:
  "bit (ucast w :: 'b::len word) n \<longleftrightarrow> n < LENGTH('b) \<and> bit w n" for w :: "'a::len word"
  by (simp add: bit_simps)

lemma bit_not_word [bit_rules]: "bit (NOT w) n \<longleftrightarrow> n < LENGTH('a) \<and> \<not> bit w n" for w :: "'a::len word"
  by (simp add: bit_simps)

lemmas [bit_rules] = bit_and_iff bit_or_iff bit_xor_iff bit_mask_iff

lemma bit_u16_beyond [simp]: "16 \<le> n \<Longrightarrow> \<not> bit (w :: u16) n"
  using bit_imp_le_length [of w n] by auto

lemma bit_u32_beyond [simp]: "32 \<le> n \<Longrightarrow> \<not> bit (w :: u32) n"
  using bit_imp_le_length [of w n] by auto

lemma bit_u8_beyond [simp]: "8 \<le> n \<Longrightarrow> \<not> bit (w :: u8) n"
  using bit_imp_le_length [of w n] by auto

lemma not_bit_high:
  assumes "unat w < 2 ^ k" and "k \<le> n"
  shows "\<not> bit (w :: 'a::len word) n"
proof -
  have "unat w < 2 ^ n"
    using assms by (meson le_trans less_le_trans one_le_numeral power_increasing)
  then have "\<not> bit (unat w) n" by (simp add: bit_iff_odd)
  then show ?thesis using bit_imp_le_length [of w n] by (simp add: bit_unsigned_iff)
qed

lemma xor_cancel_left [simp]: "a XOR b = a XOR c \<longleftrightarrow> b = c" for a :: "'a::len word"
  by (metis xor.assoc xor_self_eq xor.left_neutral)

lemma xor_cancel_right [simp]: "b XOR a = c XOR a \<longleftrightarrow> b = c" for a :: "'a::len word"
  by (metis xor.assoc xor_self_eq xor.right_neutral)

lemma unat_ucast_up:
  "LENGTH('a::len) \<le> LENGTH('b::len) \<Longrightarrow> unat (ucast (w :: 'a word) :: 'b word) = unat w"
  by (simp add: unsigned_ucast_eq take_bit_nat_eq_self
      less_le_trans [OF unsigned_less power_increasing])

lemma unat_and_mask: "unat (w AND mask n) = unat w mod 2 ^ n"
  by (simp only: take_bit_eq_mask [symmetric] unsigned_take_bit_eq) (simp only: take_bit_eq_mod)

lemma unat_u32_less [simp]: "unat (w :: u32) < 4294967296"
  using unsigned_less [of w] by simp

lemma unat_u8_less [simp]: "unat (w :: u8) < 256"
  using unsigned_less [of w] by simp

lemma unat_of_nat_u32 [simp]: "n < 4294967296 \<Longrightarrow> unat (of_nat n :: u32) = n"
  by (simp add: unat_of_nat)

lemma unat_of_nat_le: "n \<le> unat (w :: u32) \<Longrightarrow> unat (of_nat n :: u32) = n"
  by (rule unat_of_nat_u32) (erule le_less_trans, rule unat_u32_less)

lemma unat_of_nat_div [simp]: "unat (of_nat (unat (w :: u32) div n) :: u32) = unat w div n"
  by (rule unat_of_nat_le [of _ w]) (rule div_le_dividend)

lemma byte_of_word:
  "r < 4 \<Longrightarrow> ucast (drop_bit (8 * r) w AND 0xFF) = word_bytes w ! r"
proof -
  assume "r < 4"
  then have r: "r = 0 \<or> r = 1 \<or> r = 2 \<or> r = 3" by auto
  have "ucast (v AND 0xFF) = (ucast v :: u8)" for v :: u32
  proof -
    have m: "(0xFF :: u32) = mask 8" by (simp add: mask_eq_exp_minus_1)
    show ?thesis by (rule bit_word_eqI, unfold m bit_rules) auto
  qed
  then show ?thesis using r by (auto simp: word_bytes_def numeral_3_eq_3 numeral_2_eq_2)
qed

lemma nth_vec_bytes: "i < 4 * length ws \<Longrightarrow> vec_bytes ws ! i = word_bytes (ws ! (i div 4)) ! (i mod 4)"
proof (induction ws arbitrary: i)
  case Nil
  then show ?case by simp
next
  case (Cons w ws)
  then show ?case
    by (cases "i < 4") (auto simp: vec_bytes_Cons nth_append nth_Cons' le_div_geq le_mod_geq)
qed

lemma concat_vslices: "concat (map (\<lambda>i. vslice (n * i) n xs) [0..<k]) = take (k * n) xs"
proof (induction k)
  case 0
  then show ?case by simp
next
  case (Suc k)
  have "take (Suc k * n) xs = take (k * n) xs @ take n (drop (k * n) xs)"
    by (simp only: mult_Suc add.commute [of n] take_add)
  with Suc show ?case by (simp add: vslice_def mult.commute)
qed

lemma chunks_vslices:
  assumes "0 < n" "length xs = k * n"
  shows "chunks n xs = map (\<lambda>i. vslice (i * n) n xs) [0..<k]"
proof -
  have full: "length (vslice (i * n) n xs) = n" if "i < k" for i
  proof -
    have "Suc i * n \<le> k * n" using that by (intro mult_le_mono1) simp
    then show ?thesis using assms(2) by (intro vslice_in) simp
  qed
  have "chunks n (concat (map (\<lambda>i. vslice (i * n) n xs) [0..<k])) = map (\<lambda>i. vslice (i * n) n xs) [0..<k]"
    using assms(1) full by (intro chunks_concat) auto
  moreover have "concat (map (\<lambda>i. vslice (i * n) n xs) [0..<k]) = xs"
    using concat_vslices [of n xs k] assms(2) by (simp add: mult.commute)
  ultimately show ?thesis by simp
qed


text \<open>Signed readings.\<close>

lemma uint_u32_range:
  obtains k where "uint (w :: u32) = k" "0 \<le> k" "k < 2 ^ 32"
proof -
  have "uint w < 2 ^ 32" using uint_bounded [of w] by simp
  then show ?thesis using that by simp
qed

lemma sint_u32: "sint w = (if uint w < 2 ^ 31 then uint w else uint w - 2 ^ 32)" for w :: u32
proof -
  obtain k where k: "uint w = k" "0 \<le> k" "k < 2 ^ 32" by (rule uint_u32_range)
  have "sint w = (k + 2 ^ 31) mod 2 ^ 32 - 2 ^ 31"
    by (simp add: sint_uint signed_take_bit_eq_take_bit_shift take_bit_eq_mod k(1))
  moreover have "(k + 2 ^ 31) mod 2 ^ 32 = (if k < 2 ^ 31 then k + 2 ^ 31 else k - 2 ^ 31)"
  proof (cases "k < 2 ^ 31")
    case False
    have "(k - 2 ^ 31 + 2 ^ 32) mod 2 ^ 32 = k - 2 ^ 31"
      using False k by (subst mod_add_self2) (simp add: mod_pos_pos_trivial)
    then show ?thesis using False by (simp add: add.commute)
  qed (use k in simp)
  ultimately show ?thesis using k(1) by simp
qed

end
