(* ===== verification/Crc32.thy ===== *)
theory Crc32
  imports Modem_Prelude
begin

text \<open>
  \<open>soapy/src/common/crc32.cpp\<close> and \<open>crc32.hpp\<close>: the table generator, the
  table-driven update and the three \<open>Crc32::calc\<close> overloads. The object is its table.
  \<open>crc_serial\<close> is the reference: the bit-serial shift register. The lemmas show that the
  table-driven code computes it, that the register is linear and injective, what it detects and
  what the chosen start value does not see.
\<close>

section \<open>The code\<close>

abbreviation crc_polynomial :: u32 where
  "crc_polynomial \<equiv> 0xEDB88320"

text \<open>One pass of the inner loop of \<open>generate_table\<close>.\<close>

definition crc_shift :: "u32 \<Rightarrow> u32" where
  "crc_shift c = (if c AND 1 \<noteq> 0 then crc_polynomial XOR drop_bit 1 c else drop_bit 1 c)"

definition generate_table :: "u32 list" where
  "generate_table = map (\<lambda>i. (crc_shift ^^ 8) (of_nat i)) [0..<256]"

definition crc_step :: "u32 list \<Rightarrow> u32 \<Rightarrow> u8 \<Rightarrow> u32" where
  "crc_step table c u = table ! unat ((c XOR ucast u) AND 0xFF) XOR drop_bit 8 c"

definition crc_update :: "u32 list \<Rightarrow> u32 \<Rightarrow> u8 list \<Rightarrow> u32" where
  "crc_update table initial buf =
     foldl (crc_step table) (initial XOR 0xFFFFFFFF) buf XOR 0xFFFFFFFF"

definition crc_initial_value :: u32 where
  "crc_initial_value = 0xFFFFFFFF"

text \<open>\<open>calc(buf, len)\<close>, \<open>calc(vector<unsigned char>)\<close> and
  \<open>calc(vector<uint32_t>)\<close>, on an object made by the constructor.\<close>

definition crc_calc :: "u8 list \<Rightarrow> u32" where
  "crc_calc buf = crc_update generate_table crc_initial_value buf"

definition crc_calc_chars :: "u8 list \<Rightarrow> u32" where
  "crc_calc_chars v = crc_calc v"

definition crc_calc_words :: "u32 list \<Rightarrow> u32" where
  "crc_calc_words v = crc_calc (vec_bytes v)"

section \<open>The reference: a bit-serial shift register\<close>

fun crc_serial :: "u32 \<Rightarrow> bool list \<Rightarrow> u32" where
  "crc_serial c [] = c"
| "crc_serial c (b # bs) = crc_serial (crc_shift (c XOR of_bool b)) bs"

definition byte_bits :: "u8 \<Rightarrow> bool list" where
  "byte_bits u = map (bit u) [0..<8]"

section \<open>The register is linear and injective\<close>

lemma crc_shift_bit: "crc_shift c = (if bit c 0 then crc_polynomial XOR drop_bit 1 c else drop_bit 1 c)"
  by (simp add: crc_shift_def bit_0 and_one_eq odd_iff_mod_2_eq_one)

lemma crc_shift_0 [simp]: "crc_shift 0 = 0"
  by (simp add: crc_shift_def)

lemma crc_shift_xor: "crc_shift (a XOR b) = crc_shift a XOR crc_shift b"
proof -
  have d: "drop_bit 1 (a XOR b) = drop_bit 1 a XOR drop_bit 1 b"
    by (simp only: drop_bit_xor)
  show ?thesis
    unfolding crc_shift_bit d bit_xor_iff
    by (auto simp: ac_simps)
qed

lemma crc_shifts_xor: "(crc_shift ^^ n) (a XOR b) = (crc_shift ^^ n) a XOR (crc_shift ^^ n) b"
  by (induction n) (simp_all add: crc_shift_xor)

lemma drop_push_1: "\<not> bit (h :: u32) 31 \<Longrightarrow> drop_bit 1 (push_bit 1 h) = h"
proof (rule bit_word_eqI)
  fix n assume "n < LENGTH(32)" and "\<not> bit h 31"
  then show "bit (drop_bit 1 (push_bit 1 h)) n = bit h n"
    by (cases "n = 31") (simp_all only: bit_rules, auto)
qed

lemma crc_shifts_0 [simp]: "(crc_shift ^^ n) 0 = 0"
  by (induction n) simp_all

lemma crc_shift_even: "\<not> bit (h :: u32) 31 \<Longrightarrow> crc_shift (push_bit 1 h) = h"
  by (simp only: crc_shift_bit drop_push_1 bit_rules not_False_eq_True) simp

lemma crc_shifts_drop: "n \<le> 32 \<Longrightarrow> (\<And>k. 32 - n \<le> k \<Longrightarrow> \<not> bit h k) \<Longrightarrow>
    (crc_shift ^^ n) (push_bit n h) = h"
proof (induction n)
  case 0
  then show ?case by simp
next
  case (Suc n)
  have push: "push_bit (Suc n) h = push_bit 1 (push_bit n h)"
    by (simp only: push_bit_push_bit plus_1_eq_Suc)
  have "\<not> bit (push_bit n h) 31"
    using Suc.prems by (auto simp: bit_rules)
  then have "(crc_shift ^^ Suc n) (push_bit (Suc n) h) = (crc_shift ^^ n) (push_bit n h)"
    by (simp only: funpow_Suc_right o_apply push crc_shift_even not_False_eq_True)
  also have "\<dots> = h"
    using Suc.prems by (intro Suc.IH) auto
  finally show ?case .
qed

lemma crc_shift_top: "bit (crc_shift c) 31 = bit c 0"
  by (simp add: bit_numeral_word_iff crc_shift_bit bit_simps)

lemma crc_shift_inj: "crc_shift a = crc_shift b \<longleftrightarrow> a = b"
proof
  assume eq: "crc_shift a = crc_shift b"
  then have b0: "bit a 0 = bit b 0" by (metis crc_shift_top)
  with eq have "drop_bit 1 a = drop_bit 1 b"
    by (cases "bit a 0") (simp_all only: crc_shift_bit xor_cancel_left if_True if_False)
  then have "bit a (Suc n) = bit b (Suc n)" for n
    by (metis bit_drop_word plus_1_eq_Suc)
  with b0 show "a = b"
    by (intro bit_word_eqI) (metis not0_implies_Suc)
qed simp

lemma crc_shifts_inj: "(crc_shift ^^ n) a = (crc_shift ^^ n) b \<longleftrightarrow> a = b"
  by (induction n arbitrary: a b) (simp_all add: crc_shift_inj)

section \<open>The table computes eight shifts\<close>

lemma crc_table_nth: "i < 256 \<Longrightarrow> generate_table ! i = (crc_shift ^^ 8) (of_nat i)"
  by (simp add: generate_table_def)

lemma low_byte_less: "unat (x AND 0xFF :: u32) < 256"
proof -
  have "(0xFF :: u32) = mask 8" by (simp add: mask_eq_exp_minus_1)
  then show ?thesis by (simp only: unat_and_mask) simp
qed

lemma split_low_byte: "x = (x AND 0xFF) XOR push_bit 8 (drop_bit 8 x)" for x :: u32
proof (rule bit_word_eqI)
  fix n assume n: "n < LENGTH(32)"
  have m: "(0xFF :: u32) = mask 8" by (simp add: mask_eq_exp_minus_1)
  show "bit x n = bit ((x AND 0xFF) XOR push_bit 8 (drop_bit 8 x)) n"
    using n unfolding m bit_xor_iff bit_and_iff bit_rules bit_mask_iff by auto
qed

lemma crc_step_table: "crc_step generate_table c u = (crc_shift ^^ 8) (c XOR ucast u)"
proof -
  let ?x = "c XOR ucast u"
  have high: "drop_bit 8 ?x = drop_bit 8 c"
    by (rule bit_word_eqI) (auto simp: bit_simps dest: bit_imp_le_length)
  have "(crc_shift ^^ 8) ?x
      = (crc_shift ^^ 8) (?x AND 0xFF) XOR (crc_shift ^^ 8) (push_bit 8 (drop_bit 8 ?x))"
    by (subst split_low_byte [of ?x]) (rule crc_shifts_xor)
  also have "(crc_shift ^^ 8) (push_bit 8 (drop_bit 8 ?x)) = drop_bit 8 ?x"
    by (rule crc_shifts_drop) (simp_all only: bit_rules bit_xor_iff, simp_all)
  also have "(crc_shift ^^ 8) (?x AND 0xFF) = generate_table ! unat (?x AND 0xFF)"
    by (simp add: crc_table_nth low_byte_less)
  finally show ?thesis by (simp only: crc_step_def high)
qed

lemma crc_serial_append: "crc_serial c (xs @ ys) = crc_serial (crc_serial c xs) ys"
  by (induction xs arbitrary: c) simp_all

lemma horner_high: "length bs \<le> n \<Longrightarrow> \<not> bit (horner_sum of_bool 2 bs :: u32) n"
  by (simp add: bit_horner_sum_bit_word_iff)

lemma crc_serial_horner:
  "length bs \<le> 32 \<Longrightarrow>
   crc_serial c bs = (crc_shift ^^ length bs) (c XOR horner_sum of_bool 2 bs)"
proof (induction bs arbitrary: c)
  case Nil
  then show ?case by simp
next
  case (Cons b bs)
  let ?h = "horner_sum of_bool 2 bs :: u32"
  have split: "horner_sum of_bool 2 (b # bs) = of_bool b XOR push_bit 1 ?h"
  proof (rule bit_word_eqI)
    fix n assume n: "n < LENGTH(32)"
    show "bit (horner_sum of_bool 2 (b # bs) :: u32) n = bit (of_bool b XOR push_bit 1 ?h) n"
      unfolding bit_xor_iff bit_rules bit_horner_sum_bit_word_iff bit_of_bool_iff
      using n by (cases n) auto
  qed
  have "crc_shift (push_bit 1 ?h) = ?h"
    using Cons.prems by (intro crc_shift_even horner_high) simp
  then have "crc_shift (c XOR horner_sum of_bool 2 (b # bs)) = crc_shift (c XOR of_bool b) XOR ?h"
    by (simp only: split xor.assoc [symmetric] crc_shift_xor)
  with Cons show ?case by (simp only: length_Cons funpow_Suc_right o_apply crc_serial.simps)
qed

lemma crc_serial_byte: "crc_serial c (byte_bits u) = (crc_shift ^^ 8) (c XOR ucast u)"
proof -
  have "horner_sum of_bool 2 (byte_bits u) = (ucast u :: u32)"
  proof (rule bit_word_eqI)
    fix n assume "n < LENGTH(32)"
    then show "bit (horner_sum of_bool 2 (byte_bits u) :: u32) n = bit (ucast u :: u32) n"
      by (cases "n < 8") (simp_all add: byte_bits_def bit_horner_sum_bit_word_iff bit_simps)
  qed
  then show ?thesis by (simp add: crc_serial_horner byte_bits_def)
qed

lemma crc_fold_serial:
  "foldl (crc_step generate_table) c buf = crc_serial c (concat (map byte_bits buf))"
  by (induction buf arbitrary: c)
    (simp_all add: crc_serial_append crc_serial_byte crc_step_table)

lemma crc_calc_serial: "crc_calc buf = NOT (crc_serial 0 (concat (map byte_bits buf)))"
proof -
  have ones: "(0xFFFFFFFF :: u32) = NOT 0" by simp
  show ?thesis
    unfolding crc_calc_def crc_update_def crc_initial_value_def crc_fold_serial
    by (simp add: ones del: bit.compl_zero)
qed

section \<open>What the register detects\<close>

lemma crc_serial_inj: "crc_serial a bs = crc_serial b bs \<longleftrightarrow> a = b"
  by (induction bs arbitrary: a b) (simp_all add: crc_shift_inj)

lemma crc_serial_window:
  assumes "length xs = 32" "length ys = 32"
  shows "crc_serial c xs = crc_serial c ys \<longleftrightarrow> xs = ys"
proof
  assume "crc_serial c xs = crc_serial c ys"
  then have h: "horner_sum of_bool 2 xs = (horner_sum of_bool 2 ys :: u32)"
    using assms by (simp add: crc_serial_horner crc_shifts_inj)
  have "xs ! n = ys ! n" if "n < 32" for n
    using arg_cong [OF h, of "\<lambda>w. bit w n"] that assms by (simp add: bit_horner_sum_bit_word_iff)
  with assms show "xs = ys" by (simp add: list_eq_iff_nth_eq)
qed simp

lemma byte_bits_inject: "byte_bits a = byte_bits b \<longleftrightarrow> a = b"
proof
  assume "byte_bits a = byte_bits b"
  then have "\<forall>n < 8. bit a n = bit b n" by (simp add: byte_bits_def)
  then show "a = b" by (intro bit_word_eqI) simp
qed simp

lemma concat_byte_bits_inject:
  "length xs = length ys \<Longrightarrow> concat (map byte_bits xs) = concat (map byte_bits ys) \<longleftrightarrow> xs = ys"
proof (induction xs ys rule: list_induct2)
  case (Cons x xs y ys)
  have "length (byte_bits x) = length (byte_bits y)" by (simp add: byte_bits_def)
  with Cons.IH show ?case by (simp add: byte_bits_inject)
qed simp

lemma length_concat_byte_bits: "length (concat (map byte_bits xs)) = 8 * length xs"
  by (induction xs) (simp_all add: byte_bits_def)

lemma crc_calc_burst:
  assumes "length a = 4" "length b = 4"
  shows "crc_calc (pre @ a @ post) = crc_calc (pre @ b @ post) \<longleftrightarrow> a = b"
  using assms
  by (simp add: crc_calc_serial crc_serial_append crc_serial_inj crc_serial_window
      length_concat_byte_bits concat_byte_bits_inject)

lemma crc_calc_Cons_0: "crc_calc (0 # buf) = crc_calc buf"
  by (simp add: crc_calc_serial crc_serial_append crc_serial_byte)

section \<open>Properties\<close>

text \<open>C20. for every buffer, the table-driven \<open>Crc32::calc\<close> (with the table its constructor
  generates) returns the complement of the bit-serial shift register with polynomial
  \<open>0xEDB88320\<close>, least significant bit first, started at 0.\<close>

theorem calc_is_serial_register:
  "crc_calc_chars v = NOT (crc_serial 0 (concat (map byte_bits v)))"
  by (simp add: crc_calc_chars_def crc_calc_serial)

text \<open>\<open>Crc32::calc\<close> detects every burst error of up to 32 bits: two buffers that agree
  outside a window of four consecutive bytes and differ inside it have different checksums,
  whatever surrounds the window.\<close>

lemma calc_detects_burst:
  assumes "length a = 4" and "length b = 4" and "a \<noteq> b"
  shows "crc_calc_chars (pre @ a @ post) \<noteq> crc_calc_chars (pre @ b @ post)"
  using assms by (simp add: crc_calc_chars_def crc_calc_burst)

theorem calc_detects_burst_witness:
  "crc_calc_chars ([7] @ [1, 2, 3, 4] @ [9]) \<noteq> crc_calc_chars ([7] @ [1, 2, 3, 5] @ [9])"
  by (rule calc_detects_burst) simp_all

text \<open>Because \<open>initial_value\<close> is complemented once more on entry, the register starts
  at 0, so a zero byte in front of a buffer does not change its checksum: a message and the same
  message with zero bytes prepended are indistinguishable to \<open>Crc32::calc\<close>.\<close>

lemma calc_blind_to_leading_zeros:
  "crc_calc_chars (replicate n 0 @ v) = crc_calc_chars v"
  by (induction n) (simp_all add: crc_calc_chars_def crc_calc_Cons_0)

end
