(* ===== verification/Std_Map.thy ===== *)
theory Std_Map
  imports Modem_Prelude "HOL-Library.Signed_Division"
begin

text \<open>
  \<open>std::map\<close> as the code uses it: the entries in increasing key order, which is the order
  its iterators visit. \<open>sm_insert\<close> is \<open>insert(make_pair(k, v))\<close>, which leaves an
  existing key alone; \<open>sm_assign\<close> is \<open>m[k] = v\<close>; \<open>sm_erase\<close> is
  \<open>erase(key)\<close>; \<open>sm_find\<close> is \<open>find\<close>. \<open>sm_ok\<close> is the ordering
  invariant, kept by every operation. The last section has the age of an entry of the maps that are
  keyed by \<open>steady_clock::now()\<close>; a time point is a number of nanoseconds.
\<close>

type_synonym ('k, 'v) std_map = "('k \<times> 'v) list"

definition sm_ok :: "('k::linorder, 'v) std_map \<Rightarrow> bool" where
  "sm_ok m \<longleftrightarrow> sorted_wrt (<) (map fst m)"

definition sm_find :: "'k \<Rightarrow> ('k, 'v) std_map \<Rightarrow> 'v option" where
  "sm_find k m = map_of m k"

fun sm_insert :: "'k::linorder \<Rightarrow> 'v \<Rightarrow> ('k, 'v) std_map \<Rightarrow> ('k, 'v) std_map" where
  "sm_insert k v [] = [(k, v)]"
| "sm_insert k v ((k', v') # m) =
     (if k < k' then (k, v) # (k', v') # m
      else if k = k' then (k', v') # m
      else (k', v') # sm_insert k v m)"

fun sm_assign :: "'k::linorder \<Rightarrow> 'v \<Rightarrow> ('k, 'v) std_map \<Rightarrow> ('k, 'v) std_map" where
  "sm_assign k v [] = [(k, v)]"
| "sm_assign k v ((k', v') # m) =
     (if k < k' then (k, v) # (k', v') # m
      else if k = k' then (k, v) # m
      else (k', v') # sm_assign k v m)"

definition sm_erase :: "'k \<Rightarrow> ('k, 'v) std_map \<Rightarrow> ('k, 'v) std_map" where
  "sm_erase k m = filter (\<lambda>e. fst e \<noteq> k) m"

named_theorems sm_rules "what std::map operations do to lookups and to the order"

lemma sm_ok_Nil [simp, sm_rules]: "sm_ok []"
  by (simp add: sm_ok_def)

lemma sm_ok_Cons: "sm_ok ((k, v) # m) \<longleftrightarrow> (\<forall>e \<in> set m. k < fst e) \<and> sm_ok m"
  by (auto simp: sm_ok_def)

lemma sm_ok_distinct: "sm_ok m \<Longrightarrow> distinct (map fst m)"
  by (simp add: sm_ok_def strict_sorted_iff)

lemma keys_sm_insert [simp]: "fst ` set (sm_insert k v m) = insert k (fst ` set m)"
  by (induction k v m rule: sm_insert.induct) auto

lemma keys_sm_assign [simp]: "fst ` set (sm_assign k v m) = insert k (fst ` set m)"
  by (induction k v m rule: sm_assign.induct) auto

lemma sm_ok_keys: "sm_ok ((k, v) # m) \<longleftrightarrow> (\<forall>k' \<in> fst ` set m. k < k') \<and> sm_ok m"
  by (simp add: sm_ok_Cons)

lemma sm_ok_insert [sm_rules]: "sm_ok m \<Longrightarrow> sm_ok (sm_insert k v m)"
proof (induction k v m rule: sm_insert.induct)
  case (1 k v)
  then show ?case by (simp add: sm_ok_keys)
next
  case (2 k v k' v' m)
  then show ?case by (auto simp: sm_ok_keys dest: less_trans)
qed

lemma sm_ok_assign [sm_rules]: "sm_ok m \<Longrightarrow> sm_ok (sm_assign k v m)"
proof (induction k v m rule: sm_assign.induct)
  case (1 k v)
  then show ?case by (simp add: sm_ok_keys)
next
  case (2 k v k' v' m)
  then show ?case by (auto simp: sm_ok_keys dest: less_trans)
qed

lemma sm_ok_filter [sm_rules]: "sm_ok m \<Longrightarrow> sm_ok (filter P m)"
  by (induction m) (auto simp: sm_ok_def)

lemma sm_ok_erase [sm_rules]: "sm_ok m \<Longrightarrow> sm_ok (sm_erase k m)"
  by (simp add: sm_erase_def sm_ok_filter)

lemma sm_find_Nil [simp]: "sm_find k [] = None"
  by (simp add: sm_find_def)

lemma sm_find_None_less: "(\<forall>e \<in> set m. k < fst e) \<Longrightarrow> sm_find k m = None"
  for m :: "('k::linorder, 'v) std_map"
  by (auto simp: sm_find_def map_of_eq_None_iff dest!: bspec)

lemma sm_find_insert [sm_rules]:
  "sm_ok m \<Longrightarrow> sm_find j (sm_insert k v m) =
    (if j = k \<and> sm_find k m = None then Some v else sm_find j m)"
proof (induction k v m rule: sm_insert.induct)
  case (1 k v)
  then show ?case by (simp add: sm_find_def)
next
  case (2 k v k' v' m)
  show ?case
  proof (cases "k < k'")
    case True
    with 2 have "sm_find k m = None"
      by (intro sm_find_None_less) (auto simp: sm_ok_Cons dest: less_trans)
    with True show ?thesis by (auto simp: sm_find_def)
  next
    case False
    with 2 show ?thesis by (auto simp: sm_find_def sm_ok_Cons)
  qed
qed

lemma sm_find_assign [sm_rules]:
  "sm_ok m \<Longrightarrow> sm_find j (sm_assign k v m) = (if j = k then Some v else sm_find j m)"
  by (induction k v m rule: sm_assign.induct) (auto simp: sm_find_def sm_ok_Cons)

lemma sm_find_erase [sm_rules]: "sm_find j (sm_erase k m) = (if j = k then None else sm_find j m)"
  by (induction m) (auto simp: sm_find_def sm_erase_def)

lemma sm_find_in: "sm_find k m = Some v \<Longrightarrow> (k, v) \<in> set m"
  by (simp add: sm_find_def map_of_SomeD)

lemma sm_find_mem: "sm_ok m \<Longrightarrow> sm_find k m = Some v \<longleftrightarrow> (k, v) \<in> set m"
  by (simp add: sm_find_def sm_ok_distinct)

lemma sm_find_None: "sm_find k m = None \<longleftrightarrow> k \<notin> fst ` set m"
  by (simp add: sm_find_def map_of_eq_None_iff)

lemma sm_insert_existing: "sm_ok m \<Longrightarrow> sm_find k m = Some u \<Longrightarrow> sm_insert k v m = m"
proof (induction k v m rule: sm_insert.induct)
  case (1 k v)
  then show ?case by simp
next
  case (2 k v k' v' m)
  have "\<not> k < k'"
  proof
    assume lt: "k < k'"
    then have "sm_find k ((k', v') # m) = None"
      using "2.prems"(1) by (intro sm_find_None_less) (auto simp: sm_ok_Cons)
    with "2.prems"(2) show False by simp
  qed
  with 2 show ?case by (auto simp: sm_find_def sm_ok_Cons)
qed

lemma set_sm_insert [sm_rules]:
  "sm_ok m \<Longrightarrow> sm_find k m = None \<Longrightarrow> set (sm_insert k v m) = insert (k, v) (set m)"
  by (induction k v m rule: sm_insert.induct) (auto simp: sm_find_def sm_ok_Cons split: if_splits)

lemma length_sm_insert [sm_rules]:
  "sm_ok m \<Longrightarrow> length (sm_insert k v m) = (if sm_find k m = None then Suc (length m) else length m)"
proof (induction k v m rule: sm_insert.induct)
  case (2 k v k' v' m)
  show ?case
  proof (cases "k < k'")
    case True
    with "2.prems" have "sm_find k ((k', v') # m) = None"
      by (intro sm_find_None_less) (auto simp: sm_ok_Cons)
    with True show ?thesis by simp
  next
    case False
    with 2 show ?thesis by (auto simp: sm_find_def sm_ok_Cons)
  qed
qed simp

lemma sm_insert_last [sm_rules]: "(\<forall>e \<in> set m. fst e < k) \<Longrightarrow> sm_insert k v m = m @ [(k, v)]"
  by (induction k v m rule: sm_insert.induct) auto

section \<open>Maps keyed by the clock\<close>

type_synonym time_point = int

text \<open>The microseconds between two readings of the steady clock, as \<open>count()\<close> gives them.\<close>

definition us_between :: "time_point \<Rightarrow> time_point \<Rightarrow> int" where
  "us_between now t = (now - t) sdiv 1000"

lemma us_between_forward: "t \<le> now \<Longrightarrow> us_between now t = (now - t) div 1000"
  by (cases "t = now") (simp_all add: us_between_def signed_divide_int_def)

text \<open>
  \<open>unsigned age = duration_cast<microseconds>(now - then).count()\<close>: truncated to whole
  microseconds and then to 32 bits.
\<close>

definition age_us :: "time_point \<Rightarrow> time_point \<Rightarrow> u32" where
  "age_us now t = word_of_int ((if t \<le> now then (now - t) div 1000 else - ((t - now) div 1000)))"

lemma unat_age_us:
  "t \<le> now \<Longrightarrow> now - t < 2 ^ 32 * 1000 \<Longrightarrow> unat (age_us now t) = nat ((now - t) div 1000)"
proof -
  assume t: "t \<le> now" "now - t < 2 ^ 32 * 1000"
  have "0 \<le> (now - t) div 1000" "(now - t) div 1000 < 2 ^ 32" using t by simp_all
  then have "uint (age_us now t) = (now - t) div 1000"
    using t(1) by (simp add: age_us_def uint_word_of_int take_bit_eq_mod)
  then show ?thesis by (metis nat_uint_eq)
qed

text \<open>The age wraps after 4294.967296 seconds: an entry that old is young again.\<close>

lemma age_us_wraps: "age_us (t + 2 ^ 32 * 1000) t = 0"
  by (simp add: age_us_def)

end
