(* ===== verification/Interfaces.thy ===== *)
theory Interfaces
  imports Modem_Prelude
begin

text \<open>
  The contracts between components, one locale each. They fix the operations a client calls and
  assume only what the provider promises; each is interpreted on the model's own definitions in
  the theory of the component that provides it.

  \<^item> \<open>codec\<close>: an encoder and a decoder that inverts it on well-formed input. Providers:
    the MAC header, the air header, the packet framing of the joint-transmit message, the
    interleaver, the generic ringbus operator. \<open>codec_chain\<close> composes two of them.
  \<^item> \<open>word_permutation\<close>: the index transforms that undo the receive-side mover; each
    reverses the words of every OFDM frame.
  \<^item> \<open>packet_source\<close>: the three callbacks of a packet queue that the transmit paths
    pull from (how many packets, length of the next one, take the next one).
\<close>

section \<open>Encoders with a decoder\<close>

locale codec =
  fixes ok :: "'a \<Rightarrow> bool"
    and enc :: "'a \<Rightarrow> 'b"
    and dec :: "'b \<Rightarrow> 'a option"
  assumes dec_enc: "ok x \<Longrightarrow> dec (enc x) = Some x"
begin

lemma enc_inject: "ok x \<Longrightarrow> ok y \<Longrightarrow> enc x = enc y \<longleftrightarrow> x = y"
  by (metis dec_enc option.inject)

lemma inj_on_enc: "inj_on enc (Collect ok)"
  by (rule inj_onI) (simp add: enc_inject)

lemma dec_enc_list: "list_all ok xs \<Longrightarrow> those (map (dec \<circ> enc) xs) = Some xs"
  by (induction xs) (simp_all add: dec_enc)

end

locale codec_chain =
  outer: codec ok1 enc1 dec1 + inner: codec ok2 enc2 dec2
  for ok1 :: "'a \<Rightarrow> bool" and enc1 :: "'a \<Rightarrow> 'b" and dec1 :: "'b \<Rightarrow> 'a option"
    and ok2 :: "'b \<Rightarrow> bool" and enc2 :: "'b \<Rightarrow> 'c" and dec2 :: "'c \<Rightarrow> 'b option" +
  assumes ok_enc: "ok1 x \<Longrightarrow> ok2 (enc1 x)"

sublocale codec_chain \<subseteq> chain: codec ok1 "\<lambda>x. enc2 (enc1 x)" "\<lambda>y. Option.bind (dec2 y) dec1"
  by unfold_locales (simp add: inner.dec_enc outer.dec_enc ok_enc)

section \<open>Index transforms that reverse each frame\<close>

locale word_permutation =
  fixes width :: nat
    and t :: "u32 \<Rightarrow> u32"
  assumes width_pos: "0 < width"
    and t_reverses: "unat i div width * width + width \<le> 2 ^ 32 \<Longrightarrow>
      unat (t i) = unat i div width * width + (width - 1 - unat i mod width)"
begin

abbreviation in_frame :: "u32 \<Rightarrow> bool" where
  "in_frame i \<equiv> unat i div width * width + width \<le> 2 ^ 32"

lemma t_same_frame: "in_frame i \<Longrightarrow> unat (t i) div width = unat i div width"
  using width_pos by (simp add: t_reverses)

lemma t_in_frame: "in_frame i \<Longrightarrow> in_frame (t i)"
  by (simp add: t_same_frame)

lemma t_offset: "in_frame i \<Longrightarrow> unat (t i) mod width = width - 1 - unat i mod width"
  using width_pos by (simp add: t_reverses)

lemma t_involution: "in_frame i \<Longrightarrow> t (t i) = i"
proof -
  assume i: "in_frame i"
  have "unat i mod width < width" using width_pos by simp
  then have "unat (t (t i)) = unat i div width * width + unat i mod width"
    using i by (simp add: t_reverses [OF t_in_frame [OF i]] t_same_frame t_offset)
  then show ?thesis by (intro unsigned_word_eqI [where 'a = nat]) simp
qed

lemma t_inject: "in_frame i \<Longrightarrow> in_frame j \<Longrightarrow> t i = t j \<longleftrightarrow> i = j"
  by (metis t_involution)

end

section \<open>Packet queues\<close>

text \<open>
  A transmit path pulls packets through three callbacks; \<open>contents\<close> are the packets they
  hand out, in order. \<open>get\<close> is \<open>None\<close> where the code would read a vector out of range.
\<close>

locale packet_source =
  fixes ok :: "'s \<Rightarrow> bool"
    and ready :: "'s \<Rightarrow> nat"
    and first_len :: "'s \<Rightarrow> nat"
    and get :: "'s \<Rightarrow> (u32 list \<times> 's) option"
    and contents :: "'s \<Rightarrow> u32 list list"
  assumes ready_contents: "ok s \<Longrightarrow> ready s = length (contents s)"
    and first_len_contents: "ok s \<Longrightarrow> contents s = p # ps \<Longrightarrow> first_len s = length p"
    and get_contents: "ok s \<Longrightarrow> contents s = p # ps \<Longrightarrow> \<exists>s'. get s = Some (p, s') \<and> ok s' \<and> contents s' = ps"
begin

lemma ready_0: "ok s \<Longrightarrow> ready s = 0 \<longleftrightarrow> contents s = []"
  by (simp add: ready_contents)

lemma get_ready: "ok s \<Longrightarrow> 0 < ready s \<Longrightarrow>
    \<exists>p s'. get s = Some (p, s') \<and> ok s' \<and> length p = first_len s \<and> contents s = p # contents s'"
  using get_contents [of s] first_len_contents [of s]
  by (cases "contents s") (auto simp: ready_contents)

end

end
