(* ===== verification/Mac_Header.thy ===== *)
theory Mac_Header
  imports Crc32 Std_Map Interfaces
begin

text \<open>
  \<open>soapy/src/driver/MacHeader.cpp\<close> and \<open>MacHeader.hpp\<close>: the 64-bit header of the
  duplex mode (20-bit length, 16-bit sequence number, 8-bit source, 8-bit flags, 12 bits of
  checksum) and the majority vote over its repeated copies. The object's only mutable state is the
  two-word scratch vector \<open>header\<close> that the checksum is computed over.
  An out-of-range read of the argument vector is undefined in C++ and the value
  \<open>None\<close> here.
\<close>

section \<open>The code\<close>

record mac_header =
  header :: "u32 list"

definition mac_header_new :: mac_header where
  "mac_header_new = \<lparr>header = [0, 0]\<rparr>"

abbreviation PARAM_LENGTH_BIT_MAP :: u32 where "PARAM_LENGTH_BIT_MAP \<equiv> 0xFFFFF000"
abbreviation PARAM_SEQ_NUM_BIT_MAP :: u32 where "PARAM_SEQ_NUM_BIT_MAP \<equiv> 0x00000FFF"
abbreviation PARAM_FROM_BIT_MAP :: u32 where "PARAM_FROM_BIT_MAP \<equiv> 0x0FF00000"
abbreviation PARAM_FLAGS_BIT_MAP :: u32 where "PARAM_FLAGS_BIT_MAP \<equiv> 0x000FF000"
abbreviation PARAM_CHECKSUM_BIT_MAP :: u32 where "PARAM_CHECKSUM_BIT_MAP \<equiv> 0x00000FFF"

definition mac_create_header ::
    "mac_header \<Rightarrow> u32 \<Rightarrow> u16 \<Rightarrow> u8 \<Rightarrow> u8 \<Rightarrow> mac_header \<times> u32 \<times> u32" where
  "mac_create_header m length0 seq_num from_id flags =
     (let len = push_bit 12 length0;
          upper_header = (len AND PARAM_LENGTH_BIT_MAP) OR ucast (drop_bit 4 seq_num);
          lower_header = push_bit 28 (ucast seq_num) OR push_bit 20 (ucast from_id)
            OR push_bit 12 (ucast flags);
          m' = m\<lparr>header := (header m)[0 := upper_header, 1 := lower_header]\<rparr>;
          checksum = crc_calc_words (header m')
      in (m', upper_header, lower_header OR (checksum AND PARAM_CHECKSUM_BIT_MAP)))"

definition mac_valid_checksum :: "mac_header \<Rightarrow> u32 \<Rightarrow> u32 \<Rightarrow> mac_header \<times> bool" where
  "mac_valid_checksum m upper_header lower_header =
     (let m' = m\<lparr>header := (header m)[0 := upper_header,
                 1 := lower_header AND NOT PARAM_CHECKSUM_BIT_MAP]\<rparr>;
          checksum = crc_calc_words (header m')
      in if checksum AND PARAM_CHECKSUM_BIT_MAP \<noteq> lower_header AND PARAM_CHECKSUM_BIT_MAP
         then (m', False) else (m', True))"

definition mac_valid_checksum_64 :: "mac_header \<Rightarrow> u64 \<Rightarrow> mac_header \<times> bool" where
  "mac_valid_checksum_64 m header_64 =
     (let upper_header = ucast (drop_bit 32 header_64); lower_header = ucast header_64
      in mac_valid_checksum m upper_header lower_header)"

definition mac_unpack_header ::
    "mac_header \<Rightarrow> u32 \<Rightarrow> u32 \<Rightarrow> mac_header \<times> bool \<times> u32 \<times> u16 \<times> u8 \<times> u8" where
  "mac_unpack_header m upper_header lower_header =
     (let len = drop_bit 12 (upper_header AND PARAM_LENGTH_BIT_MAP);
          seq_num = ucast (push_bit 4 (upper_header AND PARAM_SEQ_NUM_BIT_MAP)
            OR drop_bit 28 lower_header);
          from_id = ucast (drop_bit 20 (lower_header AND PARAM_FROM_BIT_MAP));
          flags = ucast (drop_bit 12 (lower_header AND PARAM_FLAGS_BIT_MAP));
          (m', valid) = mac_valid_checksum m upper_header lower_header
      in (m', valid, len, seq_num, from_id, flags))"

definition header_64_of :: "u32 \<Rightarrow> u32 \<Rightarrow> u64" where
  "header_64_of upper lower = push_bit 32 (ucast upper) OR ucast lower"

text \<open>The loop body of \<open>vote_header\<close> on the pairs of words still to visit; a last word
  without a partner is read past the end of the vector.\<close>

fun mac_vote_loop :: "u32 \<Rightarrow> (u64, u32) std_map \<Rightarrow> u32 list \<Rightarrow> (bool \<times> u64) option" where
  "mac_vote_loop min_vote header_count [] = Some (False, 0)"
| "mac_vote_loop min_vote header_count [w] = None"
| "mac_vote_loop min_vote header_count (w0 # w1 # ws) =
     (let header_64 = header_64_of w0 w1;
          n = (case sm_find header_64 header_count of Some c \<Rightarrow> c + 1 | None \<Rightarrow> 1);
          header_count' = sm_assign header_64 n header_count
      in if min_vote \<le> n then Some (True, header_64)
         else mac_vote_loop min_vote header_count' ws)"

definition mac_vote_header :: "u32 list \<Rightarrow> (bool \<times> u64) option" where
  "mac_vote_header header_array =
     (let min_vote = of_nat (length header_array div 2) - 2
      in mac_vote_loop min_vote [] header_array)"

definition mac_convert_air_header :: "u32 \<Rightarrow> u8 \<Rightarrow> u8 \<Rightarrow> u32 \<times> u8 \<times> u8" where
  "mac_convert_air_header len seq_num flags = (len, seq_num, flags)"

section \<open>Header words\<close>

lemma mac_masks [bit_rules]:
  "bit PARAM_LENGTH_BIT_MAP n \<longleftrightarrow> 12 \<le> n \<and> n < 32"
  "bit PARAM_SEQ_NUM_BIT_MAP n \<longleftrightarrow> n < 12"
  "bit PARAM_FROM_BIT_MAP n \<longleftrightarrow> 20 \<le> n \<and> n < 28"
  "bit PARAM_FLAGS_BIT_MAP n \<longleftrightarrow> 12 \<le> n \<and> n < 20"
proof -
  have *: "PARAM_LENGTH_BIT_MAP = push_bit 12 (mask 20)" "PARAM_SEQ_NUM_BIT_MAP = mask 12"
    "PARAM_FROM_BIT_MAP = push_bit 20 (mask 8)" "PARAM_FLAGS_BIT_MAP = push_bit 12 (mask 8)"
    by (simp_all add: mask_eq_exp_minus_1 push_bit_eq_mult)
  show "bit PARAM_LENGTH_BIT_MAP n \<longleftrightarrow> 12 \<le> n \<and> n < 32"
    "bit PARAM_SEQ_NUM_BIT_MAP n \<longleftrightarrow> n < 12"
    "bit PARAM_FROM_BIT_MAP n \<longleftrightarrow> 20 \<le> n \<and> n < 28"
    "bit PARAM_FLAGS_BIT_MAP n \<longleftrightarrow> 12 \<le> n \<and> n < 20"
    unfolding * bit_push_word by (auto simp: bit_mask_iff)
qed

lemma ucast_ucast_mask_u16: "ucast (ucast (w :: u16) :: u32) = w"
  by (rule bit_word_eqI) (auto simp: bit_simps)

lemma mac_fields:
  fixes len :: u32 and seq :: u16 and from_id flags :: u8 and cs :: u32
  defines "up \<equiv> (push_bit 12 len AND PARAM_LENGTH_BIT_MAP) OR ucast (drop_bit 4 seq)"
    and "lo \<equiv> push_bit 28 (ucast seq) OR push_bit 20 (ucast from_id) OR push_bit 12 (ucast flags)"
  shows "drop_bit 12 (up AND PARAM_LENGTH_BIT_MAP) = take_bit 20 len"
    and "ucast (push_bit 4 (up AND PARAM_SEQ_NUM_BIT_MAP)
          OR drop_bit 28 (lo OR (cs AND PARAM_CHECKSUM_BIT_MAP))) = seq"
    and "ucast (drop_bit 20 ((lo OR (cs AND PARAM_CHECKSUM_BIT_MAP)) AND PARAM_FROM_BIT_MAP)) = from_id"
    and "ucast (drop_bit 12 ((lo OR (cs AND PARAM_CHECKSUM_BIT_MAP)) AND PARAM_FLAGS_BIT_MAP)) = flags"
    and "(lo OR (cs AND PARAM_CHECKSUM_BIT_MAP)) AND NOT PARAM_CHECKSUM_BIT_MAP = lo"
    and "(lo OR (cs AND PARAM_CHECKSUM_BIT_MAP)) AND PARAM_CHECKSUM_BIT_MAP = cs AND PARAM_CHECKSUM_BIT_MAP"
proof -
  show "drop_bit 12 (up AND PARAM_LENGTH_BIT_MAP) = take_bit 20 len"
    by (rule bit_word_eqI, unfold up_def bit_rules) (auto simp: bit_take_bit_iff)
  show "ucast (push_bit 4 (up AND PARAM_SEQ_NUM_BIT_MAP)
          OR drop_bit 28 (lo OR (cs AND PARAM_CHECKSUM_BIT_MAP))) = seq"
    by (rule bit_word_eqI, unfold up_def lo_def bit_rules) (auto simp: not_le)
  show "ucast (drop_bit 20 ((lo OR (cs AND PARAM_CHECKSUM_BIT_MAP)) AND PARAM_FROM_BIT_MAP)) = from_id"
    by (rule bit_word_eqI, unfold lo_def bit_rules) auto
  show "ucast (drop_bit 12 ((lo OR (cs AND PARAM_CHECKSUM_BIT_MAP)) AND PARAM_FLAGS_BIT_MAP)) = flags"
    by (rule bit_word_eqI, unfold lo_def bit_rules) auto
  show "(lo OR (cs AND PARAM_CHECKSUM_BIT_MAP)) AND NOT PARAM_CHECKSUM_BIT_MAP = lo"
    by (rule bit_word_eqI, unfold lo_def bit_rules) auto
  show "(lo OR (cs AND PARAM_CHECKSUM_BIT_MAP)) AND PARAM_CHECKSUM_BIT_MAP = cs AND PARAM_CHECKSUM_BIT_MAP"
    by (rule bit_word_eqI, unfold lo_def bit_rules) auto
qed

lemma mac_crc_header:
  "length (header m) = 2 \<Longrightarrow> (header m)[0 := a, 1 := b] = [a, b]"
  by (auto simp: length_Suc_conv numeral_2_eq_2)

lemma header_update: "header (m\<lparr>header := x\<rparr>) = x"
  by simp

lemma take_bit_word_small: "unat w < 2 ^ n \<Longrightarrow> take_bit n w = w" for w :: u32
  by (rule bit_word_eqI) (auto simp: bit_take_bit_iff not_bit_high not_le [symmetric])

text \<open>What the two ends of the air interface do with the words.\<close>

type_synonym mac_fields = "u32 \<times> u16 \<times> u8 \<times> u8"

definition mac_encode :: "mac_header \<Rightarrow> mac_fields \<Rightarrow> u32 \<times> u32" where
  "mac_encode m f = (case f of (len, seq_num, from_id, flags) \<Rightarrow>
     snd (mac_create_header m len seq_num from_id flags))"

definition mac_decode :: "mac_header \<Rightarrow> u32 \<times> u32 \<Rightarrow> mac_fields option" where
  "mac_decode m w = (case mac_unpack_header m (fst w) (snd w) of
     (m', valid, f) \<Rightarrow> if valid then Some f else None)"

definition mac_fields_ok :: "mac_fields \<Rightarrow> bool" where
  "mac_fields_ok f \<longleftrightarrow> unat (fst f) < 2 ^ 20"

lemma mac_create_unpack:
  assumes "length (header m) = 2" "length (header m2) = 2"
    and "mac_create_header m len seq_num from_id flags = (m', up, lo)"
  shows "\<exists>m3. mac_unpack_header m2 up lo = (m3, True, take_bit 20 len, seq_num, from_id, flags)"
proof -
  let ?up = "(push_bit 12 len AND PARAM_LENGTH_BIT_MAP) OR ucast (drop_bit 4 seq_num)"
  let ?lo = "push_bit 28 (ucast seq_num) OR push_bit 20 (ucast from_id)
      OR push_bit 12 (ucast flags) :: u32"
  let ?cs = "crc_calc_words [?up, ?lo]"
  note f = mac_fields
  have up: "up = ?up" and lo: "lo = ?lo OR (?cs AND PARAM_CHECKSUM_BIT_MAP)"
    using assms(3)
    unfolding mac_create_header_def Let_def header_update mac_crc_header [OF assms(1)] prod.inject
    by - (elim conjE, rule sym, assumption)+
  have words: "(header m2)[0 := up, 1 := lo AND NOT PARAM_CHECKSUM_BIT_MAP] = [?up, ?lo]"
    unfolding up lo f(5) by (rule mac_crc_header [OF assms(2)])
  have check: "mac_valid_checksum m2 up lo = (m2\<lparr>header := [?up, ?lo]\<rparr>, True)"
    unfolding mac_valid_checksum_def Let_def words header_update unfolding lo f(6) by simp
  show ?thesis
    unfolding mac_unpack_header_def Let_def check unfolding up lo f(1,2,3,4) by simp
qed

interpretation mac: codec mac_fields_ok "mac_encode mac_header_new" "mac_decode mac_header_new"
proof unfold_locales
  fix x :: mac_fields
  assume ok: "mac_fields_ok x"
  obtain len seq_num from_id flags where x: "x = (len, seq_num, from_id, flags)"
    by (cases x)
  obtain m' up lo where c: "mac_create_header mac_header_new len seq_num from_id flags = (m', up, lo)"
    by (cases "mac_create_header mac_header_new len seq_num from_id flags")
  with ok x obtain m3 where
    "mac_unpack_header mac_header_new up lo = (m3, True, len, seq_num, from_id, flags)"
    using mac_create_unpack [of mac_header_new mac_header_new len]
    by (force simp: mac_fields_ok_def mac_header_new_def take_bit_word_small)
  with c x show "mac_decode mac_header_new (mac_encode mac_header_new x) = Some x"
    by (simp add: mac_encode_def mac_decode_def)
qed

section \<open>The vote\<close>

fun header_pairs :: "u32 list \<Rightarrow> u64 list" where
  "header_pairs (w0 # w1 # ws) = header_64_of w0 w1 # header_pairs ws"
| "header_pairs _ = []"

text \<open>The vote on numbers: the first header that reaches \<open>k\<close> votes.\<close>

fun first_to :: "nat \<Rightarrow> 'a list \<Rightarrow> 'a list \<Rightarrow> 'a option" where
  "first_to k seen [] = None"
| "first_to k seen (h # hs) =
     (if k \<le> Suc (count_list seen h) then Some h else first_to k (h # seen) hs)"

lemma length_header_pairs [simp]: "length (header_pairs ws) = length ws div 2"
  by (induction ws rule: header_pairs.induct) simp_all

lemma first_to_votes: "first_to k seen hs = Some h \<Longrightarrow> k \<le> count_list seen h + count_list hs h"
  by (induction hs arbitrary: seen) (fastforce split: if_splits)+

lemma first_to_None:
  "first_to k seen hs = None \<Longrightarrow> h \<in> set hs \<Longrightarrow> count_list seen h + count_list hs h < k"
proof (induction hs arbitrary: seen)
  case Nil
  then show ?case by simp
next
  case (Cons x hs)
  then have lt: "Suc (count_list seen x) < k" and rest: "first_to k (x # seen) hs = None"
    by (simp_all split: if_splits)
  show ?case
  proof (cases "h \<in> set hs")
    case True
    with Cons.IH [OF rest] show ?thesis by auto
  next
    case False
    with Cons.prems(2) lt show ?thesis by (auto simp: count_notin)
  qed
qed

definition vote_counts :: "u64 list \<Rightarrow> (u64, u32) std_map \<Rightarrow> bool" where
  "vote_counts seen m \<longleftrightarrow> sm_ok m \<and>
     (\<forall>h. sm_find h m = (if h \<in> set seen then Some (of_nat (count_list seen h)) else None))"

lemma mac_vote_loop_first_to:
  assumes "even (length ws)" "length seen + length (header_pairs ws) < 2 ^ 32" "vote_counts seen m"
  shows "mac_vote_loop mv m ws =
    Some (case first_to (unat mv) seen (header_pairs ws) of Some h \<Rightarrow> (True, h) | None \<Rightarrow> (False, 0))"
  using assms
proof (induction mv m ws arbitrary: seen rule: mac_vote_loop.induct)
  case (3 mv m w0 w1 ws)
  let ?h = "header_64_of w0 w1"
  let ?n = "case sm_find ?h m of Some c \<Rightarrow> c + 1 | None \<Rightarrow> 1"
  have "count_list seen ?h \<le> length seen" by (rule count_le_length)
  with "3.prems"(2) have small: "Suc (count_list seen ?h) < 2 ^ 32" by simp
  have n: "?n = of_nat (Suc (count_list seen ?h))"
    using "3.prems"(3) by (auto simp: vote_counts_def count_notin)
  with small have le: "mv \<le> ?n \<longleftrightarrow> unat mv \<le> Suc (count_list seen ?h)"
    by (simp only: word_le_nat_alt n) (simp add: unat_of_nat del: of_nat_Suc)
  have counts: "vote_counts (?h # seen) (sm_assign ?h ?n m)"
    using "3.prems"(3) n by (auto simp: vote_counts_def sm_rules)
  show ?case
    using "3.IH" [OF refl refl refl, of "?h # seen"] le counts "3.prems"
    by (auto simp: Let_def)
qed simp_all

lemma count_list_two: "x \<noteq> y \<Longrightarrow> count_list xs x + count_list xs y \<le> length xs"
  by (induction xs) auto

lemma mac_vote_first_to:
  assumes "even (length ws)" "length ws < 2 ^ 32" "4 \<le> length ws"
  shows "mac_vote_header ws = Some (case first_to (length ws div 2 - 2) [] (header_pairs ws) of
    Some h \<Rightarrow> (True, h) | None \<Rightarrow> (False, 0))"
proof -
  have "of_nat (length ws div 2) - 2 = (of_nat (length ws div 2 - 2) :: u32)"
    using assms(3) by (simp add: of_nat_diff)
  then have "unat (of_nat (length ws div 2) - 2 :: u32) = length ws div 2 - 2"
    using assms(2) by simp
  then show ?thesis
    using mac_vote_loop_first_to [of ws "[]" "[]"] assms
    by (simp add: mac_vote_header_def vote_counts_def)
qed

lemma first_to_majority:
  assumes "length hs < 2 * k"
  shows "first_to k [] hs = Some h \<longleftrightarrow> k \<le> count_list hs h"
proof
  assume enough: "k \<le> count_list hs h"
  with assms have mem: "h \<in> set hs"
    by (metis count_notin less_zeroE mult_0_right not_less_zero le_zero_eq)
  show "first_to k [] hs = Some h"
  proof (cases "first_to k [] hs")
    case None
    from first_to_None [OF this mem] enough show ?thesis by simp
  next
    case (Some h')
    from first_to_votes [OF this] enough assms count_list_two [of h h' hs]
    show ?thesis using Some by (cases "h = h'") auto
  qed
qed (auto dest: first_to_votes)

section \<open>What the code promises\<close>

text \<open>
  Whatever \<open>create_header\<close> puts on the air, \<open>unpack_header\<close> of any receiver
  reports as valid with the same sequence number, source and flags and with the length modulo
  \<open>2 ^ 20\<close>: the length field is 20 bits wide and a longer length is cut without an error.
\<close>
lemma mac_header_roundtrip:
  assumes "length (header m) = 2" "length (header m2) = 2"
  shows "\<exists>up lo m' m3. mac_create_header m len seq_num from_id flags = (m', up, lo) \<and>
    mac_unpack_header m2 up lo = (m3, True, take_bit 20 len, seq_num, from_id, flags)"
  using mac_create_unpack [OF assms] by (metis prod_cases3)

theorem mac_header_roundtrip_witness:
  "\<exists>up lo m' m3. mac_create_header mac_header_new 0x100123 0xBEEF 7 0x81 = (m', up, lo) \<and>
    mac_unpack_header mac_header_new up lo = (m3, True, 0x123, 0xBEEF, 7, 0x81)"
  using mac_header_roundtrip [of mac_header_new mac_header_new "0x100123" "0xBEEF" 7 "0x81"]
  by (simp add: mac_header_new_def)

text \<open>
  C19. The vote over the repeated copies of a header is a majority decision once there are five
  copies or more: it accepts \<open>h\<close> exactly when at most two of the copies differ from it, so
  the accepted header is unique and independent of the order of the copies, and otherwise it
  answers false with header 0.
\<close>
theorem vote_header_majority:
  assumes "even (length ws)" "length ws < 2 ^ 32" "10 \<le> length ws"
  shows "(mac_vote_header ws = Some (True, h) \<longleftrightarrow>
      length ws div 2 - 2 \<le> count_list (header_pairs ws) h) \<and>
    ((\<forall>h. count_list (header_pairs ws) h < length ws div 2 - 2) \<longleftrightarrow>
      mac_vote_header ws = Some (False, 0))"
proof -
  let ?k = "length ws div 2 - 2"
  have k: "length (header_pairs ws) < 2 * ?k" using assms(3) by simp
  have v: "mac_vote_header ws = Some (case first_to ?k [] (header_pairs ws) of
    Some h \<Rightarrow> (True, h) | None \<Rightarrow> (False, 0))"
    using assms by (intro mac_vote_first_to) auto
  have "mac_vote_header ws = Some (True, h) \<longleftrightarrow> ?k \<le> count_list (header_pairs ws) h"
    unfolding v first_to_majority [OF k, symmetric] by (auto split: option.splits)
  moreover have "(\<forall>h. count_list (header_pairs ws) h < ?k) \<longleftrightarrow> mac_vote_header ws = Some (False, 0)"
    unfolding v not_le [symmetric] first_to_majority [OF k, symmetric] by (auto split: option.splits)
  ultimately show ?thesis ..
qed

theorem vote_header_majority_witness:
  "mac_vote_header [9, 9, 1, 2, 1, 2, 7, 7, 1, 2] = Some (True, header_64_of 1 2)"
  using vote_header_majority [of "[9, 9, 1, 2, 1, 2, 7, 7, 1, 2]" "header_64_of 1 2"]
  by (simp add: header_64_of_def)

text \<open>
  With two copies, which is what a QPSK frame of 64 subcarriers carries, the threshold
  \<open>size / 2 - 2\<close> is zero: the first copy is accepted whatever the second one says. With
  one copy the subtraction wraps around and no header is ever accepted.
\<close>
lemma vote_header_few_copies:
  "mac_vote_header [a, b, c, d] = Some (True, header_64_of a b) \<and>
   mac_vote_header [a, b] = Some (False, 0)"
proof -
  have "\<not> (- 1 :: u32) \<le> 1"
    by (simp add: word_le_nat_alt unsigned_minus_1_eq_mask mask_eq_exp_minus_1)
  then show ?thesis by (simp add: mac_vote_header_def Let_def)
qed

end
