(* ===== verification/Packet_Words.thy ===== *)
theory Packet_Words
  imports Crc32
begin

text \<open>
  \<open>soapy/src/common/convert.cpp\<close>, the part that carries IP packets in 32-bit words, and the
  packet hash of \<open>soapy/src/driver/VerifyHash.cpp\<close>. A packet travels as its bytes in
  little-endian words; its length is read back from the IPv4 total-length field, or, in hash mode,
  from the low 12 bits of a hash word sent in front of it.

  \<^item> \<open>charVectorPacketToWordVector\<close> reads up to three bytes past the end of a buffer
    whose size is not a multiple of four; they are the argument \<open>slack\<close>, and no result
    below depends on it.
  \<^item> \<open>packetLoadCharsFromWords\<close> writes whole words into a buffer of \<open>bufferSize\<close>
    bytes: the writes past its end are lost in the model.
  \<^item> The pair of a result and the reference argument \<open>erase\<close> is returned as a pair.
\<close>

section \<open>The code\<close>

definition packetSizeFromWord :: "u32 \<Rightarrow> u32" where
  "packetSizeFromWord data =
     (if data = 0 then 0 else (drop_bit 8 data AND 0xFF00) OR (drop_bit 24 data AND 0xFF))"

definition packetSizeFromWordHash :: "u32 \<Rightarrow> u32" where
  "packetSizeFromWordHash data = (if data = 0 then 0 else data AND 0xFFF)"

definition store_word :: "u32 list \<Rightarrow> nat \<Rightarrow> u8 list \<Rightarrow> u8 list" where
  "store_word din i buffer = (let w = din ! i in
     buffer[4 * i := ucast w, 4 * i + 1 := ucast (drop_bit 8 w),
            4 * i + 2 := ucast (drop_bit 16 w), 4 * i + 3 := ucast (drop_bit 24 w)])"

definition packetLoadCharsFromWords :: "u32 list \<Rightarrow> u8 list \<Rightarrow> nat \<Rightarrow> nat \<Rightarrow> u8 list" where
  "packetLoadCharsFromWords din buffer bufferSize pktSize =
     fold (store_word din) [0..<pktSize] (vec_resize bufferSize 0 buffer)"

abbreviation mtu :: nat where "mtu \<equiv> 1500"

definition words_for :: "nat \<Rightarrow> nat" where
  "words_for bufferSize = (bufferSize + 3) div 4"

definition packetToBytes :: "u32 list \<Rightarrow> u8 list \<times> int" where
  "packetToBytes din =
     (if din = [] then ([], -1)
      else let data = din ! 0 in
      if data = 0 then ([], -1)
      else let bufferSize = unat (packetSizeFromWord data);
               pktSize = words_for bufferSize
      in if mtu < bufferSize \<or> length din < pktSize then ([], -1)
         else (packetLoadCharsFromWords din [] bufferSize pktSize, int pktSize))"

definition packetToBytesHashMode :: "u32 list \<Rightarrow> (u32 list \<Rightarrow> u32) \<Rightarrow> u8 list \<times> int" where
  "packetToBytesHashMode din hasher =
     (if length din \<le> 1 then ([], -1)
      else let hash_word = din ! 0 in
      if hash_word = 0 then ([], -1)
      else let bufferSize = unat (packetSizeFromWordHash hash_word);
               pktSize = words_for bufferSize
      in if pktSize = 0 \<or> length din - 1 < pktSize then ([], -1)
         else let cutPacket = vslice 1 pktSize din
         in if hash_word \<noteq> hasher cutPacket then ([], int pktSize + 1)
            else if mtu < bufferSize then ([], -1)
            else (packetLoadCharsFromWords cutPacket [] bufferSize pktSize, int pktSize + 1))"

definition cBufferPacketToCharVector :: "u8 list \<Rightarrow> int \<Rightarrow> u8 list" where
  "cBufferPacketToCharVector buffer nread =
     (if nread < 0 then [] else map (\<lambda>i. buffer ! i) [0..<nat nread])"

definition charVectorPacketToWordVector :: "(nat \<Rightarrow> u8) \<Rightarrow> u8 list \<Rightarrow> u32 list" where
  "charVectorPacketToWordVector slack buf =
     (let byte = (\<lambda>i. if i < length buf then buf ! i else slack i)
      in map (\<lambda>k. let i = 4 * k in
           push_bit (3 * 8) (ucast (byte (i + 3))) OR push_bit (2 * 8) (ucast (byte (i + 2)))
           OR push_bit (1 * 8) (ucast (byte (i + 1))) OR ucast (byte i))
         [0..<words_for (length buf)])"

definition wordVectorPacketToCharVector :: "u32 list \<Rightarrow> u8 list" where
  "wordVectorPacketToCharVector buf = fst (packetToBytes buf)"

text \<open>\<open>VerifyHash\<close>: the hash word of a packet.\<close>

definition getLengthFromHash :: "u32 \<Rightarrow> u32" where
  "getLengthFromHash w = w AND 0xFFF"

definition getHashForChars :: "u8 list \<Rightarrow> u32" where
  "getHashForChars v =
     (let len = of_nat (length v) AND 0xFFF; h2 = crc_calc_chars v
      in (h2 AND 0xFFFFF000) OR len)"

definition getHashForWords2 :: "u32 list \<Rightarrow> u32" where
  "getHashForWords2 v =
     (let len = of_nat (length v * 4) AND 0xFFF; h2 = crc_calc_words v
      in (h2 AND 0xFFFFF000) OR len)"

definition getHashForWords :: "u32 list \<Rightarrow> u32" where
  "getHashForWords v = getHashForChars (wordVectorPacketToCharVector v)"

section \<open>Loading bytes\<close>

lemma words_for_bounds: "n \<le> 4 * words_for n" "4 * words_for n < n + 4"
  by (simp_all add: words_for_def)

lemma words_for_0 [simp]: "words_for n = 0 \<longleftrightarrow> n = 0"
  by (simp add: words_for_def) linarith

lemma words_for_pos [simp]: "0 < words_for n \<longleftrightarrow> 0 < n"
  using words_for_0 [of n] by linarith

lemma length_store_word [simp]: "length (store_word din i buffer) = length buffer"
  by (simp add: store_word_def Let_def)

lemma length_load_fold [simp]: "length (fold (store_word din) is buffer) = length buffer"
  by (induction "is" arbitrary: buffer) simp_all

lemma nth_store_word:
  "j < length buffer \<Longrightarrow> store_word din i buffer ! j =
    (if j div 4 = i then word_bytes (din ! i) ! (j mod 4) else buffer ! j)"
proof -
  assume "j < length buffer"
  moreover have "j mod 4 = 0 \<or> j mod 4 = 1 \<or> j mod 4 = 2 \<or> j mod 4 = 3" by linarith
  moreover have "4 * i = j \<longleftrightarrow> i = j div 4 \<and> j mod 4 = 0" by auto
  ultimately show ?thesis
    using quarter_index [of 1 i j] quarter_index [of 2 i j] quarter_index [of 3 i j]
    unfolding store_word_def Let_def word_bytes_def
    by (elim disjE) (simp_all add: nth_list_update_in)
qed

lemma nth_load_fold:
  "j < length buffer \<Longrightarrow> fold (store_word din) [0..<k] buffer ! j =
    (if j div 4 < k then word_bytes (din ! (j div 4)) ! (j mod 4) else buffer ! j)"
  by (induction k) (auto simp: nth_store_word less_Suc_eq)

lemma packetLoadChars_eq:
  assumes "words_for n \<le> length din"
  shows "packetLoadCharsFromWords din buffer n (words_for n) = take n (vec_bytes din)"
proof (rule nth_equalityI)
  have n: "n \<le> 4 * length din"
    using assms words_for_bounds(1) [of n] by linarith
  then show "length (packetLoadCharsFromWords din buffer n (words_for n)) = length (take n (vec_bytes din))"
    by (simp add: packetLoadCharsFromWords_def)
  fix j
  assume "j < length (packetLoadCharsFromWords din buffer n (words_for n))"
  then have j: "j < n" by (simp add: packetLoadCharsFromWords_def)
  then have "j div 4 < words_for n"
    using words_for_bounds(1) [of n] by linarith
  with j n show "packetLoadCharsFromWords din buffer n (words_for n) ! j = take n (vec_bytes din) ! j"
    by (simp add: packetLoadCharsFromWords_def nth_load_fold nth_vec_bytes)
qed

section \<open>The word view of a packet\<close>

lemma length_charVector [simp]:
  "length (charVectorPacketToWordVector slack buf) = words_for (length buf)"
  by (simp add: charVectorPacketToWordVector_def Let_def)

lemma charVector_nth:
  assumes "k < words_for (length buf)"
  shows "charVectorPacketToWordVector slack buf ! k =
    (let byte = (\<lambda>i. if i < length buf then buf ! i else slack i)
     in bytes_word (byte (4 * k)) (byte (4 * k + 1)) (byte (4 * k + 2)) (byte (4 * k + 3)))"
  using assms
  by (simp add: charVectorPacketToWordVector_def bytes_word_def Let_def ac_simps
      del: push_bit_of_0 push_bit_numeral)

lemma charVector_bytes:
  "take (length buf) (vec_bytes (charVectorPacketToWordVector slack buf)) = buf"
proof (rule nth_equalityI)
  let ?ws = "charVectorPacketToWordVector slack buf"
  have n: "length buf \<le> 4 * length ?ws"
    using words_for_bounds(1) [of "length buf"] by simp
  then show "length (take (length buf) (vec_bytes ?ws)) = length buf" by simp
  fix j
  assume "j < length (take (length buf) (vec_bytes ?ws))"
  then have j: "j < length buf" by simp
  then have k: "j div 4 < words_for (length buf)"
    using words_for_bounds(1) [of "length buf"] by linarith
  show "take (length buf) (vec_bytes ?ws) ! j = buf ! j"
    using j n k by (cases j rule: quarter_cases) (auto simp: nth_vec_bytes charVector_nth Let_def)
qed

section \<open>IPv4 packets\<close>

text \<open>A packet the tunnel device hands over: its total-length field, bytes 2 and 3 in network
  order, is its length, and it respects the MTU.\<close>

definition ip_packet :: "u8 list \<Rightarrow> bool" where
  "ip_packet p \<longleftrightarrow> 4 \<le> length p \<and> length p \<le> mtu \<and>
     unat (p ! 2) * 256 + unat (p ! 3) = length p"

lemma word_fields_or:
  fixes a b :: u8
  shows "unat ((push_bit 8 (ucast a) :: u32) OR ucast b) = unat a * 256 + unat b"
proof -
  have disj: "(push_bit 8 (ucast a) :: u32) AND ucast b = 0"
    by (rule bit_word_eqI) (auto simp: bit_simps)
  have "(push_bit 8 (ucast a) :: u32) OR ucast b = push_bit 8 (ucast a) + ucast b"
    using disjunctive_add_eq_or [OF disj] by simp
  moreover have "push_bit 8 (ucast a) + ucast b = (of_nat (unat a * 256 + unat b) :: u32)"
    by (simp add: push_bit_eq_mult)
  moreover have "unat a * 256 + unat b < 4294967296"
    using unat_u8_less [of a] unat_u8_less [of b] by linarith
  ultimately show ?thesis by (simp only: unat_of_nat_u32)
qed

lemma packetSizeFromWord_bytes:
  "(drop_bit 8 (bytes_word b0 b1 b2 b3) AND 0xFF00) OR (drop_bit 24 (bytes_word b0 b1 b2 b3) AND 0xFF)
    = (push_bit 8 (ucast b2) :: u32) OR ucast b3"
proof -
  have m: "(0xFF00 :: u32) = push_bit 8 (mask 8)" "(0xFF :: u32) = mask 8"
    by (simp_all add: mask_eq_exp_minus_1 push_bit_eq_mult)
  show ?thesis
    by (rule bit_word_eqI, unfold m bytes_word_def bit_rules) (auto dest: bit_imp_le_length)
qed

lemma bytes_word_size_pos:
  assumes "0 < unat b2 * 256 + unat b3"
  shows "bytes_word b0 b1 b2 b3 \<noteq> 0"
proof
  assume "bytes_word b0 b1 b2 b3 = 0"
  then have "word_bytes (bytes_word b0 b1 b2 b3) = word_bytes 0" by simp
  then have "[b0, b1, b2, b3] = [0, 0, 0, 0]"
    unfolding word_bytes_of_word by (simp add: word_bytes_def)
  then have "b2 = 0" "b3 = 0" by simp_all
  with assms show False by simp
qed

lemma packetSizeFromWord_eq:
  "0 < unat b2 * 256 + unat b3 \<Longrightarrow>
    unat (packetSizeFromWord (bytes_word b0 b1 b2 b3)) = unat b2 * 256 + unat b3"
  by (simp only: packetSizeFromWord_def bytes_word_size_pos if_False packetSizeFromWord_bytes word_fields_or)

lemma charVector_first_word:
  assumes "4 \<le> length p"
  shows "(charVectorPacketToWordVector slack p @ rest) ! 0 = bytes_word (p ! 0) (p ! 1) (p ! 2) (p ! 3)"
proof -
  have "0 < words_for (length p)" using assms by (simp add: words_for_def)
  then show ?thesis using assms by (auto simp: nth_append charVector_nth Let_def numeral_2_eq_2)
qed

lemma packetToBytes_charVector:
  assumes "ip_packet p"
  shows "packetToBytes (charVectorPacketToWordVector slack p @ rest) = (p, int (words_for (length p)))"
proof -
  let ?ws = "charVectorPacketToWordVector slack p"
  let ?w = "bytes_word (p ! 0) (p ! 1) (p ! 2) (p ! 3)"
  have p: "4 \<le> length p" "length p \<le> mtu" "unat (p ! 2) * 256 + unat (p ! 3) = length p"
    using assms by (simp_all add: ip_packet_def)
  then have pos: "0 < unat (p ! 2) * 256 + unat (p ! 3)" by linarith
  have first: "(?ws @ rest) ! 0 = ?w" and nonempty: "?ws @ rest \<noteq> []"
    using charVector_first_word [OF p(1)] p(1) length_charVector [of slack p] words_for_pos [of "length p"]
    by (auto simp del: length_charVector words_for_pos)
  have size: "unat (packetSizeFromWord ?w) = length p"
    using packetSizeFromWord_eq [OF pos] p(3) by simp
  have "packetLoadCharsFromWords (?ws @ rest) [] (length p) (words_for (length p))
      = take (length p) (vec_bytes (?ws @ rest))"
    by (simp add: packetLoadChars_eq)
  also have "\<dots> = p"
    using words_for_bounds(1) [of "length p"] charVector_bytes [of p slack] by (simp add: vec_bytes_append)
  finally show ?thesis
    using p(2) nonempty bytes_word_size_pos [OF pos]
    unfolding packetToBytes_def Let_def first size by simp
qed

lemma getHashForWords_charVector:
  "ip_packet p \<Longrightarrow> getHashForWords (charVectorPacketToWordVector slack p) = getHashForChars p"
  using packetToBytes_charVector [of p slack "[]"]
  by (simp add: getHashForWords_def wordVectorPacketToCharVector_def)

section \<open>The hash word\<close>

lemma hash_masks: "(0xFFF :: u32) = mask 12" "(0xFFFFF000 :: u32) = push_bit 12 (mask 20)"
  by (simp_all add: mask_eq_exp_minus_1 push_bit_eq_mult)

lemma hash_length_bits: "((h AND 0xFFFFF000) OR (l AND 0xFFF)) AND 0xFFF = l AND (0xFFF :: u32)"
  by (rule bit_word_eqI, unfold hash_masks bit_rules) auto

lemma unat_and_FFF: "unat (w AND 0xFFF :: u32) = unat w mod 4096"
  using unat_and_mask [of w 12] by (simp add: hash_masks(1))

lemma getHashForChars_length:
  "length v < 4096 \<Longrightarrow> unat (getHashForChars v AND 0xFFF) = length v"
  unfolding getHashForChars_def Let_def hash_length_bits by (simp add: unat_and_FFF)

lemma getHashForChars_length_mod:
  "length v < 4294967296 \<Longrightarrow> unat (getHashForChars v AND 0xFFF) = length v mod 4096"
  unfolding getHashForChars_def Let_def hash_length_bits by (simp add: unat_and_FFF)

lemma getHashForChars_nonzero: "0 < length v \<Longrightarrow> length v < 4096 \<Longrightarrow> getHashForChars v \<noteq> 0"
  using getHashForChars_length [of v] by auto

lemma getHashForChars_eq_length:
  "getHashForChars a = getHashForChars b \<Longrightarrow> length a < 4096 \<Longrightarrow> length b < 4096 \<Longrightarrow> length a = length b"
  by (metis getHashForChars_length)

lemma packetToBytes_mtu: "length (fst (packetToBytes ws)) \<le> mtu"
  by (auto simp: packetToBytes_def Let_def packetLoadChars_eq min_def)

lemma packetToBytes_prefix:
  "fst (packetToBytes ws) = take (length (fst (packetToBytes ws))) (vec_bytes ws)"
  by (auto simp: packetToBytes_def Let_def packetLoadChars_eq min_def)

text \<open>A hash word followed by the words of a packet, received whole.\<close>

lemma packetToBytesHashMode_frame:
  assumes "0 < n" "n \<le> mtu" "unat (h AND 0xFFF) = n" "length ws = words_for n"
  shows "packetToBytesHashMode (h # ws @ rest) getHashForWords =
    (if getHashForWords ws = h then take n (vec_bytes ws) else [], int (length ws) + 1)"
proof -
  have h: "h \<noteq> 0" using assms(1,3) by auto
  have ws: "ws \<noteq> []" using assms(1,4) words_for_pos [of n] by auto
  have "packetSizeFromWordHash h = h AND 0xFFF" using h by (simp add: packetSizeFromWordHash_def)
  then show ?thesis
    using assms h ws
    by (auto simp: packetToBytesHashMode_def Let_def vslice_def packetLoadChars_eq)
qed

lemma hash_match_bytes:
  assumes "getHashForWords ws = getHashForChars p" "0 < length p" "length p \<le> mtu"
  shows "take (length p) (vec_bytes ws) = wordVectorPacketToCharVector ws"
proof -
  have "length (wordVectorPacketToCharVector ws) = length p"
    using getHashForChars_eq_length assms packetToBytes_mtu [of ws]
    by (simp add: getHashForWords_def wordVectorPacketToCharVector_def)
  then show ?thesis
    using packetToBytes_prefix [of ws] by (simp add: wordVectorPacketToCharVector_def)
qed

section \<open>What the code promises\<close>

text \<open>
  An IP packet written in words comes back from \<open>packetToBytes\<close> byte for byte, whatever
  the three bytes behind the buffer were and whatever words follow, and \<open>erase\<close> is the
  number of its words.
\<close>
lemma packet_words_roundtrip:
  assumes "ip_packet p"
  shows "packetToBytes (charVectorPacketToWordVector slack p @ rest) = (p, int (words_for (length p)))"
  using assms by (rule packetToBytes_charVector)

theorem packet_words_roundtrip_witness:
  "packetToBytes (charVectorPacketToWordVector (\<lambda>_. 0xAA) [0x45, 0, 0, 6, 1, 2] @ [7, 8])
    = ([0x45, 0, 0, 6, 1, 2], 2)"
  using packet_words_roundtrip [of "[0x45, 0, 0, 6, 1, 2]" "\<lambda>_. 0xAA" "[7, 8]"]
  by (simp add: ip_packet_def words_for_def)

text \<open>
  C21. In hash mode \<open>packetToBytes\<close> never returns bytes whose hash is not the hash word in
  front of them, and it never claims words that are not there: the reported \<open>erase\<close> is
  \<open>-1\<close> or between 2 and the number of words, so a caller that drops \<open>erase\<close> words
  makes progress.
\<close>
theorem hash_mode_sound:
  "case packetToBytesHashMode din getHashForWords of (bytes, erase) \<Rightarrow>
     (bytes = [] \<or> getHashForChars bytes = din ! 0) \<and>
     (erase = -1 \<or> 2 \<le> erase \<and> erase \<le> int (length din))"
proof -
  let ?n = "unat (packetSizeFromWordHash (din ! 0))"
  let ?cut = "vslice 1 (words_for ?n) din"
  have bytes: "getHashForChars (packetLoadCharsFromWords ?cut [] ?n (words_for ?n)) = din ! 0"
    if "din ! 0 = getHashForWords ?cut" "?n \<le> mtu" "0 < ?n" "words_for ?n \<le> length din - 1" "din ! 0 \<noteq> 0"
  proof -
    have load: "packetLoadCharsFromWords ?cut [] ?n (words_for ?n) = take ?n (vec_bytes ?cut)"
      using that(4) by (intro packetLoadChars_eq) simp
    have "length (wordVectorPacketToCharVector ?cut) < 4096"
      using packetToBytes_mtu [of ?cut] by (simp add: wordVectorPacketToCharVector_def)
    then have "length (wordVectorPacketToCharVector ?cut) = ?n"
      using that(1,5) getHashForChars_length [of "wordVectorPacketToCharVector ?cut"]
      by (simp add: getHashForWords_def packetSizeFromWordHash_def)
    with load that(1) packetToBytes_prefix [of ?cut] show ?thesis
      by (simp add: getHashForWords_def wordVectorPacketToCharVector_def)
  qed
  show ?thesis
    using bytes words_for_pos [of ?n] by (auto simp: packetToBytesHashMode_def Let_def Suc_le_eq simp del: words_for_pos)
qed

end
