(* ===== verification/Demod_Packets.thy ===== *)
theory Demod_Packets
  imports Packet_Words
begin

text \<open>
  \<open>soapy/src/driver/DemodThread.cpp\<close>: what happens to the words of one received air packet
  (\<open>demodGotPacket\<close>). The sequence number is checked and the missing numbers are asked for
  again; then the hash-and-packet frames are parsed off the front one by one, written to the tunnel
  device, and when parsing stops \<open>handleRecovery\<close> searches the next frame. The hash of
  every frame is collected for \<open>VerifyHash\<close>.

  The state of the loop is the record \<open>demod_rx\<close>: the vector \<open>p\<close> with the words
  left, the counter \<open>consumed\<close>, the packets written to the tunnel and the hashes.
  \<open>tun\<close> says whether there is a tunnel device, \<open>verify_hash\<close> is the runtime setting.
\<close>

section \<open>The code\<close>

text \<open>The loop that lists the missing sequence numbers; the fuel is the 255 of its bound.\<close>

fun missing_loop :: "nat \<Rightarrow> u8 \<Rightarrow> u8 \<Rightarrow> u32 list" where
  "missing_loop 0 ppush header_seq = []"
| "missing_loop (Suc n) ppush header_seq =
     ucast ppush # (if ppush + 1 = header_seq then [] else missing_loop n (ppush + 1) header_seq)"

definition check_seq :: "u8 \<Rightarrow> u8 \<Rightarrow> u32 list \<times> u8" where
  "check_seq expected_seq header_seq =
     (if header_seq \<noteq> expected_seq then (missing_loop 255 expected_seq header_seq, header_seq + 1)
      else ([], expected_seq + 1))"

abbreviation maxlen :: nat where "maxlen \<equiv> 375"
abbreviation minlook :: nat where "minlook \<equiv> 6"
abbreviation window :: nat where "window \<equiv> 40 * maxlen"

function recovery_loop :: "(u32 list \<Rightarrow> u32) \<Rightarrow> u32 list \<Rightarrow> nat \<Rightarrow> nat option" where
  "recovery_loop wrapHash p look_start =
     (if look_start < window \<and> look_start + window < length p then
        let look = vslice look_start (2 * maxlen) p;
            (chars2, look_erase) = packetToBytesHashMode look wrapHash
        in if chars2 \<noteq> [] then Some look_start
           else recovery_loop wrapHash p (look_start + 1)
      else None)"
  by pat_completeness auto
termination
  by (relation "measure (\<lambda>(h, p, look_start). window - look_start)") auto

declare recovery_loop.simps [simp del]

record demod_rx =
  p :: "u32 list"
  consumed :: u32
  written :: "u8 list list"
  hashes :: "u32 list"

definition handleRecovery :: "(u32 list \<Rightarrow> u32) \<Rightarrow> demod_rx \<Rightarrow> bool \<times> demod_rx" where
  "handleRecovery wrapHash s =
     (if minlook + maxlen < length (p s) then
        (case recovery_loop wrapHash (p s) minlook of
           Some fudge_erase \<Rightarrow>
             (False, s\<lparr>p := drop fudge_erase (p s), consumed := consumed s + of_nat fudge_erase\<rparr>)
         | None \<Rightarrow> (True, s))
      else (True, s))"

text \<open>One turn of the loop of \<open>demodGotPacket\<close>; \<open>None\<close> is the exit.\<close>

definition demod_turn :: "(u32 list \<Rightarrow> u32) \<Rightarrow> bool \<Rightarrow> bool \<Rightarrow> demod_rx \<Rightarrow> demod_rx option" where
  "demod_turn wrapHash tun verify_hash s =
     (let (v1, erase) = packetToBytesHashMode (p s) wrapHash in
      if erase \<noteq> -1 then
        let s1 = (if tun then
                    let s0 = (if v1 \<noteq> [] then s\<lparr>written := written s @ [v1]\<rparr> else s);
                        hash = getHashForChars v1
                    in if verify_hash then s0\<lparr>hashes := hashes s0 @ [hash]\<rparr> else s0
                  else s)
        in Some (if 0 < erase
                 then s1\<lparr>p := drop (nat erase) (p s1), consumed := consumed s1 + of_int erase\<rparr>
                 else s1)
      else
        let (breakDesired, s1) = handleRecovery wrapHash s
        in if breakDesired then None else Some s1)"

lemma packetToBytesHashMode_erase:
  "packetToBytesHashMode din hasher = (bytes, erase) \<Longrightarrow> erase \<noteq> -1 \<Longrightarrow>
    2 \<le> erase \<and> erase \<le> int (length din)"
  by (auto simp: packetToBytesHashMode_def Let_def Suc_le_eq split: if_splits)

lemma recovery_loop_first:
  "recovery_loop h w k = Some m \<longleftrightarrow>
    k \<le> m \<and> m < window \<and> m + window < length w \<and>
    fst (packetToBytesHashMode (vslice m (2 * maxlen) w) h) \<noteq> [] \<and>
    (\<forall>j. k \<le> j \<and> j < m \<longrightarrow> fst (packetToBytesHashMode (vslice j (2 * maxlen) w) h) = [])"
proof (induction h w k rule: recovery_loop.induct)
  case (1 h w k)
  show ?case
  proof (cases "k < window \<and> k + window < length w")
    case False
    then show ?thesis by (subst recovery_loop.simps) auto
  next
    case bounds: True
    let ?hit = "\<lambda>j. fst (packetToBytesHashMode (vslice j (2 * maxlen) w) h)"
    have step: "recovery_loop h w k = (if ?hit k \<noteq> [] then Some k else recovery_loop h w (k + 1))"
      using bounds by (subst recovery_loop.simps) (simp add: Let_def case_prod_beta)
    show ?thesis
    proof (cases "?hit k = []")
      case False
      then show ?thesis using bounds step by (auto simp: not_less dest!: le_imp_less_or_eq spec [of _ k])
    next
      case True
      then have "recovery_loop h w k = recovery_loop h w (k + 1)" by (simp add: step)
      with 1 [OF bounds refl refl prod.collapse] True show ?thesis
        by (auto simp: Suc_le_eq) (metis le_neq_implies_less)+
    qed
  qed
qed

lemma demod_turn_shrinks: "demod_turn h tun v s = Some s' \<Longrightarrow> length (p s') < length (p s)"
proof (cases "packetToBytesHashMode (p s) h")
  case (Pair v1 erase)
  assume step: "demod_turn h tun v s = Some s'"
  show ?thesis
  proof (cases "erase = -1")
    case False
    with packetToBytesHashMode_erase [OF Pair] have "2 \<le> erase" "erase \<le> int (length (p s))" by auto
    with step Pair False show ?thesis
      by (auto simp: demod_turn_def Let_def split: if_splits)
  next
    case True
    with step Pair show ?thesis
      by (auto simp: demod_turn_def handleRecovery_def recovery_loop_first split: if_splits option.splits)
  qed
qed

function demod_loop :: "(u32 list \<Rightarrow> u32) \<Rightarrow> bool \<Rightarrow> bool \<Rightarrow> demod_rx \<Rightarrow> demod_rx" where
  "demod_loop wrapHash tun verify_hash s =
     (case demod_turn wrapHash tun verify_hash s of
        Some s' \<Rightarrow> demod_loop wrapHash tun verify_hash s'
      | None \<Rightarrow> s)"
  by pat_completeness auto
termination
  by (relation "measure (\<lambda>(h, tun, v, s). length (p s))") (auto dest: demod_turn_shrinks)

declare demod_loop.simps [simp del]

text \<open>\<open>demodGotPacket\<close>: the new expected sequence number, the retransmit requests (peer
  left out: always \<open>retransmit_to_peer_id\<close>), and the final state of the loop.\<close>

definition demodGotPacket ::
    "bool \<Rightarrow> bool \<Rightarrow> u8 \<Rightarrow> u32 list \<Rightarrow> u8 \<Rightarrow> u8 \<times> (u32 \<times> u32 list) list \<times> demod_rx option" where
  "demodGotPacket tun verify_hash expected_seq p0 header_seq =
     (let (missing_seq, expected_seq') = check_seq expected_seq header_seq;
          requests = map (\<lambda>w. (w, [0xFFFFFFFF])) missing_seq
      in if p0 = [] then (expected_seq', requests, None)
         else (expected_seq', requests,
               Some (demod_loop getHashForWords tun verify_hash
                 \<lparr>p = p0, consumed = 0, written = [], hashes = []\<rparr>)))"

section \<open>The missing sequence numbers\<close>

lemma missing_loop_nth:
  "h \<noteq> a \<Longrightarrow> unat (h - a) \<le> n \<Longrightarrow>
    missing_loop n a h = map (\<lambda>i. ucast (a + of_nat i)) [0..<unat (h - a)]"
proof (induction n a h rule: missing_loop.induct)
  case (1 a h)
  then show ?case by (simp add: unat_eq_0)
next
  case (2 n a h)
  show ?case
  proof (cases "a + 1 = h")
    case True
    then have "h - a = 1" by auto
    with True show ?thesis by simp
  next
    case False
    have d: "unat (h - a) = Suc (unat (h - (a + 1)))"
      using "2.prems"(1) False unat_minus_one [of "h - a"]
      by (simp add: algebra_simps unat_gt_0 Suc_pred')
    then have "missing_loop n (a + 1) h = map (\<lambda>i. ucast (a + 1 + of_nat i)) [0..<unat (h - (a + 1))]"
      using "2.IH" False "2.prems"(2) by simp
    with False d show ?thesis
      by (simp add: upt_conv_Cons map_Suc_upt [symmetric] o_def ac_simps del: upt_Suc map_Suc_upt)
  qed
qed

section \<open>Frames\<close>

text \<open>What one packet becomes on the way: the packet \<open>pk\<close> that was sent, its hash word, and
  the words that arrived in its place (as many, but possibly others).\<close>

definition frame_words :: "u8 list \<times> u32 list \<Rightarrow> u32 list" where
  "frame_words f = getHashForChars (fst f) # snd f"

definition frame_ok :: "u8 list \<times> u32 list \<Rightarrow> bool" where
  "frame_ok f \<longleftrightarrow> ip_packet (fst f) \<and> length (snd f) = words_for (length (fst f))"

definition frame_intact :: "u8 list \<times> u32 list \<Rightarrow> bool" where
  "frame_intact f \<longleftrightarrow> getHashForWords (snd f) = getHashForChars (fst f)"

definition frame_bytes :: "u8 list \<times> u32 list \<Rightarrow> u8 list" where
  "frame_bytes f = (if frame_intact f then take (length (fst f)) (vec_bytes (snd f)) else [])"

lemma frame_okD:
  assumes "frame_ok f"
  shows "0 < length (fst f)" "fst f \<noteq> []" "length (fst f) \<le> mtu" "snd f \<noteq> []"
proof -
  from assms have n: "4 \<le> length (fst f)" "length (fst f) \<le> mtu"
    and w: "length (snd f) = words_for (length (fst f))"
    by (simp_all add: frame_ok_def ip_packet_def)
  from n show "0 < length (fst f)" "fst f \<noteq> []" "length (fst f) \<le> mtu" by auto
  from n w words_for_pos [of "length (fst f)"] show "snd f \<noteq> []" by auto
qed

lemma frame_parse:
  assumes "frame_ok f"
  shows "packetToBytesHashMode (frame_words f @ rest) getHashForWords =
    (frame_bytes f, int (length (frame_words f)))"
proof -
  have "unat (getHashForChars (fst f) AND 0xFFF) = length (fst f)"
    using frame_okD(3) [OF assms] by (intro getHashForChars_length) simp
  moreover have "length (snd f) = words_for (length (fst f))"
    using assms by (simp add: frame_ok_def)
  ultimately show ?thesis
    using packetToBytesHashMode_frame [of "length (fst f)" "getHashForChars (fst f)" "snd f" rest]
      frame_okD [OF assms]
    by (simp add: frame_words_def frame_bytes_def frame_intact_def)
qed

lemma frame_bytes_Nil: "frame_ok f \<Longrightarrow> frame_bytes f = [] \<longleftrightarrow> \<not> frame_intact f"
  by (auto simp: frame_bytes_def dest: frame_okD)

lemma frame_bytes_hash:
  "frame_ok f \<Longrightarrow> frame_intact f \<Longrightarrow> getHashForChars (frame_bytes f) = getHashForChars (fst f)"
  using hash_match_bytes [of "snd f" "fst f"] frame_okD [of f]
  by (simp add: frame_bytes_def frame_intact_def getHashForWords_def)

lemma demod_loop_unroll:
  "demod_turn h tun v s = Some s' \<Longrightarrow> demod_loop h tun v s = demod_loop h tun v s'"
  "demod_turn h tun v s = None \<Longrightarrow> demod_loop h tun v s = s"
  by (simp_all add: demod_loop.simps [of h tun v s])

lemma demod_turn_frame:
  assumes "frame_ok f" and "p s = frame_words f @ rest"
  shows "demod_turn getHashForWords True v s = Some (s\<lparr>p := rest,
      consumed := consumed s + of_nat (length (frame_words f)),
      written := written s @ (if frame_intact f then [frame_bytes f] else []),
      hashes := hashes s @ (if v then [getHashForChars (frame_bytes f)] else [])\<rparr>)"
proof -
  have "0 < length (frame_words f)" by (simp add: frame_words_def)
  then show ?thesis
    using frame_parse [OF assms(1), of rest] frame_bytes_Nil [OF assms(1)] assms(2)
    by (simp add: demod_turn_def Let_def)
qed

lemma demod_loop_frames:
  assumes "\<forall>f \<in> set fs. frame_ok f"
  shows "demod_loop getHashForWords True v
      \<lparr>p = concat (map frame_words fs) @ rest, consumed = c, written = w, hashes = hs\<rparr> =
    demod_loop getHashForWords True v \<lparr>p = rest,
      consumed = c + of_nat (length (concat (map frame_words fs))),
      written = w @ map frame_bytes (filter frame_intact fs),
      hashes = hs @ (if v then map (getHashForChars \<circ> frame_bytes) fs else [])\<rparr>"
  using assms
proof (induction fs arbitrary: c w hs)
  case Nil
  then show ?case by simp
next
  case (Cons f fs)
  let ?rest = "concat (map frame_words fs) @ rest"
  let ?s = "\<lparr>p = frame_words f @ ?rest, consumed = c, written = w, hashes = hs\<rparr>"
  let ?s' = "\<lparr>p = ?rest, consumed = c + of_nat (length (frame_words f)),
      written = w @ (if frame_intact f then [frame_bytes f] else []),
      hashes = hs @ (if v then [getHashForChars (frame_bytes f)] else [])\<rparr>"
  have "demod_loop getHashForWords True v ?s = demod_loop getHashForWords True v ?s'"
    using demod_turn_frame [of f ?s ?rest v] Cons.prems by (intro demod_loop_unroll) simp
  with Cons show ?case by (simp add: add.assoc)
qed

lemma recovery_none_zeros: "recovery_loop h (replicate n 0) k = None"
proof (rule ccontr)
  assume "recovery_loop h (replicate n 0) k \<noteq> None"
  then obtain m where "m + window < n"
    "fst (packetToBytesHashMode (vslice m (2 * maxlen) (replicate n 0)) h) \<noteq> []"
    by (auto simp: recovery_loop_first)
  then show False by (simp add: packetToBytesHashMode_def vslice_def)
qed

lemma demod_turn_zeros: "p s = replicate n 0 \<Longrightarrow> demod_turn h tun v s = None"
proof -
  assume s: "p s = replicate n 0"
  have "packetToBytesHashMode (replicate n 0) h = ([], -1)"
    by (simp add: packetToBytesHashMode_def)
  with s show ?thesis
    by (simp add: demod_turn_def handleRecovery_def recovery_none_zeros)
qed

section \<open>What the code promises\<close>

text \<open>
  When a packet with another sequence number than the expected one arrives, exactly the
  numbers from the expected one up to the one before it, modulo 256, are reported missing, in
  order, and the next number is expected afterwards.
\<close>
lemma missing_sequence_numbers:
  "check_seq expected_seq header_seq =
    (map (\<lambda>i. ucast (expected_seq + of_nat i)) [0..<unat (header_seq - expected_seq)], header_seq + 1)"
proof (cases "header_seq = expected_seq")
  case True
  then show ?thesis by (simp add: check_seq_def)
next
  case False
  have "unat (header_seq - expected_seq) \<le> 255"
    using unat_u8_less [of "header_seq - expected_seq"] by linarith
  with missing_loop_nth [OF False] False show ?thesis by (simp add: check_seq_def)
qed

lemma receive_frames:
  assumes "fs \<noteq> []" and "\<forall>f \<in> set fs. frame_ok f"
  shows "\<exists>s. demodGotPacket True True e (concat (map frame_words fs) @ replicate n 0) h =
      (h + 1, map (\<lambda>w. (w, [0xFFFFFFFF])) (fst (check_seq e h)), Some s) \<and>
    written s = map frame_bytes (filter frame_intact fs) \<and>
    hashes s = map (\<lambda>f. if frame_intact f then getHashForChars (fst f) else getHashForChars []) fs \<and>
    p s = replicate n 0"
proof -
  let ?init = "\<lparr>p = concat (map frame_words fs) @ replicate n 0, consumed = 0, written = [], hashes = []\<rparr>"
  let ?s = "\<lparr>p = replicate n 0, consumed = of_nat (length (concat (map frame_words fs))),
      written = map frame_bytes (filter frame_intact fs),
      hashes = map (getHashForChars \<circ> frame_bytes) fs\<rparr>"
  have "demod_loop getHashForWords True True ?init = demod_loop getHashForWords True True ?s"
    using demod_loop_frames [OF assms(2), of True "replicate n 0" 0 "[]" "[]"] by simp
  moreover have "demod_loop getHashForWords True True ?s = ?s"
    by (intro demod_loop_unroll demod_turn_zeros) simp
  ultimately have loop: "demod_loop getHashForWords True True ?init = ?s" by (rule trans)
  have "concat (map frame_words fs) \<noteq> []"
    using assms(1) by (cases fs) (auto simp: frame_words_def)
  moreover have "snd (check_seq e h) = h + 1" by (simp add: check_seq_def)
  ultimately have run: "demodGotPacket True True e (concat (map frame_words fs) @ replicate n 0) h =
      (h + 1, map (\<lambda>w. (w, [0xFFFFFFFF])) (fst (check_seq e h)), Some ?s)"
    by (simp add: demodGotPacket_def Let_def case_prod_beta loop)
  have "hashes ?s = map (\<lambda>f. if frame_intact f then getHashForChars (fst f) else getHashForChars []) fs"
    using assms(2) frame_bytes_hash by (simp add: frame_bytes_def)
  with run show ?thesis by (intro exI [of _ ?s] conjI) simp_all
qed

text \<open>
  C15. One received air packet holds the frames of many IP packets, some of them damaged, and
  zero fill. \<open>demodGotPacket\<close> writes to the tunnel exactly the packets whose words still hash
  to the hash word in front of them, in order; a damaged packet costs nothing but itself; and the
  list of hashes has one entry per frame, the announced hash at the place of every intact one and
  the hash of the empty packet at the others. The loop always ends, with the fill left over.
\<close>
theorem receive_delivers_intact_frames:
  assumes "fs \<noteq> []" and "\<forall>f \<in> set fs. frame_ok f"
  shows "\<exists>s. demodGotPacket True True e (concat (map frame_words fs) @ replicate n 0) h =
      (h + 1, map (\<lambda>w. (w, [0xFFFFFFFF])) (fst (check_seq e h)), Some s) \<and>
    written s = map frame_bytes (filter frame_intact fs) \<and>
    hashes s = map (\<lambda>f. if frame_intact f then getHashForChars (fst f) else getHashForChars []) fs \<and>
    p s = replicate n 0"
  using assms by (rule receive_frames)

theorem receive_delivers_intact_frames_witness:
  "let a = [0x45, 0, 0, 5, 9]; b = [0x45, 0, 0, 4]
   in \<exists>s. demodGotPacket True True 7
        (concat (map frame_words [(a, charVectorPacketToWordVector (\<lambda>_. 0) a), (b, [0])]) @ replicate 5 0) 7
        = (8, [], Some s) \<and> written s = [a]"
proof -
  let ?a = "[0x45, 0, 0, 5, 9] :: u8 list" and ?b = "[0x45, 0, 0, 4] :: u8 list"
  let ?f = "(?a, charVectorPacketToWordVector (\<lambda>_. 0) ?a)" and ?g = "(?b, [0]) :: u8 list \<times> u32 list"
  have ok: "frame_ok ?f" "frame_ok ?g"
    by (simp_all add: frame_ok_def ip_packet_def words_for_def)
  have intact: "frame_intact ?f"
    using getHashForWords_charVector [of ?a "\<lambda>_. 0"] by (simp add: frame_intact_def ip_packet_def)
  have broken: "\<not> frame_intact ?g"
  proof
    assume "frame_intact ?g"
    then have "getHashForChars [] = getHashForChars ?b"
      by (simp add: frame_intact_def getHashForWords_def wordVectorPacketToCharVector_def packetToBytes_def)
    from getHashForChars_eq_length [OF this] show False by simp
  qed
  have "frame_bytes ?f = ?a"
    using intact charVector_bytes [of ?a "\<lambda>_. 0"] by (simp add: frame_bytes_def)
  then show ?thesis
    using receive_delivers_intact_frames [of "[?f, ?g]" 7 5 7] ok intact broken
    by (auto simp: Let_def check_seq_def)
qed

text \<open>
  When parsing stops at words that are no frame, \<open>handleRecovery\<close> resumes at the first
  offset of at least 6 words at which a whole frame with a matching hash begins, provided 15000
  more words follow that offset; with fewer words left it always gives up, and the rest of the air
  packet is lost.
\<close>
lemma recovery_finds_first_frame:
  "handleRecovery h s = (False, s') \<longleftrightarrow>
    (\<exists>k. minlook \<le> k \<and> k < window \<and> k + window < length (p s) \<and>
      fst (packetToBytesHashMode (vslice k (2 * maxlen) (p s)) h) \<noteq> [] \<and>
      (\<forall>j. minlook \<le> j \<and> j < k \<longrightarrow> fst (packetToBytesHashMode (vslice j (2 * maxlen) (p s)) h) = []) \<and>
      s' = s\<lparr>p := drop k (p s), consumed := consumed s + of_nat k\<rparr>)"
proof -
  have len: "minlook + maxlen < length (p s)" if "recovery_loop h (p s) minlook = Some k" for k
    using that by (simp add: recovery_loop_first)
  have "handleRecovery h s = (False, s') \<longleftrightarrow>
    (\<exists>k. recovery_loop h (p s) minlook = Some k \<and>
      s' = s\<lparr>p := drop k (p s), consumed := consumed s + of_nat k\<rparr>)"
    using len by (auto simp: handleRecovery_def split: option.splits)
  then show ?thesis by (simp only: recovery_loop_first conj_assoc)
qed

theorem recovery_finds_first_frame_witness:
  "let a = [0x45, 0, 0, 5, 9]; f = (a, charVectorPacketToWordVector (\<lambda>_. 0) a);
       s = \<lparr>p = replicate 6 1 @ frame_words f @ replicate 15010 0, consumed = 0, written = [], hashes = []\<rparr>
   in handleRecovery getHashForWords s = (False, s\<lparr>p := frame_words f @ replicate 15010 0, consumed := 6\<rparr>)"
proof -
  let ?a = "[0x45, 0, 0, 5, 9] :: u8 list"
  let ?f = "(?a, charVectorPacketToWordVector (\<lambda>_. 0) ?a)"
  let ?p = "replicate 6 1 @ frame_words ?f @ replicate 15010 0"
  let ?s = "\<lparr>p = ?p, consumed = 0, written = [], hashes = []\<rparr>"
  have ok: "frame_ok ?f" by (simp add: frame_ok_def ip_packet_def words_for_def)
  have intact: "frame_intact ?f"
    using getHashForWords_charVector [of ?a "\<lambda>_. 0"] by (simp add: frame_intact_def ip_packet_def)
  have len: "length (frame_words ?f) = 3" using ok by (simp add: frame_words_def frame_ok_def words_for_def)
  have "vslice 6 (2 * maxlen) ?p = frame_words ?f @ replicate 747 0"
    using len by (simp add: vslice_def take_replicate)
  then have "fst (packetToBytesHashMode (vslice 6 (2 * maxlen) ?p) getHashForWords) \<noteq> []"
    using frame_parse [OF ok, of "replicate 747 0"] frame_bytes_Nil [OF ok] intact by simp
  then have "handleRecovery getHashForWords ?s = (False, ?s\<lparr>p := drop 6 ?p, consumed := 6\<rparr>)"
    using len by (intro recovery_finds_first_frame [THEN iffD2] exI [of _ 6]) auto
  then show ?thesis by (simp add: Let_def)
qed

end
