(* ===== verification/Slicing.thy ===== *)
theory Slicing
  imports Modem_Prelude
begin

text \<open>
  \<open>soapy/src/common/convert.cpp\<close> and \<open>convert.hpp\<close>, the part that deals with sliced
  words: one word holds two bits for each of 16 adjacent subcarriers of an OFDM frame, and a frame
  is \<open>subcarriers / 16\<close> words. A word of a "vertical" message travels on one subcarrier, two
  bits per frame over 16 frames, most significant first.

  Indices and counters are natural numbers: they are bounded by the size of a vector in memory. A
  read out of range, undefined in C++, is \<open>None\<close>.
\<close>

section \<open>The code\<close>

definition push_pair :: "u32 \<Rightarrow> u32 \<Rightarrow> u32" where
  "push_pair pair acc = push_bit 2 acc OR pair"

definition mangle_pair :: "u32 \<Rightarrow> nat \<Rightarrow> u32" where
  "mangle_pair tword i =
     (let bits = drop_bit (i * 2) tword AND 3
      in push_bit 1 (bits AND 1) OR drop_bit 1 (bits AND 2))"

definition bitMangleSliced :: "u32 \<Rightarrow> u32" where
  "bitMangleSliced in_word =
     (let tword = NOT in_word in fold (\<lambda>i. push_pair (mangle_pair tword i)) [0..<16] 0)"

definition bitMangleSlicedQam16 :: "u32 \<Rightarrow> u32" where
  "bitMangleSlicedQam16 in_word =
     (let tword = in_word in fold (\<lambda>i. push_pair (mangle_pair tword i)) [0..<16] 0)"

function count_loop :: "nat \<Rightarrow> u32 \<Rightarrow> nat" where
  "count_loop c v = (if v = 0 then c else count_loop (c + 1) (v AND (v - 1)))"
  by pat_completeness auto
termination
proof (relation "measure (\<lambda>(c, v). unat v)", goal_cases)
  case (2 c v)
  have "v AND (v - 1) \<le> v - 1" by (rule word_and_le1)
  then have "unat (v AND (v - 1)) \<le> unat (v - 1)" by (simp add: word_le_nat_alt)
  also have "\<dots> < unat v" using 2 by (rule measure_unat)
  finally show ?case by simp
qed simp

declare count_loop.simps [simp del]

definition count_bit_set :: "u32 \<Rightarrow> nat" where
  "count_bit_set v = count_loop 0 v"

definition get_bit_pair_sliced :: "bool \<Rightarrow> u32 list \<Rightarrow> nat \<Rightarrow> nat \<Rightarrow> nat \<Rightarrow> u32 option" where
  "get_bit_pair_sliced invert_bits slc subcarrier time enabled_subcarriers =
     (let words_per_frame = enabled_subcarriers div 16;
          start = time * words_per_frame;
          choose_word = subcarrier div 16;
          choose_bit = (subcarrier - choose_word * 16) * 2;
          idx = start + choose_word
      in case vec_get slc idx of None \<Rightarrow> None
         | Some w \<Rightarrow>
             (let result = drop_bit choose_bit w AND 3;
                  result' = (if result = 1 then 2 else if result = 2 then 1 else result)
              in Some (if invert_bits then NOT result' AND 3 else result')))"

definition extract_vertical :: "bool \<Rightarrow> u32 list \<Rightarrow> nat \<Rightarrow> nat \<Rightarrow> nat \<Rightarrow> u32 option" where
  "extract_vertical invert_bits slc j i enabled_subcarriers =
     fold_option (\<lambda>k demod_word.
         map_option (\<lambda>demod_bits. push_pair demod_bits demod_word)
           (get_bit_pair_sliced invert_bits slc j k enabled_subcarriers))
       [i..<i + 16] 0"

definition extract_vertical_from_sliced :: "u32 list \<Rightarrow> nat \<Rightarrow> nat \<Rightarrow> nat \<Rightarrow> u32 option" where
  "extract_vertical_from_sliced = extract_vertical True"

definition extract_vertical_from_sliced_qam16 :: "u32 list \<Rightarrow> nat \<Rightarrow> nat \<Rightarrow> nat \<Rightarrow> u32 option" where
  "extract_vertical_from_sliced_qam16 = extract_vertical False"

definition new_sync_frame :: "u32 \<Rightarrow> nat \<Rightarrow> u32" where
  "new_sync_frame sync i =
     (let temp1 = drop_bit i sync AND 1; temp2 = drop_bit (i + 1) sync AND 1;
          temp3 = temp1 OR push_bit 1 temp2
      in fold (\<lambda>j. push_pair temp3) [0..<16] 0)"

definition frame_shifts :: "nat list" where
  "frame_shifts = map (\<lambda>n. 30 - 2 * n) [0..<16]"

definition new_subcarrier_data_sync :: "u32 list \<Rightarrow> u32 \<Rightarrow> nat \<Rightarrow> u32 list" where
  "new_subcarrier_data_sync data sync subcarriers =
     fold (\<lambda>i d. d @ replicate (subcarriers div 16) (new_sync_frame sync i)) frame_shifts data"

definition sync_frame :: "u32 \<Rightarrow> nat \<Rightarrow> u32" where
  "sync_frame sync i =
     (let temp1 = drop_bit i sync AND 1; temp2 = drop_bit (i + 1) sync AND 1
      in fold (\<lambda>j acc. push_bit 1 acc OR (if j < 16 then temp2 else temp1)) [0..<32] 0)"

definition subcarrier_data_sync :: "u32 list \<Rightarrow> u32 \<Rightarrow> nat \<Rightarrow> u32 list" where
  "subcarrier_data_sync data sync subcarriers =
     fold (\<lambda>i d. d @ replicate (subcarriers div 16) (sync_frame sync i)) frame_shifts data"

text \<open>\<open>new_subcarrier_data_load\<close>: the three nested loops run over \<open>load_steps\<close>; the state is
  the counter \<open>running_j\<close>, which the code never resets, and the output.\<close>

definition load_steps :: "nat \<Rightarrow> nat \<Rightarrow> (nat \<times> nat) list" where
  "load_steps n_max factor =
     concat (map (\<lambda>n. concat (map (\<lambda>i. replicate factor (n, i)) [0..<16])) [0..<n_max])"

definition load_step :: "u32 list \<Rightarrow> nat \<times> nat \<Rightarrow> nat \<times> u32 list \<Rightarrow> (nat \<times> u32 list) option" where
  "load_step din ni s = (case ni of (n, i) \<Rightarrow> case s of (running_j, constructed) \<Rightarrow>
     (let shift = 30 - i * 2;
          pair = (\<lambda>sync. (drop_bit shift sync AND 1) OR push_bit 1 (drop_bit (shift + 1) sync AND 1))
      in map_option (\<lambda>sixteen_group. (running_j + 16, constructed @ [sixteen_group]))
           (fold_option (\<lambda>j acc. map_option (\<lambda>sync. push_pair (pair sync) acc)
               (vec_get din ((running_j + j) mod 128 + n * 128))) [0..<16] 0)))"

definition new_subcarrier_data_load :: "u32 list \<Rightarrow> u32 list \<Rightarrow> nat \<Rightarrow> u32 list option" where
  "new_subcarrier_data_load constructed din subcarriers =
     (let factor = subcarriers div 16;
          n_max = length din div subcarriers + (if length din mod subcarriers \<noteq> 0 then 1 else 0)
      in map_option snd (fold_option (load_step din) (load_steps n_max factor) (0, constructed)))"

text \<open>\<open>generate_counter_for_sliced_buf\<close>: the two rows of the receive buffer.\<close>

definition handle_load_vector_vector ::
    "u32 list \<times> u32 list \<Rightarrow> u32 list \<Rightarrow> u32 list \<times> u32 list" where
  "handle_load_vector_vector sliced_words word_p =
     fold (\<lambda>i (row0, row1).
         if i mod 9 = 0 then (row0 @ [word_p ! i, 0, 0, 0, 0, 0, 0, 0], row1)
         else (row0, row1 @ [word_p ! i]))
       [0..<length word_p] sliced_words"

fun generate_counter_loop ::
    "u32 list \<times> u32 list \<Rightarrow> u32 list \<Rightarrow> u32 \<Rightarrow> (u32 list \<times> u32 list) option" where
  "generate_counter_loop as_iq [] counter = Some as_iq"
| "generate_counter_loop as_iq (a # b # c # d # e # f # g # h # sliced2) counter =
     generate_counter_loop (handle_load_vector_vector as_iq [counter, a, b, c, d, e, f, g, h])
       sliced2 (counter + 1)"
| "generate_counter_loop as_iq sliced2 counter = None"

definition generate_counter_for_sliced_buf :: "u32 list \<Rightarrow> u32 \<Rightarrow> (u32 list \<times> u32 list) option" where
  "generate_counter_for_sliced_buf sliced2 counter = generate_counter_loop ([], []) sliced2 counter"

section \<open>Words made of bit pairs\<close>

lemma bit_3 [bit_rules]: "bit (3 :: u32) n \<longleftrightarrow> n < 2"
proof -
  have "(3 :: u32) = mask 2" by (simp add: mask_eq_exp_minus_1)
  then show ?thesis by (simp only: bit_mask_iff) auto
qed

lemma bit_1_word [bit_rules]: "bit (1 :: u32) n \<longleftrightarrow> n = 0"
  by (auto simp: bit_1_iff)

lemma bit_2_word [bit_rules]: "bit (2 :: u32) n \<longleftrightarrow> n = 1"
proof -
  have "(2 :: u32) = push_bit 1 1" by simp
  then show ?thesis by (simp only: bit_push_word bit_1_word) auto
qed

definition is_pair :: "u32 \<Rightarrow> bool" where
  "is_pair p \<longleftrightarrow> (\<forall>n. bit p n \<longrightarrow> n < 2)"

lemma bit_push_pairs:
  assumes "\<forall>p \<in> set ps. is_pair p" "length ps \<le> 16"
  shows "bit (fold push_pair ps 0) n \<longleftrightarrow>
    n < 2 * length ps \<and> bit (ps ! (length ps - 1 - n div 2)) (n mod 2)"
  using assms
proof (induction ps arbitrary: n rule: rev_induct)
  case Nil
  then show ?case by simp
next
  case (snoc p ps)
  have step: "bit (fold push_pair (ps @ [p]) 0) n \<longleftrightarrow>
      2 \<le> n \<and> n < 32 \<and> bit (fold push_pair ps 0) (n - 2) \<or> bit p n"
    by (simp add: push_pair_def bit_push_word bit_or_iff)
  show ?case
  proof (cases "n < 2")
    case True
    then have "n div 2 = 0" "n mod 2 = n" by auto
    with True step show ?thesis by (auto simp: nth_append)
  next
    case False
    then obtain m where m: "n = Suc (Suc m)" by (metis One_nat_def Suc_1 less_Suc_eq_0_disj not_less_eq old.nat.exhaust zero_less_Suc)
    have p: "\<not> bit p n" using snoc.prems False by (auto simp: is_pair_def)
    have IH: "bit (fold push_pair ps 0) m \<longleftrightarrow>
        m < 2 * length ps \<and> bit (ps ! (length ps - 1 - m div 2)) (m mod 2)"
      using snoc.IH snoc.prems by simp
    have at: "(ps @ [p]) ! (length ps - Suc (m div 2)) = ps ! (length ps - 1 - m div 2)"
      if "m < 2 * length ps"
    proof -
      have "length ps - Suc (m div 2) < length ps" using that by linarith
      then show ?thesis by (simp add: nth_append)
    qed
    have "n < 32" if "m < 2 * length ps" using that snoc.prems(2) m by simp
    then show ?thesis
      unfolding step using p m IH at by (cases "m < 2 * length ps") simp_all
  qed
qed

lemma fold_push_map: "fold (\<lambda>i. push_pair (f i)) is a = fold push_pair (map f is) a"
  by (induction "is" arbitrary: a) simp_all

lemma mangle_pair_bit: "bit (mangle_pair w i) n \<longleftrightarrow> n = 0 \<and> bit w (2 * i + 1) \<or> n = 1 \<and> bit w (2 * i)"
  unfolding mangle_pair_def Let_def bit_rules by (auto simp: mult.commute)

lemma bit_mangle:
  assumes "n < 32"
  shows "bit (fold (\<lambda>i. push_pair (mangle_pair w i)) [0..<16] 0) n = bit w (31 - n)"
proof -
  let ?ps = "map (mangle_pair w) [0..<16]"
  have pairs: "\<forall>p \<in> set ?ps. is_pair p" "length ?ps \<le> 16"
    by (auto simp: is_pair_def mangle_pair_bit)
  have nth: "?ps ! (length ?ps - 1 - k) = mangle_pair w (15 - k)" if "k < 16" for k
    using that by (simp only: length_map length_upt nth_map nth_upt diff_zero) simp
  show ?thesis
  proof (cases "even n")
    case True
    then obtain q where q: "n = 2 * q" by (elim evenE)
    then have "n div 2 = q" "n mod 2 = 0" "q < 16" "2 * (15 - q) + 1 = 31 - n" using assms by auto
    then show ?thesis
      unfolding fold_push_map [of "mangle_pair w"] bit_push_pairs [OF pairs]
      using assms nth [of q] mangle_pair_bit [of w "15 - q" 0] by simp
  next
    case False
    then obtain q where q: "n = 2 * q + 1" by (elim oddE)
    then have "n div 2 = q" "n mod 2 = 1" "q < 16" "2 * (15 - q) = 31 - n" using assms by auto
    then show ?thesis
      unfolding fold_push_map [of "mangle_pair w"] bit_push_pairs [OF pairs]
      using assms nth [of q] mangle_pair_bit [of w "15 - q" 1] by simp
  qed
qed

lemma bit_bitMangleSliced [bit_rules]:
  "bit (bitMangleSliced w) n \<longleftrightarrow> n < 32 \<and> \<not> bit w (31 - n)"
  by (cases "n < 32") (auto simp: bitMangleSliced_def Let_def bit_mangle bit_not_word)

lemma bit_bitMangleSlicedQam16 [bit_rules]:
  "bit (bitMangleSlicedQam16 w) n \<longleftrightarrow> n < 32 \<and> bit w (31 - n)"
  by (cases "n < 32") (simp_all add: bitMangleSlicedQam16_def Let_def bit_mangle)

lemma mangle_mangle [simp]:
  "bitMangleSliced (bitMangleSliced w) = w"
  "bitMangleSlicedQam16 (bitMangleSlicedQam16 w) = w"
  by (rule bit_word_eqI, unfold bit_rules, auto)+

lemma bitMangle_not: "bitMangleSliced w = bitMangleSlicedQam16 (NOT w)"
  by (simp add: bitMangleSliced_def bitMangleSlicedQam16_def)

section \<open>Counting bits\<close>

lemma nat_and_pred_even: "0 < m \<Longrightarrow> (2 * m) AND (2 * m - 1) = 2 * (m AND (m - 1))" for m :: nat
proof (rule bit_eqI)
  fix n
  assume "0 < m"
  then have half: "(2 * m - 1) div 2 = m - 1" by auto
  show "bit ((2 * m) AND (2 * m - 1)) n = bit (2 * (m AND (m - 1))) n"
    unfolding bit_and_iff by (cases n) (simp_all add: bit_Suc half [simplified] bit_0 bit_and_iff)
qed

lemma nat_and_pred_odd: "Suc (2 * m) AND (2 * m) = 2 * m"
proof (rule bit_eqI)
  fix n
  show "bit (Suc (2 * m) AND (2 * m)) n = bit (2 * m) n"
    unfolding bit_and_iff by (cases n) (simp_all add: bit_Suc bit_0)
qed

lemma finite_nat_bits: "finite {i. bit (n :: nat) i}"
proof (rule finite_subset)
  show "{i. bit n i} \<subseteq> {..<n}"
  proof
    fix i
    assume "i \<in> {i. bit n i}"
    then have "2 ^ i \<le> n" by (auto simp: bit_iff_odd intro!: leI)
    moreover have "i < 2 ^ i" by simp
    ultimately show "i \<in> {..<n}" unfolding lessThan_iff by linarith
  qed
qed simp

lemma bits_double: "{i. bit (2 * n :: nat) i} = Suc ` {i. bit n i}"
proof (rule set_eqI)
  fix i
  show "i \<in> {i. bit (2 * n) i} \<longleftrightarrow> i \<in> Suc ` {i. bit n i}"
    by (cases i) (auto simp: bit_Suc bit_0)
qed

lemma bits_double_Suc: "{i. bit (Suc (2 * n)) i} = insert 0 (Suc ` {i. bit n i})"
proof (rule set_eqI)
  fix i
  show "i \<in> {i. bit (Suc (2 * n)) i} \<longleftrightarrow> i \<in> insert 0 (Suc ` {i. bit n i})"
    by (cases i) (auto simp: bit_Suc bit_0)
qed

lemma card_and_pred: "0 < n \<Longrightarrow> card {i. bit (n :: nat) i} = Suc (card {i. bit (n AND (n - 1)) i})"
proof (induction n rule: less_induct)
  case (less n)
  show ?case
  proof (cases "even n")
    case True
    then obtain m where m: "n = 2 * m" by (elim evenE)
    with less have "card {i. bit m i} = Suc (card {i. bit (m AND (m - 1)) i})" by simp
    then show ?thesis
      using less.prems nat_and_pred_even [of m] unfolding m by (simp add: bits_double card_image)
  next
    case False
    then obtain m where m: "n = Suc (2 * m)" by (elim oddE) simp
    show ?thesis
      using m by (simp add: nat_and_pred_odd bits_double_Suc bits_double card_image finite_nat_bits)
  qed
qed

lemma count_loop_card: "count_loop c v = c + card {i. bit v i}"
proof (induction c v rule: count_loop.induct)
  case (1 c v)
  show ?case
  proof (cases "v = 0")
    case True
    then show ?thesis by (simp add: count_loop.simps [of c 0])
  next
    case False
    then have "unat (v - 1) = unat v - 1" by (rule unat_minus_one)
    then have u: "unat (v AND (v - 1)) = unat v AND (unat v - 1)"
      by (simp add: unsigned_and_eq)
    have bits: "{i. bit w i} = {i. bit (unat w) i}" for w :: u32
      by (auto simp: bit_unsigned_iff dest: bit_imp_le_length)
    have "card {i. bit v i} = Suc (card {i. bit (v AND (v - 1)) i})"
      unfolding bits [of v] bits [of "v AND (v - 1)"] u
      using False by (intro card_and_pred) (simp add: unat_gt_0)
    with 1 False show ?thesis by (simp add: count_loop.simps [of c v])
  qed
qed

section \<open>Vertical words\<close>

definition sliced_pair :: "bool \<Rightarrow> u32 \<Rightarrow> nat \<Rightarrow> u32" where
  "sliced_pair invert_bits w choose_bit =
     (let result = drop_bit choose_bit w AND 3;
          result' = (if result = 1 then 2 else if result = 2 then 1 else result)
      in if invert_bits then NOT result' AND 3 else result')"

lemma word_pair_cases:
  obtains "w AND 3 = (0 :: u32)" "\<not> bit w 0" "\<not> bit w 1" | "w AND 3 = (1 :: u32)" "bit w 0" "\<not> bit w 1"
    | "w AND 3 = (2 :: u32)" "\<not> bit w 0" "bit w 1" | "w AND 3 = (3 :: u32)" "bit w 0" "bit w 1"
proof -
  have bits: "w AND 3 = v" if "\<And>n. bit v n \<longleftrightarrow> n < 2 \<and> bit w n" for v :: u32
    by (rule bit_word_eqI) (auto simp: that bit_and_iff bit_3)
  have "w AND 3 = 0" if "\<not> bit w 0" "\<not> bit w 1"
    using that by (intro bits) (auto simp: less_2_cases_iff intro!: gr0I)
  moreover have "w AND 3 = 1" if "bit w 0" "\<not> bit w 1"
    using that by (intro bits) (auto simp: less_2_cases_iff bit_1_word)
  moreover have "w AND 3 = 2" if "\<not> bit w 0" "bit w 1"
    using that by (intro bits) (auto simp: less_2_cases_iff bit_2_word)
  moreover have "w AND 3 = 3" if "bit w 0" "bit w 1"
    using that by (intro bits) (auto simp: less_2_cases_iff bit_3)
  ultimately show ?thesis
    using that by (cases "bit w 0"; cases "bit w 1") simp_all
qed

lemma pair_numeral_bits:
  "bit (0 :: u32) n = False" "bit (1 :: u32) n = (n = 0)" "bit (2 :: u32) n = (n = 1)"
  "bit (3 :: u32) n = (n = 0 \<or> n = 1)"
  by (auto simp: bit_1_word bit_2_word bit_3 less_2_cases_iff)

lemma not_pair_numerals:
  "NOT 0 AND 3 = (3 :: u32)" "NOT 1 AND 3 = (2 :: u32)" "NOT 2 AND 3 = (1 :: u32)" "NOT 3 AND 3 = (0 :: u32)"
  by simp_all

lemma sliced_pair_bit:
  "bit (sliced_pair invert w c) n \<longleftrightarrow>
    n = 0 \<and> bit w (c + 1) \<noteq> invert \<or> n = 1 \<and> bit w c \<noteq> invert"
proof (cases "drop_bit c w" rule: word_pair_cases)
  case 1
  then show ?thesis
    by (cases invert) (auto simp: sliced_pair_def bit_drop_word not_pair_numerals pair_numeral_bits)
next
  case 2
  then show ?thesis
    by (cases invert) (auto simp: sliced_pair_def bit_drop_word not_pair_numerals pair_numeral_bits)
next
  case 3
  then show ?thesis
    by (cases invert) (auto simp: sliced_pair_def bit_drop_word not_pair_numerals pair_numeral_bits)
next
  case 4
  then show ?thesis
    by (cases invert) (auto simp: sliced_pair_def bit_drop_word not_pair_numerals pair_numeral_bits)
qed

lemma sliced_pair_is_pair: "is_pair (sliced_pair invert w c)"
  by (auto simp: is_pair_def sliced_pair_bit)

lemma fold_option_map_option:
  "(\<And>x. x \<in> set xs \<Longrightarrow> g x = Some (h x)) \<Longrightarrow>
    fold_option (\<lambda>x acc. map_option (\<lambda>y. f y acc) (g x)) xs a = Some (fold (\<lambda>x. f (h x)) xs a)"
  by (intro fold_option_Some) simp

lemma extract_vertical_pairs:
  assumes "\<And>k. k < 16 \<Longrightarrow> (i + k) * (sc div 16) + j div 16 < length slc"
  shows "extract_vertical invert slc j i sc = Some (fold push_pair
    (map (\<lambda>k. sliced_pair invert (slc ! (k * (sc div 16) + j div 16)) (j mod 16 * 2)) [i..<i + 16]) 0)"
proof -
  have "get_bit_pair_sliced invert slc j k sc =
      Some (sliced_pair invert (slc ! (k * (sc div 16) + j div 16)) (j mod 16 * 2))"
    if "k \<in> set [i..<i + 16]" for k
  proof -
    have "k * (sc div 16) + j div 16 < length slc"
      using assms [of "k - i"] that by auto
    then show ?thesis
      by (simp add: get_bit_pair_sliced_def sliced_pair_def Let_def minus_div_mult_eq_mod)
  qed
  then show ?thesis
    unfolding extract_vertical_def fold_push_map
      [of "\<lambda>k. sliced_pair invert (slc ! (k * (sc div 16) + j div 16)) (j mod 16 * 2)", symmetric]
    by (rule fold_option_map_option)
qed

lemma bit_pairs_16:
  assumes "\<And>k. is_pair (f k)"
  shows "bit (fold push_pair (map f [i..<i + 16]) 0) n \<longleftrightarrow>
    n < 32 \<and> bit (f (i + (15 - n div 2))) (n mod 2)"
proof -
  have "map f [i..<i + 16] ! (15 - n div 2) = f (i + (15 - n div 2))" if "n < 32"
    using that by (subst nth_map) auto
  then show ?thesis
    using assms by (subst bit_push_pairs) auto
qed

lemma bit_new_sync_frame:
  "bit (new_sync_frame sync i) n \<longleftrightarrow> n < 32 \<and> bit sync (i + n mod 2)"
proof -
  let ?p = "(drop_bit i sync AND 1) OR push_bit 1 (drop_bit (i + 1) sync AND 1)"
  have p: "bit ?p n \<longleftrightarrow> n = 0 \<and> bit sync i \<or> n = 1 \<and> bit sync (i + 1)" for n
    unfolding bit_rules by auto
  then have "is_pair ?p" by (auto simp: is_pair_def)
  then have "bit (new_sync_frame sync i) n \<longleftrightarrow> n < 32 \<and> bit ?p (n mod 2)"
    using bit_pairs_16 [of "\<lambda>_. ?p" 0 n]
    unfolding new_sync_frame_def Let_def fold_push_map [of "\<lambda>_. ?p"] by simp
  moreover have "n mod 2 = 0 \<or> n mod 2 = 1" by linarith
  ultimately show ?thesis unfolding p by (elim disjE) simp_all
qed

lemma data_sync_concat:
  "new_subcarrier_data_sync data sync sc =
    data @ concat (map (\<lambda>i. replicate (sc div 16) (new_sync_frame sync i)) frame_shifts)"
proof -
  have "fold (\<lambda>i d. d @ f i) is d = d @ concat (map f is)" for f and "is" :: "nat list" and d :: "u32 list"
    by (induction "is" arbitrary: d) simp_all
  then show ?thesis by (simp add: new_subcarrier_data_sync_def)
qed

lemma length_frame_shifts [simp]: "length frame_shifts = 16"
  by (simp add: frame_shifts_def)

lemma nth_frame_shifts: "k < 16 \<Longrightarrow> frame_shifts ! k = 30 - 2 * k"
  unfolding frame_shifts_def by (subst nth_map) auto

lemma length_concat_replicate [simp]:
  "length (concat (map (\<lambda>x. replicate w (f x)) xs)) = length xs * w"
  by (induction xs) simp_all

lemma nth_concat_replicate:
  "k < length xs \<Longrightarrow> c < w \<Longrightarrow> concat (map (\<lambda>x. replicate w (f x)) xs) ! (k * w + c) = f (xs ! k)"
proof (induction xs arbitrary: k)
  case (Cons x xs)
  then show ?case by (cases k) (simp_all add: nth_append)
qed simp

lemma length_data_sync: "length (new_subcarrier_data_sync [] sync sc) = 16 * (sc div 16)"
  by (simp add: data_sync_concat)

lemma nth_data_sync:
  "k < 16 \<Longrightarrow> c < sc div 16 \<Longrightarrow>
    new_subcarrier_data_sync [] sync sc ! (k * (sc div 16) + c) = new_sync_frame sync (30 - 2 * k)"
  using nth_concat_replicate [of k frame_shifts c "sc div 16" "new_sync_frame sync"] nth_frame_shifts [of k]
  by (simp add: data_sync_concat)

lemma vertical_word:
  assumes tx: "\<And>k c. k < 16 \<Longrightarrow> c < sc div 16 \<Longrightarrow>
      (i + k) * (sc div 16) + c < length slc \<and>
      slc ! ((i + k) * (sc div 16) + c) = mangle (new_sync_frame word (30 - 2 * k))"
    and mangle: "\<And>w n. bit (mangle w) n \<longleftrightarrow> n < 32 \<and> bit w (31 - n) \<noteq> invert"
    and j: "j div 16 < sc div 16"
  shows "extract_vertical invert slc j i sc = Some word"
proof -
  let ?f = "\<lambda>k. sliced_pair invert (slc ! (k * (sc div 16) + j div 16)) (j mod 16 * 2)"
  have "fold push_pair (map ?f [i..<i + 16]) 0 = word"
  proof (rule bit_word_eqI)
    fix n
    assume n: "n < LENGTH(32)"
    let ?k = "15 - n div 2"
    have w: "slc ! ((i + ?k) * (sc div 16) + j div 16) = mangle (new_sync_frame word (30 - 2 * ?k))"
      using tx [of ?k "j div 16"] j by simp
    have q: "j mod 16 < 16" by simp
    have e: "30 - j mod 16 * 2 = 2 * (15 - j mod 16)" using q by linarith
    have o: "31 - j mod 16 * 2 = 2 * (15 - j mod 16) + 1" using q by linarith
    have c1: "(30 - j mod 16 * 2) mod 2 = 0" unfolding e by simp
    have c2: "(31 - j mod 16 * 2) mod 2 = 1" unfolding o by simp
    have c3: "31 - (j mod 16 * 2 + 1) = 30 - j mod 16 * 2" "j mod 16 * 2 < 31"
      "30 - j mod 16 * 2 < 32" "j mod 16 * 2 < 32" using q by linarith+
    note c = c1 c2 c3
    have s: "30 - 2 * ?k = 2 * (n div 2)" using n by auto
    have "bit (?f (i + ?k)) (n mod 2) = bit word (2 * (n div 2) + n mod 2)"
    proof (cases "n mod 2 = 0")
      case True
      then show ?thesis unfolding sliced_pair_bit w s by (auto simp: mangle bit_new_sync_frame c)
    next
      case False
      then have "n mod 2 = 1" by simp
      then show ?thesis unfolding sliced_pair_bit w s by (auto simp: mangle bit_new_sync_frame c)
    qed
    moreover have "2 * (n div 2) + n mod 2 = n" by simp
    ultimately show "bit (fold push_pair (map ?f [i..<i + 16]) 0) n = bit word n"
      using n unfolding bit_pairs_16 [of ?f, OF sliced_pair_is_pair] by simp
  qed
  then show ?thesis
    using extract_vertical_pairs [of i sc j slc invert] tx j by simp
qed

section \<open>What the code promises\<close>

text \<open>\<open>count_bit_set\<close> returns, for every word, the number of its set bits.
\<close>
lemma count_bit_set_is_popcount: "count_bit_set v = card {n. bit v n}"
  by (simp add: count_bit_set_def count_loop_card)

text \<open>
  The mangling of a sliced word is its mirror image with every bit complemented, the QAM16
  variant the mirror image alone; so each undoes itself and neither loses information.
\<close>
lemma bit_mangle_mirror:
  "(\<forall>n < 32. bit (bitMangleSliced w) n = (\<not> bit w (31 - n))) \<and>
   (\<forall>n < 32. bit (bitMangleSlicedQam16 w) n = bit w (31 - n)) \<and>
   bitMangleSliced (bitMangleSliced w) = w \<and> bitMangleSlicedQam16 (bitMangleSlicedQam16 w) = w"
  by (simp add: bit_bitMangleSliced bit_bitMangleSlicedQam16)

theorem bit_mangle_mirror_witness: "bitMangleSliced 0x0000000D = 0x4FFFFFFF"
proof -
  have "bitMangleSliced (bitMangleSliced 0x4FFFFFFF) = 0x4FFFFFFF"
    using bit_mangle_mirror [of "0x4FFFFFFF"] by blast
  moreover have "bitMangleSliced 0x4FFFFFFF = 0xD"
    by code_simp
  ultimately show ?thesis by simp
qed

text \<open>
  A word sent vertically with \<open>new_subcarrier_data_sync\<close> arrives on every enabled
  subcarrier: if the receiver's buffer holds, from frame \<open>i\<close> on, the mangled words of the 16
  frames, then for each subcarrier \<open>j\<close> the vertical extraction returns the word.
\<close>
lemma vertical_word_roundtrip:
  assumes "sc mod 16 = 0" "j < sc" "length prefix = i * (sc div 16)"
  shows "extract_vertical_from_sliced
      (prefix @ map bitMangleSliced (new_subcarrier_data_sync [] word sc) @ rest) j i sc = Some word"
    (is "extract_vertical_from_sliced ?slc j i sc = _")
proof -
  have "(i + k) * (sc div 16) + c < length ?slc \<and>
      ?slc ! ((i + k) * (sc div 16) + c) = bitMangleSliced (new_sync_frame word (30 - 2 * k))"
    if "k < 16" "c < sc div 16" for k c
  proof -
    have off: "(i + k) * (sc div 16) + c = length prefix + (k * (sc div 16) + c)"
      using assms(3) by (simp add: algebra_simps)
    have "k * (sc div 16) + c < Suc k * (sc div 16)" using that(2) by simp
    also have "\<dots> \<le> 16 * (sc div 16)" using that(1) by (intro mult_le_mono1) simp
    finally have "k * (sc div 16) + c < length (new_subcarrier_data_sync [] word sc)"
      by (simp add: length_data_sync)
    then show ?thesis
      unfolding off using nth_data_sync [OF that] by (simp add: nth_append)
  qed
  then show ?thesis
    unfolding extract_vertical_from_sliced_def using assms(1,2)
    by (intro vertical_word [of sc i ?slc bitMangleSliced word True j])
      (auto simp: bit_bitMangleSliced div_less_iff_less_mult)
qed

theorem vertical_word_roundtrip_witness:
  "extract_vertical_from_sliced
    ([1, 2] @ map bitMangleSliced (new_subcarrier_data_sync [] 0xBEEFBABE 32) @ [3]) 17 1 32 = Some 0xBEEFBABE"
  by (rule vertical_word_roundtrip) simp_all

end
