(* ===== verification/Air_Transforms.thy ===== *)
theory Air_Transforms
  imports Std_Map Interfaces
begin

text \<open>
  \<open>soapy/src/driver/AirPacket.cpp\<close>, the index transforms: which received word stands at a
  given place of the packet. Each \<open>TransformWords\<close> class reverses the words of an OFDM frame;
  they are the interpretations of \<open>word_permutation\<close>. \<open>FirstTransform\<close> is an older
  stretching transform whose inverse is tabulated by \<open>AirPacketTransformSingle::build_cache\<close>.
  The index arithmetic is \<open>unsigned\<close> and wraps.
\<close>

section \<open>The code\<close>

definition TransformWords128 :: "u32 \<Rightarrow> bool \<times> u32" where
  "TransformWords128 in_i =
     (let enab_words = 8;
          d = in_i div enab_words;
          sub = (2 * enab_words) * d + (enab_words - 1);
          ret = sub - in_i
      in (True, ret))"

definition TransformWords128Qam16 :: "u32 \<Rightarrow> bool \<times> u32" where
  "TransformWords128Qam16 in_i =
     (let enab_words = 16;
          d = in_i div enab_words;
          sub = (2 * enab_words) * d + (enab_words - 1);
          ret = sub - in_i
      in (True, ret))"

definition TransformWords128Qam16Sc320 :: "u32 \<Rightarrow> bool \<times> u32" where
  "TransformWords128Qam16Sc320 in_i =
     (let enab_words = 40;
          d = in_i div enab_words;
          sub = (2 * enab_words) * d + (enab_words - 1);
          ret = sub - in_i
      in (True, ret))"

definition TransformWords128QpskSc320 :: "u32 \<Rightarrow> bool \<times> u32" where
  "TransformWords128QpskSc320 in_i =
     (let enab_words = 20;
          d = in_i div enab_words;
          sub = (2 * enab_words) * d + (enab_words - 1);
          ret = sub - in_i
      in (True, ret))"

definition TransformWords128QpskSc64 :: "u32 \<Rightarrow> bool \<times> u32" where
  "TransformWords128QpskSc64 in_i =
     (let enab_words = 4;
          d = in_i div enab_words;
          sub = (2 * enab_words) * d + (enab_words - 1);
          ret = sub - in_i
      in (True, ret))"

definition TransformWordsGeneric1 :: "u32 \<Rightarrow> u32 \<Rightarrow> bool \<times> u32" where
  "TransformWordsGeneric1 sliced_words in_i =
     (let d = in_i div sliced_words;
          sub = (2 * sliced_words) * d + (sliced_words - 1);
          ret = sub - in_i
      in (True, ret))"

definition FirstTransform :: "u32 \<Rightarrow> u32 \<times> bool" where
  "FirstTransform i =
     (let ret = i * 2;
          bound = 46;
          bound_half = bound div 2;
          b = i div bound_half;
          ret' = ret + b * (128 - bound)
      in (ret', True))"

record transform_cache =
  cache_valid :: bool
  cache_reverse :: "(u32, u32) std_map"

definition build_cache :: "(u32 \<Rightarrow> u32 \<times> bool) \<Rightarrow> nat \<Rightarrow> transform_cache \<Rightarrow> transform_cache" where
  "build_cache t max_i c =
     (fold (\<lambda>i c. let (val, valid) = t (of_nat i)
                  in if valid then c\<lparr>cache_reverse := sm_insert val (of_nat i) (cache_reverse c)\<rparr>
                     else c)
        [0..<max_i] c)\<lparr>cache_valid := True\<rparr>"

text \<open>\<open>r(i, i_out, valid)\<close>: the new values of the two reference arguments.\<close>

definition cache_r :: "transform_cache \<Rightarrow> u32 \<Rightarrow> u32 \<Rightarrow> u32 \<times> bool" where
  "cache_r c i i_out = (case sm_find i (cache_reverse c) of
     Some v \<Rightarrow> (v, True) | None \<Rightarrow> (i_out, False))"

section \<open>Reversing the words of a frame\<close>

lemma generic_reverses:
  assumes "0 < n" "n < 2 ^ 32" "unat i div n * n + n \<le> 2 ^ 32"
  shows "unat (snd (TransformWordsGeneric1 (of_nat n) i)) = unat i div n * n + (n - 1 - unat i mod n)"
proof -
  let ?d = "unat i div n" and ?m = "unat i mod n"
  have n: "unat (of_nat n :: u32) = n" using assms(2) by simp
  have d: "i div of_nat n = of_nat ?d"
    by (rule unsigned_word_eqI [where 'a = nat]) (simp add: unat_div n)
  have i: "i = of_nat (?d * n + ?m)" by simp
  have m: "?m < n" using assms(1) by simp
  have twice: "2 * n * ?d = ?d * n + ?d * n" by simp
  then have le: "?d * n + ?m \<le> 2 * n * ?d + (n - 1)" using m by linarith
  have "snd (TransformWordsGeneric1 (of_nat n) i)
      = of_nat (2 * n * ?d + (n - 1)) - of_nat (?d * n + ?m)"
    unfolding TransformWordsGeneric1_def Let_def d snd_conv using assms(1) i
    by (simp add: of_nat_diff algebra_simps)
  also have "\<dots> = of_nat (2 * n * ?d + (n - 1) - (?d * n + ?m))"
    using le by (rule of_nat_diff [symmetric])
  also have "2 * n * ?d + (n - 1) - (?d * n + ?m) = ?d * n + (n - 1 - ?m)"
    using m twice by linarith
  finally have t: "snd (TransformWordsGeneric1 (of_nat n) i) = of_nat (?d * n + (n - 1 - ?m))" .
  have "?d * n + (n - 1 - ?m) < 4294967296" using assms(1,3) by simp
  then show ?thesis unfolding t by (rule unat_of_nat_u32)
qed

lemma generic_permutation:
  "0 < n \<Longrightarrow> n < 2 ^ 32 \<Longrightarrow> word_permutation n (\<lambda>i. snd (TransformWordsGeneric1 (of_nat n) i))"
  by unfold_locales (simp_all only: generic_reverses)

lemma transforms_generic:
  "TransformWords128 = TransformWordsGeneric1 (of_nat 8)"
  "TransformWords128Qam16 = TransformWordsGeneric1 (of_nat 16)"
  "TransformWords128Qam16Sc320 = TransformWordsGeneric1 (of_nat 40)"
  "TransformWords128QpskSc320 = TransformWordsGeneric1 (of_nat 20)"
  "TransformWords128QpskSc64 = TransformWordsGeneric1 (of_nat 4)"
  by (simp_all add: fun_eq_iff TransformWords128_def TransformWords128Qam16_def
      TransformWords128Qam16Sc320_def TransformWords128QpskSc320_def TransformWords128QpskSc64_def
      TransformWordsGeneric1_def)

interpretation qpsk128: word_permutation 8 "\<lambda>i. snd (TransformWords128 i)"
  unfolding transforms_generic by (rule generic_permutation) simp_all

interpretation qam128: word_permutation 16 "\<lambda>i. snd (TransformWords128Qam16 i)"
  unfolding transforms_generic by (rule generic_permutation) simp_all

interpretation qam320: word_permutation 40 "\<lambda>i. snd (TransformWords128Qam16Sc320 i)"
  unfolding transforms_generic by (rule generic_permutation) simp_all

interpretation qpsk320: word_permutation 20 "\<lambda>i. snd (TransformWords128QpskSc320 i)"
  unfolding transforms_generic by (rule generic_permutation) simp_all

interpretation qpsk64: word_permutation 4 "\<lambda>i. snd (TransformWords128QpskSc64 i)"
  unfolding transforms_generic by (rule generic_permutation) simp_all

section \<open>The cache\<close>

lemma build_cache_find:
  assumes "sm_ok (cache_reverse c)" "\<forall>k. sm_find k (cache_reverse c) = None"
    and valid: "\<And>i. i < n \<Longrightarrow> snd (t (of_nat i))"
    and inj: "\<And>i j. i < n \<Longrightarrow> j < n \<Longrightarrow> fst (t (of_nat i)) = fst (t (of_nat j)) \<Longrightarrow> i = j"
  shows "sm_ok (cache_reverse (build_cache t n c)) \<and>
    (sm_find k (cache_reverse (build_cache t n c)) = Some v \<longleftrightarrow>
      (\<exists>i < n. fst (t (of_nat i)) = k \<and> v = of_nat i))"
proof -
  let ?step = "\<lambda>i c. let (val, valid) = t (of_nat i)
      in if valid then c\<lparr>cache_reverse := sm_insert val (of_nat i) (cache_reverse c)\<rparr> else c"
  have "sm_ok (cache_reverse (fold ?step [0..<m] c)) \<and>
      (\<forall>k v. sm_find k (cache_reverse (fold ?step [0..<m] c)) = Some v \<longleftrightarrow>
        (\<exists>i < m. fst (t (of_nat i)) = k \<and> v = of_nat i))" if "m \<le> n" for m
    using that
  proof (induction m)
    case 0
    then show ?case using assms(1,2) by simp
  next
    case (Suc m)
    define c' where "c' = fold ?step [0..<m] c"
    have IH: "sm_ok (cache_reverse c')"
      "\<And>k v. sm_find k (cache_reverse c') = Some v \<longleftrightarrow> (\<exists>i < m. fst (t (of_nat i)) = k \<and> v = of_nat i)"
      using Suc unfolding c'_def by auto
    have step: "cache_reverse (fold ?step [0..<Suc m] c) =
        sm_insert (fst (t (of_nat m))) (of_nat m) (cache_reverse c')"
      using valid [of m] Suc.prems by (simp add: case_prod_beta Let_def c'_def)
    have new: "sm_find (fst (t (of_nat m))) (cache_reverse c') = None"
    proof (rule ccontr)
      assume "sm_find (fst (t (of_nat m))) (cache_reverse c') \<noteq> None"
      then obtain i where "i < m" "fst (t (of_nat i)) = fst (t (of_nat m))"
        using IH(2) by blast
      with inj [of i m] Suc.prems show False by simp
    qed
    have other: "fst (t (of_nat i)) \<noteq> fst (t (of_nat m))" if "i < m" for i
      using inj [of i m] that Suc.prems by auto
    show ?case
      unfolding step using IH new by (auto simp: sm_rules less_Suc_eq other)
  qed
  from this [of n] show ?thesis by (simp add: build_cache_def)
qed

lemma FirstTransform_unat:
  assumes "i < 2 ^ 29"
  shows "unat (fst (FirstTransform (of_nat i))) = 2 * i + i div 23 * 82"
proof -
  have i: "unat (of_nat i :: u32) = i" using assms by simp
  have d: "(of_nat i :: u32) div 23 = of_nat (i div 23)"
    using unat_of_nat_div [of "of_nat i" 23] i
    by (intro unsigned_word_eqI [where 'a = nat]) (simp add: unat_div)
  have "fst (FirstTransform (of_nat i)) = (of_nat (2 * i + i div 23 * 82) :: u32)"
    by (simp add: FirstTransform_def Let_def d mult.commute)
  moreover have "2 * i + i div 23 * 82 < 4294967296" using assms by simp
  ultimately show ?thesis by (simp only: unat_of_nat_u32)
qed

lemma FirstTransform_inj:
  assumes "i < 2 ^ 29" "j < 2 ^ 29" "fst (FirstTransform (of_nat i)) = fst (FirstTransform (of_nat j))"
  shows "i = j"
proof -
  have "2 * i + i div 23 * 82 = 2 * j + j div 23 * 82"
    using FirstTransform_unat [OF assms(1)] FirstTransform_unat [OF assms(2)] assms(3) by simp
  moreover have "i div 23 \<le> j div 23" if "i \<le> j" using that by (rule div_le_mono)
  moreover have "j div 23 \<le> i div 23" if "j \<le> i" using that by (rule div_le_mono)
  ultimately show ?thesis by linarith
qed

section \<open>What the code promises\<close>

text \<open>
  Every frame transform of the receiver is its own inverse on the words of a frame that ends
  below \<open>2 ^ 32\<close>, and never leaves the frame: position \<open>k\<close> of a frame of \<open>n\<close>
  words is exchanged with position \<open>n - 1 - k\<close>.
\<close>
lemma frame_transforms_reverse:
  assumes "(n, t) \<in> {(8, TransformWords128), (16, TransformWords128Qam16),
      (40, TransformWords128Qam16Sc320), (20, TransformWords128QpskSc320), (4, TransformWords128QpskSc64)}"
    and "unat i div n * n + n \<le> 2 ^ 32"
  shows "unat (snd (t i)) = unat i div n * n + (n - 1 - unat i mod n) \<and> snd (t (snd (t i))) = i"
  using assms qpsk128.t_reverses [of i] qpsk128.t_involution [of i] qam128.t_reverses [of i]
    qam128.t_involution [of i] qam320.t_reverses [of i] qam320.t_involution [of i]
    qpsk320.t_reverses [of i] qpsk320.t_involution [of i] qpsk64.t_reverses [of i]
    qpsk64.t_involution [of i]
  by (elim insertE emptyE) (simp_all only: prod.inject HOL.simp_thms)

theorem frame_transforms_reverse_witness: "snd (TransformWords128QpskSc320 (snd (TransformWords128QpskSc320 47))) = 47"
  using frame_transforms_reverse [of 20 TransformWords128QpskSc320 47] by simp

text \<open>
  The tabulated inverse of \<open>FirstTransform\<close> is right: after \<open>build_cache\<close> for
  \<open>max\<close> entries, \<open>r\<close> takes the image of each \<open>i < max\<close> back to \<open>i\<close>, and reports
  every other word invalid, leaving \<open>i_out\<close> alone.
\<close>
lemma first_transform_cache:
  assumes "max_i \<le> 2 ^ 29" and "i < max_i" and "\<forall>j < max_i. fst (FirstTransform (of_nat j)) \<noteq> k"
  shows "let c = build_cache FirstTransform max_i \<lparr>cache_valid = False, cache_reverse = []\<rparr>
    in cache_r c (fst (FirstTransform (of_nat i))) old = (of_nat i, True) \<and> cache_r c k old = (old, False)"
proof -
  let ?c = "build_cache FirstTransform max_i \<lparr>cache_valid = False, cache_reverse = []\<rparr>"
  have inj: "i = j" if "i < max_i" "j < max_i"
    "fst (FirstTransform (of_nat i)) = fst (FirstTransform (of_nat j))" for i j
    using that assms(1) by (intro FirstTransform_inj) auto
  have find: "sm_find k (cache_reverse ?c) = Some v \<longleftrightarrow>
      (\<exists>i < max_i. fst (FirstTransform (of_nat i)) = k \<and> v = of_nat i)" for v k
    using build_cache_find [of "\<lparr>cache_valid = False, cache_reverse = []\<rparr>" max_i FirstTransform k v] inj
    by (simp add: FirstTransform_def)
  have "sm_find (fst (FirstTransform (of_nat i))) (cache_reverse ?c) = Some (of_nat i)"
    using find assms(2) by blast
  moreover have "sm_find k (cache_reverse ?c) = None"
    using find [of k] assms(3) by (cases "sm_find k (cache_reverse ?c)") auto
  ultimately show ?thesis by (simp add: cache_r_def Let_def)
qed

theorem first_transform_cache_witness:
  "cache_r (build_cache FirstTransform 50 \<lparr>cache_valid = False, cache_reverse = []\<rparr>) 1 7 = (7, False)"
proof -
  have odd: "fst (FirstTransform (of_nat i)) \<noteq> 1" if "i < 50" for i
  proof
    assume "fst (FirstTransform (of_nat i)) = 1"
    with FirstTransform_unat [of i] that have one: "2 * i + i div 23 * 82 = 1" by simp
    have "even (2 * i + i div 23 * 82)" by simp
    then show False unfolding one by simp
  qed
  have "let c = build_cache FirstTransform 50 \<lparr>cache_valid = False, cache_reverse = []\<rparr>
    in cache_r c (fst (FirstTransform (of_nat 0))) 7 = (of_nat 0, True) \<and> cache_r c 1 7 = (7, False)"
    by (rule first_transform_cache) (simp_all add: odd)
  then show ?thesis unfolding Let_def by (rule conjunct2)
qed

end
