(* ===== verification/Interleaving.thy ===== *)
theory Interleaving
  imports Interfaces
begin

text \<open>
  \<open>soapy/src/driver/Interleaver.cpp\<close>: the block interleaver. A block of
  \<open>required_stream_size\<close> words (a multiple of four) is written as four rows of bytes and read
  out by columns. The byte table \<open>block_interleaver\<close> is rewritten on every call, so it is a
  value here and not a state. Messages are cut in blocks, the last one filled with
  \<open>INTERLEAVE_REMOVE_KEY\<close> words, which the receiver strips off the end again.
\<close>

section \<open>The code\<close>

abbreviation INTERLEAVE_REMOVE_KEY :: u32 where "INTERLEAVE_REMOVE_KEY \<equiv> 0xACEF12AB"
abbreviation M_ROWS :: nat where "M_ROWS \<equiv> 4"

definition calculate_words_for_code :: "nat \<Rightarrow> nat" where
  "calculate_words_for_code c_len = (if c_len mod 4 \<noteq> 0 then (c_len div 4 + 1) * 4 else c_len)"

definition calculate_blocks_for_length :: "nat \<Rightarrow> nat \<Rightarrow> nat" where
  "calculate_blocks_for_length len c_len =
     (let req = calculate_words_for_code c_len
      in if len mod req \<noteq> 0 then len div req + 1 else len div req)"

record interleaver =
  required_stream_size :: nat
  code_length :: nat
  auto_remove_tail :: bool

definition Interleaver :: "nat \<Rightarrow> interleaver" where
  "Interleaver col_length =
     \<lparr>required_stream_size = calculate_words_for_code col_length,
      code_length = calculate_words_for_code col_length, auto_remove_tail = True\<rparr>"

definition length_ok :: "interleaver \<Rightarrow> nat \<Rightarrow> bool" where
  "length_ok t sz \<longleftrightarrow> sz = required_stream_size t"

definition load_block_interleaver :: "interleaver \<Rightarrow> u32 list \<Rightarrow> nat \<Rightarrow> u8 list list" where
  "load_block_interleaver t data_stream stream_size =
     map (\<lambda>i. vslice (4 * (i * (stream_size div 4))) (code_length t) (vec_bytes data_stream)) [0..<M_ROWS]"

definition load_block_deinterleaver :: "interleaver \<Rightarrow> u32 list \<Rightarrow> u8 list list" where
  "load_block_deinterleaver t data_stream =
     map (\<lambda>r. map (\<lambda>i. ucast (drop_bit (8 * r) (data_stream ! i) AND 0xFF)) [0..<code_length t]) [0..<M_ROWS]"

definition inplace_interleave_block :: "interleaver \<Rightarrow> u32 list \<Rightarrow> bool \<times> u32 list" where
  "inplace_interleave_block t data_stream =
     (let sz = length data_stream in
      if sz \<noteq> required_stream_size t then (False, data_stream)
      else let b = load_block_interleaver t data_stream sz
        in (True, map (\<lambda>i. ucast (b ! 0 ! i) OR push_bit 8 (ucast (b ! 1 ! i))
              OR push_bit 16 (ucast (b ! 2 ! i)) OR push_bit 24 (ucast (b ! 3 ! i)))
            [0..<code_length t] @ drop (code_length t) data_stream))"

text \<open>The four \<open>memcpy\<close> into the words, each to the offset of its row; then the mask on the
  last word of each row when the code length is not a multiple of four.\<close>

definition copy_rows :: "interleaver \<Rightarrow> nat \<Rightarrow> u8 list list \<Rightarrow> u8 list \<Rightarrow> u8 list" where
  "copy_rows t sz b bytes =
     fold (\<lambda>i bs. let off = 4 * (i * (sz div 4))
              in take off bs @ take (code_length t) (b ! i) @ drop (off + code_length t) bs) [0..<M_ROWS] bytes"

definition inplace_deinterleave_block :: "interleaver \<Rightarrow> u32 list \<Rightarrow> bool \<times> u32 list" where
  "inplace_deinterleave_block t data_stream =
     (let sz = length data_stream in
      if sz \<noteq> required_stream_size t then (False, data_stream)
      else let b = load_block_deinterleaver t data_stream;
               copied = bytes_vec (copy_rows t sz b (vec_bytes data_stream))
        in (True, if code_length t mod 4 \<noteq> 0
              then let m = drop_bit ((4 - code_length t mod 4) * 8) 0xFFFFFFFF
                in fold (\<lambda>i ds. ds[sz div 4 * i - 1 := ds ! (sz div 4 * i - 1) AND m]) [1..<M_ROWS + 1] copied
              else copied))"

text \<open>The two block loops; \<open>n\<close> counts the blocks still to do.\<close>

fun interleave_loop :: "interleaver \<Rightarrow> u32 list \<Rightarrow> nat \<Rightarrow> nat \<Rightarrow> nat \<Rightarrow> u32 list \<Rightarrow> bool \<times> u32 list" where
  "interleave_loop t inp 0 read_start read_end output = (True, output)"
| "interleave_loop t inp (Suc n) read_start read_end output =
     (let modify = vslice read_start (read_end - read_start) inp;
          modify' = vec_resize (required_stream_size t) INTERLEAVE_REMOVE_KEY modify;
          (pass, block) = inplace_interleave_block t modify'
      in if \<not> pass then (False, output)
         else interleave_loop t inp n (read_start + required_stream_size t)
           (min (read_end + required_stream_size t) (length inp)) (output @ block))"

definition interleave :: "interleaver \<Rightarrow> u32 list \<Rightarrow> bool \<times> u32 list" where
  "interleave t inp =
     (let szin = length inp;
          blocks_used = calculate_blocks_for_length szin (required_stream_size t)
      in interleave_loop t inp blocks_used 0 (min szin (required_stream_size t)) [])"

fun deinterleave_loop :: "interleaver \<Rightarrow> u32 list \<Rightarrow> nat \<Rightarrow> nat \<Rightarrow> u32 list \<Rightarrow> bool \<times> u32 list" where
  "deinterleave_loop t inp 0 read_start output = (True, output)"
| "deinterleave_loop t inp (Suc n) read_start output =
     (let modify = vslice read_start (required_stream_size t) inp;
          (pass, block) = inplace_deinterleave_block t modify
      in if \<not> pass then (False, output)
         else deinterleave_loop t inp n (read_start + required_stream_size t) (output @ block))"

definition remove_tail :: "u32 list \<Rightarrow> u32 list" where
  "remove_tail output =
     (let j = length (takeWhile (\<lambda>w. w = INTERLEAVE_REMOVE_KEY) (rev output))
      in if j \<noteq> 0 then take (length output - j) output else output)"

definition deinterleave :: "interleaver \<Rightarrow> u32 list \<Rightarrow> bool \<times> u32 list" where
  "deinterleave t inp =
     (let szin = length inp in
      if szin mod required_stream_size t \<noteq> 0 then (False, [])
      else case deinterleave_loop t inp (szin div required_stream_size t) 0 [] of
         (False, output) \<Rightarrow> (False, output)
       | (True, output) \<Rightarrow> (True, if auto_remove_tail t then remove_tail output else output))"

section \<open>One block\<close>

text \<open>The two block operations as byte transpositions.\<close>

definition il_block :: "nat \<Rightarrow> u32 list \<Rightarrow> u32 list" where
  "il_block n ws = map (\<lambda>j. let b = vec_bytes ws in
     bytes_word (b ! j) (b ! (n + j)) (b ! (2 * n + j)) (b ! (3 * n + j))) [0..<n]"

lemma words_for_code_mod [simp]: "calculate_words_for_code c mod 4 = 0"
  by (simp add: calculate_words_for_code_def)

lemma words_for_code_ge: "c \<le> calculate_words_for_code c"
  by (simp add: calculate_words_for_code_def) linarith

lemma words_for_code_pos: "0 < c \<Longrightarrow> 0 < calculate_words_for_code c"
  using words_for_code_ge [of c] by simp

lemma words_for_code_idem [simp]:
  "calculate_words_for_code (calculate_words_for_code c) = calculate_words_for_code c"
  using words_for_code_mod [of c] unfolding calculate_words_for_code_def [of "calculate_words_for_code c"]
  by simp

lemma interleave_block_eq:
  assumes "length ws = n" "required_stream_size t = n" "code_length t = n" "n mod 4 = 0"
  shows "inplace_interleave_block t ws = (True, il_block n ws)"
proof -
  have q: "4 * (n div 4) = n" using assms(4) by auto
  have row: "vslice (4 * (r * (n div 4))) n (vec_bytes ws) ! i = vec_bytes ws ! (r * n + i)"
    if "r < 4" "i < n" for r i
  proof -
    have "r * n + i < Suc r * n" using that(2) by simp
    also have "\<dots> \<le> 4 * n" using that(1) by (intro mult_le_mono1) simp
    finally have "r * n + i < length (vec_bytes ws)" using assms(1) by simp
    moreover have off: "4 * (r * (n div 4)) = r * n" using q by (metis mult.left_commute)
    ultimately show ?thesis unfolding off using that(2) by (simp add: nth_vslice)
  qed
  define b where "b = load_block_interleaver t ws n"
  have cell: "b ! r ! i = vec_bytes ws ! (r * n + i)" if "r < 4" "i < n" for r i
  proof -
    have "b ! r = vslice (4 * (r * (n div 4))) n (vec_bytes ws)"
      unfolding b_def load_block_interleaver_def assms(3) using that(1) by (subst nth_map) simp_all
    then show ?thesis using row [OF that] by simp
  qed
  have "map (\<lambda>i. ucast (b ! 0 ! i) OR push_bit 8 (ucast (b ! 1 ! i)) OR push_bit 16 (ucast (b ! 2 ! i))
      OR push_bit 24 (ucast (b ! 3 ! i))) [0..<n] = il_block n ws"
    unfolding il_block_def Let_def bytes_word_def
    using cell [of 0] cell [of 1] cell [of 2] cell [of 3]
    by (intro map_cong refl) (simp only: set_upt atLeastLessThan_iff mult_0 mult_1 add_0 zero_less_numeral
      one_less_numeral_iff, simp add: or.assoc)
  then show ?thesis
    using assms by (simp add: inplace_interleave_block_def b_def [symmetric])
qed

lemma length_il_block [simp]: "length (il_block n ws) = n"
  by (simp add: il_block_def)

lemma vslice_parts:
  assumes "length bs = 4 * n"
  shows "vslice 0 n bs @ vslice n n bs @ vslice (2 * n) n bs @ vslice (3 * n) n bs = bs"
proof -
  have "bs = take n bs @ take n (drop n bs) @ take n (drop n (drop n bs)) @ drop n (drop n (drop n bs))"
    by (simp only: append_take_drop_id)
  moreover have "drop n (drop n (drop n bs)) = take n (drop (3 * n) bs)"
    using assms by (simp add: numeral_3_eq_3)
  ultimately show ?thesis
    by (simp add: vslice_def mult_2)
qed

lemma copy_rows_concat:
  assumes "length bs = 4 * n" "code_length t = n" "n mod 4 = 0"
    and "length r0 = n" "length r1 = n" "length r2 = n" "length r3 = n"
  shows "copy_rows t n [r0, r1, r2, r3] bs = r0 @ r1 @ r2 @ r3"
proof -
  have q: "4 * (n div 4) = n" using assms(3) by auto
  have off: "4 * (0 * (n div 4)) = 0" "4 * (1 * (n div 4)) = n" "4 * (2 * (n div 4)) = n + n"
    "4 * (3 * (n div 4)) = n + n + n"
    using q by linarith+
  have rows: "[0..<M_ROWS] = [0, 1, 2, 3]" by (simp add: upt_rec)
  show ?thesis
    unfolding copy_rows_def rows Let_def fold_simps comp_apply id_apply off using assms by simp
qed

lemma il_block_byte:
  assumes "length ws = n" "r < 4" "i < n"
  shows "word_bytes (il_block n ws ! i) ! r = vec_bytes ws ! (r * n + i)"
proof -
  have "r = 0 \<or> r = 1 \<or> r = 2 \<or> r = 3" using assms(2) by auto
  then show ?thesis using assms(3) by (auto simp: il_block_def Let_def)
qed

lemma deinterleave_block_eq:
  assumes "length ws = n" "required_stream_size t = n" "code_length t = n" "n mod 4 = 0"
  shows "inplace_deinterleave_block t (il_block n ws) = (True, ws)"
proof -
  have row: "map (\<lambda>i. ucast (drop_bit (8 * r) (il_block n ws ! i) AND 0xFF)) [0..<n] =
      vslice (r * n) n (vec_bytes ws)" if r: "r < 4" for r
  proof (rule nth_equalityI)
    have "Suc r * n \<le> 4 * n" using r by (intro mult_le_mono1) simp
    then have room: "r * n + n \<le> length (vec_bytes ws)" using assms(1) by simp
    then show "length (map (\<lambda>i. ucast (drop_bit (8 * r) (il_block n ws ! i) AND 0xFF) :: u8) [0..<n]) =
        length (vslice (r * n) n (vec_bytes ws))" by simp
    fix i
    assume "i < length (map (\<lambda>i. ucast (drop_bit (8 * r) (il_block n ws ! i) AND 0xFF) :: u8) [0..<n])"
    then have i: "i < n" by simp
    with room show "map (\<lambda>i. ucast (drop_bit (8 * r) (il_block n ws ! i) AND 0xFF)) [0..<n] ! i =
        vslice (r * n) n (vec_bytes ws) ! i"
      by (simp add: byte_of_word [OF r] il_block_byte [OF assms(1) r] nth_vslice)
  qed
  have "[0..<M_ROWS] = [0, 1, 2, 3]" by (simp add: upt_rec)
  then have load: "load_block_deinterleaver t (il_block n ws) = [vslice 0 n (vec_bytes ws),
      vslice n n (vec_bytes ws), vslice (2 * n) n (vec_bytes ws), vslice (3 * n) n (vec_bytes ws)]"
    using row [of 0] row [of 1] row [of 2] row [of 3]
    unfolding load_block_deinterleaver_def assms(3) by simp
  have "copy_rows t n (load_block_deinterleaver t (il_block n ws)) (vec_bytes (il_block n ws)) = vec_bytes ws"
    unfolding load using assms vslice_parts [of "vec_bytes ws" n]
    by (subst copy_rows_concat [of _ n]) simp_all
  then show ?thesis
    using assms by (simp add: inplace_deinterleave_block_def Let_def)
qed

section \<open>The whole message\<close>

definition il_ok :: "interleaver \<Rightarrow> bool" where
  "il_ok t \<longleftrightarrow> 0 < required_stream_size t \<and> required_stream_size t mod 4 = 0 \<and>
     code_length t = required_stream_size t"

lemma il_ok_Interleaver: "0 < c \<Longrightarrow> il_ok (Interleaver c)"
  by (simp add: il_ok_def Interleaver_def words_for_code_pos)

lemma words_for_code_same: "n mod 4 = 0 \<Longrightarrow> calculate_words_for_code n = n"
  by (simp add: calculate_words_for_code_def)

lemma blocks_bounds:
  assumes "0 < n" "n mod 4 = 0"
  shows "len \<le> calculate_blocks_for_length len n * n \<and> calculate_blocks_for_length len n * n < len + n"
proof -
  have "len = len div n * n + len mod n" by simp
  moreover have "len mod n < n" using assms(1) by simp
  moreover have "calculate_blocks_for_length len n * n =
      (if len mod n = 0 then len div n * n else len div n * n + n)"
    by (simp add: calculate_blocks_for_length_def words_for_code_same [OF assms(2)] Let_def)
  ultimately show ?thesis by (intro conjI) (simp_all only: split: if_split, linarith+)
qed

definition il_piece :: "nat \<Rightarrow> u32 list \<Rightarrow> nat \<Rightarrow> u32 list" where
  "il_piece n xs j = vec_resize n INTERLEAVE_REMOVE_KEY (vslice (j * n) n xs)"

lemma length_il_piece [simp]: "length (il_piece n xs j) = n"
  by (simp add: il_piece_def)

lemma interleave_loop_eq:
  assumes "il_ok t" "n = required_stream_size t"
  shows "interleave_loop t inp k (i * n) (min (Suc i * n) (length inp)) out =
    (True, out @ concat (map (\<lambda>j. il_block n (il_piece n inp j)) [i..<i + k]))"
proof (induction k arbitrary: i out)
  case 0
  then show ?case by simp
next
  case (Suc k)
  have cut: "vslice (i * n) (min (Suc i * n) (length inp) - i * n) inp = vslice (i * n) n inp"
    by (auto simp: vslice_def min_def)
  have block: "inplace_interleave_block t (il_piece n inp i) = (True, il_block n (il_piece n inp i))"
    using assms by (intro interleave_block_eq) (simp_all add: il_ok_def)
  have cap: "min (min (Suc i * n) (length inp) + n) (length inp) = min (Suc (Suc i) * n) (length inp)"
    by auto
  have "interleave_loop t inp (Suc k) (i * n) (min (Suc i * n) (length inp)) out =
      interleave_loop t inp k (Suc i * n) (min (Suc (Suc i) * n) (length inp))
        (out @ il_block n (il_piece n inp i))"
    unfolding interleave_loop.simps cut assms(2) [symmetric] Let_def
      il_piece_def [symmetric] block cap prod.case by (simp add: add.commute)
  then show ?case
    unfolding Suc.IH by (simp add: upt_conv_Cons del: upt_Suc)
qed

lemma concat_pieces: "concat (map (il_piece n inp) [0..<k]) = vec_resize (k * n) INTERLEAVE_REMOVE_KEY inp"
proof (induction k)
  case 0
  then show ?case by (simp add: vec_resize_def)
next
  case (Suc k)
  have "concat (map (il_piece n inp) [0..<Suc k]) = vec_resize (k * n) INTERLEAVE_REMOVE_KEY inp @ il_piece n inp k"
    using Suc by simp
  also have "\<dots> = vec_resize (k * n + n) INTERLEAVE_REMOVE_KEY inp"
    by (simp add: vec_resize_add il_piece_def vslice_def vec_resize_take)
  finally show ?case by (simp add: add.commute)
qed

lemma deinterleave_loop_eq:
  assumes "il_ok t" "n = required_stream_size t" "\<forall>b \<in> set bs. length b = n" "i + k \<le> length bs"
  shows "deinterleave_loop t (concat (map (il_block n) bs)) k (i * n) out =
    (True, out @ concat (vslice i k bs))"
  using assms(4)
proof (induction k arbitrary: i out)
  case 0
  then show ?case by (simp add: vslice_def)
next
  case (Suc k)
  have "vslice (i * n) n (concat (map (il_block n) bs)) = il_block n (bs ! i)"
    using Suc.prems by (subst vslice_concat) auto
  moreover have "inplace_deinterleave_block t (il_block n (bs ! i)) = (True, bs ! i)"
    using assms Suc.prems by (intro deinterleave_block_eq) (simp_all add: il_ok_def)
  moreover have "vslice i (Suc k) bs = bs ! i # vslice (Suc i) k bs"
    using Suc.prems by (simp add: vslice_def take_Suc_conv_app_nth Cons_nth_drop_Suc [symmetric])
  ultimately show ?case
    using Suc.IH [of "Suc i"] Suc.prems assms(2) by (simp add: add.commute)
qed

lemma remove_tail_replicate:
  assumes "xs = [] \<or> last xs \<noteq> INTERLEAVE_REMOVE_KEY"
  shows "remove_tail (xs @ replicate k INTERLEAVE_REMOVE_KEY) = xs"
proof -
  have "takeWhile (\<lambda>w. w = INTERLEAVE_REMOVE_KEY) (rev xs) = []"
    using assms by (cases xs rule: rev_cases) auto
  then have "takeWhile (\<lambda>w. w = INTERLEAVE_REMOVE_KEY) (rev (xs @ replicate k INTERLEAVE_REMOVE_KEY)) =
      replicate k INTERLEAVE_REMOVE_KEY"
    by (simp add: takeWhile_append)
  then show ?thesis by (simp add: remove_tail_def)
qed

lemma interleave_eq:
  assumes "il_ok t" "n = required_stream_size t"
  shows "interleave t inp = (True, concat (map (il_block n)
    (map (il_piece n inp) [0..<calculate_blocks_for_length (length inp) n])))"
  using interleave_loop_eq [OF assms, of inp _ 0 "[]"] assms(2)
  by (simp add: interleave_def Let_def o_def min.commute)

lemma deinterleave_interleave:
  assumes "il_ok t"
  shows "deinterleave t (snd (interleave t inp)) = (True, let k = calculate_blocks_for_length (length inp) (required_stream_size t);
      padded = inp @ replicate (k * required_stream_size t - length inp) INTERLEAVE_REMOVE_KEY
    in if auto_remove_tail t then remove_tail padded else padded)"
proof -
  define n where "n = required_stream_size t"
  define k where "k = calculate_blocks_for_length (length inp) n"
  let ?bs = "map (il_piece n inp) [0..<k]"
  have n: "0 < n" "n mod 4 = 0" using assms by (simp_all add: il_ok_def n_def)
  have il: "snd (interleave t inp) = concat (map (il_block n) ?bs)"
    using interleave_eq [OF assms n_def] by (simp add: k_def)
  have len: "length (concat (map (il_block n) ?bs)) = k * n"
    by (simp add: length_concat o_def sum_list_triv)
  have "deinterleave_loop t (concat (map (il_block n) ?bs)) k (0 * n) [] = (True, [] @ concat (vslice 0 k ?bs))"
    by (rule deinterleave_loop_eq [OF assms n_def]) simp_all
  moreover have "concat (vslice 0 k ?bs) = inp @ replicate (k * n - length inp) INTERLEAVE_REMOVE_KEY"
    using blocks_bounds [OF n, of "length inp"] concat_pieces [of n inp k]
    by (simp add: vslice_def vec_resize_grow k_def)
  ultimately show ?thesis
    using n unfolding il deinterleave_def len n_def [symmetric] k_def [symmetric]
    by (simp add: Let_def)
qed

interpretation il: codec "\<lambda>xs. xs = [] \<or> last xs \<noteq> INTERLEAVE_REMOVE_KEY"
  "\<lambda>xs. snd (interleave (Interleaver (Suc c)) xs)"
  "\<lambda>ys. (case deinterleave (Interleaver (Suc c)) ys of (ok, xs) \<Rightarrow> if ok then Some xs else None)" for c
proof unfold_locales
  fix xs :: "u32 list"
  assume "xs = [] \<or> last xs \<noteq> INTERLEAVE_REMOVE_KEY"
  then show "(case deinterleave (Interleaver (Suc c)) (snd (interleave (Interleaver (Suc c)) xs)) of
      (ok, xs) \<Rightarrow> if ok then Some xs else None) = Some xs"
    by (simp add: deinterleave_interleave il_ok_Interleaver Let_def remove_tail_replicate)
      (simp add: Interleaver_def)
qed

section \<open>What the code promises\<close>

text \<open>
  C16. Interleaving never fails, its output is a whole number of blocks that is the shortest one
  holding the message, and deinterleaving gives back the message without its trailing
  \<open>INTERLEAVE_REMOVE_KEY\<close> words: a message that does not end in that word survives, one that
  does loses those words.
\<close>
theorem interleave_roundtrip:
  assumes "0 < c"
  shows "fst (interleave (Interleaver c) xs) \<and>
    length (snd (interleave (Interleaver c) xs)) =
      calculate_blocks_for_length (length xs) c * calculate_words_for_code c \<and>
    deinterleave (Interleaver c) (snd (interleave (Interleaver c) xs)) =
      (True, rev (dropWhile (\<lambda>w. w = INTERLEAVE_REMOVE_KEY) (rev xs)))"
proof -
  define n where "n = calculate_words_for_code c"
  have ok: "il_ok (Interleaver c)" using assms by (rule il_ok_Interleaver)
  have n: "n = required_stream_size (Interleaver c)" by (simp add: n_def Interleaver_def)
  have blocks: "calculate_blocks_for_length (length xs) n = calculate_blocks_for_length (length xs) c"
    by (simp add: calculate_blocks_for_length_def n_def)
  obtain ys k where xs: "xs = ys @ replicate k INTERLEAVE_REMOVE_KEY"
    and ys: "ys = [] \<or> last ys \<noteq> INTERLEAVE_REMOVE_KEY"
    and drop: "rev (dropWhile (\<lambda>w. w = INTERLEAVE_REMOVE_KEY) (rev xs)) = ys"
  proof
    let ?P = "\<lambda>w. w = INTERLEAVE_REMOVE_KEY"
    have tw: "takeWhile ?P (rev xs) = replicate (length (takeWhile ?P (rev xs))) INTERLEAVE_REMOVE_KEY"
      by (rule replicate_eqI [symmetric, THEN sym]) (auto dest: set_takeWhileD)
    have "xs = rev (dropWhile ?P (rev xs)) @ rev (takeWhile ?P (rev xs))"
      unfolding rev_append [symmetric] takeWhile_dropWhile_id rev_rev_ident ..
    moreover have "rev (takeWhile ?P (rev xs)) = replicate (length (takeWhile ?P (rev xs))) INTERLEAVE_REMOVE_KEY"
      using arg_cong [OF tw, of rev] by (simp only: rev_replicate)
    ultimately show "xs = rev (dropWhile ?P (rev xs)) @ replicate (length (takeWhile ?P (rev xs))) INTERLEAVE_REMOVE_KEY"
      by (rule trans [OF _ arg_cong])
    show "rev (dropWhile ?P (rev xs)) = [] \<or> last (rev (dropWhile ?P (rev xs))) \<noteq> INTERLEAVE_REMOVE_KEY"
      using hd_dropWhile [of ?P "rev xs"] by (auto simp: last_rev)
  qed simp
  have "remove_tail (xs @ replicate m INTERLEAVE_REMOVE_KEY) = ys" for m
    using remove_tail_replicate [OF ys, of "k + m"] by (simp add: xs replicate_add)
  then show ?thesis
    using deinterleave_interleave [OF ok, of xs] interleave_eq [OF ok n, of xs] blocks drop
    by (simp add: Let_def Interleaver_def length_concat o_def sum_list_triv n_def)
qed

theorem interleave_roundtrip_witness:
  "deinterleave (Interleaver 5) (snd (interleave (Interleaver 5) [1, 2, 3])) = (True, [1, 2, 3])"
proof -
  have "rev (dropWhile (\<lambda>w. w = INTERLEAVE_REMOVE_KEY) (rev [1, 2, 3 :: u32])) = [1, 2, 3]"
    by simp
  then show ?thesis using interleave_roundtrip [of 5 "[1, 2, 3]"] by (simp only: zero_less_numeral)
qed

end
