(* ===== verification/Reed_Solomon.thy ===== *)
theory Reed_Solomon
  imports Interfaces
begin

text \<open>
  \<open>soapy/src/driver/ReedSolomon.cpp\<close>: the framing of a message in Reed-Solomon blocks. The code
  itself is the external library schifra, a parameter here: the record \<open>schifra\<close> holds what
  its encoder makes of a message of 255 bytes, what its decoder makes of a received block, and the
  conversion of a decoded block to a string; \<open>None\<close> is their failure. All results state what
  they need of the library on the blocks concerned.

  A message is cut in pieces of \<open>(code_length - fec_length) / 4\<close> words; the last piece is filled
  and its last word becomes \<open>RS_REMOVE_KEY\<close> with the number of words to drop. Undefined
  behaviour (an encoder that was never created, \<open>back()\<close> of an empty vector, a short block) is
  \<open>None\<close>. \<open>str_to_vector\<close> copies up to three bytes past the end of its vector; they are lost.
\<close>

section \<open>The code\<close>

record schifra =
  sch_encode :: "nat \<Rightarrow> u8 list \<Rightarrow> u8 list option"
  sch_decode :: "nat \<Rightarrow> u8 list \<Rightarrow> u8 list option"
  sch_string :: "nat \<Rightarrow> u8 list \<Rightarrow> nat \<Rightarrow> u8 list option"

abbreviation CODE_LEN_255 :: nat where "CODE_LEN_255 \<equiv> 255"
abbreviation RS_REMOVE_KEY :: u32 where "RS_REMOVE_KEY \<equiv> 0xCAFEBA00"

definition settings_valid :: "nat \<Rightarrow> nat \<Rightarrow> bool" where
  "settings_valid code_length fec_length \<longleftrightarrow>
     code_length = CODE_LEN_255 \<and>
     (fec_length = 32 \<or> fec_length = 48 \<or> fec_length = 64 \<or> fec_length = 80 \<or> fec_length = 96 \<or>
      fec_length = 128)"

text \<open>The object: which encoder its constructor created, and the puncture mask.\<close>

record reed_solomon =
  rs_encoder :: "nat option"
  puncture_mask :: "nat list"

definition ReedSolomon :: "nat \<Rightarrow> nat \<Rightarrow> reed_solomon" where
  "ReedSolomon code_length fec_length =
     \<lparr>rs_encoder = (if settings_valid code_length fec_length then Some fec_length else None),
      puncture_mask = []\<rparr>"

definition set_puncture_mask :: "reed_solomon \<Rightarrow> nat list \<Rightarrow> reed_solomon" where
  "set_puncture_mask rs m = rs\<lparr>puncture_mask := m\<rparr>"

definition vector_to_str :: "u32 list \<Rightarrow> u8 list" where
  "vector_to_str vector_message = vec_bytes vector_message"

definition str_to_vector :: "u8 list \<Rightarrow> u32 list" where
  "str_to_vector str_message = bytes_vec str_message"

definition schifra_block_to_vector :: "u32 list \<Rightarrow> u8 list \<Rightarrow> nat \<Rightarrow> u32 list" where
  "schifra_block_to_vector output block code_length =
     (let word_count = code_length div 4 + (if code_length mod 4 \<noteq> 0 then 1 else 0);
          aschar = take code_length block;
          output' = (if length output \<noteq> word_count then vec_resize word_count 0 output else output)
      in bytes_vec (aschar @ drop code_length (vec_bytes output')))"

definition schifra_vector_to_block :: "u32 list \<Rightarrow> nat \<Rightarrow> u8 list option" where
  "schifra_vector_to_block in_vector code_length =
     map_option_list (\<lambda>i. map_option (\<lambda>w. ucast (drop_bit (i mod 4 * 8) w AND 0xFF))
       (vec_get in_vector (i div 4))) [0..<code_length]"

definition resize_in_message :: "u32 list \<Rightarrow> nat \<Rightarrow> nat \<Rightarrow> u32 list" where
  "resize_in_message in_message max_word encode_count =
     (if length in_message mod max_word \<noteq> 0 then
        let remove_words = max_word - length in_message mod max_word;
            new_size = max_word * encode_count;
            remove_signature = RS_REMOVE_KEY OR of_nat remove_words
        in (vec_resize new_size 0 in_message)[new_size - 1 := remove_signature]
      else in_message)"

definition puncture_block :: "reed_solomon \<Rightarrow> u8 list \<Rightarrow> nat \<Rightarrow> u8 list" where
  "puncture_block rs block code_length =
     fold (\<lambda>puncture_index b. if puncture_index < code_length - 1 then b[puncture_index := 0] else b)
       (puncture_mask rs) block"

definition rs_encode ::
    "schifra \<Rightarrow> reed_solomon \<Rightarrow> u8 list \<Rightarrow> bool \<Rightarrow> nat \<Rightarrow> nat \<Rightarrow> u32 list \<Rightarrow> bool \<times> u32 list" where
  "rs_encode S rs message puncture code_length fec_length out_message =
     (case sch_encode S fec_length message of
        None \<Rightarrow> (False, out_message)
      | Some block \<Rightarrow>
          let block' = (if puncture then puncture_block rs block code_length else block)
          in (True, schifra_block_to_vector out_message block' code_length))"

definition encode_block ::
    "schifra \<Rightarrow> reed_solomon \<Rightarrow> u32 list \<Rightarrow> u32 list \<Rightarrow> nat \<Rightarrow> nat \<Rightarrow> bool \<Rightarrow> (bool \<times> u32 list) option" where
  "encode_block S rs in_message out_message code_length fec_length puncture =
     (let max_word = (code_length - fec_length) div 4 in
      if \<not> settings_valid code_length fec_length then Some (False, out_message)
      else if max_word < length in_message then Some (False, out_message)
      else let message = vec_resize code_length 0 (vector_to_str in_message)
        in if rs_encoder rs = Some fec_length
           then Some (rs_encode S rs message puncture code_length fec_length out_message) else None)"

fun encode_loop ::
    "schifra \<Rightarrow> reed_solomon \<Rightarrow> nat \<Rightarrow> nat \<Rightarrow> nat \<Rightarrow> u32 list \<Rightarrow> nat list \<Rightarrow> u32 list \<Rightarrow> u32 list
      \<Rightarrow> (bool \<times> u32 list) option" where
  "encode_loop S rs code_length fec_length max_word in_message [] out_block out_message =
     Some (True, out_message)"
| "encode_loop S rs code_length fec_length max_word in_message (i # is) out_block out_message =
     (let in_block = vslice (max_word * i) max_word in_message
      in case encode_block S rs in_block out_block code_length fec_length False of
           None \<Rightarrow> None
         | Some (False, _) \<Rightarrow> Some (False, out_message)
         | Some (True, out_block') \<Rightarrow>
             encode_loop S rs code_length fec_length max_word in_message is out_block'
               (out_message @ out_block'))"

text \<open>The argument \<open>puncture\<close> of \<open>encode_message\<close> and of the decoders is never used.\<close>

definition encode_message ::
    "schifra \<Rightarrow> reed_solomon \<Rightarrow> u32 list \<Rightarrow> u32 list \<Rightarrow> nat \<Rightarrow> nat \<Rightarrow> bool \<Rightarrow> (bool \<times> u32 list) option" where
  "encode_message S rs in_message2 out_message code_length fec_length puncture =
     (let max_word = (code_length - fec_length) div 4;
          encode_count = length in_message2 div max_word +
            (if length in_message2 mod max_word \<noteq> 0 then 1 else 0);
          in_message = resize_in_message in_message2 max_word encode_count
      in encode_loop S rs code_length fec_length max_word in_message [0..<encode_count] [] out_message)"

definition rs_decode :: "schifra \<Rightarrow> u32 list \<Rightarrow> nat \<Rightarrow> nat \<Rightarrow> u32 list \<Rightarrow> (bool \<times> u32 list) option" where
  "rs_decode S encoded_vector code_length fec_length decoded_vector =
     (case schifra_vector_to_block encoded_vector code_length of
        None \<Rightarrow> None
      | Some received_block \<Rightarrow> Some
          (case sch_decode S fec_length received_block of
             None \<Rightarrow> (False, decoded_vector)
           | Some block \<Rightarrow>
               (case sch_string S fec_length block (code_length - fec_length) of
                  None \<Rightarrow> (False, decoded_vector)
                | Some decoded_string \<Rightarrow> (True, str_to_vector decoded_string))))"

definition decode_block :: "schifra \<Rightarrow> u32 list \<Rightarrow> u32 list \<Rightarrow> nat \<Rightarrow> nat \<Rightarrow> (bool \<times> u32 list) option" where
  "decode_block S encoded_vector decoded_vector code_length fec_length =
     (if \<not> settings_valid code_length fec_length then Some (False, decoded_vector)
      else rs_decode S encoded_vector code_length fec_length decoded_vector)"

text \<open>The loop of \<open>decode_message\<close> and \<open>decode_message2\<close>; the third component lists the
  failed blocks, which only the latter keeps.\<close>

fun decode_loop ::
    "schifra \<Rightarrow> nat \<Rightarrow> nat \<Rightarrow> nat \<Rightarrow> u32 list \<Rightarrow> nat list \<Rightarrow> u32 list \<Rightarrow> u32 list \<Rightarrow> (nat \<times> nat) list
      \<Rightarrow> (u32 list \<times> (nat \<times> nat) list) option" where
  "decode_loop S code_length fec_length word_count enc [] decoded_block dec failed = Some (dec, failed)"
| "decode_loop S code_length fec_length word_count enc (i # is) decoded_block dec failed =
     (let encoded_block = vslice (word_count * i) word_count enc;
          decode_words = (code_length - fec_length) div 4
      in case decode_block S encoded_block decoded_block code_length fec_length of
           None \<Rightarrow> None
         | Some (True, decoded_block') \<Rightarrow>
             decode_loop S code_length fec_length word_count enc is decoded_block'
               (dec @ decoded_block') failed
         | Some (False, decoded_block') \<Rightarrow>
             decode_loop S code_length fec_length word_count enc is decoded_block'
               (dec @ replicate decode_words 0) (failed @ [(length dec, length dec + decode_words)]))"

definition remove_key :: "u32 list \<Rightarrow> u32 list option" where
  "remove_key dec =
     (if dec = [] then None
      else if last dec AND 0xFFFFFF00 = RS_REMOVE_KEY then
        (let remove_words = unat (last dec AND 0xFF)
         in if remove_words \<le> length dec then Some (take (length dec - remove_words) dec) else None)
      else Some dec)"

definition decode_message ::
    "schifra \<Rightarrow> u32 list \<Rightarrow> u32 list \<Rightarrow> nat \<Rightarrow> nat \<Rightarrow> bool \<Rightarrow> (bool \<times> u32 list) option" where
  "decode_message S encoded_vector decoded_vector code_length fec_length puncture =
     (let word_count = code_length div 4 + (if code_length mod 4 \<noteq> 0 then 1 else 0) in
      if length encoded_vector mod word_count \<noteq> 0 then Some (False, decoded_vector)
      else case decode_loop S code_length fec_length word_count encoded_vector
            [0..<length encoded_vector div word_count] [] decoded_vector [] of
         None \<Rightarrow> None
       | Some (dec, failed) \<Rightarrow> map_option (\<lambda>d. (True, d)) (remove_key dec))"

definition decode_message2 ::
    "schifra \<Rightarrow> u32 list \<Rightarrow> u32 list \<Rightarrow> nat \<Rightarrow> nat \<Rightarrow> bool \<Rightarrow> ((nat \<times> nat) list \<times> u32 list) option" where
  "decode_message2 S encoded_vector decoded_vector code_length fec_length puncture =
     (let word_count = code_length div 4 + (if code_length mod 4 \<noteq> 0 then 1 else 0) in
      if length encoded_vector mod word_count \<noteq> 0 then Some ([], decoded_vector)
      else case decode_loop S code_length fec_length word_count encoded_vector
            [0..<length encoded_vector div word_count] [] decoded_vector [] of
         None \<Rightarrow> None
       | Some (dec, failed) \<Rightarrow> map_option (\<lambda>d. (failed, d)) (remove_key dec))"

section \<open>Pieces\<close>

definition rs_words :: "nat \<Rightarrow> nat" where
  "rs_words fec = (255 - fec) div 4"

definition rs_piece :: "nat \<Rightarrow> u32 list \<Rightarrow> nat \<Rightarrow> u32 list" where
  "rs_piece fec xs i = vslice (rs_words fec * i) (rs_words fec) xs"

definition rs_message :: "u32 list \<Rightarrow> u8 list" where
  "rs_message piece = vec_resize 255 0 (vec_bytes piece)"

definition rs_received :: "u32 list \<Rightarrow> nat \<Rightarrow> u8 list" where
  "rs_received rx i = take 255 (vec_bytes (vslice (64 * i) 64 rx))"

definition rs_padded :: "nat \<Rightarrow> u32 list \<Rightarrow> u32 list" where
  "rs_padded fec xs = resize_in_message xs (rs_words fec)
     (length xs div rs_words fec + (if length xs mod rs_words fec \<noteq> 0 then 1 else 0))"

definition rs_count :: "nat \<Rightarrow> u32 list \<Rightarrow> nat" where
  "rs_count fec xs = length xs div rs_words fec + (if length xs mod rs_words fec \<noteq> 0 then 1 else 0)"

lemma settings_validD:
  "settings_valid code fec \<Longrightarrow> code = 255 \<and> fec \<le> 128 \<and> 0 < rs_words fec \<and> rs_words fec < 64"
  by (auto simp: settings_valid_def rs_words_def)

lemma rs_words_bytes: "settings_valid code fec \<Longrightarrow> 4 * rs_words fec \<le> 255 - fec"
  by (simp add: rs_words_def)

lemma length_rs_padded:
  assumes "0 < rs_words fec"
  shows "length (rs_padded fec xs) = rs_count fec xs * rs_words fec"
proof (cases "length xs mod rs_words fec = 0")
  case True
  then show ?thesis by (auto simp: rs_padded_def resize_in_message_def rs_count_def)
next
  case False
  then show ?thesis by (simp add: rs_padded_def resize_in_message_def rs_count_def Let_def mult.commute)
qed

lemma vector_to_block_eq:
  assumes "255 \<le> 4 * length ws"
  shows "schifra_vector_to_block ws 255 = Some (take 255 (vec_bytes ws))"
proof -
  have get: "map_option (\<lambda>w. ucast (drop_bit (i mod 4 * 8) w AND 0xFF) :: u8) (vec_get ws (i div 4)) =
      Some (vec_bytes ws ! i)" if "i \<in> set [0..<255]" for i
  proof -
    have i: "i < 4 * length ws" using that assms by simp
    then have "i div 4 < length ws" by linarith
    then show ?thesis
      using byte_of_word [of "i mod 4" "ws ! (i div 4)"] nth_vec_bytes [OF i] by (simp add: mult.commute)
  qed
  have all: "map ((!) (vec_bytes ws)) [0..<255] = take 255 (vec_bytes ws)"
    using assms by (intro nth_equalityI) simp_all
  show ?thesis
    unfolding schifra_vector_to_block_def all [symmetric] by (rule map_option_list_Some) (rule get)
qed

lemma block_to_vector:
  assumes "length block = 255"
  shows "length (schifra_block_to_vector out block 255) = 64"
    and "take 255 (vec_bytes (schifra_block_to_vector out block 255)) = block"
proof -
  let ?out = "if length out \<noteq> 64 then vec_resize 64 0 out else out"
  have v: "schifra_block_to_vector out block 255 = bytes_vec (block @ drop 255 (vec_bytes ?out))"
    using assms by (simp add: schifra_block_to_vector_def Let_def)
  have len: "length (block @ drop 255 (vec_bytes ?out)) = 256" using assms by simp
  show "length (schifra_block_to_vector out block 255) = 64" unfolding v using len by simp
  have "vec_bytes (bytes_vec (block @ drop 255 (vec_bytes ?out))) = block @ drop 255 (vec_bytes ?out)"
    using len by (intro vec_bytes_of_vec) simp
  then show "take 255 (vec_bytes (schifra_block_to_vector out block 255)) = block"
    unfolding v using assms by simp
qed

definition encodes :: "schifra \<Rightarrow> nat \<Rightarrow> u32 list \<Rightarrow> nat \<Rightarrow> bool" where
  "encodes S fec xs i \<longleftrightarrow>
     (\<exists>b. sch_encode S fec (rs_message (rs_piece fec xs i)) = Some b \<and> length b = 255)"

text \<open>The last byte of the vector of a block is not part of the code word: it stays what it was
  in the vector the block is written to, which is zero in the loop of \<open>encode_message\<close>.\<close>

definition tail_clear :: "u32 list \<Rightarrow> bool" where
  "tail_clear blk \<longleftrightarrow> blk = [] \<or> length blk = 64 \<and> drop 255 (vec_bytes blk) = [0]"

lemma vec_bytes_replicate_0: "vec_bytes (replicate n 0) = replicate (4 * n) 0"
  by (induction n) (simp_all add: vec_bytes_def word_bytes_def numeral_eq_Suc)

lemma block_to_vector_tail:
  assumes "length block = 255" "tail_clear blk"
  shows "tail_clear (schifra_block_to_vector blk block 255)"
proof -
  let ?out = "if length blk \<noteq> 64 then vec_resize 64 0 blk else blk"
  have v: "schifra_block_to_vector blk block 255 = bytes_vec (block @ drop 255 (vec_bytes ?out))"
    using assms by (simp add: schifra_block_to_vector_def Let_def)
  have tail: "drop 255 (vec_bytes ?out) = [0]"
    using assms(2) by (auto simp: tail_clear_def vec_resize_def vec_bytes_replicate_0)
  then have "vec_bytes (bytes_vec (block @ [0])) = block @ [0]"
    using assms(1) by (intro vec_bytes_of_vec) simp
  with assms(1) show ?thesis
    using block_to_vector(1) [OF assms(1), of blk] unfolding v tail by (simp add: tail_clear_def)
qed

lemma tail_clear_last:
  assumes "length b = 64" "tail_clear b"
  shows "drop_bit 24 (last b) = 0"
proof -
  have b: "b = butlast b @ [last b]" using assms(1) by (intro append_butlast_last_id [symmetric]) auto
  have "vec_bytes b = vec_bytes (butlast b) @ word_bytes (last b)"
    using arg_cong [OF b, of vec_bytes] by (simp add: vec_bytes_def)
  moreover have "length (vec_bytes (butlast b)) = 252" using assms(1) by simp
  ultimately have "drop 255 (vec_bytes b) = [ucast (drop_bit 24 (last b))]"
    by (simp add: word_bytes_def)
  then have "ucast (drop_bit 24 (last b)) = (0 :: u8)" using assms by (auto simp: tail_clear_def)
  then have "\<not> bit (drop_bit 24 (last b)) n" if "n < 8" for n
    using that by (simp add: bit_eq_iff bit_rules)
  moreover have "\<not> bit (drop_bit 24 (last b)) n" if "8 \<le> n" for n
    using that by (simp add: bit_rules)
  ultimately show ?thesis by (intro bit_word_eqI) (metis bit_0_eq bot_apply bot_bool_def not_le)
qed

lemma encode_loop_eq:
  assumes valid: "settings_valid 255 fec" and "rs_encoder rs = Some fec" and "\<forall>i \<in> set is. encodes S fec xs i"
    and "tail_clear blk"
  shows "\<exists>blocks. encode_loop S rs 255 fec (rs_words fec) xs is blk out = Some (True, out @ concat blocks) \<and>
    list_all2 (\<lambda>i b. length b = 64 \<and> tail_clear b \<and>
      sch_encode S fec (rs_message (rs_piece fec xs i)) = Some (take 255 (vec_bytes b))) is blocks"
  using assms(3,4)
proof (induction "is" arbitrary: blk out)
  case Nil
  then show ?case by simp
next
  case (Cons i "is")
  obtain b where b: "sch_encode S fec (rs_message (rs_piece fec xs i)) = Some b" "length b = 255"
    using Cons.prems by (auto simp: encodes_def)
  let ?b = "schifra_block_to_vector blk b 255"
  have "encode_block S rs (rs_piece fec xs i) blk 255 fec False = Some (True, ?b)"
    using valid assms(2) b by (simp add: encode_block_def rs_encode_def rs_piece_def rs_words_def
        rs_message_def vector_to_str_def Let_def)
  then have step: "encode_loop S rs 255 fec (rs_words fec) xs (i # is) blk out =
      encode_loop S rs 255 fec (rs_words fec) xs is ?b (out @ ?b)"
    by (simp add: rs_piece_def Let_def)
  have tail: "tail_clear ?b" using b(2) Cons.prems(2) by (rule block_to_vector_tail)
  obtain blocks where "encode_loop S rs 255 fec (rs_words fec) xs is ?b (out @ ?b) =
      Some (True, (out @ ?b) @ concat blocks)"
    "list_all2 (\<lambda>i b. length b = 64 \<and> tail_clear b \<and>
      sch_encode S fec (rs_message (rs_piece fec xs i)) = Some (take 255 (vec_bytes b))) is blocks"
    using Cons.IH [of ?b "out @ ?b"] Cons.prems tail by auto
  then show ?case
    unfolding step using b block_to_vector [OF b(2), of blk] tail
    by (intro exI [of _ "?b # blocks"]) simp
qed

text \<open>What the decoder makes of a received block.\<close>

definition rs_result :: "schifra \<Rightarrow> nat \<Rightarrow> u8 list \<Rightarrow> u32 list option" where
  "rs_result S fec bytes = Option.bind (sch_decode S fec bytes)
     (\<lambda>b. map_option bytes_vec (sch_string S fec b (255 - fec)))"

definition string_lengths :: "schifra \<Rightarrow> bool" where
  "string_lengths S \<longleftrightarrow> (\<forall>fec b n s. sch_string S fec b n = Some s \<longrightarrow> length s = n)"

definition rs_output :: "schifra \<Rightarrow> nat \<Rightarrow> u32 list \<Rightarrow> nat \<Rightarrow> u32 list" where
  "rs_output S fec rx i =
     (case rs_result S fec (rs_received rx i) of Some ws \<Rightarrow> ws | None \<Rightarrow> replicate (rs_words fec) 0)"

lemma length_rs_output: "string_lengths S \<Longrightarrow> length (rs_output S fec rx i) = rs_words fec"
  by (auto simp: rs_output_def rs_result_def string_lengths_def rs_words_def bind_eq_Some_conv
      split: option.splits)

lemma decode_loop_eq:
  assumes "settings_valid 255 fec" "string_lengths S"
    and "length dec = rs_words fec * s" "64 * (s + k) \<le> length rx"
  shows "decode_loop S 255 fec 64 rx [s..<s + k] blk dec failed =
    Some (dec @ concat (map (rs_output S fec rx) [s..<s + k]),
      failed @ map (\<lambda>i. (rs_words fec * i, rs_words fec * i + rs_words fec))
        (filter (\<lambda>i. rs_result S fec (rs_received rx i) = None) [s..<s + k]))"
  using assms(3,4)
proof (induction k arbitrary: s blk dec failed)
  case 0
  then show ?case by simp
next
  case (Suc k)
  let ?blk = "vslice (64 * s) 64 rx"
  have "length ?blk = 64" using Suc.prems by (intro vslice_in) simp
  then have block: "schifra_vector_to_block ?blk 255 = Some (rs_received rx s)"
    by (subst vector_to_block_eq) (simp_all add: rs_received_def)
  have dec_block: "decode_block S ?blk blk 255 fec = Some (case rs_result S fec (rs_received rx s) of
      Some ws \<Rightarrow> (True, ws) | None \<Rightarrow> (False, blk))"
    using assms(1) block
    by (auto simp: decode_block_def rs_decode_def rs_result_def str_to_vector_def split: option.splits)
  have range: "[s..<s + Suc k] = s # [Suc s..<Suc s + k]" by (simp add: upt_conv_Cons del: upt_Suc)
  have len: "length (dec @ rs_output S fec rx s) = rs_words fec * Suc s"
    using Suc.prems(1) length_rs_output [OF assms(2)] by simp
  have bound: "64 * (Suc s + k) \<le> length rx" using Suc.prems(2) by simp
  show ?case
  proof (cases "rs_result S fec (rs_received rx s)")
    case None
    then have out: "rs_output S fec rx s = replicate (rs_words fec) 0" by (simp add: rs_output_def)
    show ?thesis
      unfolding range using None dec_block Suc.prems(1)
        Suc.IH [OF len bound, of blk "failed @ [(length dec, length dec + rs_words fec)]"]
      by (simp add: Let_def out rs_words_def [symmetric] del: upt_Suc)
  next
    case (Some ws)
    then have out: "rs_output S fec rx s = ws" by (simp add: rs_output_def)
    show ?thesis
      unfolding range using Some dec_block Suc.IH [OF len bound, of ws failed]
      by (simp add: Let_def out del: upt_Suc)
  qed
qed

section \<open>Padding and the key\<close>

lemma key_masks: "(0xFFFFFF00 :: u32) = push_bit 8 (mask 24)" "(0xFF :: u32) = mask 8"
  by (simp_all add: mask_eq_exp_minus_1 push_bit_eq_mult)

lemma remove_signature:
  assumes "r < 256"
  shows "(RS_REMOVE_KEY OR of_nat r) AND 0xFFFFFF00 = RS_REMOVE_KEY"
    and "unat ((RS_REMOVE_KEY OR of_nat r) AND 0xFF) = r"
proof -
  have key: "RS_REMOVE_KEY = push_bit 8 0xCAFEBA" by (simp add: push_bit_eq_mult)
  have "unat (of_nat r :: u32) < 2 ^ 8" using assms by simp
  then have small: "\<not> bit (of_nat r :: u32) n" if "8 \<le> n" for n using that by (rule not_bit_high)
  show "(RS_REMOVE_KEY OR of_nat r) AND 0xFFFFFF00 = RS_REMOVE_KEY"
    unfolding key by (rule bit_word_eqI, unfold key_masks bit_rules) (auto simp: small)
  have "(RS_REMOVE_KEY OR of_nat r) AND 0xFF = (of_nat r :: u32)"
    unfolding key by (rule bit_word_eqI, unfold key_masks bit_rules) (auto simp: small not_le [symmetric])
  then show "unat ((RS_REMOVE_KEY OR of_nat r) AND 0xFF) = r" using assms by simp
qed

lemma remove_key_padded:
  assumes valid: "settings_valid 255 fec" and "xs \<noteq> []"
    and "length xs mod rs_words fec = 0 \<longrightarrow> last xs AND 0xFFFFFF00 \<noteq> RS_REMOVE_KEY"
  shows "remove_key (rs_padded fec xs) = Some xs"
proof (cases "length xs mod rs_words fec = 0")
  case True
  then have "rs_padded fec xs = xs" by (simp add: rs_padded_def resize_in_message_def)
  with True assms show ?thesis by (simp add: remove_key_def)
next
  case False
  define w where "w = rs_words fec"
  define r where "r = w - length xs mod w"
  have w: "0 < w" "w < 64" using settings_validD [OF valid] by (simp_all add: w_def)
  have "length xs mod w < w" using w(1) by simp
  with False w have r: "0 < r" "r < 256" by (simp_all add: r_def w_def)
  have size: "w * (length xs div w + 1) = length xs + r"
    using \<open>length xs mod w < w\<close> mult_div_mod_eq [of w "length xs"] unfolding r_def distrib_left
    by linarith
  have padded: "rs_padded fec xs = (xs @ replicate r 0)[length xs + r - 1 := RS_REMOVE_KEY OR of_nat r]"
    using False size unfolding rs_padded_def resize_in_message_def w_def [symmetric] r_def [symmetric] Let_def
    by (simp add: vec_resize_grow)
  have last: "last (rs_padded fec xs) = RS_REMOVE_KEY OR of_nat r"
    unfolding padded using r(1) by (subst last_conv_nth) auto
  have "take (length xs) (rs_padded fec xs) = xs"
    unfolding padded using r(1) by (subst take_update_cancel) auto
  moreover have "length (rs_padded fec xs) = length xs + r" "rs_padded fec xs \<noteq> []"
    unfolding padded using r(1) by auto
  ultimately show ?thesis
    using remove_signature [OF r(2)] by (simp add: remove_key_def last)
qed

section \<open>Recovered blocks\<close>

text \<open>The decoder recovers a message from a received block.\<close>

definition recovers :: "schifra \<Rightarrow> nat \<Rightarrow> u8 list \<Rightarrow> u8 list \<Rightarrow> bool" where
  "recovers S fec message bytes \<longleftrightarrow>
     (\<exists>b. sch_decode S fec bytes = Some b \<and> sch_string S fec b (255 - fec) = Some (take (255 - fec) message))"

lemma recovers_output:
  assumes "settings_valid 255 fec" "length piece = rs_words fec" "recovers S fec (rs_message piece) (rs_received rx i)"
  shows "rs_output S fec rx i = piece"
proof -
  have len: "4 * rs_words fec \<le> 255 - fec" "255 - fec - 4 * rs_words fec < 4" "255 - fec \<le> 255"
    by (simp_all add: rs_words_def)
  then have "take (255 - fec) (rs_message piece) = vec_bytes piece @ replicate (255 - fec - 4 * rs_words fec) 0"
    using assms(2) by (simp add: rs_message_def vec_resize_def min_def)
  then have "bytes_vec (take (255 - fec) (rs_message piece)) = piece"
    using len(2) by (simp only: bytes_vec_of_bytes_append length_replicate)
  then show ?thesis
    using assms(3) by (auto simp: recovers_def rs_output_def rs_result_def)
qed

lemma rs_pieces:
  assumes "0 < rs_words fec"
  shows "concat (map (rs_piece fec (rs_padded fec xs)) [0..<rs_count fec xs]) = rs_padded fec xs"
  using concat_vslices [of "rs_words fec" "rs_padded fec xs" "rs_count fec xs"] length_rs_padded [OF assms, of xs]
  by (simp add: rs_piece_def [abs_def])

lemma length_rs_piece:
  assumes "0 < rs_words fec" "i < rs_count fec xs"
  shows "length (rs_piece fec (rs_padded fec xs) i) = rs_words fec"
proof -
  have "rs_words fec * Suc i \<le> rs_words fec * rs_count fec xs" using assms(2) by (intro mult_le_mono2) simp
  then show ?thesis
    unfolding rs_piece_def using length_rs_padded [OF assms(1), of xs]
    by (intro vslice_in) (simp add: mult.commute)
qed

lemma decode_message_eq:
  assumes "settings_valid 255 fec" "string_lengths S" "length rx = 64 * k"
  shows "decode_message S rx [] 255 fec q =
    map_option (Pair True) (remove_key (concat (map (rs_output S fec rx) [0..<k])))"
  using decode_loop_eq [OF assms(1,2), of "[]" 0 k rx "[]" "[]"] assms(3)
  by (simp add: decode_message_def Let_def)

lemma encode_message_eq:
  assumes "settings_valid 255 fec" and "\<forall>i < rs_count fec xs. encodes S fec (rs_padded fec xs) i"
  shows "\<exists>out. encode_message S (ReedSolomon 255 fec) xs [] 255 fec puncture = Some (True, out) \<and>
    length out = 64 * rs_count fec xs \<and> (out = [] \<or> drop_bit 24 (last out) = 0) \<and>
    (\<forall>i < rs_count fec xs. sch_encode S fec (rs_message (rs_piece fec (rs_padded fec xs) i)) =
      Some (rs_received out i))"
proof -
  let ?k = "rs_count fec xs" and ?xs = "rs_padded fec xs"
  have "rs_encoder (ReedSolomon 255 fec) = Some fec" using assms(1) by (simp add: ReedSolomon_def)
  then obtain blocks where enc: "encode_loop S (ReedSolomon 255 fec) 255 fec (rs_words fec) ?xs [0..<?k] [] [] =
      Some (True, concat blocks)"
    and blocks: "list_all2 (\<lambda>i b. length b = 64 \<and> tail_clear b \<and>
      sch_encode S fec (rs_message (rs_piece fec ?xs i)) = Some (take 255 (vec_bytes b))) [0..<?k] blocks"
    using encode_loop_eq [OF assms(1), of "ReedSolomon 255 fec" "[0..<?k]" S ?xs "[]" "[]"] assms(2)
    by (auto simp: tail_clear_def)
  have n: "length blocks = ?k" using list_all2_lengthD [OF blocks] by simp
  have b64: "\<forall>b \<in> set blocks. length b = 64 \<and> tail_clear b"
    using blocks by (auto simp: list_all2_conv_all_nth in_set_conv_nth)
  have len: "length (concat blocks) = 64 * ?k"
    using b64 n by (simp add: length_concat sum_list_triv cong: map_cong)
  have msg: "encode_message S (ReedSolomon 255 fec) xs [] 255 fec puncture = Some (True, concat blocks)"
    using enc by (simp add: encode_message_def rs_padded_def rs_count_def rs_words_def Let_def)
  have tail: "concat blocks = [] \<or> drop_bit 24 (last (concat blocks)) = 0"
  proof (cases blocks rule: rev_cases)
    case (snoc ys y)
    then have "y \<noteq> []" "drop_bit 24 (last y) = 0" using b64 tail_clear_last [of y] by auto
    with snoc show ?thesis by simp
  qed simp
  have "sch_encode S fec (rs_message (rs_piece fec ?xs i)) = Some (rs_received (concat blocks) i)"
    if "i < ?k" for i
    using blocks that n vslice_concat [of blocks 64 i] b64
    by (simp add: list_all2_conv_all_nth rs_received_def mult.commute)
  then show ?thesis using msg len tail by auto
qed

lemma decode_message_recovered:
  assumes "settings_valid 255 fec" and "string_lengths S" and "xs \<noteq> []"
    and "length xs mod rs_words fec = 0 \<longrightarrow> last xs AND 0xFFFFFF00 \<noteq> RS_REMOVE_KEY"
    and "length rx = 64 * rs_count fec xs"
    and "\<forall>i < rs_count fec xs. recovers S fec (rs_message (rs_piece fec (rs_padded fec xs) i)) (rs_received rx i)"
  shows "decode_message S rx [] 255 fec puncture = Some (True, xs)"
proof -
  let ?k = "rs_count fec xs" and ?xs = "rs_padded fec xs"
  have pos: "0 < rs_words fec" using settings_validD [OF assms(1)] by simp
  have outs: "map (rs_output S fec rx) [0..<?k] = map (rs_piece fec ?xs) [0..<?k]"
    using assms(6) recovers_output [OF assms(1) length_rs_piece [OF pos]] by (intro map_cong) auto
  show ?thesis
    unfolding decode_message_eq [OF assms(1,2,5)] outs rs_pieces [OF pos]
      remove_key_padded [OF assms(1,3,4)] by simp
qed

section \<open>What the code promises\<close>

text \<open>
  C17. Encoding a message and decoding what arrives gives the message back, for every supported
  code, whenever the library encodes the pieces and its decoder recovers each of them from the
  received block: padding and key are removed exactly. A message that fills its last piece must
  not end in a word that looks like the key, since the receiver would cut it.
\<close>
theorem rs_message_roundtrip:
  assumes "settings_valid 255 fec" and "string_lengths S" and "xs \<noteq> []"
    and "length xs mod rs_words fec = 0 \<longrightarrow> last xs AND 0xFFFFFF00 \<noteq> RS_REMOVE_KEY"
    and "\<forall>i < rs_count fec xs. encodes S fec (rs_padded fec xs) i"
  shows "\<exists>out. encode_message S (ReedSolomon 255 fec) xs [] 255 fec puncture = Some (True, out) \<and>
    length out = 64 * rs_count fec xs \<and>
    (\<forall>rx. length rx = length out \<longrightarrow>
      (\<forall>i < rs_count fec xs. recovers S fec (rs_message (rs_piece fec (rs_padded fec xs) i)) (rs_received rx i)) \<longrightarrow>
      decode_message S rx [] 255 fec puncture = Some (True, xs)) \<and>
    (\<forall>i < rs_count fec xs. sch_encode S fec (rs_message (rs_piece fec (rs_padded fec xs) i)) =
      Some (rs_received out i))"
proof -
  obtain out where "encode_message S (ReedSolomon 255 fec) xs [] 255 fec puncture = Some (True, out)"
    "length out = 64 * rs_count fec xs" "\<forall>i < rs_count fec xs.
      sch_encode S fec (rs_message (rs_piece fec (rs_padded fec xs) i)) = Some (rs_received out i)"
    using encode_message_eq [OF assms(1,5)] by blast
  with decode_message_recovered [OF assms(1-4)] show ?thesis by (intro exI [of _ out]) simp
qed

theorem rs_message_roundtrip_witness:
  "let S = \<lparr>sch_encode = \<lambda>fec m. Some m, sch_decode = \<lambda>fec b. Some b, sch_string = \<lambda>fec b n. Some (vec_resize n 0 b)\<rparr>
   in \<exists>out. encode_message S (ReedSolomon 255 128) [7, 8, 9] [] 255 128 False = Some (True, out) \<and>
     decode_message S out [] 255 128 False = Some (True, [7, 8, 9])"
proof -
  let ?S = "\<lparr>sch_encode = \<lambda>fec m. Some m, sch_decode = \<lambda>fec b. Some b,
    sch_string = \<lambda>fec b n. Some (vec_resize n 0 b)\<rparr> :: schifra"
  have s: "string_lengths ?S" by (simp add: string_lengths_def)
  have e: "\<forall>i < rs_count 128 [7, 8, 9]. encodes ?S 128 (rs_padded 128 [7, 8, 9]) i"
    by (simp add: encodes_def rs_message_def)
  have r: "recovers ?S 128 m m" if "length m = 255" for m
    using that by (simp add: recovers_def vec_resize_shrink)
  have l: "length (rs_message p) = 255" for p by (simp add: rs_message_def)
  have "settings_valid 255 128" by (simp add: settings_valid_def)
  from rs_message_roundtrip [OF this s, of "[7, 8, 9]" False] e
  obtain out where out: "encode_message ?S (ReedSolomon 255 128) [7, 8, 9] [] 255 128 False = Some (True, out)"
    "\<And>rx. length rx = length out \<Longrightarrow>
      (\<forall>i < rs_count 128 [7, 8, 9]. recovers ?S 128 (rs_message (rs_piece 128 (rs_padded 128 [7, 8, 9]) i)) (rs_received rx i)) \<Longrightarrow>
      decode_message ?S rx [] 255 128 False = Some (True, [7, 8, 9])"
    "\<And>i. i < rs_count 128 [7, 8, 9] \<Longrightarrow> rs_message (rs_piece 128 (rs_padded 128 [7, 8, 9]) i) = rs_received out i"
    by (auto simp: rs_words_def)
  have "decode_message ?S out [] 255 128 False = Some (True, [7, 8, 9])"
    by (intro out(2)) (auto simp: out(3) [symmetric] intro!: r l)
  with out(1) show ?thesis by (simp add: Let_def)
qed

text \<open>
  C22. A block the decoder cannot correct costs only its own words: the received message has zeros
  in their place and every other piece where it belongs, and \<open>decode_message2\<close> reports exactly
  the word ranges of the failed blocks.
\<close>
theorem rs_failed_blocks:
  assumes "settings_valid 255 fec" and "string_lengths S" and "length rx = 64 * k"
  shows "decode_message2 S rx [] 255 fec puncture = map_option
    (Pair (map (\<lambda>i. (rs_words fec * i, rs_words fec * i + rs_words fec))
      (filter (\<lambda>i. rs_result S fec (rs_received rx i) = None) [0..<k])))
    (remove_key (concat (map (\<lambda>i. case rs_result S fec (rs_received rx i) of
      Some ws \<Rightarrow> ws | None \<Rightarrow> replicate (rs_words fec) 0) [0..<k])))"
  using decode_loop_eq [OF assms(1,2), of "[]" 0 k rx "[]" "[]"] assms(3)
  by (simp add: decode_message2_def Let_def rs_output_def [abs_def])

theorem rs_failed_blocks_witness:
  "let S = \<lparr>sch_encode = \<lambda>fec m. Some m, sch_decode = \<lambda>fec b. None, sch_string = \<lambda>fec b n. None\<rparr>
   in decode_message2 S (replicate 128 0) [] 255 128 False = Some ([(0, 31), (31, 62)], replicate 62 0)"
proof -
  let ?S = "\<lparr>sch_encode = \<lambda>fec m. Some m, sch_decode = \<lambda>fec b. None, sch_string = \<lambda>fec b n. None\<rparr> :: schifra"
  have two: "[0..<2] = [0, 1 :: nat]" by (simp add: upt_rec)
  have zeros: "replicate 31 0 @ replicate 31 0 = replicate 62 (0 :: u32)"
    by (simp only: replicate_add [symmetric]) simp
  have "remove_key (replicate 62 0) = Some (replicate 62 0)"
    by (simp add: remove_key_def last_conv_nth)
  then show ?thesis
    using rs_failed_blocks [of 128 ?S "replicate 128 0" 2 False] zeros
    by (simp add: settings_valid_def string_lengths_def rs_words_def rs_result_def Let_def two)
qed

end
