(* ===== verification/Modem_Modes.thy ===== *)
theory Modem_Modes
  imports Modem_Prelude
begin

text \<open>
  The mode enumerations. Their numeric values are in headers of another repository
  (\<open>mapmov.h\<close>, \<open>feedback_bus_types.h\<close> and the like), so they are datatypes here: a constructor per
  enumerator the code names, which its \<open>switch\<close> labels force to be distinct, and one for every
  other value of the integer.
\<close>

datatype subcarrier_allocation =
  MAPMOV_SUBCARRIER_128 | MAPMOV_SUBCARRIER_320 | MAPMOV_SUBCARRIER_640_LIN
  | MAPMOV_SUBCARRIER_512_LIN | MAPMOV_SUBCARRIER_64_LIN | MAPMOV_SUBCARRIER_OTHER u16

datatype modulation_schema =
  FEEDBACK_MAPMOV_QPSK | FEEDBACK_MAPMOV_QAM8 | FEEDBACK_MAPMOV_QAM16 | FEEDBACK_MAPMOV_QAM32
  | FEEDBACK_MAPMOV_QAM64 | FEEDBACK_MAPMOV_QAM128 | FEEDBACK_MAPMOV_OTHER u8

datatype code_type =
  AIRPACKET_CODE_UNCODED | AIRPACKET_CODE_REED_SOLOMON | AIRPACKET_CODE_OTHER u8

end
