(* ===== verification/Emulate_Mapmov.thy ===== *)
theory Emulate_Mapmov
  imports Slicing Modem_Modes
begin

text \<open>
  \<open>soapy/src/driver/EmulateMapmov.cpp\<close>: a software model of what the FPGAs do between the
  words handed to the transmitter and the sliced words of the receiver. \<open>map_input_data\<close> turns
  each bit pair into a constellation point, \<open>move_input_data\<close> spreads the points over the
  enabled subcarriers of 1024-point frames, \<open>receive_tx_data\<close> mirrors the spectrum,
  \<open>rx_reverse_mover\<close> picks the enabled subcarriers and \<open>slice_rx_data\<close> makes bits of the
  points again.

  The loop of \<open>move_input_data\<close> ends only if a frame has an enabled subcarrier, so it is a
  \<open>partial_function\<close>: the outer \<open>None\<close> is a run that does not return, the inner one a read
  past the end of the input. A failed \<open>assert\<close> is \<open>None\<close>.
\<close>

section \<open>The code\<close>

abbreviation fft_size :: nat where "fft_size \<equiv> 1024"

definition tx_rx :: "nat \<Rightarrow> nat" where
  "tx_rx x = (if x = 0 then 0 else 1024 - x)"

record emulate_mapmov =
  em_enabled_subcarriers :: nat
  em_subcarrier_allocation :: subcarrier_allocation
  em_modulation_schema :: modulation_schema
  enable_table :: "bool list"
  pilot_table :: "u32 list"

definition build_enable_subcarrier_table :: "emulate_mapmov \<Rightarrow> emulate_mapmov option" where
  "build_enable_subcarrier_table m =
     (let entry = (\<lambda>sc. case em_subcarrier_allocation m of
            MAPMOV_SUBCARRIER_128 \<Rightarrow> Some (odd sc \<and> (sc < 129 \<or> 896 < sc))
          | MAPMOV_SUBCARRIER_320 \<Rightarrow> Some (odd sc \<and> (sc < 321 \<or> 704 < sc))
          | MAPMOV_SUBCARRIER_640_LIN \<Rightarrow> Some (enable_table m ! sc)
          | MAPMOV_SUBCARRIER_512_LIN \<Rightarrow> Some (enable_table m ! sc)
          | MAPMOV_SUBCARRIER_64_LIN \<Rightarrow> Some (16 \<le> sc \<and> sc < 80)
          | MAPMOV_SUBCARRIER_OTHER v \<Rightarrow> None)
      in case map_option_list entry [0..<fft_size] of None \<Rightarrow> None
         | Some t \<Rightarrow> Some (m\<lparr>enable_table := t, em_enabled_subcarriers := length (filter id t)\<rparr>))"

definition build_pilot_table :: "emulate_mapmov \<Rightarrow> emulate_mapmov option" where
  "build_pilot_table m =
     (let pilot = 0x2000;
          entry = (\<lambda>sc. case em_subcarrier_allocation m of
            MAPMOV_SUBCARRIER_128 \<Rightarrow> Some (if sc \<le> 128 \<or> 896 \<le> sc then pilot else 0)
          | MAPMOV_SUBCARRIER_320 \<Rightarrow> Some (if even sc \<and> (sc \<le> 323 \<or> 701 \<le> sc) then pilot else 0)
          | MAPMOV_SUBCARRIER_640_LIN \<Rightarrow> Some (pilot_table m ! sc)
          | MAPMOV_SUBCARRIER_512_LIN \<Rightarrow> Some (pilot_table m ! sc)
          | MAPMOV_SUBCARRIER_64_LIN \<Rightarrow> Some 0
          | MAPMOV_SUBCARRIER_OTHER v \<Rightarrow> None)
      in map_option (\<lambda>t. m\<lparr>pilot_table := t\<rparr>) (map_option_list entry [0..<fft_size]))"

definition em_settings_did_change :: "emulate_mapmov \<Rightarrow> emulate_mapmov option" where
  "em_settings_did_change m =
     (let m1 = m\<lparr>enable_table := replicate fft_size False, pilot_table := replicate fft_size 0\<rparr>
      in Option.bind (build_enable_subcarrier_table m1) build_pilot_table)"

definition EmulateMapmov :: "subcarrier_allocation \<Rightarrow> emulate_mapmov option" where
  "EmulateMapmov x = em_settings_did_change
     \<lparr>em_enabled_subcarriers = 0, em_subcarrier_allocation = x,
      em_modulation_schema = FEEDBACK_MAPMOV_QPSK, enable_table = [], pilot_table = []\<rparr>"

definition em_set_subcarrier_allocation ::
    "emulate_mapmov \<Rightarrow> subcarrier_allocation \<Rightarrow> emulate_mapmov option" where
  "em_set_subcarrier_allocation m v = em_settings_did_change (m\<lparr>em_subcarrier_allocation := v\<rparr>)"

definition em_set_modulation_schema :: "emulate_mapmov \<Rightarrow> modulation_schema \<Rightarrow> emulate_mapmov" where
  "em_set_modulation_schema m v = m\<lparr>em_modulation_schema := v\<rparr>"

definition map_table :: "u32 list" where
  "map_table = [0xE95FE95F, 0x16A1E95F, 0xE95F16A1, 0x16A116A1]"

definition map_word :: "u32 \<Rightarrow> u32 list" where
  "map_word w = map (\<lambda>i. map_table ! unat (drop_bit (i * 2) w AND 3)) [0..<16]"

definition map_input_data :: "u32 list \<Rightarrow> u32 list \<Rightarrow> u32 list" where
  "map_input_data input_data mapmov_data =
     fold (\<lambda>w out. out @ map_word w) input_data mapmov_data"

definition move_frame ::
    "emulate_mapmov \<Rightarrow> u32 list \<Rightarrow> nat \<times> u32 list \<Rightarrow> (nat \<times> u32 list) option" where
  "move_frame m mapped s =
     fold_option (\<lambda>sc (consumed, out).
         if enable_table m ! sc then
           map_option (\<lambda>w. (consumed + 1, out @ [w])) (vec_get mapped consumed)
         else Some (consumed, out @ [pilot_table m ! sc]))
       [0..<fft_size] s"

partial_function (option) move_loop ::
    "emulate_mapmov \<Rightarrow> u32 list \<Rightarrow> nat \<times> u32 list \<Rightarrow> u32 list option option" where
  "move_loop m mapped s =
     (if fst s < length mapped then
        (case move_frame m mapped s of
           None \<Rightarrow> Some None
         | Some s' \<Rightarrow> move_loop m mapped s')
      else Some (Some (snd s)))"

definition move_input_data :: "emulate_mapmov \<Rightarrow> u32 list \<Rightarrow> u32 list \<Rightarrow> u32 list option option" where
  "move_input_data m mapped mapmov_out = move_loop m mapped (0, mapmov_out)"

definition receive_tx_data :: "u32 list \<Rightarrow> u32 list \<Rightarrow> u32 list option" where
  "receive_tx_data rx_out mapmov_out =
     fold_option (\<lambda>i rx.
         let m = i mod fft_size; base = i - m; output_index = base + tx_rx m
         in if output_index < length rx then Some (rx[output_index := mapmov_out ! i]) else None)
       [0..<length mapmov_out] rx_out"

definition mover_bounds :: "subcarrier_allocation \<Rightarrow> (nat \<times> nat \<times> bool) option" where
  "mover_bounds a = (case a of
       MAPMOV_SUBCARRIER_128 \<Rightarrow> Some (129, 896, False)
     | MAPMOV_SUBCARRIER_320 \<Rightarrow> Some (321, 704, False)
     | MAPMOV_SUBCARRIER_640_LIN \<Rightarrow> Some (0, 0, False)
     | MAPMOV_SUBCARRIER_512_LIN \<Rightarrow> Some (0, 0, False)
     | MAPMOV_SUBCARRIER_64_LIN \<Rightarrow> Some (945, 1009, True)
     | MAPMOV_SUBCARRIER_OTHER v \<Rightarrow> None)"

text \<open>The odd indices with a gap; the index jumps over the gap inside the loop. The guard
  \<open>lower_bound \<le> upper_bound\<close> holds for every setting and makes the recursion end.\<close>

function odd_indices :: "nat \<Rightarrow> nat \<Rightarrow> nat \<Rightarrow> nat list" where
  "odd_indices lower_bound upper_bound i =
     (if i < fft_size \<and> lower_bound \<le> upper_bound then
        let i' = (if i = lower_bound then upper_bound + 1 else i)
        in i' # odd_indices lower_bound upper_bound (i' + 2)
      else [])"
  by pat_completeness auto
termination
  by (relation "measure (\<lambda>(l, u, i). fft_size - i)") auto

declare odd_indices.simps [simp del]

definition rx_reverse_mover :: "emulate_mapmov \<Rightarrow> u32 list \<Rightarrow> u32 list \<Rightarrow> u32 list option" where
  "rx_reverse_mover m vmem_mover_out rx_out =
     (case mover_bounds (em_subcarrier_allocation m) of None \<Rightarrow> None
      | Some (lower_bound, upper_bound, linear) \<Rightarrow>
          let reverse_mover = (if linear then [lower_bound..<upper_bound]
                else odd_indices lower_bound upper_bound 1)
          in Some (fold (\<lambda>i out. if i mod fft_size \<in> set reverse_mover then out @ [rx_out ! i] else out)
               [0..<length rx_out] vmem_mover_out))"

definition slice_bits :: "u32 \<Rightarrow> u32" where
  "slice_bits inp = (drop_bit 30 inp AND 2) OR (drop_bit 15 inp AND 1)"

definition slice_rx_data :: "u32 list \<Rightarrow> u32 list \<Rightarrow> u32 list" where
  "slice_rx_data vmem_mover_out sliced_out_data =
     snd (fold (\<lambda>i (w, out).
         let j = i mod 16;
             w' = drop_bit 2 w OR push_bit 30 (slice_bits (vmem_mover_out ! i))
         in if j = 15 then (0, out @ [w']) else (w', out))
       [0..<length vmem_mover_out] (0, sliced_out_data))"

section \<open>The tables\<close>

definition sc_enabled :: "subcarrier_allocation \<Rightarrow> nat \<Rightarrow> bool" where
  "sc_enabled a sc = (case a of
       MAPMOV_SUBCARRIER_128 \<Rightarrow> odd sc \<and> (sc < 129 \<or> 896 < sc)
     | MAPMOV_SUBCARRIER_320 \<Rightarrow> odd sc \<and> (sc < 321 \<or> 704 < sc)
     | MAPMOV_SUBCARRIER_64_LIN \<Rightarrow> 16 \<le> sc \<and> sc < 80
     | _ \<Rightarrow> False)"

definition enabled_list :: "subcarrier_allocation \<Rightarrow> nat list" where
  "enabled_list a = filter (sc_enabled a) [0..<fft_size]"

definition em_ok :: "emulate_mapmov \<Rightarrow> bool" where
  "em_ok m \<longleftrightarrow> enable_table m = map (sc_enabled (em_subcarrier_allocation m)) [0..<fft_size] \<and>
     em_enabled_subcarriers m = length (enabled_list (em_subcarrier_allocation m))"

lemma filter_map_id: "length (filter id (map f xs)) = length (filter f xs)"
  by (induction xs) simp_all

lemma enable_table_built:
  assumes "\<forall>v. em_subcarrier_allocation m \<noteq> MAPMOV_SUBCARRIER_OTHER v"
    and "enable_table m = replicate fft_size False"
  shows "build_enable_subcarrier_table m = Some (m\<lparr>
    enable_table := map (sc_enabled (em_subcarrier_allocation m)) [0..<fft_size],
    em_enabled_subcarriers := length (enabled_list (em_subcarrier_allocation m))\<rparr>)"
proof -
  let ?entry = "\<lambda>sc. case em_subcarrier_allocation m of
            MAPMOV_SUBCARRIER_128 \<Rightarrow> Some (odd sc \<and> (sc < 129 \<or> 896 < sc))
          | MAPMOV_SUBCARRIER_320 \<Rightarrow> Some (odd sc \<and> (sc < 321 \<or> 704 < sc))
          | MAPMOV_SUBCARRIER_640_LIN \<Rightarrow> Some (enable_table m ! sc)
          | MAPMOV_SUBCARRIER_512_LIN \<Rightarrow> Some (enable_table m ! sc)
          | MAPMOV_SUBCARRIER_64_LIN \<Rightarrow> Some (16 \<le> sc \<and> sc < 80)
          | MAPMOV_SUBCARRIER_OTHER v \<Rightarrow> None"
  have "map_option_list ?entry [0..<fft_size] =
      Some (map (sc_enabled (em_subcarrier_allocation m)) [0..<fft_size])"
    using assms by (intro map_option_list_Some) (auto simp: sc_enabled_def split: subcarrier_allocation.splits)
  then show ?thesis
    unfolding build_enable_subcarrier_table_def Let_def by (simp add: filter_map_id enabled_list_def)
qed

lemma pilot_table_built:
  assumes "\<forall>v. em_subcarrier_allocation m \<noteq> MAPMOV_SUBCARRIER_OTHER v"
  shows "\<exists>t. build_pilot_table m = Some (m\<lparr>pilot_table := t\<rparr>) \<and> length t = fft_size"
proof -
  let ?p = "0x2000 :: u32"
  let ?g = "\<lambda>sc. case em_subcarrier_allocation m of
            MAPMOV_SUBCARRIER_128 \<Rightarrow> if sc \<le> 128 \<or> 896 \<le> sc then ?p else 0
          | MAPMOV_SUBCARRIER_320 \<Rightarrow> if even sc \<and> (sc \<le> 323 \<or> 701 \<le> sc) then ?p else 0
          | MAPMOV_SUBCARRIER_64_LIN \<Rightarrow> 0
          | _ \<Rightarrow> pilot_table m ! sc"
  have "map_option_list (\<lambda>sc. case em_subcarrier_allocation m of
            MAPMOV_SUBCARRIER_128 \<Rightarrow> Some (if sc \<le> 128 \<or> 896 \<le> sc then ?p else 0)
          | MAPMOV_SUBCARRIER_320 \<Rightarrow> Some (if even sc \<and> (sc \<le> 323 \<or> 701 \<le> sc) then ?p else 0)
          | MAPMOV_SUBCARRIER_640_LIN \<Rightarrow> Some (pilot_table m ! sc)
          | MAPMOV_SUBCARRIER_512_LIN \<Rightarrow> Some (pilot_table m ! sc)
          | MAPMOV_SUBCARRIER_64_LIN \<Rightarrow> Some 0
          | MAPMOV_SUBCARRIER_OTHER v \<Rightarrow> None) [0..<fft_size] = Some (map ?g [0..<fft_size])"
    using assms by (intro map_option_list_Some) (auto split: subcarrier_allocation.splits)
  then have "build_pilot_table m = Some (m\<lparr>pilot_table := map ?g [0..<fft_size]\<rparr>)"
    unfolding build_pilot_table_def Let_def by simp
  then show ?thesis by (intro exI conjI) (assumption, simp)
qed

lemma settings_did_change_ok:
  assumes "\<forall>v. em_subcarrier_allocation m \<noteq> MAPMOV_SUBCARRIER_OTHER v"
  shows "\<exists>m'. em_settings_did_change m = Some m' \<and> em_ok m' \<and>
    em_subcarrier_allocation m' = em_subcarrier_allocation m"
proof -
  define m1 where "m1 = m\<lparr>enable_table := replicate fft_size False, pilot_table := replicate fft_size 0\<rparr>"
  define m2 where "m2 = m1\<lparr>enable_table := map (sc_enabled (em_subcarrier_allocation m)) [0..<fft_size],
    em_enabled_subcarriers := length (enabled_list (em_subcarrier_allocation m))\<rparr>"
  have m1: "build_enable_subcarrier_table m1 = Some m2"
    using enable_table_built [of m1] assms by (simp add: m1_def m2_def)
  obtain t where "build_pilot_table m2 = Some (m2\<lparr>pilot_table := t\<rparr>)"
    using pilot_table_built [of m2] assms by (auto simp: m2_def m1_def)
  with m1 have "em_settings_did_change m = Some (m2\<lparr>pilot_table := t\<rparr>)"
    by (simp add: em_settings_did_change_def m1_def [symmetric])
  then show ?thesis by (auto simp: em_ok_def m2_def m1_def)
qed

section \<open>Spreading and gathering one frame\<close>

fun scatter :: "(nat \<Rightarrow> bool) \<Rightarrow> (nat \<Rightarrow> u32) \<Rightarrow> nat list \<Rightarrow> u32 list \<Rightarrow> u32 list" where
  "scatter en pilot [] xs = []"
| "scatter en pilot (sc # scs) xs =
     (if en sc then hd xs # scatter en pilot scs (tl xs) else pilot sc # scatter en pilot scs xs)"

lemma length_scatter [simp]: "length (scatter en pilot scs xs) = length scs"
  by (induction scs arbitrary: xs) simp_all

lemma gather_scatter:
  "length (filter en scs) \<le> length xs \<Longrightarrow>
    map ((!) (scatter en pilot scs xs)) (filter (\<lambda>i. en (scs ! i)) [0..<length scs]) =
    take (length (filter en scs)) xs"
proof (induction scs arbitrary: xs)
  case Nil
  then show ?case by simp
next
  case (Cons sc scs)
  have range: "[0..<length (sc # scs)] = 0 # map Suc [0..<length scs]"
    by (simp add: upt_conv_Cons map_Suc_upt del: upt_Suc)
  have tail: "filter (\<lambda>i. en ((sc # scs) ! i)) (map Suc [0..<length scs]) =
      map Suc (filter (\<lambda>i. en (scs ! i)) [0..<length scs])"
    by (simp add: filter_map o_def)
  show ?case
  proof (cases "en sc")
    case True
    with Cons.prems obtain x xs' where "xs = x # xs'" "length (filter en scs) \<le> length xs'"
      by (cases xs) auto
    with Cons.IH [of xs'] True show ?thesis
      unfolding range by (simp add: tail o_def)
  next
    case False
    with Cons.IH [of xs] Cons.prems show ?thesis
      unfolding range by (simp add: tail o_def)
  qed
qed

lemma fold_scatter:
  assumes "length (filter (\<lambda>sc. enable_table m ! sc) scs) \<le> length mapped - c"
  shows "fold_option (\<lambda>sc (consumed, out).
         if enable_table m ! sc then
           map_option (\<lambda>w. (consumed + 1, out @ [w])) (vec_get mapped consumed)
         else Some (consumed, out @ [pilot_table m ! sc])) scs (c, out) =
    Some (c + length (filter (\<lambda>sc. enable_table m ! sc) scs),
      out @ scatter (\<lambda>sc. enable_table m ! sc) (\<lambda>sc. pilot_table m ! sc) scs (drop c mapped))"
  using assms
proof (induction scs arbitrary: c out)
  case Nil
  then show ?case by simp
next
  case (Cons sc scs)
  show ?case
  proof (cases "enable_table m ! sc")
    case True
    with Cons.prems have c: "c < length mapped" by simp
    then have "drop c mapped = mapped ! c # drop (Suc c) mapped" by (simp add: Cons_nth_drop_Suc)
    with Cons True c show ?thesis by simp
  next
    case False
    with Cons show ?thesis by simp
  qed
qed

definition em_frame :: "emulate_mapmov \<Rightarrow> u32 list \<Rightarrow> u32 list" where
  "em_frame m xs = scatter (\<lambda>sc. enable_table m ! sc) (\<lambda>sc. pilot_table m ! sc) [0..<fft_size] xs"

lemma scatter_take:
  "length (filter en scs) \<le> n \<Longrightarrow> length (filter en scs) \<le> length xs \<Longrightarrow>
    scatter en pilot scs (take n xs) = scatter en pilot scs xs"
proof (induction scs arbitrary: n xs)
  case (Cons sc scs)
  show ?case
  proof (cases "en sc")
    case True
    with Cons.prems obtain x xs' n' where "xs = x # xs'" "n = Suc n'"
      by (cases xs; cases n) auto
    with Cons.IH [of n' xs'] Cons.prems True show ?thesis by simp
  next
    case False
    with Cons show ?thesis by simp
  qed
qed simp

lemma em_ok_filter:
  assumes "em_ok m"
  shows "filter (\<lambda>sc. enable_table m ! sc) [0..<fft_size] = enabled_list (em_subcarrier_allocation m)"
  using assms by (auto simp: em_ok_def enabled_list_def intro: filter_cong)

lemma move_frame_eq:
  assumes "em_ok m" "n = length (enabled_list (em_subcarrier_allocation m))" "c + n \<le> length mapped"
  shows "move_frame m mapped (c, out) = Some (c + n, out @ em_frame m (vslice c n mapped))"
proof -
  have "move_frame m mapped (c, out) = Some (c + n, out @ em_frame m (drop c mapped))"
    unfolding move_frame_def em_frame_def
    using assms fold_scatter [of m "[0..<fft_size]" mapped c out] by (simp only: em_ok_filter)
  also have "em_frame m (drop c mapped) = em_frame m (vslice c n mapped)"
    unfolding em_frame_def vslice_def using assms
    by (intro scatter_take [symmetric]) (simp_all only: em_ok_filter length_drop)
  finally show ?thesis .
qed

lemma move_loop_eq:
  assumes "em_ok m" "n = length (enabled_list (em_subcarrier_allocation m))" "0 < n"
    and "length mapped = (j + k) * n"
  shows "move_loop m mapped (j * n, out) =
    Some (Some (out @ concat (map (\<lambda>i. em_frame m (vslice (i * n) n mapped)) [j..<j + k])))"
  using assms(4)
proof (induction k arbitrary: j out)
  case 0
  then show ?case by (subst move_loop.simps) simp
next
  case (Suc k)
  have "j * n + n \<le> length mapped" using Suc.prems by (simp add: algebra_simps)
  then have frame: "move_frame m mapped (j * n, out) =
      Some (Suc j * n, out @ em_frame m (vslice (j * n) n mapped))"
    using move_frame_eq [OF assms(1,2)] by (simp add: add.commute)
  have "move_loop m mapped (j * n, out) = move_loop m mapped (Suc j * n, out @ em_frame m (vslice (j * n) n mapped))"
    using assms(3) \<open>j * n + n \<le> length mapped\<close> by (subst move_loop.simps) (simp add: frame)
  also have "\<dots> = Some (Some ((out @ em_frame m (vslice (j * n) n mapped)) @
      concat (map (\<lambda>i. em_frame m (vslice (i * n) n mapped)) [Suc j..<Suc j + k])))"
    using Suc.prems by (intro Suc.IH) simp
  finally show ?case by (simp add: upt_conv_Cons del: upt_Suc)
qed

section \<open>The mirrored spectrum\<close>

lemma tx_rx_less: "x < fft_size \<Longrightarrow> tx_rx x < fft_size"
  by (simp add: tx_rx_def)

lemma tx_rx_tx_rx: "x < fft_size \<Longrightarrow> tx_rx (tx_rx x) = x"
  by (auto simp: tx_rx_def)

definition mirror :: "nat \<Rightarrow> nat" where
  "mirror i = i div fft_size * fft_size + tx_rx (i mod fft_size)"

lemma mirror_code: "i - i mod fft_size + tx_rx (i mod fft_size) = mirror i"
  by (simp add: mirror_def minus_mod_eq_div_mult)

lemma mirror_parts: "mirror i div fft_size = i div fft_size" "mirror i mod fft_size = tx_rx (i mod fft_size)"
  using tx_rx_less [of "i mod fft_size"] by (simp_all add: mirror_def)

lemma mirror_mirror: "mirror (mirror i) = i"
  unfolding mirror_def [of "mirror i"] mirror_parts by (simp add: tx_rx_tx_rx)

lemma mirror_less:
  assumes "i < k * fft_size"
  shows "mirror i < k * fft_size"
proof -
  have "mirror i div fft_size < k"
    unfolding mirror_parts using assms by (simp add: div_less_iff_less_mult)
  then show ?thesis by (simp add: div_less_iff_less_mult)
qed

lemma receive_tx_data_eq:
  assumes "length mapmov_out = k * fft_size" "length rx = k * fft_size"
  shows "receive_tx_data rx mapmov_out = Some (map (\<lambda>q. mapmov_out ! mirror q) [0..<k * fft_size])"
proof -
  let ?f = "\<lambda>i rx. rx[mirror i := mapmov_out ! i]"
  have len: "length (fold ?f is rx) = length rx" for "is" and rx :: "u32 list"
    by (induction "is" arbitrary: rx) simp_all
  have part: "fold ?f [0..<i] rx ! q = (if mirror q < i then mapmov_out ! mirror q else rx ! q)"
    if "i \<le> k * fft_size" "q < k * fft_size" for i q
    using that
  proof (induction i)
    case (Suc i)
    have "mirror i = q \<longleftrightarrow> i = mirror q" by (metis mirror_mirror)
    with Suc assms(2) len show ?case by (auto simp: nth_list_update_in less_Suc_eq)
  qed simp
  have "fold_option (\<lambda>i rx. let m = i mod fft_size; base = i - m; output_index = base + tx_rx m
         in if output_index < length rx then Some (rx[output_index := mapmov_out ! i]) else None)
      is rx = Some (fold ?f is rx)"
    if "length rx = k * fft_size" "\<forall>i \<in> set is. i < k * fft_size" for "is" rx
    using that by (induction "is" arbitrary: rx) (simp_all add: mirror_code mirror_less)
  then have "receive_tx_data rx mapmov_out = Some (fold ?f [0..<k * fft_size] rx)"
    unfolding receive_tx_data_def using assms by simp
  moreover have "fold ?f [0..<k * fft_size] rx = map (\<lambda>q. mapmov_out ! mirror q) [0..<k * fft_size]"
    using part [OF le_refl] len [of _ rx] assms(2) by (intro nth_equalityI) (simp_all add: mirror_less)
  ultimately show ?thesis by simp
qed

lemma rev_upt_mirror: "map (\<lambda>x. 1024 - x) [1..<1024] = rev [1..<1024 :: nat]"
  by (intro nth_equalityI) (auto simp: rev_nth)

lemma mirrored_filter:
  assumes "\<not> P 0"
  shows "map tx_rx (filter (\<lambda>q. P (tx_rx q)) [0..<fft_size]) = rev (filter P [0..<fft_size])"
proof -
  have range: "[0..<fft_size] = 0 # [1..<fft_size]"
    using upt_conv_Cons [of 0 fft_size] by (simp only: zero_less_numeral One_nat_def simp_thms)
  have "map tx_rx (filter (\<lambda>q. P (tx_rx q)) [1..<fft_size]) = filter P (map tx_rx [1..<fft_size])"
    by (simp add: filter_map o_def)
  also have "map tx_rx [1..<fft_size] = rev [1..<fft_size]"
    unfolding rev_upt_mirror [symmetric] by (intro map_cong) (auto simp: tx_rx_def)
  also have "filter P (rev [1..<fft_size]) = rev (filter P [1..<fft_size])" by (rule rev_filter [symmetric])
  finally have tail: "map tx_rx (filter (\<lambda>q. P (tx_rx q)) [1..<fft_size]) = rev (filter P [1..<fft_size])" .
  have "tx_rx 0 = 0" by (simp add: tx_rx_def)
  then show ?thesis
    unfolding range filter.simps using assms tail by (simp only: if_False)
qed

section \<open>The reverse mover\<close>

definition mover_set :: "subcarrier_allocation \<Rightarrow> nat list" where
  "mover_set a = (case mover_bounds a of
     Some (l, u, linear) \<Rightarrow> if linear then [l..<u] else odd_indices l u 1 | None \<Rightarrow> [])"

lemma odd_indices_set:
  assumes "l \<le> u" "odd l" "even u" "u + 1 < fft_size" "odd i" "i \<le> l \<or> u < i"
  shows "q \<in> set (odd_indices l u i) \<longleftrightarrow> odd q \<and> i \<le> q \<and> q < fft_size \<and> (q < l \<or> u < q)"
  using assms
proof (induction l u i rule: odd_indices.induct)
  case (1 l u i)
  show ?case
  proof (cases "i < fft_size")
    case False
    then show ?thesis by (subst odd_indices.simps) auto
  next
    case True
    define i' where "i' = (if i = l then u + 1 else i)"
    have odd: "odd i'" "odd (i' + 2)" and i': "i \<le> i'" "i' < fft_size" "i' < l \<or> u < i'"
      using "1.prems" True by (auto simp: i'_def)
    have nxt: "i' + 2 \<le> l \<or> u < i' + 2"
    proof (cases "i' < l")
      case True
      then have "i' + 1 \<noteq> l" using odd(1) "1.prems"(2) by auto
      with True show ?thesis by linarith
    next
      case False
      with i'(3) show ?thesis by linarith
    qed
    have IH: "q \<in> set (odd_indices l u (i' + 2)) \<longleftrightarrow> odd q \<and> i' + 2 \<le> q \<and> q < fft_size \<and> (q < l \<or> u < q)"
      using "1.IH" [OF _ i'_def] True "1.prems" odd nxt by simp
    have step: "odd_indices l u i = i' # odd_indices l u (i' + 2)"
      using True "1.prems"(1) by (subst odd_indices.simps) (simp add: i'_def Let_def)
    have "q = i' \<or> i' + 2 \<le> q" if "odd q" "i \<le> q" "q < l \<or> u < q"
    proof -
      have "i' \<le> q" using that "1.prems"(6) by (auto simp: i'_def)
      moreover have "q \<noteq> i' + 1" using that(1) odd(1) by auto
      ultimately show ?thesis by linarith
    qed
    then show ?thesis
      unfolding step using IH odd(1) i' by auto
  qed
qed

lemma mover_set_enabled:
  assumes "a = MAPMOV_SUBCARRIER_128 \<or> a = MAPMOV_SUBCARRIER_320 \<or> a = MAPMOV_SUBCARRIER_64_LIN"
    and "q < fft_size"
  shows "q \<in> set (mover_set a) \<longleftrightarrow> sc_enabled a (tx_rx q)"
proof -
  have ne: "odd q \<Longrightarrow> q \<noteq> 128 \<and> q \<noteq> 896 \<and> q \<noteq> 320 \<and> q \<noteq> 704" by auto
  show ?thesis
  using assms(1)
proof (elim disjE)
  assume "a = MAPMOV_SUBCARRIER_128"
  then show ?thesis
    using assms(2) odd_indices_set [of 129 896 1 q] ne
    by (auto simp: mover_set_def mover_bounds_def sc_enabled_def tx_rx_def)
next
  assume "a = MAPMOV_SUBCARRIER_320"
  then show ?thesis
    using assms(2) odd_indices_set [of 321 704 1 q] ne
    by (auto simp: mover_set_def mover_bounds_def sc_enabled_def tx_rx_def)
next
  assume "a = MAPMOV_SUBCARRIER_64_LIN"
  then show ?thesis
    using assms(2)
    by (auto simp: mover_set_def mover_bounds_def sc_enabled_def tx_rx_def simp del: upt_rec_numeral)
qed
qed

lemma rx_reverse_mover_eq:
  assumes "mover_bounds (em_subcarrier_allocation m) \<noteq> None"
  shows "rx_reverse_mover m [] rx = Some (map ((!) rx)
    (filter (\<lambda>i. i mod fft_size \<in> set (mover_set (em_subcarrier_allocation m))) [0..<length rx]))"
proof -
  have "fold (\<lambda>i out. if P i then out @ [f i] else out) is acc = acc @ map f (filter P is)"
    for P and f :: "nat \<Rightarrow> u32" and "is" acc
    by (induction "is" arbitrary: acc) simp_all
  moreover obtain l u linear where "mover_bounds (em_subcarrier_allocation m) = Some (l, u, linear)"
    using assms by (metis not_None_eq prod_cases3)
  ultimately show ?thesis
    by (simp add: rx_reverse_mover_def mover_set_def Let_def del: set_upt)
qed

lemma upt_frames: "[0..<k * n] = concat (map (\<lambda>j. map (\<lambda>p. j * n + p) [0..<n]) [0..<k])"
proof (induction k)
  case 0
  then show ?case by simp
next
  case (Suc k)
  have "[0..<Suc k * n] = [0..<k * n] @ [k * n..<k * n + n]"
    by (simp only: mult_Suc add.commute [of n] upt_add_eq_append [OF le0])
  also have "[k * n..<k * n + n] = map (\<lambda>p. k * n + p) [0..<n]"
    by (intro nth_equalityI) simp_all
  finally show ?case using Suc by simp
qed

lemma nth_concat_frames:
  "\<forall>c \<in> set cs. length c = n \<Longrightarrow> j < length cs \<Longrightarrow> p < n \<Longrightarrow> concat cs ! (j * n + p) = cs ! j ! p"
proof (induction cs arbitrary: j)
  case (Cons c cs)
  then show ?case by (cases j) (auto simp: nth_append)
qed simp

section \<open>Slicing\<close>

definition shift_in :: "u32 \<Rightarrow> u32 \<Rightarrow> u32" where
  "shift_in b w = drop_bit 2 w OR push_bit 30 b"

lemma bit_shift_in:
  assumes "\<forall>b \<in> set bs. is_pair b" "length bs \<le> 16"
  shows "bit (fold shift_in bs 0) n \<longleftrightarrow> 32 - 2 * length bs \<le> n \<and> n < 32 \<and>
    bit (bs ! ((n - (32 - 2 * length bs)) div 2)) (n mod 2)"
  using assms
proof (induction bs arbitrary: n rule: rev_induct)
  case Nil
  then show ?case by simp
next
  case (snoc b bs)
  define k where "k = 16 - length (bs @ [b])"
  have len: "length bs = 15 - k" "k \<le> 15" using snoc.prems by (simp_all add: k_def)
  have e: "32 - 2 * length bs = 2 * k + 2" "32 - 2 * length (bs @ [b]) = 2 * k" using len by auto
  have step: "bit (fold shift_in (bs @ [b]) 0) n \<longleftrightarrow>
      bit (fold shift_in bs 0) (2 + n) \<or> 30 \<le> n \<and> n < 32 \<and> bit b (n - 30)"
    unfolding fold_append fold_simps comp_apply id_apply shift_in_def bit_rules by simp
  have IH: "bit (fold shift_in bs 0) (2 + n) \<longleftrightarrow> 2 * k \<le> n \<and> n < 30 \<and> bit (bs ! ((n - 2 * k) div 2)) (n mod 2)"
    using snoc.IH [of "2 + n"] snoc.prems e(1) by simp
  show ?case
  proof (cases "n < 30")
    case True
    have "(n - 2 * k) div 2 < length bs" if "2 * k \<le> n" using that True len by linarith
    with True show ?thesis unfolding step IH e(2) by (auto simp: nth_append)
  next
    case False
    have "(n - 2 * k) div 2 = length bs" "n mod 2 = n - 30" if "n < 32"
    proof -
      have "n = 30 \<or> n = 31" using that False by linarith
      then show "(n - 2 * k) div 2 = length bs" "n mod 2 = n - 30" using len by auto
    qed
    moreover have "2 * k \<le> n" using False len(2) by linarith
    ultimately show ?thesis unfolding step IH e(2) using False by auto
  qed
qed

definition slice_step :: "u32 list \<Rightarrow> nat \<Rightarrow> u32 \<times> u32 list \<Rightarrow> u32 \<times> u32 list" where
  "slice_step xs i = (\<lambda>(w, out).
     let j = i mod 16; w' = drop_bit 2 w OR push_bit 30 (slice_bits (xs ! i))
     in if j = 15 then (0, out @ [w']) else (w', out))"

definition slice_word :: "u32 list \<Rightarrow> u32" where
  "slice_word xs = fold shift_in (map slice_bits xs) 0"

lemma slice_part:
  "16 * j + m \<le> length xs \<Longrightarrow> m \<le> 15 \<Longrightarrow>
    fold (slice_step xs) [16 * j..<16 * j + m] (0, out) = (slice_word (vslice (16 * j) m xs), out)"
proof (induction m)
  case 0
  then show ?case by (simp add: slice_word_def vslice_def)
next
  case (Suc m)
  have "vslice (16 * j) (Suc m) xs = vslice (16 * j) m xs @ [xs ! (16 * j + m)]"
    using Suc.prems by (simp add: vslice_def take_Suc_conv_app_nth)
  with Suc show ?case
    by (simp add: slice_step_def slice_word_def shift_in_def Let_def)
qed

lemma slice_block:
  assumes "16 * j + 16 \<le> length xs"
  shows "fold (slice_step xs) [16 * j..<16 * j + 16] (0, out) = (0, out @ [slice_word (vslice (16 * j) 16 xs)])"
proof -
  have range: "[16 * j..<16 * j + 16] = [16 * j..<16 * j + 15] @ [16 * j + 15]"
    using upt_Suc_append [of "16 * j" "16 * j + 15"] by (simp add: add.commute del: upt_Suc)
  have cut: "vslice (16 * j) 16 xs = vslice (16 * j) 15 xs @ [xs ! (16 * j + 15)]"
    using assms take_Suc_conv_app_nth [of 15 "drop (16 * j) xs"] by (simp add: vslice_def)
  have "(16 * j + 15) mod 16 = 15" by presburger
  then show ?thesis
    unfolding range fold_append comp_apply cut using slice_part [of j 15 xs out] assms
    by (simp add: slice_step_def slice_word_def shift_in_def Let_def)
qed

lemma slice_fold:
  "16 * k \<le> length xs \<Longrightarrow> fold (slice_step xs) [0..<16 * k] (0, out) =
    (0, out @ map (\<lambda>j. slice_word (vslice (16 * j) 16 xs)) [0..<k])"
proof (induction k)
  case 0
  then show ?case by simp
next
  case (Suc k)
  have "[0..<16 * Suc k] = [0..<16 * k] @ [16 * k..<16 * k + 16]"
    using upt_add_eq_append [of 0 "16 * k" 16] by (simp add: add.commute)
  with Suc slice_block [of k xs] show ?case by simp
qed

lemma slice_rx_data_eq:
  assumes "length xs = 16 * k"
  shows "slice_rx_data xs [] = map (\<lambda>j. slice_word (vslice (j * 16) 16 xs)) [0..<k]"
proof -
  have "slice_rx_data xs [] = snd (fold (slice_step xs) [0..<16 * k] (0, []))"
    unfolding slice_rx_data_def assms slice_step_def by simp
  then show ?thesis using slice_fold [of k xs "[]"] assms by (simp add: mult.commute)
qed

lemma length_map_word [simp]: "length (map_word w) = 16"
  by (simp add: map_word_def)

lemma symbol_bits:
  fixes v :: u32
  shows "bit (slice_bits (map_table ! unat (v AND 3))) n \<longleftrightarrow> n = 0 \<and> \<not> bit v 1 \<or> n = 1 \<and> \<not> bit v 0"
proof -
  have s: "slice_bits 0xE95FE95F = 3" "slice_bits 0x16A1E95F = 1" "slice_bits 0xE95F16A1 = 2"
    "slice_bits 0x16A116A1 = 0"
    by (simp_all add: slice_bits_def)
  show ?thesis
  proof (cases v rule: word_pair_cases)
    case 1
    then show ?thesis by (auto simp: map_table_def s pair_numeral_bits)
  next
    case 2
    then show ?thesis by (auto simp: map_table_def s pair_numeral_bits)
  next
    case 3
    then show ?thesis by (auto simp: map_table_def s pair_numeral_bits)
  next
    case 4
    then show ?thesis by (auto simp: map_table_def s pair_numeral_bits)
  qed
qed

lemma slice_map_word: "slice_word (rev (map_word w)) = bitMangleSliced w"
proof (rule bit_word_eqI)
  fix n
  assume "n < LENGTH(32)"
  then have n: "n < 32" by simp
  let ?bs = "map slice_bits (rev (map_word w))"
  have nth: "?bs ! c = slice_bits (map_table ! unat (drop_bit ((15 - c) * 2) w AND 3))" if "c < 16" for c
  proof -
    have "rev (map_word w) ! c = map_word w ! (15 - c)" using that by (simp add: rev_nth)
    also have "\<dots> = map_table ! unat (drop_bit ((15 - c) * 2) w AND 3)"
      unfolding map_word_def using that by (subst nth_map) simp_all
    finally show ?thesis using that by simp
  qed
  have pairs: "\<forall>b \<in> set ?bs. is_pair b"
    by (auto simp: map_word_def is_pair_def symbol_bits)
  have c: "n div 2 < 16" "15 * 2 - n div 2 * 2 = (15 - n div 2) * 2" using n by auto
  have "bit (slice_word (rev (map_word w))) n \<longleftrightarrow> bit (?bs ! (n div 2)) (n mod 2)"
    unfolding slice_word_def using bit_shift_in [OF pairs, of n] n by simp
  also have "\<dots> \<longleftrightarrow> \<not> bit w (31 - n)"
  proof (cases "even n")
    case True
    then obtain q where q: "n = 2 * q" by (elim evenE)
    then have "(15 - q) * 2 + 1 = 31 - n" using n by linarith
    with q show ?thesis unfolding nth [OF c(1)] symbol_bits bit_drop_word by simp
  next
    case False
    then obtain q where q: "n = 2 * q + 1" by (elim oddE)
    then have "(15 - q) * 2 + 0 = 31 - n" using n by linarith
    with q show ?thesis unfolding nth [OF c(1)] symbol_bits bit_drop_word by simp
  qed
  finally show "bit (slice_word (rev (map_word w))) n = bit (bitMangleSliced w) n"
    using n by (simp add: bit_bitMangleSliced)
qed

lemma map_input_data_eq: "map_input_data ws [] = concat (map map_word ws)"
proof -
  have "fold (\<lambda>w out. out @ map_word w) ws acc = acc @ concat (map map_word ws)" for acc
    by (induction ws arbitrary: acc) simp_all
  then show ?thesis by (simp add: map_input_data_def)
qed

section \<open>From the words sent to the words received\<close>

text \<open>The emulated air: the composition of the five steps in \<open>AirPacket::emulateHiggsToHiggs\<close>.\<close>

definition emulate_air :: "emulate_mapmov \<Rightarrow> u32 list \<Rightarrow> u32 list option option" where
  "emulate_air m a =
     (case move_input_data m (map_input_data a []) [] of
        None \<Rightarrow> None
      | Some None \<Rightarrow> Some None
      | Some (Some mapmov_out) \<Rightarrow> Some
          (case receive_tx_data (replicate (length mapmov_out) 0) mapmov_out of
             None \<Rightarrow> None
           | Some rx_out \<Rightarrow> map_option (\<lambda>v. slice_rx_data v []) (rx_reverse_mover m [] rx_out)))"

definition symmetric_mode :: "subcarrier_allocation \<Rightarrow> bool" where
  "symmetric_mode a \<longleftrightarrow>
     a = MAPMOV_SUBCARRIER_128 \<or> a = MAPMOV_SUBCARRIER_320 \<or> a = MAPMOV_SUBCARRIER_64_LIN"

definition mode_words :: "subcarrier_allocation \<Rightarrow> nat" where
  "mode_words a = length (enabled_list a) div 16"

lemma em_frame_gather:
  assumes "em_ok m" "length c = length (enabled_list (em_subcarrier_allocation m))"
  shows "map ((!) (em_frame m c)) (enabled_list (em_subcarrier_allocation m)) = c"
proof -
  have "enabled_list (em_subcarrier_allocation m) =
      filter (\<lambda>i. enable_table m ! ([0..<fft_size] ! i)) [0..<length [0..<fft_size]]"
    unfolding em_ok_filter [OF assms(1), symmetric] length_upt minus_nat.diff_0
    by (intro filter_cong) simp_all
  then show ?thesis
    unfolding em_frame_def
    using gather_scatter [of "\<lambda>sc. enable_table m ! sc" "[0..<fft_size]" c "\<lambda>sc. pilot_table m ! sc"]
      assms em_ok_filter [OF assms(1)]
    by (simp only: le_refl take_all_iff)
qed

lemma mirrored_frame:
  assumes "em_ok m" "symmetric_mode (em_subcarrier_allocation m)"
    and "length c = length (enabled_list (em_subcarrier_allocation m))"
  shows "map (\<lambda>p. em_frame m c ! tx_rx p)
    (filter (\<lambda>p. p \<in> set (mover_set (em_subcarrier_allocation m))) [0..<fft_size]) = rev c"
proof -
  let ?a = "em_subcarrier_allocation m"
  have "filter (\<lambda>p. p \<in> set (mover_set ?a)) [0..<fft_size] = filter (\<lambda>p. sc_enabled ?a (tx_rx p)) [0..<fft_size]"
    using assms(2) mover_set_enabled by (intro filter_cong) (auto simp: symmetric_mode_def)
  moreover have "\<not> sc_enabled ?a 0" using assms(2) by (auto simp: symmetric_mode_def sc_enabled_def)
  ultimately have "map tx_rx (filter (\<lambda>p. p \<in> set (mover_set ?a)) [0..<fft_size]) = rev (enabled_list ?a)"
    unfolding enabled_list_def using mirrored_filter [of "sc_enabled ?a"] by simp
  then have "map ((!) (em_frame m c)) (map tx_rx (filter (\<lambda>p. p \<in> set (mover_set ?a)) [0..<fft_size])) =
      rev (map ((!) (em_frame m c)) (enabled_list ?a))"
    by (simp only: rev_map)
  then show ?thesis
    unfolding em_frame_gather [OF assms(1,3)] by (simp only: map_map o_def)
qed

lemma received_points:
  assumes "em_ok m" "symmetric_mode (em_subcarrier_allocation m)" "\<forall>c \<in> set cs. length c = length (enabled_list (em_subcarrier_allocation m))"
  shows "Option.bind (receive_tx_data (replicate (length (concat (map (em_frame m) cs))) 0) (concat (map (em_frame m) cs)))
    (rx_reverse_mover m []) = Some (concat (map rev cs))"
proof -
  let ?a = "em_subcarrier_allocation m" and ?out = "concat (map (em_frame m) cs)"
  define k where "k = length cs"
  have frames: "\<forall>f \<in> set (map (em_frame m) cs). length f = fft_size" by (simp add: em_frame_def)
  have len: "length ?out = k * fft_size"
    by (simp add: length_concat o_def em_frame_def sum_list_triv k_def)
  let ?rx = "map (\<lambda>q. ?out ! mirror q) [0..<k * fft_size]"
  let ?pick = "\<lambda>i. i mod fft_size \<in> set (mover_set ?a)"
  have rx: "receive_tx_data (replicate (length ?out) 0) ?out = Some ?rx"
    using len by (intro receive_tx_data_eq) simp_all
  have "mover_bounds ?a \<noteq> None" using assms(2) by (auto simp: symmetric_mode_def mover_bounds_def)
  then have "rx_reverse_mover m [] ?rx = Some (map ((!) ?rx) (filter ?pick [0..<k * fft_size]))"
    using rx_reverse_mover_eq [of m ?rx] by (simp only: length_map length_upt minus_nat.diff_0 simp_thms)
  moreover have "map ((!) ?rx) (filter ?pick [0..<k * fft_size]) =
      map (\<lambda>i. ?out ! mirror i) (filter ?pick [0..<k * fft_size])"
    by (intro map_cong) auto
  moreover have "map (\<lambda>i. ?out ! mirror i) (filter ?pick [0..<k * fft_size]) =
      concat (map (\<lambda>j. map (\<lambda>i. ?out ! mirror i) (filter ?pick (map (\<lambda>p. j * fft_size + p) [0..<fft_size]))) [0..<k])"
    unfolding upt_frames by (simp only: filter_concat map_concat map_map o_def)
  moreover have "map (\<lambda>i. ?out ! mirror i) (filter ?pick (map (\<lambda>p. j * fft_size + p) [0..<fft_size])) = rev (cs ! j)"
    if "j < k" for j
  proof -
    have "filter ?pick (map (\<lambda>p. j * fft_size + p) [0..<fft_size]) =
        map (\<lambda>p. j * fft_size + p) (filter (\<lambda>p. p \<in> set (mover_set ?a)) [0..<fft_size])"
      unfolding filter_map o_def by (intro arg_cong [where f = "map _"] filter_cong) simp_all
    moreover have "?out ! mirror (j * fft_size + p) = em_frame m (cs ! j) ! tx_rx p" if "p < fft_size" for p
      using that \<open>j < k\<close> nth_concat_frames [OF frames, of j "tx_rx p"] tx_rx_less [OF that]
      by (simp add: mirror_def k_def)
    ultimately have "map (\<lambda>i. ?out ! mirror i) (filter ?pick (map (\<lambda>p. j * fft_size + p) [0..<fft_size])) =
        map (\<lambda>p. em_frame m (cs ! j) ! tx_rx p) (filter (\<lambda>p. p \<in> set (mover_set ?a)) [0..<fft_size])"
      by (simp only: map_map o_def) (intro map_cong, auto)
    with mirrored_frame [OF assms(1,2), of "cs ! j"] assms(3) \<open>j < k\<close> show ?thesis by (simp add: k_def)
  qed
  moreover have "map (\<lambda>j. rev (cs ! j)) [0..<k] = map rev cs"
    unfolding k_def by (intro nth_equalityI) simp_all
  ultimately have "rx_reverse_mover m [] ?rx = Some (concat (map rev cs))"
    by (metis (no_types, lifting) map_cong atLeastLessThan_iff set_upt)
  with rx show ?thesis by simp
qed

lemma vslice_map_words:
  "vslice (16 * i) (16 * k) (concat (map map_word a)) = concat (map map_word (vslice i k a))"
proof (induction a arbitrary: i k)
  case Nil
  then show ?case by (simp add: vslice_def)
next
  case (Cons w a)
  show ?case
  proof (cases i)
    case (Suc i')
    with Cons.IH [of i' k] show ?thesis by (simp add: vslice_def)
  next
    case 0
    with Cons.IH [of 0 "k - 1"] show ?thesis by (cases k) (simp_all add: vslice_def)
  qed
qed

lemma slice_points: "slice_rx_data (concat (map (\<lambda>w. rev (map_word w)) ws)) [] = map bitMangleSliced ws"
proof -
  let ?xs = "concat (map (\<lambda>w. rev (map_word w)) ws)"
  have len: "length ?xs = 16 * length ws"
    by (simp add: length_concat o_def sum_list_triv)
  have "vslice (j * 16) 16 ?xs = rev (map_word (ws ! j))" if "j < length ws" for j
    using that by (subst vslice_concat) auto
  then have "map (\<lambda>j. slice_word (vslice (j * 16) 16 ?xs)) [0..<length ws] =
      map (\<lambda>j. bitMangleSliced (ws ! j)) [0..<length ws]"
    by (intro map_cong) (simp_all add: slice_map_word)
  also have "\<dots> = map bitMangleSliced ws"
    by (intro nth_equalityI) simp_all
  finally show ?thesis unfolding slice_rx_data_eq [OF len] .
qed

lemma concat_map_concat: "concat (map (\<lambda>x. concat (f x)) xs) = concat (concat (map f xs))"
  by (induction xs) simp_all

lemma emulate_air_eq:
  assumes "em_ok m" "symmetric_mode (em_subcarrier_allocation m)"
    and n: "length (enabled_list (em_subcarrier_allocation m)) = 16 * w" "0 < w" and "length a = k * w"
  shows "emulate_air m a = Some (Some (map bitMangleSliced (concat (map rev (chunks w a)))))"
proof -
  let ?mapped = "concat (map map_word a)"
  define cs where "cs = map (\<lambda>c. concat (map map_word c)) (chunks w a)"
  have chunk: "map (\<lambda>i. vslice (i * (16 * w)) (16 * w) ?mapped) [0..<k] = cs"
    unfolding cs_def chunks_vslices [OF n(2) assms(5)] mult.left_commute [of _ 16] vslice_map_words
    by (simp only: map_map o_def)
  have full: "length c = w" if "c \<in> set (chunks w a)" for c
    using chunks_lengths [OF n(2) _ that] assms(5) by simp
  have "length ?mapped = (0 + k) * (16 * w)"
    using assms(5) by (simp add: length_concat o_def sum_list_triv)
  from move_loop_eq [OF assms(1) n(1) [symmetric] _ this, of "[]"]
  have moved: "move_loop m ?mapped (0, []) = Some (Some (concat (map (em_frame m) cs)))"
    using n(2) unfolding chunk [symmetric] by (simp add: o_def)
  have "Option.bind (receive_tx_data (replicate (length (concat (map (em_frame m) cs))) 0) (concat (map (em_frame m) cs)))
    (rx_reverse_mover m []) = Some (concat (map rev cs))"
    using full n by (intro received_points [OF assms(1,2)]) (auto simp: cs_def length_concat o_def sum_list_triv)
  then obtain rx where rx: "receive_tx_data (replicate (length (concat (map (em_frame m) cs))) 0) (concat (map (em_frame m) cs)) = Some rx"
    "rx_reverse_mover m [] rx = Some (concat (map rev cs))"
    by (auto simp: bind_eq_Some_conv)
  have "concat (map rev cs) = concat (map (\<lambda>w. rev (map_word w)) (concat (map rev (chunks w a))))"
    by (simp add: cs_def map_concat o_def rev_concat rev_map concat_map_concat)
  then show ?thesis
    using moved rx by (simp add: emulate_air_def move_input_data_def map_input_data_eq slice_points)
qed

lemma length_enabled_list: "length (enabled_list a) = card {sc. sc < fft_size \<and> sc_enabled a sc}"
proof -
  have "distinct (enabled_list a)" unfolding enabled_list_def by (intro distinct_filter distinct_upt)
  then have "length (enabled_list a) = card (set (enabled_list a))" by (rule distinct_card [symmetric])
  also have "set (enabled_list a) = {sc. sc < fft_size \<and> sc_enabled a sc}"
    unfolding enabled_list_def set_filter set_upt by auto
  finally show ?thesis .
qed

lemma card_odd_split:
  assumes "l \<le> u" "u \<le> 512"
  shows "card {sc. sc < fft_size \<and> odd sc \<and> (sc < 2 * l + 1 \<or> 2 * u < sc)} = l + (512 - u)"
proof -
  have "{sc. sc < fft_size \<and> odd sc \<and> (sc < 2 * l + 1 \<or> 2 * u < sc)} = (\<lambda>k. 2 * k + 1) ` ({..<l} \<union> {u..<512})"
    using assms by (auto elim!: oddE)
  moreover have "inj_on (\<lambda>k :: nat. 2 * k + 1) ({..<l} \<union> {u..<512})" by (rule inj_onI) simp
  moreover have "{..<l} \<inter> {u..<512} = {}" using assms(1) by auto
  ultimately show ?thesis by (simp add: card_image card_Un_disjoint)
qed

lemma enabled_counts:
  "length (enabled_list MAPMOV_SUBCARRIER_128) = 128" "length (enabled_list MAPMOV_SUBCARRIER_320) = 320"
  "length (enabled_list MAPMOV_SUBCARRIER_64_LIN) = 64"
  "length (enabled_list MAPMOV_SUBCARRIER_640_LIN) = 0" "length (enabled_list MAPMOV_SUBCARRIER_512_LIN) = 0"
proof -
  show "length (enabled_list MAPMOV_SUBCARRIER_128) = 128"
    using card_odd_split [of 64 448] by (simp add: length_enabled_list sc_enabled_def)
  show "length (enabled_list MAPMOV_SUBCARRIER_320) = 320"
    using card_odd_split [of 160 352] by (simp add: length_enabled_list sc_enabled_def)
  have "{sc. sc < fft_size \<and> 16 \<le> sc \<and> sc < 80} = {16..<80 :: nat}" by auto
  then show "length (enabled_list MAPMOV_SUBCARRIER_64_LIN) = 64"
    by (simp add: length_enabled_list sc_enabled_def)
  show "length (enabled_list MAPMOV_SUBCARRIER_640_LIN) = 0" "length (enabled_list MAPMOV_SUBCARRIER_512_LIN) = 0"
    by (simp_all add: length_enabled_list sc_enabled_def)
qed

lemma move_frame_none_enabled:
  assumes "\<forall>sc < fft_size. \<not> enable_table m ! sc"
  shows "\<exists>out'. move_frame m mapped (c, out) = Some (c, out')"
proof -
  have none: "filter (\<lambda>sc. enable_table m ! sc) [0..<fft_size] = []"
    unfolding filter_empty_conv set_upt using assms by auto
  show ?thesis
    unfolding move_frame_def using fold_scatter [of m "[0..<fft_size]" mapped c out] unfolding none by auto
qed

lemma move_loop_diverges:
  assumes "\<forall>sc < fft_size. \<not> enable_table m ! sc"
  shows "fst s < length mapped \<Longrightarrow> move_loop m mapped s = None"
proof (rule ccontr)
  assume lt: "fst s < length mapped" and "move_loop m mapped s \<noteq> None"
  then obtain y where y: "move_loop m mapped s = Some y" by auto
  have "(\<forall>sc < fft_size. \<not> enable_table m ! sc) \<longrightarrow> \<not> fst s < length mapped"
  proof (rule move_loop.raw_induct [of "\<lambda>m mapped s y. 
      (\<forall>sc < fft_size. \<not> enable_table m ! sc) \<longrightarrow> \<not> fst s < length mapped", OF _ y], intro impI notI)
    fix f m mapped and s :: "nat \<times> u32 list" and y
    assume IH: "\<And>m mapped s y. f m mapped s = Some y \<Longrightarrow> 
        (\<forall>sc < fft_size. \<not> enable_table m ! sc) \<longrightarrow> \<not> fst s < length mapped"
      and none: "\<forall>sc < fft_size. \<not> enable_table m ! sc" and lt: "fst s < length mapped"
      and step: "(if fst s < length mapped then
        (case move_frame m mapped s of None \<Rightarrow> Some None | Some s' \<Rightarrow> f m mapped s')
        else Some (Some (snd s))) = Some y"
    obtain out' where "move_frame m mapped (fst s, snd s) = Some (fst s, out')"
      using move_frame_none_enabled [OF none] by blast
    with step lt have "f m mapped (fst s, out') = Some y" by simp
    from IH [OF this] none lt show False by simp
  qed
  with assms lt show False by simp
qed

section \<open>What the code promises\<close>

text \<open>
  In the three symmetric modes the emulator enables 128, 320 and 64 subcarriers, and a message
  of whole frames comes out with the words of every frame reversed and each word mangled, nothing
  lost and nothing added: exactly what the receiver undoes with its frame transform and
  \<open>bitMangleSliced\<close>.
\<close>
lemma emulated_air:
  assumes "(a, w) \<in> {(MAPMOV_SUBCARRIER_128, 8), (MAPMOV_SUBCARRIER_320, 20), (MAPMOV_SUBCARRIER_64_LIN, 4)}"
    and "length ws mod w = 0"
  shows "\<exists>m. EmulateMapmov a = Some m \<and> em_enabled_subcarriers m = 16 * w \<and>
    emulate_air m ws = Some (Some (map bitMangleSliced (concat (map rev (chunks w ws)))))"
proof -
  have a: "symmetric_mode a" "\<forall>v. a \<noteq> MAPMOV_SUBCARRIER_OTHER v" "length (enabled_list a) = 16 * w" "0 < w"
    using assms(1) enabled_counts by (auto simp: symmetric_mode_def)
  obtain m where m: "EmulateMapmov a = Some m" "em_ok m" "em_subcarrier_allocation m = a"
    using settings_did_change_ok [of "\<lparr>em_enabled_subcarriers = 0, em_subcarrier_allocation = a,
      em_modulation_schema = FEEDBACK_MAPMOV_QPSK, enable_table = [], pilot_table = []\<rparr>"] a(2)
    by (auto simp: EmulateMapmov_def)
  have "emulate_air m ws = Some (Some (map bitMangleSliced (concat (map rev (chunks w ws)))))"
    using m a assms(2) by (intro emulate_air_eq [of m w ws "length ws div w"]) auto
  moreover have "em_enabled_subcarriers m = 16 * w" using m a by (simp add: em_ok_def)
  ultimately show ?thesis using m(1) by blast
qed

theorem emulated_air_witness:
  "\<exists>m. EmulateMapmov MAPMOV_SUBCARRIER_64_LIN = Some m \<and>
    emulate_air m [1, 2, 3, 4] = Some (Some (map bitMangleSliced [4, 3, 2, 1]))"
proof -
  have "chunks 4 [1, 2, 3, 4 :: u32] = [[1, 2, 3, 4]]" by (rule chunks_short) simp_all
  with emulated_air [of MAPMOV_SUBCARRIER_64_LIN 4 "[1, 2, 3, 4]"] show ?thesis by auto
qed

text \<open>
  In the modes with 640 and 512 linear subcarriers the emulator's table has no enabled
  subcarrier, and \<open>move_input_data\<close> never returns on any message but the empty one.
\<close>
lemma linear_modes_never_return:
  assumes "a = MAPMOV_SUBCARRIER_640_LIN \<or> a = MAPMOV_SUBCARRIER_512_LIN" and "mapped \<noteq> []"
  shows "\<exists>m. EmulateMapmov a = Some m \<and> em_enabled_subcarriers m = 0 \<and> move_input_data m mapped out = None"
proof -
  have "\<forall>v. a \<noteq> MAPMOV_SUBCARRIER_OTHER v" using assms(1) by auto
  then obtain m where m: "EmulateMapmov a = Some m" "em_ok m" "em_subcarrier_allocation m = a"
    using settings_did_change_ok [of "\<lparr>em_enabled_subcarriers = 0, em_subcarrier_allocation = a,
      em_modulation_schema = FEEDBACK_MAPMOV_QPSK, enable_table = [], pilot_table = []\<rparr>"]
    by (auto simp: EmulateMapmov_def)
  have "\<forall>sc < fft_size. \<not> enable_table m ! sc"
    using m(2,3) assms(1) by (auto simp: em_ok_def sc_enabled_def)
  then have "move_input_data m mapped out = None"
    using assms(2) unfolding move_input_data_def by (intro move_loop_diverges) simp_all
  moreover have "em_enabled_subcarriers m = 0"
    using m assms(1) enabled_counts by (auto simp: em_ok_def)
  ultimately show ?thesis using m(1) by blast
qed

theorem linear_modes_never_return_witness:
  "\<exists>m. EmulateMapmov MAPMOV_SUBCARRIER_640_LIN = Some m \<and> move_input_data m [0xE95FE95F] [] = None"
  using linear_modes_never_return [of MAPMOV_SUBCARRIER_640_LIN "[0xE95FE95F]" "[]"] by auto

end
