(* ===== verification/Air_Messages.thy ===== *)
theory Air_Messages
  imports Interfaces
begin

text \<open>
  The static helpers of \<open>AirPacket.cpp\<close>: the 32-bit air header (length, sequence number,
  flags), the keys of the table of Reed-Solomon codecs, and the joint-transmit message that carries
  a list of word vectors in one. \<open>packHeader\<close> returns \<open>None\<close> where the code's assertions stop the
  program, and the unpacking of a joint message returns \<open>None\<close> where it would read past the end.
\<close>

type_synonym air_header = "u32 \<times> u8 \<times> u8"

definition packHeader :: "air_header \<Rightarrow> u32 option" where
  "packHeader h = (case h of (len, seq, flags) \<Rightarrow>
     if len \<le> 0xFFFFF \<and> flags \<le> 0xF then
       Some (((0 OR (len AND 0xFFFFF)) OR push_bit 20 (ucast seq AND 0xFF)) OR push_bit 28 (ucast flags AND 0xF))
     else None)"

definition unpackHeader :: "u32 \<Rightarrow> air_header" where
  "unpackHeader w =
     (w AND 0xFFFFF, ucast (drop_bit 20 (w AND 0xFF00000)), ucast (drop_bit 28 (w AND 0xF0000000)))"

definition rsKey :: "u32 \<Rightarrow> u32 \<Rightarrow> u64" where
  "rsKey a b = push_bit 32 (ucast a) OR ucast b"

definition rsSettings :: "u64 \<Rightarrow> u32 \<times> u32" where
  "rsSettings x = (ucast (drop_bit 32 x AND 0xFFFFFFFF), ucast (x AND 0xFFFFFFFF))"

definition vectorJoin :: "u32 list list \<Rightarrow> u32 list" where
  "vectorJoin vs = fold (\<lambda>v ret. ret @ [of_nat (length v)] @ v) vs []"

text \<open>The state of the loop of \<open>vectorSplit\<close>: \<open>first\<close>, \<open>working\<close>, \<open>partial\<close>, \<open>ret\<close>.\<close>

fun split_loop :: "u32 list \<Rightarrow> bool \<Rightarrow> u32 \<Rightarrow> u32 list \<Rightarrow> u32 list list \<Rightarrow> u32 list list" where
  "split_loop [] first working partial ret = ret @ [partial]"
| "split_loop (w # ws) first working partial ret =
     (if first then split_loop ws False w partial ret
      else if working = 0 then split_loop ws False w [] (ret @ [partial])
      else split_loop ws False (working - 1) (partial @ [w]) ret)"

definition vectorSplit :: "u32 list \<Rightarrow> u32 list list" where
  "vectorSplit ws = (if ws = [] then [] else split_loop ws True 0 [] [])"

type_synonym joint_header = "u32 \<times> u32 \<times> u32 \<times> u8"

definition packJointZmq :: "joint_header \<Rightarrow> u32 list list \<Rightarrow> u32 list" where
  "packJointZmq h vs = (case h of (from_peer, epoc, ts, seq) \<Rightarrow>
     [from_peer, epoc, ts, ucast seq] @ vectorJoin vs)"

definition unpackJointZmqHeader :: "u32 list \<Rightarrow> joint_header option" where
  "unpackJointZmqHeader ws =
     (if 4 \<le> length ws then Some (ws ! 0, ws ! 1, ws ! 2, ucast (ws ! 3)) else None)"

definition unpackJointZmq :: "u32 list \<Rightarrow> (joint_header \<times> u32 list list) option" where
  "unpackJointZmq ws = (case unpackJointZmqHeader ws of
     None \<Rightarrow> None | Some h \<Rightarrow> Some (h, vectorSplit (drop 4 ws)))"

section \<open>The header word\<close>

lemma header_masks:
  "(0xFFFFF :: u32) = mask 20" "(0xFF00000 :: u32) = push_bit 20 (mask 8)"
  "(0xF0000000 :: u32) = push_bit 28 (mask 4)" "(0xFF :: u32) = mask 8" "(0xF :: u32) = mask 4"
  "(0xF :: u8) = mask 4" "(0xFFFFFFFF :: u64) = mask 32"
  by (simp_all add: mask_eq_exp_minus_1 push_bit_eq_mult)

lemma ucast_back [simp]: "ucast (ucast (b :: u8) :: u32) = b"
  by (rule bit_word_eqI) (simp add: bit_rules)

lemma uint_mask: "n \<le> LENGTH('a) \<Longrightarrow> uint (mask n :: 'a::len word) = mask n"
  by transfer (simp add: min_def)

lemma le_mask_bits:
  assumes "n \<le> LENGTH('a)"
  shows "(w :: 'a::len word) \<le> mask n \<longleftrightarrow> (\<forall>i \<ge> n. \<not> bit w i)"
proof -
  have "w \<le> mask n \<longleftrightarrow> uint w < 2 ^ n"
    unfolding word_le_def uint_mask [OF assms] by (simp add: mask_eq_exp_minus_1)
  also have "\<dots> \<longleftrightarrow> take_bit n w = w" by (simp add: mask_eq_iff take_bit_eq_mask)
  also have "\<dots> \<longleftrightarrow> (\<forall>i \<ge> n. \<not> bit w i)"
    by (auto simp: bit_eq_iff bit_take_bit_iff not_le dest: bit_imp_le_length)
  finally show ?thesis .
qed

lemma unpack_packed:
  assumes "(len :: u32) \<le> 0xFFFFF" "(flags :: u8) \<le> 0xF"
  shows "packHeader (len, seq, flags) = Some w \<longleftrightarrow> unpackHeader w = (len, seq, flags)"
proof -
  let ?w = "((0 OR (len AND 0xFFFFF)) OR push_bit 20 (ucast seq AND 0xFF)) OR push_bit 28 (ucast flags AND 0xF)"
  have len: "i < 20" if "bit len i" for i
    using assms(1) that le_mask_bits [of 20 len] unfolding header_masks not_le [symmetric] by auto
  have flags: "i < 4" if "bit flags i" for i
    using assms(2) that le_mask_bits [of 4 flags] unfolding header_masks not_le [symmetric] by auto
  have "w = ?w \<longleftrightarrow> unpackHeader w = (len, seq, flags)"
  proof
    assume "w = ?w"
    moreover have "?w AND 0xFFFFF = len"
      by (rule bit_word_eqI, unfold header_masks bit_rules) (auto dest: len)
    moreover have "ucast (drop_bit 20 (?w AND 0xFF00000)) = seq"
      by (rule bit_word_eqI, unfold header_masks bit_rules) (auto dest: len)
    moreover have "ucast (drop_bit 28 (?w AND 0xF0000000)) = flags"
      by (rule bit_word_eqI, unfold header_masks bit_rules) (auto dest: len flags)
    ultimately show "unpackHeader w = (len, seq, flags)" by (simp add: unpackHeader_def)
  next
    assume "unpackHeader w = (len, seq, flags)"
    then have "len = w AND 0xFFFFF" "seq = ucast (drop_bit 20 (w AND 0xFF00000))"
      "flags = ucast (drop_bit 28 (w AND 0xF0000000))" by (simp_all add: unpackHeader_def)
    then show "w = ?w"
      by (simp only:) (rule bit_word_eqI, unfold header_masks bit_rules, auto split: nat_diff_split)
  qed
  then show ?thesis using assms by (auto simp: packHeader_def)
qed

lemma unpack_range: "fst (unpackHeader w) \<le> 0xFFFFF" "snd (snd (unpackHeader w)) \<le> 0xF"
proof -
  show "fst (unpackHeader w) \<le> 0xFFFFF" by (simp add: unpackHeader_def word_and_le1)
  have "ucast (drop_bit 28 (w AND 0xF0000000)) \<le> (mask 4 :: u8)"
    by (subst le_mask_bits, simp, unfold header_masks bit_rules) auto
  then show "snd (snd (unpackHeader w)) \<le> 0xF" by (simp add: unpackHeader_def header_masks)
qed

definition air_header_ok :: "air_header \<Rightarrow> bool" where
  "air_header_ok h \<longleftrightarrow> fst h \<le> 0xFFFFF \<and> snd (snd h) \<le> 0xF"

lemma packHeader_iff: "packHeader h = Some w \<longleftrightarrow> air_header_ok h \<and> unpackHeader w = h"
proof (cases h)
  case (fields len seq flags)
  show ?thesis
  proof (cases "air_header_ok h")
    case True
    with unpack_packed [of len flags seq w] fields show ?thesis by (simp add: air_header_ok_def)
  next
    case False
    then show ?thesis using fields unpack_range [of w]
      by (auto simp: packHeader_def air_header_ok_def)
  qed
qed

lemma packHeader_ok: "air_header_ok h \<Longrightarrow> \<exists>w. packHeader h = Some w"
  by (cases h) (simp add: packHeader_def air_header_ok_def)

interpretation air: codec air_header_ok "the \<circ> packHeader" "\<lambda>w. Some (unpackHeader w)"
  by unfold_locales (use packHeader_ok packHeader_iff in fastforce)

lemma rsSettings_rsKey: "rsSettings (rsKey a b) = (a, b)"
proof -
  have "ucast (drop_bit 32 (rsKey a b) AND 0xFFFFFFFF) = a"
    unfolding rsKey_def by (rule bit_word_eqI, unfold header_masks bit_rules) auto
  moreover have "ucast (rsKey a b AND 0xFFFFFFFF) = b"
    unfolding rsKey_def by (rule bit_word_eqI, unfold header_masks bit_rules) auto
  ultimately show ?thesis by (simp add: rsSettings_def)
qed

interpretation rs_key: codec "\<lambda>_. True" "\<lambda>(a, b). rsKey a b" "\<lambda>k. Some (rsSettings k)"
  by unfold_locales (auto simp: rsSettings_rsKey)

section \<open>The joint message\<close>

lemma vectorJoin_eq: "vectorJoin vs = concat (map (\<lambda>v. of_nat (length v) # v) vs)"
proof -
  have "fold (\<lambda>v ret. ret @ [of_nat (length v)] @ v) vs acc = acc @ concat (map (\<lambda>v. of_nat (length v) # v) vs)"
    for acc :: "u32 list"
    by (induction vs arbitrary: acc) simp_all
  then show ?thesis by (simp add: vectorJoin_def)
qed

lemma split_loop_payload:
  assumes "length v < 2 ^ 32"
  shows "split_loop (v @ ws) False (of_nat (length v)) partial ret = split_loop ws False 0 (partial @ v) ret"
  using assms
proof (induction v arbitrary: partial)
  case Nil
  then show ?case by simp
next
  case (Cons x v)
  have "of_nat (length (x # v)) - 1 = (of_nat (length v) :: u32)" by simp
  moreover have "of_nat (length (x # v)) \<noteq> (0 :: u32)"
    using Cons.prems by (simp only: word_unat_eq_iff unat_0) (simp add: unat_of_nat_u32 del: of_nat_Suc)
  ultimately show ?case
    unfolding append_Cons split_loop.simps using Cons.IH [of "partial @ [x]"] Cons.prems by simp
qed

lemma split_loop_join:
  assumes "\<forall>v \<in> set vs. length v < 2 ^ 32"
  shows "split_loop (vectorJoin vs) False 0 partial ret = ret @ partial # vs"
  using assms
proof (induction vs arbitrary: partial ret)
  case Nil
  then show ?case by (simp add: vectorJoin_eq)
next
  case (Cons v vs)
  have "split_loop (vectorJoin (v # vs)) False 0 partial ret =
      split_loop (v @ vectorJoin vs) False (of_nat (length v)) [] (ret @ [partial])"
    by (simp add: vectorJoin_eq)
  with Cons show ?case by (simp add: split_loop_payload)
qed

lemma vectorSplit_join:
  assumes "\<forall>v \<in> set vs. length v < 2 ^ 32"
  shows "vectorSplit (vectorJoin vs) = vs"
proof (cases vs)
  case Nil
  then show ?thesis by (simp add: vectorSplit_def vectorJoin_eq)
next
  case (Cons v vs')
  then have "vectorSplit (vectorJoin vs) = split_loop (v @ vectorJoin vs') False (of_nat (length v)) [] []"
    by (simp add: vectorSplit_def vectorJoin_eq)
  with assms Cons show ?thesis by (simp add: split_loop_payload split_loop_join)
qed

interpretation joint: codec "\<lambda>(h, vs). \<forall>v \<in> set vs. length v < 2 ^ 32" "\<lambda>(h, vs). packJointZmq h vs" unpackJointZmq
  by unfold_locales
    (auto simp: packJointZmq_def unpackJointZmq_def unpackJointZmqHeader_def vectorSplit_join split: prod.splits)

section \<open>What the code promises\<close>

text \<open>
  \<open>packHeader\<close> succeeds exactly on a length of at most 20 bits and flags of at most 4, and the
  word it makes is the only one that \<open>unpackHeader\<close> takes back to the header: the 32 bits hold the
  three fields with none to spare.
\<close>
lemma air_header_bijection:
  "packHeader (len, seq, flags) = Some w \<longleftrightarrow>
    len \<le> 0xFFFFF \<and> flags \<le> 0xF \<and> unpackHeader w = (len, seq, flags)"
  by (simp add: packHeader_iff air_header_ok_def)

text \<open>
  A joint-transmit message of any number of vectors, empty ones included, is taken apart into
  the header and the vectors it was made of, provided each vector's length fits its length word.
\<close>
lemma joint_message_roundtrip:
  assumes "\<forall>v \<in> set vs. length v < 2 ^ 32"
  shows "unpackJointZmq (packJointZmq (from_peer, epoc, ts, seq) vs) = Some ((from_peer, epoc, ts, seq), vs)"
  using joint.dec_enc [of "((from_peer, epoc, ts, seq), vs)"] assms by simp

theorem joint_message_roundtrip_witness:
  "packJointZmq (1, 2, 3, 255) [[], [7, 8], []] = [1, 2, 3, 255, 0, 2, 7, 8, 0] \<and>
   unpackJointZmq [1, 2, 3, 255, 0, 2, 7, 8, 0] = Some ((1, 2, 3, 255), [[], [7, 8], []])"
proof -
  have "packJointZmq (1, 2, 3, 255) [[], [7, 8], []] = [1, 2, 3, 255, 0, 2, 7, 8, 0]"
    by (simp add: packJointZmq_def vectorJoin_eq)
  with joint_message_roundtrip [of "[[], [7, 8], []]" 1 2 3 255] show ?thesis by simp
qed

end
