(* ===== verification/Air_Settings.thy ===== *)
theory Air_Settings
  imports Air_Messages Std_Map Interleaving Reed_Solomon Emulate_Mapmov
begin

text \<open>
  The base class \<open>AirPacket\<close> (\<open>AirPacket.cpp\<close>): the mode a modem is in and the numbers derived
  from it. The record has the fields of the class; counts are natural numbers, and the two
  functions whose arithmetic can wrap, \<open>getForceDetectIndex\<close> and \<open>getLengthForInput\<close>, work on
  32-bit words. A pointer to a codec is an optional codec: the objects are never changed after
  their construction, so sharing does not show. A failed assertion is \<open>None\<close>.

  The flags \<open>print1\<close> to \<open>print27\<close> are one function from the number of the flag; they guard
  nothing but output. The constants \<open>DUPLEX_FRAMES\<close> and \<open>DUPLEX_START_FRAME_TX\<close> of another
  repository are arguments of the constructor.
\<close>

record air_packet =
  enabled_subcarriers :: nat
  sliced_word_count :: nat
  header_overhead_words :: nat
  bits_per_subcarrier :: nat
  subcarrier_allocation :: subcarrier_allocation
  modulation_schema :: modulation_schema
  code_type :: code_type
  ap_code_length :: nat
  ap_fec_length :: nat
  code_puncturing :: u8
  interleave_length :: nat
  duplex_mode :: bool
  reed_solomon :: "reed_solomon option"
  interleaver :: "interleaver option"
  emulate_mapmov :: emulate_mapmov
  duplex_frames :: u32
  duplex_start_frame :: u32
  sync_message :: "u32 list"
  every_reed_solomon :: "(u64, reed_solomon) std_map"
  every_interleaver :: "(nat, interleaver) std_map"
  prints :: "nat \<Rightarrow> bool"

definition initial_prints :: "nat \<Rightarrow> bool" where
  "initial_prints n = list_ex (\<lambda>k. k = n) [5, 19, 20, 21, 22, 23]"

definition AirPacket :: "u32 \<Rightarrow> u32 \<Rightarrow> air_packet option" where
  "AirPacket frames start_frame = map_option (\<lambda>m.
     \<lparr>enabled_subcarriers = 0, sliced_word_count = 8, header_overhead_words = 8 * 2,
      bits_per_subcarrier = 2, subcarrier_allocation = MAPMOV_SUBCARRIER_128,
      modulation_schema = FEEDBACK_MAPMOV_QPSK, code_type = AIRPACKET_CODE_UNCODED,
      ap_code_length = 0, ap_fec_length = 0, code_puncturing = 0, interleave_length = 0,
      duplex_mode = False, reed_solomon = None, interleaver = None, emulate_mapmov = m,
      duplex_frames = frames, duplex_start_frame = start_frame, sync_message = [],
      every_reed_solomon = [], every_interleaver = [], prints = initial_prints\<rparr>)
     (EmulateMapmov MAPMOV_SUBCARRIER_128)"

definition print_keys :: "(string \<times> nat) list" where
  "print_keys = map (\<lambda>n. (''nondup'', n)) [1, 3, 2, 8, 9, 10, 11, 13, 14] @
     map (\<lambda>n. (''demod'', n)) [6, 15, 7, 16, 20, 21, 23, 24, 25, 26] @
     map (\<lambda>n. (''mod'', n)) [5, 17, 18, 19, 22, 27]"

text \<open>The second component is the count the code reports.\<close>

definition enableDisablePrint :: "string \<Rightarrow> bool \<Rightarrow> air_packet \<Rightarrow> air_packet \<times> nat" where
  "enableDisablePrint s v a = fold (\<lambda>(name, n) (a, count).
     if s = ''all'' \<or> s = name then (a\<lparr>prints := (prints a)(n := v)\<rparr>, count + 1) else (a, count))
     print_keys (a, 0)"

definition set_interleave :: "nat \<Rightarrow> air_packet \<Rightarrow> air_packet" where
  "set_interleave x a0 =
     (let a = a0\<lparr>interleave_length := x\<rparr>
      in if x = 0 then a\<lparr>interleaver := None\<rparr>
         else case sm_find x (every_interleaver a) of
             Some i \<Rightarrow> a\<lparr>interleaver := Some i\<rparr>
           | None \<Rightarrow> a\<lparr>interleaver := Some (Interleaver x),
                every_interleaver := sm_assign x (Interleaver x) (every_interleaver a)\<rparr>)"

text \<open>The result \<open>int\<close> of the code: 0 for success.\<close>

definition set_code_type :: "code_type \<Rightarrow> nat \<Rightarrow> nat \<Rightarrow> air_packet \<Rightarrow> air_packet \<times> int" where
  "set_code_type code_value code_len fec_len a =
     (case code_value of
        AIRPACKET_CODE_REED_SOLOMON \<Rightarrow>
          if settings_valid code_len fec_len then
            let a1 = a\<lparr>code_type := code_value, ap_code_length := code_len, ap_fec_length := fec_len\<rparr>;
                key = rsKey (of_nat code_len) (of_nat fec_len)
            in case sm_find key (every_reed_solomon a1) of
                 Some r \<Rightarrow> (a1\<lparr>reed_solomon := Some r\<rparr>, 0)
               | None \<Rightarrow> (a1\<lparr>reed_solomon := Some (ReedSolomon code_len fec_len), every_reed_solomon :=
                     sm_assign key (ReedSolomon code_len fec_len) (every_reed_solomon a1)\<rparr>, 0)
          else (a, 1)
      | AIRPACKET_CODE_UNCODED \<Rightarrow>
          (a\<lparr>code_type := code_value, ap_code_length := 0, ap_fec_length := 0\<rparr>, 0)
      | AIRPACKET_CODE_OTHER v \<Rightarrow> (a, 1))"

definition set_rs :: "nat \<Rightarrow> air_packet \<Rightarrow> air_packet \<times> int" where
  "set_rs len a = (if len = 0 then set_code_type AIRPACKET_CODE_UNCODED 0 0 a
     else set_code_type AIRPACKET_CODE_REED_SOLOMON 255 len a)"

definition sync_frames :: "u32 list" where
  "sync_frames =
     [0xaaaaaaaa, 0xffffffff, 0xffffffff, 0xaaaaaaaa, 0xffffffff, 0xaaaaaaaa, 0xffffffff, 0xffffffff,
      0xaaaaaaaa, 0xffffffff, 0xaaaaaaaa, 0xaaaaaaaa, 0xaaaaaaaa, 0xffffffff, 0xffffffff, 0xaaaaaaaa]"

definition setSyncMessage :: "air_packet \<Rightarrow> air_packet" where
  "setSyncMessage a = a\<lparr>sync_message := sync_frames\<rparr>"

definition settings_did_change :: "air_packet \<Rightarrow> air_packet" where
  "settings_did_change a =
     setSyncMessage (a\<lparr>sliced_word_count := enabled_subcarriers a * bits_per_subcarrier a div 32\<rparr>)"

definition set_code_puncturing :: "u8 \<Rightarrow> air_packet \<Rightarrow> air_packet" where
  "set_code_puncturing v a = settings_did_change (a\<lparr>code_puncturing := v\<rparr>)"

fun schema_bits :: "modulation_schema \<Rightarrow> nat" where
  "schema_bits FEEDBACK_MAPMOV_QPSK = 2"
| "schema_bits FEEDBACK_MAPMOV_QAM8 = 3"
| "schema_bits FEEDBACK_MAPMOV_QAM16 = 4"
| "schema_bits FEEDBACK_MAPMOV_QAM32 = 5"
| "schema_bits FEEDBACK_MAPMOV_QAM64 = 6"
| "schema_bits FEEDBACK_MAPMOV_QAM128 = 7"
| "schema_bits (FEEDBACK_MAPMOV_OTHER v) = 2"

definition set_modulation_schema :: "modulation_schema \<Rightarrow> air_packet \<Rightarrow> air_packet" where
  "set_modulation_schema v a =
     settings_did_change (a\<lparr>bits_per_subcarrier := schema_bits v, modulation_schema := v\<rparr>)"

fun allocation_subcarriers :: "subcarrier_allocation \<Rightarrow> nat option" where
  "allocation_subcarriers MAPMOV_SUBCARRIER_128 = Some 128"
| "allocation_subcarriers MAPMOV_SUBCARRIER_320 = Some 320"
| "allocation_subcarriers MAPMOV_SUBCARRIER_640_LIN = Some 640"
| "allocation_subcarriers MAPMOV_SUBCARRIER_512_LIN = Some 512"
| "allocation_subcarriers MAPMOV_SUBCARRIER_64_LIN = Some 64"
| "allocation_subcarriers (MAPMOV_SUBCARRIER_OTHER v) = None"

definition set_subcarrier_allocation :: "subcarrier_allocation \<Rightarrow> air_packet \<Rightarrow> air_packet option" where
  "set_subcarrier_allocation v a =
     (case allocation_subcarriers v of None \<Rightarrow> None
      | Some n \<Rightarrow>
          (case em_set_subcarrier_allocation (emulate_mapmov a) v of None \<Rightarrow> None
           | Some m \<Rightarrow> Some (settings_did_change
               (a\<lparr>enabled_subcarriers := n, subcarrier_allocation := v, emulate_mapmov := m\<rparr>))))"

definition set_duplex_start_frame :: "u32 \<Rightarrow> air_packet \<Rightarrow> air_packet" where
  "set_duplex_start_frame start_frame a = a\<lparr>duplex_start_frame := start_frame\<rparr>"

definition set_duplex_mode :: "bool \<Rightarrow> air_packet \<Rightarrow> air_packet" where
  "set_duplex_mode set_mode a = a\<lparr>duplex_mode := set_mode\<rparr>"

definition setTestDefaults :: "air_packet \<Rightarrow> air_packet option" where
  "setTestDefaults a = set_subcarrier_allocation MAPMOV_SUBCARRIER_128
     (set_modulation_schema FEEDBACK_MAPMOV_QPSK a)"

definition getEffectiveSlicedWordCount :: "air_packet \<Rightarrow> nat" where
  "getEffectiveSlicedWordCount a =
     (if modulation_schema a = FEEDBACK_MAPMOV_QAM16 \<and> subcarrier_allocation a = MAPMOV_SUBCARRIER_128
      then 8 else sliced_word_count a)"

text \<open>The quotient of the third branch is taken in \<open>double\<close>; there the divisor is 2, and the
  value a whole number.\<close>

definition getForceDetectIndex :: "air_packet \<Rightarrow> u32 \<Rightarrow> u32" where
  "getForceDetectIndex a fount_at_index =
     (let bump :: nat =
        (if duplex_mode a then 1
         else if subcarrier_allocation a = MAPMOV_SUBCARRIER_320 \<and> modulation_schema a = FEEDBACK_MAPMOV_QAM16
         then enabled_subcarriers a * 4
         else if subcarrier_allocation a = MAPMOV_SUBCARRIER_320 \<and> modulation_schema a = FEEDBACK_MAPMOV_QPSK
         then sliced_word_count a * 32 * 2 div bits_per_subcarrier a
         else sliced_word_count a * 32)
      in fount_at_index + of_nat bump)"

definition roundToMultipleCeil :: "u32 \<Rightarrow> u32 \<Rightarrow> u32" where
  "roundToMultipleCeil num round = (let m = num mod round in if m \<noteq> 0 then num + (round - m) else num)"

definition roundToMultipleFloor :: "u32 \<Rightarrow> u32 \<Rightarrow> u32" where
  "roundToMultipleFloor num round = num - num mod round"

definition getLengthForInput :: "air_packet \<Rightarrow> u32 \<Rightarrow> u32" where
  "getLengthForInput a len =
     (let interleave_length_ceil = (if 0 < interleave_length a
            then of_nat (calculate_words_for_code (interleave_length a)) else 0);
          effective_rs_code_length = roundToMultipleFloor (255 - of_nat (ap_fec_length a)) 4;
          rs = (code_type a = AIRPACKET_CODE_REED_SOLOMON);
          l1 = (if rs then roundToMultipleCeil (4 * len) effective_rs_code_length else 4 * len);
          l2 = (if rs then l1 div effective_rs_code_length * 256 else l1);
          l3 = (if rs then roundToMultipleCeil l2 4 else l2);
          l4 = (if 0 < interleave_length a then roundToMultipleCeil l3 (4 * interleave_length_ceil) else l3)
      in l4 div 4 + of_nat (sliced_word_count a) * 32)"

text \<open>Everything a client can ask of the object, as data.\<close>

datatype air_command =
  SetInterleave nat | SetCodeType code_type nat nat | SetRs nat | SetCodePuncturing u8
  | SetModulationSchema modulation_schema | SetSubcarrierAllocation subcarrier_allocation
  | SetDuplexStartFrame u32 | SetDuplexMode bool | SetTestDefaults | EnableDisablePrint string bool

fun air_do :: "air_command \<Rightarrow> air_packet \<Rightarrow> air_packet option" where
  "air_do (SetInterleave x) a = Some (set_interleave x a)"
| "air_do (SetCodeType c n k) a = Some (fst (set_code_type c n k a))"
| "air_do (SetRs n) a = Some (fst (set_rs n a))"
| "air_do (SetCodePuncturing v) a = Some (set_code_puncturing v a)"
| "air_do (SetModulationSchema v) a = Some (set_modulation_schema v a)"
| "air_do (SetSubcarrierAllocation v) a = set_subcarrier_allocation v a"
| "air_do (SetDuplexStartFrame n) a = Some (set_duplex_start_frame n a)"
| "air_do (SetDuplexMode m) a = Some (set_duplex_mode m a)"
| "air_do SetTestDefaults a = setTestDefaults a"
| "air_do (EnableDisablePrint s v) a = Some (fst (enableDisablePrint s v a))"

section \<open>The invariant\<close>

text \<open>What holds of the codecs, and of the emulator, from the constructor on.\<close>

definition codecs_ok :: "air_packet \<Rightarrow> bool" where
  "codecs_ok a \<longleftrightarrow>
     sm_ok (every_reed_solomon a) \<and> sm_ok (every_interleaver a) \<and>
     (\<forall>k i. sm_find k (every_interleaver a) = Some i \<longrightarrow> i = Interleaver k) \<and>
     (\<forall>k r. sm_find k (every_reed_solomon a) = Some r \<longrightarrow>
        (case rsSettings k of (n, f) \<Rightarrow> r = ReedSolomon (unat n) (unat f))) \<and>
     (code_type a = AIRPACKET_CODE_REED_SOLOMON \<longrightarrow> settings_valid (ap_code_length a) (ap_fec_length a) \<and>
        reed_solomon a = Some (ReedSolomon (ap_code_length a) (ap_fec_length a))) \<and>
     (code_type a = AIRPACKET_CODE_UNCODED \<longrightarrow> ap_code_length a = 0 \<and> ap_fec_length a = 0) \<and>
     (\<forall>v. code_type a \<noteq> AIRPACKET_CODE_OTHER v) \<and>
     interleaver a = (if interleave_length a = 0 then None else Some (Interleaver (interleave_length a)))"

definition modes_ok :: "air_packet \<Rightarrow> bool" where
  "modes_ok a \<longleftrightarrow> bits_per_subcarrier a = schema_bits (modulation_schema a) \<and>
     em_ok (emulate_mapmov a) \<and> em_subcarrier_allocation (emulate_mapmov a) = subcarrier_allocation a"

text \<open>What holds once the subcarrier allocation has been set.\<close>

definition numbers_ok :: "air_packet \<Rightarrow> bool" where
  "numbers_ok a \<longleftrightarrow> allocation_subcarriers (subcarrier_allocation a) = Some (enabled_subcarriers a) \<and>
     sliced_word_count a = enabled_subcarriers a * bits_per_subcarrier a div 32 \<and>
     sync_message a = sync_frames"

lemmas air_ok_defs = codecs_ok_def modes_ok_def numbers_ok_def

lemma codecs_ok_frame [simp]:
  "codecs_ok (a\<lparr>enabled_subcarriers := x0\<rparr>) = codecs_ok a"
  "codecs_ok (a\<lparr>sliced_word_count := x1\<rparr>) = codecs_ok a"
  "codecs_ok (a\<lparr>bits_per_subcarrier := x2\<rparr>) = codecs_ok a"
  "codecs_ok (a\<lparr>subcarrier_allocation := x3\<rparr>) = codecs_ok a"
  "codecs_ok (a\<lparr>modulation_schema := x4\<rparr>) = codecs_ok a"
  "codecs_ok (a\<lparr>code_puncturing := x5\<rparr>) = codecs_ok a"
  "codecs_ok (a\<lparr>duplex_mode := x6\<rparr>) = codecs_ok a"
  "codecs_ok (a\<lparr>emulate_mapmov := x7\<rparr>) = codecs_ok a"
  "codecs_ok (a\<lparr>duplex_start_frame := x8\<rparr>) = codecs_ok a"
  "codecs_ok (a\<lparr>sync_message := x9\<rparr>) = codecs_ok a"
  "codecs_ok (a\<lparr>prints := x10\<rparr>) = codecs_ok a"
  by (simp_all add: codecs_ok_def)

lemma AirPacket_ok: "\<exists>a. AirPacket n k = Some a \<and> codecs_ok a \<and> modes_ok a"
proof -
  obtain m where "EmulateMapmov MAPMOV_SUBCARRIER_128 = Some m" "em_ok m"
    "em_subcarrier_allocation m = MAPMOV_SUBCARRIER_128"
    using settings_did_change_ok [of "\<lparr>em_enabled_subcarriers = 0, em_subcarrier_allocation = MAPMOV_SUBCARRIER_128,
      em_modulation_schema = FEEDBACK_MAPMOV_QPSK, enable_table = [], pilot_table = []\<rparr>"]
    by (auto simp: EmulateMapmov_def)
  then show ?thesis by (simp add: AirPacket_def air_ok_defs)
qed

lemma fold_prints: "\<exists>p. fst (fold (\<lambda>(name, n) (a, count).
     if s = ''all'' \<or> s = name then (a\<lparr>prints := (prints a)(n := v)\<rparr>, count + 1) else (a, count)) ks (a, c)) =
   a\<lparr>prints := p\<rparr>"
proof (induction ks arbitrary: a c)
  case Nil
  then show ?case by (auto intro: exI [of _ "prints a"])
next
  case (Cons k ks)
  obtain name n where k: "k = (name, n)" by (cases k)
  from Cons.IH [of a c] Cons.IH [of "a\<lparr>prints := (prints a)(n := v)\<rparr>" "c + 1"] show ?case
    by (auto simp: k)
qed

lemma enableDisablePrint_only: "\<exists>p. fst (enableDisablePrint s v a) = a\<lparr>prints := p\<rparr>"
  unfolding enableDisablePrint_def by (rule fold_prints)

lemma settings_valid_small: "settings_valid n k \<Longrightarrow> n < 2 ^ 32 \<and> k < 2 ^ 32"
  by (auto simp: settings_valid_def)

lemma set_interleave_ok: "codecs_ok a \<Longrightarrow> codecs_ok (set_interleave x a)"
  by (auto simp: codecs_ok_def set_interleave_def Let_def sm_rules split: option.split if_splits)

lemma rs_key_found:
  assumes "codecs_ok a" "settings_valid n k" "sm_find (rsKey (of_nat n) (of_nat k)) (every_reed_solomon a) = Some r"
  shows "r = ReedSolomon n k"
proof -
  have "case rsSettings (rsKey (of_nat n) (of_nat k)) of (n, f) \<Rightarrow> r = ReedSolomon (unat n) (unat f)"
    using assms(1,3) by (simp add: codecs_ok_def)
  then show ?thesis
    using settings_valid_small [OF assms(2)] by (simp add: rsSettings_rsKey unat_of_nat_u32)
qed

lemma set_code_type_ok:
  assumes "codecs_ok a"
  shows "codecs_ok (fst (set_code_type c n k a))"
proof (cases "c = AIRPACKET_CODE_REED_SOLOMON \<and> settings_valid n k")
  case True
  let ?key = "rsKey (of_nat n) (of_nat k)"
  let ?a1 = "a\<lparr>code_type := AIRPACKET_CODE_REED_SOLOMON, ap_code_length := n, ap_fec_length := k\<rparr>"
  have "rsSettings ?key = (of_nat n, of_nat k)" by (rule rsSettings_rsKey)
  then have key: "case rsSettings ?key of (n', f) \<Rightarrow> ReedSolomon n k = ReedSolomon (unat n') (unat f)"
    using True settings_valid_small [of n k] by (simp add: unat_of_nat_u32)
  show ?thesis
  proof (cases "sm_find ?key (every_reed_solomon a)")
    case None
    with True assms key show ?thesis
      by (auto simp: codecs_ok_def set_code_type_def Let_def sm_rules split: if_splits)
  next
    case (Some r)
    with rs_key_found [OF assms _ this] True assms show ?thesis
      by (simp add: codecs_ok_def set_code_type_def)
  qed
next
  case False
  with assms show ?thesis
    by (auto simp: codecs_ok_def set_code_type_def split: code_type.splits)
qed

lemma set_code_type_frame:
  "\<exists>t n' k' r e. fst (set_code_type c n k a) = a\<lparr>code_type := t, ap_code_length := n', ap_fec_length := k',
     reed_solomon := r, every_reed_solomon := e\<rparr>"
proof -
  let ?b = "fst (set_code_type c n k a)"
  have "?b = a\<lparr>code_type := code_type ?b, ap_code_length := ap_code_length ?b, ap_fec_length := ap_fec_length ?b,
     reed_solomon := reed_solomon ?b, every_reed_solomon := every_reed_solomon ?b\<rparr>"
    by (simp add: set_code_type_def Let_def split: option.split code_type.split)
  then show ?thesis by blast
qed

lemma set_interleave_frame:
  "\<exists>i e. set_interleave x a = a\<lparr>interleave_length := x, interleaver := i, every_interleaver := e\<rparr>"
proof -
  let ?b = "set_interleave x a"
  have "?b = a\<lparr>interleave_length := x, interleaver := interleaver ?b, every_interleaver := every_interleaver ?b\<rparr>"
    by (simp add: set_interleave_def Let_def split: option.split)
  then show ?thesis by blast
qed

lemma set_allocation_ok:
  assumes "set_subcarrier_allocation v a = Some a'" "codecs_ok a" "bits_per_subcarrier a = schema_bits (modulation_schema a)"
  shows "codecs_ok a' \<and> modes_ok a' \<and> numbers_ok a'"
proof -
  obtain n where n: "allocation_subcarriers v = Some n"
    using assms(1) by (cases "allocation_subcarriers v") (auto simp: set_subcarrier_allocation_def)
  then have "\<forall>w. v \<noteq> MAPMOV_SUBCARRIER_OTHER w" by auto
  then obtain m where m: "em_set_subcarrier_allocation (emulate_mapmov a) v = Some m" "em_ok m"
      "em_subcarrier_allocation m = v"
    using settings_did_change_ok [of "(emulate_mapmov a)\<lparr>em_subcarrier_allocation := v\<rparr>"]
    by (auto simp: em_set_subcarrier_allocation_def)
  with assms(1) n have "a' = settings_did_change
      (a\<lparr>enabled_subcarriers := n, subcarrier_allocation := v, emulate_mapmov := m\<rparr>)"
    by (simp add: set_subcarrier_allocation_def)
  with assms(2,3) n m(2,3) show ?thesis
    by (simp add: modes_ok_def numbers_ok_def settings_did_change_def setSyncMessage_def)
qed

lemma settings_kept:
  assumes "codecs_ok a" "modes_ok a"
  shows "codecs_ok (set_modulation_schema v a) \<and> modes_ok (set_modulation_schema v a)"
    and "codecs_ok (set_code_puncturing p a) \<and> modes_ok (set_code_puncturing p a)"
  using assms by (simp_all add: modes_ok_def set_modulation_schema_def set_code_puncturing_def
      settings_did_change_def setSyncMessage_def)

lemma numbers_kept:
  assumes "numbers_ok a"
  shows "numbers_ok (set_modulation_schema v a)" and "numbers_ok (set_code_puncturing p a)"
  using assms by (simp_all add: numbers_ok_def set_modulation_schema_def set_code_puncturing_def
      settings_did_change_def setSyncMessage_def)

lemma air_do_ok:
  assumes "air_do c a = Some a'" "codecs_ok a" "modes_ok a"
  shows "codecs_ok a' \<and> modes_ok a'"
proof (cases c)
  case (SetInterleave x)
  with assms set_interleave_ok [of a x] set_interleave_frame [of x a] show ?thesis
    by (auto simp: modes_ok_def)
next
  case (SetCodeType t n k)
  with assms set_code_type_ok [of a t n k] set_code_type_frame [of t n k a] show ?thesis
    by (auto simp: modes_ok_def)
next
  case (SetRs n)
  then obtain t c k where "a' = fst (set_code_type t c k a)"
    using assms(1) by (auto simp: set_rs_def split: if_splits)
  with assms(2,3) set_code_type_ok [of a t c k] set_code_type_frame [of t c k a] show ?thesis
    by (auto simp: modes_ok_def)
next
  case (SetSubcarrierAllocation v)
  with assms set_allocation_ok [of v a a'] show ?thesis by (simp add: modes_ok_def)
next
  case SetTestDefaults
  with assms settings_kept [of a] set_allocation_ok [of _ "set_modulation_schema FEEDBACK_MAPMOV_QPSK a" a'] show ?thesis
    by (simp add: setTestDefaults_def modes_ok_def)
next
  case (EnableDisablePrint s v)
  with assms enableDisablePrint_only [of s v a] show ?thesis by (auto simp: modes_ok_def)
qed (use assms settings_kept in \<open>auto simp: modes_ok_def set_duplex_start_frame_def set_duplex_mode_def\<close>)

lemma air_do_numbers:
  assumes "air_do c a = Some a'" "numbers_ok a" "codecs_ok a" "modes_ok a"
  shows "numbers_ok a'"
proof (cases c)
  case (SetInterleave x)
  with assms set_interleave_frame [of x a] show ?thesis by (auto simp: numbers_ok_def)
next
  case (SetCodeType t n k)
  with assms set_code_type_frame [of t n k a] show ?thesis by (auto simp: numbers_ok_def)
next
  case (SetRs n)
  then obtain t c k where "a' = fst (set_code_type t c k a)"
    using assms(1) by (auto simp: set_rs_def split: if_splits)
  with assms(2) set_code_type_frame [of t c k a] show ?thesis by (auto simp: numbers_ok_def)
next
  case (SetSubcarrierAllocation v)
  with assms set_allocation_ok [of v a a'] show ?thesis by (simp add: modes_ok_def)
next
  case SetTestDefaults
  with assms settings_kept [of a] set_allocation_ok [of _ "set_modulation_schema FEEDBACK_MAPMOV_QPSK a" a'] show ?thesis
    by (simp add: setTestDefaults_def modes_ok_def)
next
  case (EnableDisablePrint s v)
  with assms enableDisablePrint_only [of s v a] show ?thesis by (auto simp: numbers_ok_def)
qed (use assms numbers_kept in \<open>auto simp: numbers_ok_def set_duplex_start_frame_def set_duplex_mode_def\<close>)

text \<open>The commands after which the numbers derived from the allocation hold.\<close>

definition sets_allocation :: "air_command \<Rightarrow> bool" where
  "sets_allocation c \<longleftrightarrow> (case c of SetSubcarrierAllocation v \<Rightarrow> True | SetTestDefaults \<Rightarrow> True | _ \<Rightarrow> False)"

lemma air_do_sets_allocation:
  assumes "air_do c a = Some a'" "sets_allocation c" "codecs_ok a" "modes_ok a"
  shows "numbers_ok a'"
proof (cases c)
  case (SetSubcarrierAllocation v)
  with assms set_allocation_ok [of v a a'] show ?thesis by (simp add: modes_ok_def)
next
  case SetTestDefaults
  with assms settings_kept [of a] set_allocation_ok [of _ "set_modulation_schema FEEDBACK_MAPMOV_QPSK a" a'] show ?thesis
    by (simp add: setTestDefaults_def modes_ok_def)
qed (use assms(2) in \<open>simp_all add: sets_allocation_def\<close>)

lemma air_run_ok:
  assumes "fold_option air_do cs a = Some a'" "codecs_ok a" "modes_ok a"
  shows "codecs_ok a' \<and> modes_ok a' \<and> (numbers_ok a \<or> list_ex sets_allocation cs \<longrightarrow> numbers_ok a')"
  using assms
proof (induction cs arbitrary: a)
  case Nil
  then show ?case by simp
next
  case (Cons c cs)
  then obtain b where b: "air_do c a = Some b" "fold_option air_do cs b = Some a'"
    by (auto split: option.splits)
  have ok: "codecs_ok b" "modes_ok b" using air_do_ok [OF b(1)] Cons.prems by simp_all
  have "numbers_ok b" if "numbers_ok a \<or> sets_allocation c"
    using that air_do_numbers [OF b(1)] air_do_sets_allocation [OF b(1)] Cons.prems by blast
  with Cons.IH [OF b(2) ok] show ?case by auto
qed

section \<open>What the code promises\<close>

text \<open>
  C18. Whatever sequence of setters is called on a new object, the codec it will use is the one the
  mode asks for (a Reed-Solomon object of the very code and parity length that are set, an
  interleaver of the very length), whether it was made for this call or found in the table, and the
  emulator has the object's allocation. Once the allocation has been set, a frame has as many
  words as the enabled subcarriers carry bits, divided by 32; before, the count is the 8 of the
  constructor although no subcarrier is enabled.
\<close>
theorem settings_consistent:
  assumes "AirPacket frames start_frame = Some a0" and "fold_option air_do cs a0 = Some a"
  shows "(code_type a = AIRPACKET_CODE_REED_SOLOMON \<longrightarrow> settings_valid (ap_code_length a) (ap_fec_length a) \<and>
      reed_solomon a = Some (ReedSolomon (ap_code_length a) (ap_fec_length a))) \<and>
    interleaver a = (if interleave_length a = 0 then None else Some (Interleaver (interleave_length a))) \<and>
    em_subcarrier_allocation (emulate_mapmov a) = subcarrier_allocation a \<and>
    (list_ex sets_allocation cs \<longrightarrow>
      allocation_subcarriers (subcarrier_allocation a) = Some (enabled_subcarriers a) \<and>
      sliced_word_count a = enabled_subcarriers a * schema_bits (modulation_schema a) div 32)"
proof -
  have "codecs_ok a0" "modes_ok a0" using AirPacket_ok [of frames start_frame] assms(1) by simp_all
  then have ok: "codecs_ok a" "modes_ok a" "list_ex sets_allocation cs \<longrightarrow> numbers_ok a"
    using air_run_ok [OF assms(2)] by blast+
  from ok(1) have "code_type a = AIRPACKET_CODE_REED_SOLOMON \<longrightarrow> settings_valid (ap_code_length a) (ap_fec_length a) \<and>
      reed_solomon a = Some (ReedSolomon (ap_code_length a) (ap_fec_length a))"
    and "interleaver a = (if interleave_length a = 0 then None else Some (Interleaver (interleave_length a)))"
    by (simp_all add: codecs_ok_def)
  moreover from ok have "list_ex sets_allocation cs \<longrightarrow>
      allocation_subcarriers (subcarrier_allocation a) = Some (enabled_subcarriers a) \<and>
      sliced_word_count a = enabled_subcarriers a * schema_bits (modulation_schema a) div 32"
    by (simp add: modes_ok_def numbers_ok_def)
  ultimately show ?thesis using ok(2) by (simp add: modes_ok_def)
qed

lemma set_allocation_total:
  assumes "allocation_subcarriers v = Some n"
  shows "\<exists>m. set_subcarrier_allocation v a = Some (settings_did_change
    (a\<lparr>enabled_subcarriers := n, subcarrier_allocation := v, emulate_mapmov := m\<rparr>))"
proof -
  have "\<forall>w. v \<noteq> MAPMOV_SUBCARRIER_OTHER w" using assms by auto
  then show ?thesis
    using assms settings_did_change_ok [of "(emulate_mapmov a)\<lparr>em_subcarrier_allocation := v\<rparr>"]
    by (auto simp: em_set_subcarrier_allocation_def set_subcarrier_allocation_def)
qed

theorem settings_consistent_witness:
  "\<exists>a0 a. AirPacket 100 1 = Some a0 \<and>
    fold_option air_do [SetRs 32, SetSubcarrierAllocation MAPMOV_SUBCARRIER_320, SetInterleave 7] a0 = Some a \<and>
    sliced_word_count a = 20 \<and> reed_solomon a = Some (ReedSolomon 255 32) \<and> interleaver a = Some (Interleaver 7)"
proof -
  let ?cs = "[SetRs 32, SetSubcarrierAllocation MAPMOV_SUBCARRIER_320, SetInterleave 7]"
  obtain a0 where a0: "AirPacket 100 1 = Some a0" using AirPacket_ok [of 100 1] by auto
  then have init: "every_reed_solomon a0 = []" "every_interleaver a0 = []"
    "modulation_schema a0 = FEEDBACK_MAPMOV_QPSK" by (auto simp: AirPacket_def)
  obtain m where "set_subcarrier_allocation MAPMOV_SUBCARRIER_320 (fst (set_rs 32 a0)) =
      Some (settings_did_change ((fst (set_rs 32 a0))\<lparr>enabled_subcarriers := 320,
        subcarrier_allocation := MAPMOV_SUBCARRIER_320, emulate_mapmov := m\<rparr>))"
    using set_allocation_total [of MAPMOV_SUBCARRIER_320 320] by auto
  then obtain a where a: "fold_option air_do ?cs a0 = Some a" "code_type a = AIRPACKET_CODE_REED_SOLOMON"
    "ap_code_length a = 255" "ap_fec_length a = 32" "interleave_length a = 7" "modulation_schema a = FEEDBACK_MAPMOV_QPSK"
    "subcarrier_allocation a = MAPMOV_SUBCARRIER_320" "enabled_subcarriers a = 320"
    using init by (simp add: set_rs_def set_code_type_def settings_valid_def set_interleave_def
        settings_did_change_def setSyncMessage_def)
  have "list_ex sets_allocation ?cs" by (simp add: sets_allocation_def)
  with settings_consistent [OF a0 a(1)] a(2-)
  have "sliced_word_count a = 20 \<and> reed_solomon a = Some (ReedSolomon 255 32) \<and> interleaver a = Some (Interleaver 7)"
    by auto
  with a0 a(1) show ?thesis by blast
qed

end
