(* ===== verification/Air_Outbound.thy ===== *)
theory Air_Outbound
  imports Air_Settings Mac_Header
begin

text \<open>
  \<open>AirPacketOutbound\<close> (\<open>AirPacket.cpp\<close>): a message becomes a packet. \<open>transform\<close> encodes and
  interleaves it, puts the header in front (sixteen frames of the sync word and sixteen of the
  length word, one word down every subcarrier; in duplex mode copies of the 64-bit MAC header),
  and pads it. \<open>emulateHiggsToHiggs\<close> is what the other radio would receive, with the frame
  counter the receiver expects in the first row. The encoder of the library is the argument
  \<open>S\<close> as in \<open>Reed_Solomon\<close>; \<open>None\<close> is a failed assertion, a null pointer or a division
  by zero.
\<close>

record air_outbound =
  air :: air_packet
  tx_seq :: u8

definition AirPacketOutbound :: "u32 \<Rightarrow> u32 \<Rightarrow> air_outbound option" where
  "AirPacketOutbound frames start_frame = map_option (\<lambda>a. \<lparr>air = a, tx_seq = 0\<rparr>) (AirPacket frames start_frame)"

definition gain_for_fpga :: "u32 \<Rightarrow> u32 \<Rightarrow> u32 list \<Rightarrow> u32 list list" where
  "gain_for_fpga fpga rb_word gain =
     (let bits = [0x00000, 0x10000, 0x20000, 0x30000, 0x40000]
      in map (\<lambda>i. [fpga, rb_word OR (bits ! i) OR (gain ! i)]) [0..<5])"

definition getGainRingbus :: "air_packet \<Rightarrow> u32 \<Rightarrow> u32 \<Rightarrow> u32 list list" where
  "getGainRingbus a cs10_addr cs10_gain_rb =
     (if subcarrier_allocation a = MAPMOV_SUBCARRIER_320
      then gain_for_fpga cs10_addr cs10_gain_rb [0x0f, 0x10, 0x0f, 0x0f, 0x0f] else [])"

definition getTxSeq :: "bool \<Rightarrow> air_outbound \<Rightarrow> u8 \<times> air_outbound" where
  "getTxSeq inc ob = (if inc then (tx_seq ob, ob\<lparr>tx_seq := (tx_seq ob + 1) AND 0xFF\<rparr>) else (tx_seq ob, ob))"

definition getPrevTxSeq :: "air_outbound \<Rightarrow> u8" where
  "getPrevTxSeq ob = (tx_seq ob - 1) AND 0xFF"

definition resetTxSeq :: "air_outbound \<Rightarrow> air_outbound" where
  "resetTxSeq ob = ob\<lparr>tx_seq := 0\<rparr>"

definition add_mac_header :: "air_packet \<Rightarrow> u32 list \<Rightarrow> u32 \<Rightarrow> u16 \<Rightarrow> u8 \<Rightarrow> u8 \<Rightarrow> u32 list" where
  "add_mac_header a output_vector len seq_num from_id flags =
     (case mac_create_header mac_header_new len seq_num from_id flags of (m, upper_header, lower_header) \<Rightarrow>
        fold (\<lambda>i out. out @ [upper_header, lower_header]) [0..<sliced_word_count a div 2] output_vector)"

definition attachHeader :: "air_packet \<Rightarrow> u32 \<Rightarrow> u32 list \<Rightarrow> u8 \<Rightarrow> u32 list option" where
  "attachHeader a data_size output_vector seq =
     (if duplex_mode a then Some (add_mac_header a output_vector data_size (ucast seq) 0 0)
      else
        let header_sync_subcarriers_qpsk = enabled_subcarriers a;
            data_sync_arg = (if modulation_schema a = FEEDBACK_MAPMOV_QAM16
              then header_sync_subcarriers_qpsk * 2 else header_sync_subcarriers_qpsk);
            out1 = new_subcarrier_data_sync output_vector 0xBEEFBABE data_sync_arg
        in case packHeader (data_size, seq, 0) of None \<Rightarrow> None
           | Some header_word \<Rightarrow> Some (new_subcarrier_data_sync out1 header_word data_sync_arg))"

text \<open>The overload that takes the next sequence number.\<close>

definition attachHeader_next :: "air_outbound \<Rightarrow> u32 \<Rightarrow> u32 list \<Rightarrow> (u8 \<times> u32 list \<times> air_outbound) option" where
  "attachHeader_next ob data_size output_vector =
     (case getTxSeq True ob of (seq, ob') \<Rightarrow>
        map_option (\<lambda>out. (seq, out, ob'))
          (if duplex_mode (air ob') then Some (add_mac_header (air ob') output_vector data_size (ucast seq) 0 0)
           else attachHeader (air ob') data_size output_vector seq))"

text \<open>The two coding steps of \<open>transform\<close>. What \<open>encode_message\<close> and \<open>interleave\<close> return is
  ignored; the vectors they were given start empty.\<close>

definition rs_stage :: "schifra \<Rightarrow> air_packet \<Rightarrow> u32 list \<Rightarrow> u32 list option" where
  "rs_stage S a ws =
     (if code_type a = AIRPACKET_CODE_REED_SOLOMON then
        (case reed_solomon a of None \<Rightarrow> None
         | Some rs \<Rightarrow> map_option snd (encode_message S rs ws [] (ap_code_length a) (ap_fec_length a) False))
      else Some ws)"

definition interleave_stage :: "air_packet \<Rightarrow> u32 list \<Rightarrow> u32 list option" where
  "interleave_stage a ws =
     (if interleave_length a \<noteq> 0 then map_option (\<lambda>t. snd (interleave t ws)) (interleaver a) else Some ws)"

definition transform :: "schifra \<Rightarrow> air_packet \<Rightarrow> u32 list \<Rightarrow> u8 \<Rightarrow> nat \<Rightarrow> u32 list option" where
  "transform S a ws seq_used pad_to =
     (case rs_stage S a ws of None \<Rightarrow> None
      | Some encoded \<Rightarrow>
          (case interleave_stage a encoded of None \<Rightarrow> None
           | Some to_push \<Rightarrow>
               (case attachHeader a (of_nat (length to_push)) [] seq_used of None \<Rightarrow> None
                | Some output_vector \<Rightarrow>
                    let out = output_vector @ to_push
                    in Some (if pad_to \<noteq> 0 then out @ replicate (pad_to - length out) 0 else out))))"

text \<open>The loops of \<open>padData\<close>, with the factor and the modulus of each mode.\<close>

function pad_loop :: "nat \<Rightarrow> nat \<Rightarrow> u32 list \<Rightarrow> u32 list" where
  "pad_loop factor n d =
     (if 0 < n \<and> length d * factor mod n \<noteq> 0 then pad_loop factor n (d @ [0]) else d)"
  by pat_completeness auto
termination
proof (relation "measure (\<lambda>(factor, n, d). (n - length d mod n) mod n)")
  fix factor n :: nat and d :: "u32 list"
  assume n: "0 < n \<and> length d * factor mod n \<noteq> 0"
  then have "length d mod n \<noteq> 0" by (auto simp: mod_eq_0_iff_dvd)
  then have "0 < length d mod n" "length d mod n < n" using n by auto
  moreover have "Suc (length d) mod n = (if Suc (length d mod n) = n then 0 else Suc (length d mod n))"
    by (rule mod_Suc)
  ultimately show "((factor, n, d @ [0]), factor, n, d) \<in> measure (\<lambda>(factor, n, d). (n - length d mod n) mod n)"
    by auto
qed simp

declare pad_loop.simps [simp del]

definition padData :: "air_packet \<Rightarrow> u32 list \<Rightarrow> u32 list option" where
  "padData a d =
     (if modulation_schema a = FEEDBACK_MAPMOV_QPSK \<and> subcarrier_allocation a = MAPMOV_SUBCARRIER_128
      then Some (pad_loop 16 128 d)
      else if modulation_schema a = FEEDBACK_MAPMOV_QAM16 \<and> subcarrier_allocation a = MAPMOV_SUBCARRIER_128
      then Some (pad_loop 8 128 d)
      else if sliced_word_count a = 0 then None
      else Some (pad_loop 1 (sliced_word_count a) d))"

type_synonym sliced_buffer = "u32 list \<times> u32 list"

definition format_rx_data :: "air_packet \<Rightarrow> u32 list \<Rightarrow> u32 \<Rightarrow> sliced_buffer option" where
  "format_rx_data a sliced_out_data counter_start =
     (if sliced_word_count a = 0 then None
      else let n = sliced_word_count a; data_chunk = length sliced_out_data div n
        in Some (concat (map (\<lambda>i. (replicate n 0)[0 := counter_start + of_nat i]) [0..<data_chunk]),
                 concat (map (\<lambda>i. vslice (i * n) n sliced_out_data) [0..<data_chunk])))"

text \<open>The outer \<open>option\<close> is \<open>None\<close> when the emulator does not return.\<close>

definition emulateHiggsToHiggs :: "air_packet \<Rightarrow> u32 list \<Rightarrow> u32 \<Rightarrow> sliced_buffer option option" where
  "emulateHiggsToHiggs a ws counter_start =
     map_option (\<lambda>r. Option.bind r (\<lambda>sliced. format_rx_data a sliced counter_start))
       (emulate_air (emulate_mapmov a) ws)"

section \<open>Padding\<close>

lemma next_multiple: "0 < n \<Longrightarrow> (m + (n - m mod n) mod n) mod n = (0 :: nat)"
proof -
  assume n: "0 < n"
  have "m + (n - m mod n) = (m div n + 1) * n"
  proof -
    have "m = m div n * n + m mod n" by simp
    moreover have "m mod n < n" using n by simp
    ultimately show ?thesis by (simp only: add_mult_distrib mult_1)
  qed
  then have "(m + (n - m mod n)) mod n = 0" by simp
  then show ?thesis by (simp only: mod_add_right_eq)
qed

lemma pad_loop_spec:
  assumes "0 < n"
  shows "\<exists>k < n. pad_loop factor n d = d @ replicate k 0 \<and> length (pad_loop factor n d) * factor mod n = 0 \<and>
    (\<forall>j < k. (length d + j) * factor mod n \<noteq> 0)"
  using assms
proof (induction factor n d rule: pad_loop.induct)
  case (1 factor n d)
  show ?case
  proof (cases "length d * factor mod n = 0")
    case True
    then show ?thesis using 1(2) by (intro exI [of _ 0]) (simp add: pad_loop.simps [of factor n d])
  next
    case False
    then have "0 < n \<and> length d * factor mod n \<noteq> 0" using 1(2) by simp
    from 1(1) [OF this 1(2)] obtain k where k: "k < n" "pad_loop factor n (d @ [0]) = (d @ [0]) @ replicate k 0"
      "length (pad_loop factor n (d @ [0])) * factor mod n = 0"
      "\<forall>j < k. (length (d @ [0]) + j) * factor mod n \<noteq> 0"
      by (elim exE conjE)
    have step: "pad_loop factor n d = pad_loop factor n (d @ [0])"
      using False 1(2) by (subst pad_loop.simps) simp
    have least: "(length d + j) * factor mod n \<noteq> 0" if "j < Suc k" for j
      using that False k(4) by (cases j) auto
    have "Suc k < n"
    proof (rule ccontr)
      assume "\<not> Suc k < n"
      let ?j = "(n - length d mod n) mod n"
      have "?j < n" using 1(2) by simp
      moreover have "(length d + ?j) mod n = 0" using 1(2) by (rule next_multiple)
      ultimately show False
        using least [of ?j] \<open>\<not> Suc k < n\<close> by (auto simp: mod_eq_0_iff_dvd)
    qed
    with k step least show ?thesis by (intro exI [of _ "Suc k"]) simp
  qed
qed

section \<open>The length of a packet\<close>

definition ceil_count :: "nat \<Rightarrow> nat \<Rightarrow> nat" where
  "ceil_count m n = m div n + (if m mod n \<noteq> 0 then 1 else 0)"

lemma roundToMultipleCeil_eq:
  assumes "0 < n" "4 * m + 4 * n < 2 ^ 32"
  shows "roundToMultipleCeil (of_nat (4 * m)) (of_nat (4 * n)) = of_nat (4 * (n * ceil_count m n))"
proof -
  have small: "unat (of_nat (4 * m) :: u32) = 4 * m" "unat (of_nat (4 * n) :: u32) = 4 * n"
    using assms(2) by (simp_all add: unat_of_nat_u32 del: of_nat_mult)
  have div: "m = n * (m div n) + m mod n" by simp
  have lt: "m mod n < n" using assms(1) by simp
  then have "unat (of_nat (4 * (m mod n)) :: u32) = 4 * (m mod n)"
    using assms(2) by (intro unat_of_nat_u32) simp
  then have rem: "(of_nat (4 * m) :: u32) mod of_nat (4 * n) = of_nat (4 * (m mod n))"
    by (intro unsigned_word_eqI [where 'a = nat]) (simp only: unat_mod small mult_mod_right)
  have zero: "(of_nat (4 * (m mod n)) :: u32) = 0 \<longleftrightarrow> m mod n = 0"
    using lt assms(2) by (simp only: word_unat_eq_iff unat_0) (simp add: unat_of_nat_u32 del: of_nat_mult)
  have up: "4 * m + (4 * n - 4 * (m mod n)) = 4 * (n * ceil_count m n)" if "m mod n \<noteq> 0"
  proof -
    have "n * ceil_count m n = n * (m div n) + n" using that by (simp add: ceil_count_def)
    with lt div show ?thesis by linarith
  qed
  have "of_nat (4 * m) + (of_nat (4 * n) - of_nat (4 * (m mod n))) = (of_nat (4 * m + (4 * n - 4 * (m mod n))) :: u32)"
    using lt by (simp only: of_nat_add of_nat_diff mult_le_mono2 less_imp_le)
  moreover have "4 * m = 4 * (n * ceil_count m n)" if "m mod n = 0"
    using that div by (simp add: ceil_count_def)
  ultimately show ?thesis
    unfolding roundToMultipleCeil_def rem Let_def zero using up by (cases "m mod n = 0") (simp_all only: if_True if_False simp_thms)
qed

lemma effective_rs_length:
  "settings_valid code fec \<Longrightarrow> roundToMultipleFloor (255 - of_nat fec) 4 = of_nat (4 * rs_words fec)"
  by (auto simp: settings_valid_def roundToMultipleFloor_def rs_words_def)

lemma div_of_nat_u32: "a < 2 ^ 32 \<Longrightarrow> b < 2 ^ 32 \<Longrightarrow> (of_nat a :: u32) div of_nat b = of_nat (a div b)"
proof -
  assume ab: "a < 2 ^ 32" "b < 2 ^ 32"
  then have "a div b < 2 ^ 32" using div_le_dividend [of a b] by linarith
  with ab show ?thesis
    by (intro unsigned_word_eqI [where 'a = nat]) (simp add: unat_div unat_of_nat_u32)
qed

lemma ceil_count_bounds: "0 < n \<Longrightarrow> m \<le> n * ceil_count m n \<and> n * ceil_count m n < m + n"
  "ceil_count m n \<le> m + 1"
proof -
  assume n: "0 < n"
  have m: "m = n * (m div n) + m mod n" "m mod n < n" using n by simp_all
  show "m \<le> n * ceil_count m n \<and> n * ceil_count m n < m + n"
  proof (cases "m mod n = 0")
    case True
    then have "n * ceil_count m n = n * (m div n)" by (simp add: ceil_count_def)
    with True m show ?thesis by linarith
  next
    case False
    then have "n * ceil_count m n = n * (m div n) + n" by (simp add: ceil_count_def)
    with False m show ?thesis by linarith
  qed
next
  show "ceil_count m n \<le> m + 1" using div_le_dividend [of m n] by (auto simp: ceil_count_def intro: le_SucI)
qed

lemma rs_length_eq:
  assumes "settings_valid code fec" "m < 2 ^ 20"
  defines "e \<equiv> roundToMultipleFloor (255 - of_nat fec) 4"
  shows "roundToMultipleCeil (roundToMultipleCeil (4 * of_nat m) e div e * 256) 4 =
    of_nat (4 * (64 * ceil_count m (rs_words fec)))"
proof -
  let ?r = "rs_words fec" and ?k = "ceil_count m (rs_words fec)"
  have r: "0 < ?r" "?r < 64" using settings_validD [OF assms(1)] by simp_all
  have e: "e = of_nat (4 * ?r)" unfolding e_def by (rule effective_rs_length [OF assms(1)])
  have four: "4 * of_nat m = (of_nat (4 * m) :: u32)" by simp
  have k: "?r * ?k < m + ?r" "?k \<le> m + 1" using ceil_count_bounds r(1) by blast+
  have "roundToMultipleCeil (4 * of_nat m) e = of_nat (4 * (?r * ?k))"
    unfolding e four using r assms(2) by (intro roundToMultipleCeil_eq) simp_all
  moreover have "(of_nat (4 * (?r * ?k)) :: u32) div of_nat (4 * ?r) = of_nat (4 * (?r * ?k) div (4 * ?r))"
    using r assms(2) k by (intro div_of_nat_u32) simp_all
  moreover have "4 * (?r * ?k) div (4 * ?r) = ?k" using r(1) by simp
  ultimately have "roundToMultipleCeil (4 * of_nat m) e div e * 256 = of_nat ?k * 256"
    unfolding e by (simp only:)
  also have "\<dots> = of_nat (4 * (64 * ?k))" by simp
  finally have "roundToMultipleCeil (roundToMultipleCeil (4 * of_nat m) e div e * 256) 4 =
      roundToMultipleCeil (of_nat (4 * (64 * ?k))) (of_nat (4 * 1))" by simp
  also have "\<dots> = of_nat (4 * (1 * ceil_count (64 * ?k) 1))"
    using k(2) assms(2) by (intro roundToMultipleCeil_eq) simp_all
  finally show ?thesis by (simp add: ceil_count_def)
qed

text \<open>The number of words of the two coding stages.\<close>

definition rs_stage_words :: "air_packet \<Rightarrow> nat \<Rightarrow> nat" where
  "rs_stage_words a m = (if code_type a = AIRPACKET_CODE_REED_SOLOMON
     then 64 * ceil_count m (rs_words (ap_fec_length a)) else m)"

definition stage_words :: "air_packet \<Rightarrow> nat \<Rightarrow> nat" where
  "stage_words a m = (let n = rs_stage_words a m; c = calculate_words_for_code (interleave_length a)
     in if 0 < interleave_length a then c * ceil_count n c else n)"

lemma words_for_code_bounds: "0 < c \<Longrightarrow> 0 < calculate_words_for_code c \<and> calculate_words_for_code c < c + 4"
proof -
  assume c: "0 < c"
  show ?thesis
  proof (cases "c mod 4 = 0")
    case True
    with c show ?thesis by (simp add: calculate_words_for_code_def)
  next
    case False
    then have "calculate_words_for_code c = c div 4 * 4 + 4" by (simp add: calculate_words_for_code_def)
    moreover have "c = c div 4 * 4 + c mod 4" by simp
    ultimately show ?thesis using False by linarith
  qed
qed

lemma stage_words_small:
  assumes "m < 2 ^ 20" "interleave_length a < 2 ^ 20"
  shows "stage_words a m < 2 ^ 28"
proof -
  have n: "rs_stage_words a m < 2 ^ 27"
    using ceil_count_bounds(2) [of m "rs_words (ap_fec_length a)"] assms(1) by (simp add: rs_stage_words_def)
  show ?thesis
  proof (cases "0 < interleave_length a")
    case True
    let ?c = "calculate_words_for_code (interleave_length a)"
    from True have "stage_words a m = ?c * ceil_count (rs_stage_words a m) ?c" by (simp add: stage_words_def Let_def)
    with n assms(2) words_for_code_bounds [OF True] ceil_count_bounds(1) [of ?c "rs_stage_words a m"] show ?thesis by simp
  qed (use n in \<open>simp add: stage_words_def\<close>)
qed

lemma getLengthForInput_eq:
  assumes "codecs_ok a" "m < 2 ^ 20" "interleave_length a < 2 ^ 20"
  shows "getLengthForInput a (of_nat m) = of_nat (stage_words a m + sliced_word_count a * 32)"
proof -
  let ?c = "calculate_words_for_code (interleave_length a)" and ?rs = "code_type a = AIRPACKET_CODE_REED_SOLOMON"
  let ?n = "rs_stage_words a m"
  let ?e = "roundToMultipleFloor (255 - of_nat (ap_fec_length a)) 4"
  have n: "?n < 2 ^ 27"
    using ceil_count_bounds(2) [of m "rs_words (ap_fec_length a)"] assms(2) by (simp add: rs_stage_words_def)
  have l3: "(if ?rs then roundToMultipleCeil (roundToMultipleCeil (4 * of_nat m) ?e div ?e * 256) 4
      else 4 * of_nat m) = (of_nat (4 * ?n) :: u32)"
    using assms(1,2) rs_length_eq [of "ap_code_length a" "ap_fec_length a" m]
    by (simp add: codecs_ok_def rs_stage_words_def)
  have l4: "(if 0 < interleave_length a then roundToMultipleCeil (of_nat (4 * ?n)) (4 * of_nat ?c) else of_nat (4 * ?n)) =
      (of_nat (4 * stage_words a m) :: u32)"
  proof (cases "0 < interleave_length a")
    case True
    have "4 * of_nat ?c = (of_nat (4 * ?c) :: u32)" by simp
    moreover have "roundToMultipleCeil (of_nat (4 * ?n)) (of_nat (4 * ?c)) = of_nat (4 * (?c * ceil_count ?n ?c))"
      using n assms(3) words_for_code_bounds [OF True] by (intro roundToMultipleCeil_eq) auto
    moreover have "stage_words a m = ?c * ceil_count ?n ?c" using True by (simp add: stage_words_def Let_def)
    ultimately show ?thesis using True by (simp only: if_True)
  qed (simp add: stage_words_def Let_def)
  from stage_words_small [OF assms(2,3)] have "(of_nat (4 * stage_words a m) :: u32) div of_nat 4 = of_nat (4 * stage_words a m div 4)"
    by (intro div_of_nat_u32) simp_all
  then have div: "(of_nat (4 * stage_words a m) :: u32) div 4 = of_nat (stage_words a m)" by simp
  have "getLengthForInput a (of_nat m) =
      (if 0 < interleave_length a then roundToMultipleCeil (if ?rs then roundToMultipleCeil
          (roundToMultipleCeil (4 * of_nat m) ?e div ?e * 256) 4 else 4 * of_nat m) (4 * of_nat ?c)
       else (if ?rs then roundToMultipleCeil (roundToMultipleCeil (4 * of_nat m) ?e div ?e * 256) 4
        else 4 * of_nat m)) div 4 + of_nat (sliced_word_count a) * 32"
    by (simp add: getLengthForInput_def Let_def)
  also have "\<dots> = of_nat (stage_words a m) + of_nat (sliced_word_count a) * 32"
    unfolding l3 l4 div by (rule refl)
  finally show ?thesis by simp
qed

text \<open>The library encodes every block of the message.\<close>

definition codable :: "schifra \<Rightarrow> air_packet \<Rightarrow> u32 list \<Rightarrow> bool" where
  "codable S a ws \<longleftrightarrow> (code_type a = AIRPACKET_CODE_REED_SOLOMON \<longrightarrow>
     (\<forall>i < rs_count (ap_fec_length a) ws. encodes S (ap_fec_length a) (rs_padded (ap_fec_length a) ws) i))"

lemma rs_stage_length:
  assumes "codecs_ok a" "codable S a ws"
  shows "\<exists>enc. rs_stage S a ws = Some enc \<and> length enc = rs_stage_words a (length ws)"
proof (cases "code_type a = AIRPACKET_CODE_REED_SOLOMON")
  case True
  then have valid: "settings_valid 255 (ap_fec_length a)" "ap_code_length a = 255"
    "reed_solomon a = Some (ReedSolomon 255 (ap_fec_length a))"
    using assms(1) by (auto simp: codecs_ok_def settings_valid_def)
  obtain out where "encode_message S (ReedSolomon 255 (ap_fec_length a)) ws [] 255 (ap_fec_length a) False = Some (True, out)"
    "length out = 64 * rs_count (ap_fec_length a) ws"
    using encode_message_eq [OF valid(1), of ws S False] assms(2) True by (auto simp: codable_def)
  with True valid show ?thesis
    by (simp add: rs_stage_def rs_stage_words_def ceil_count_def rs_count_def)
qed (simp add: rs_stage_def rs_stage_words_def)

lemma interleave_stage_length:
  assumes "codecs_ok a"
  shows "\<exists>out. interleave_stage a ws = Some out \<and> length out =
    (let c = calculate_words_for_code (interleave_length a)
     in if 0 < interleave_length a then c * ceil_count (length ws) c else length ws)"
proof (cases "0 < interleave_length a")
  case True
  let ?t = "Interleaver (interleave_length a)"
  let ?n = "required_stream_size ?t"
  have t: "il_ok ?t" using True by (rule il_ok_Interleaver)
  have "length (snd (interleave ?t ws)) = calculate_blocks_for_length (length ws) ?n * ?n"
    using interleave_eq [OF t refl, of ws] by (simp add: length_concat o_def sum_list_triv)
  moreover have "calculate_blocks_for_length (length ws) ?n = ceil_count (length ws) ?n"
    using t words_for_code_same [of ?n] by (simp add: calculate_blocks_for_length_def ceil_count_def il_ok_def Let_def)
  moreover have "?n = calculate_words_for_code (interleave_length a)" by (simp add: Interleaver_def)
  ultimately show ?thesis
    using True assms by (simp add: interleave_stage_def codecs_ok_def Let_def mult.commute)
qed (simp add: interleave_stage_def)

lemma coding_stages:
  assumes "codecs_ok a" "codable S a ws"
  shows "\<exists>enc out. rs_stage S a ws = Some enc \<and> interleave_stage a enc = Some out \<and>
    length out = stage_words a (length ws)"
proof -
  obtain enc where enc: "rs_stage S a ws = Some enc" "length enc = rs_stage_words a (length ws)"
    using rs_stage_length [OF assms] by auto
  obtain out where "interleave_stage a enc = Some out" "length out = stage_words a (length ws)"
    using interleave_stage_length [OF assms(1), of enc] enc(2) by (auto simp: stage_words_def Let_def)
  with enc show ?thesis by blast
qed

lemma header_length:
  assumes "\<not> duplex_mode a" "modes_ok a" "numbers_ok a"
    and "modulation_schema a = FEEDBACK_MAPMOV_QPSK \<or> modulation_schema a = FEEDBACK_MAPMOV_QAM16"
    and "packHeader (n, seq, 0) = Some w"
  shows "\<exists>sc. attachHeader a n [] seq = Some (new_subcarrier_data_sync [] 0xBEEFBABE sc @ new_subcarrier_data_sync [] w sc) \<and>
    sc = 16 * sliced_word_count a"
proof -
  have "(\<exists>k. enabled_subcarriers a = 64 * k)"
    using assms(3) by (cases "subcarrier_allocation a") (auto simp: numbers_ok_def intro: exI [of _ 2] exI [of _ 5]
        exI [of _ 10] exI [of _ 8] exI [of _ 1])
  then obtain k where k: "enabled_subcarriers a = 64 * k" by blast
  with assms show ?thesis
    by (auto simp: attachHeader_def Let_def modes_ok_def numbers_ok_def data_sync_concat)
qed

lemma transform_eq:
  assumes "codecs_ok a" "modes_ok a" "numbers_ok a" "codable S a ws" "\<not> duplex_mode a"
    and "modulation_schema a = FEEDBACK_MAPMOV_QPSK \<or> modulation_schema a = FEEDBACK_MAPMOV_QAM16"
    and "stage_words a (length ws) \<le> 0xFFFFF"
  shows "\<exists>enc out w. rs_stage S a ws = Some enc \<and> interleave_stage a enc = Some out \<and>
    length out = stage_words a (length ws) \<and> packHeader (of_nat (length out), seq, 0) = Some w \<and>
    transform S a ws seq 0 = Some (new_subcarrier_data_sync [] 0xBEEFBABE (16 * sliced_word_count a) @
      new_subcarrier_data_sync [] w (16 * sliced_word_count a) @ out)"
proof -
  obtain enc out where out: "rs_stage S a ws = Some enc" "interleave_stage a enc = Some out"
    "length out = stage_words a (length ws)" using coding_stages [OF assms(1,4)] by blast
  have "of_nat (length out) \<le> (0xFFFFF :: u32)"
    using assms(7) out(3) by (simp add: word_le_nat_alt unat_of_nat_u32)
  then obtain w where w: "packHeader (of_nat (length out), seq, 0) = Some w"
    using packHeader_ok [of "(of_nat (length out), seq, 0)"] by (auto simp: air_header_ok_def)
  from header_length [OF assms(5,2,3,6) w] out w show ?thesis by (auto simp: transform_def)
qed

lemma transform_too_long:
  assumes "codecs_ok a" "codable S a ws" "\<not> duplex_mode a"
    and "0xFFFFF < stage_words a (length ws)" "stage_words a (length ws) < 2 ^ 32"
  shows "transform S a ws seq 0 = None"
proof -
  obtain enc out where out: "rs_stage S a ws = Some enc" "interleave_stage a enc = Some out"
    "length out = stage_words a (length ws)" using coding_stages [OF assms(1,2)] by blast
  have "\<not> of_nat (length out) \<le> (0xFFFFF :: u32)"
    using assms(4,5) out(3) by (simp add: word_le_nat_alt unat_of_nat_u32)
  then have "packHeader (of_nat (length out), seq, 0) = None" by (simp add: packHeader_def)
  with out assms(3) show ?thesis by (simp add: transform_def attachHeader_def Let_def)
qed

section \<open>What the code promises\<close>

text \<open>
  The length \<open>getLengthForInput\<close> predicts is the length of the packet \<open>transform\<close> makes, for
  every mode of the two modulations the radio uses, coded or not, interleaved or not; and a packet
  is made exactly when the coded message fits the 20 bits of the length field, the assertion in
  \<open>packHeader\<close> stopping the program otherwise. (Below a million words nothing wraps.)
\<close>
lemma predicted_length:
  assumes "AirPacket frames start_frame = Some a0" and "fold_option air_do cs a0 = Some a"
    and "list_ex sets_allocation cs" and "\<not> duplex_mode a"
    and "modulation_schema a = FEEDBACK_MAPMOV_QPSK \<or> modulation_schema a = FEEDBACK_MAPMOV_QAM16"
    and "codable S a ws" and "length ws < 2 ^ 20" and "interleave_length a < 2 ^ 20"
  shows "if stage_words a (length ws) \<le> 0xFFFFF
    then \<exists>out. transform S a ws seq 0 = Some out \<and> unat (getLengthForInput a (of_nat (length ws))) = length out
    else transform S a ws seq 0 = None"
proof -
  have "codecs_ok a0" "modes_ok a0" using AirPacket_ok [of frames start_frame] assms(1) by simp_all
  then have ok: "codecs_ok a" "modes_ok a" "numbers_ok a" using air_run_ok [OF assms(2)] assms(3) by blast+
  have small: "stage_words a (length ws) < 2 ^ 28" using assms(7,8) by (rule stage_words_small)
  show ?thesis
  proof (cases "stage_words a (length ws) \<le> 0xFFFFF")
    case True
    from transform_eq [OF ok assms(6,4,5) True, of seq] obtain out where out: "transform S a ws seq 0 = Some out"
      "length out = stage_words a (length ws) + sliced_word_count a * 32"
      by (auto simp: length_data_sync)
    have "sliced_word_count a \<le> 140"
      using ok(2,3) by (cases "subcarrier_allocation a"; cases "modulation_schema a") (auto simp: modes_ok_def numbers_ok_def)
    then have "unat (getLengthForInput a (of_nat (length ws))) = length out"
      using small out(2) by (simp add: getLengthForInput_eq [OF ok(1) assms(7,8)] unat_of_nat_u32 del: of_nat_add of_nat_mult)
    with True out(1) show ?thesis by simp
  next
    case False
    with transform_too_long [OF ok(1) assms(6,4), of seq] small show ?thesis by simp
  qed
qed

theorem predicted_length_witness:
  "let S = \<lparr>sch_encode = \<lambda>fec m. Some m, sch_decode = \<lambda>fec b. Some b, sch_string = \<lambda>fec b n. Some (vec_resize n 0 b)\<rparr>
   in \<exists>a0 a out. AirPacket 100 1 = Some a0 \<and> fold_option air_do [SetTestDefaults, SetInterleave 5] a0 = Some a \<and>
     transform S a [1, 2, 3] 7 0 = Some out \<and> length out = 264 \<and> unat (getLengthForInput a 3) = 264"
proof -
  let ?S = "\<lparr>sch_encode = \<lambda>fec m. Some m, sch_decode = \<lambda>fec b. Some b, sch_string = \<lambda>fec b n. Some (vec_resize n 0 b)\<rparr> :: schifra"
  let ?cs = "[SetTestDefaults, SetInterleave 5]"
  obtain a0 where a0: "AirPacket 100 1 = Some a0" using AirPacket_ok [of 100 1] by auto
  then have init: "code_type a0 = AIRPACKET_CODE_UNCODED" "every_interleaver a0 = []" "\<not> duplex_mode a0"
    by (auto simp: AirPacket_def)
  obtain m where "setTestDefaults a0 = Some (settings_did_change ((set_modulation_schema FEEDBACK_MAPMOV_QPSK a0)
      \<lparr>enabled_subcarriers := 128, subcarrier_allocation := MAPMOV_SUBCARRIER_128, emulate_mapmov := m\<rparr>))"
    unfolding setTestDefaults_def using set_allocation_total [of MAPMOV_SUBCARRIER_128 128] by auto
  then obtain a where a: "fold_option air_do ?cs a0 = Some a" "code_type a = AIRPACKET_CODE_UNCODED"
    "interleave_length a = 5" "modulation_schema a = FEEDBACK_MAPMOV_QPSK" "\<not> duplex_mode a" "sliced_word_count a = 8"
    using init by (simp add: set_interleave_def settings_did_change_def setSyncMessage_def set_modulation_schema_def)
  have "list_ex sets_allocation ?cs" by (simp add: sets_allocation_def)
  moreover have three: "length [1, 2, 3 :: u32] = 3" by simp
  moreover have words: "stage_words a 3 = 8"
    using a by (simp add: stage_words_def rs_stage_words_def calculate_words_for_code_def ceil_count_def)
  moreover have ok: "codecs_ok a"
    using AirPacket_ok [of 100 1] a0 air_run_ok [OF a(1)] by auto
  ultimately obtain out where "transform ?S a [1, 2, 3] 7 0 = Some out" "unat (getLengthForInput a 3) = length out"
    using predicted_length [OF a0 a(1), of ?S "[1, 2, 3]" 7] a(2-) unfolding three by (auto simp: codable_def)
  moreover have "unat (getLengthForInput a 3) = 264"
    using getLengthForInput_eq [OF ok, of 3] a(3,6) words by simp
  ultimately show ?thesis using a0 a(1) by auto
qed

end
