(* ===== verification/Air_Inbound.thy ===== *)
theory Air_Inbound
  imports Air_Outbound Air_Transforms
begin

text \<open>
  \<open>AirPacketInbound\<close> (\<open>AirPacket.cpp\<close>): the receiver looks for the sixteen sync frames in the
  sliced words, reads the length word down every subcarrier, votes, and then undoes the frame
  transform, the interleaving and the code. A \<open>sliced_buffer\<close> has two rows of equal length, the frame
  counters and the words. Output parameters are a record that is returned updated; \<open>None\<close> is
  a read out of range, a null pointer or a division by zero. The indices are natural numbers (the
  buffers are far below \<open>2 ^ 31\<close> words) but for \<open>demodulateSliced\<close>, whose two index arguments are
  32-bit words added together.
\<close>

definition mangle_for :: "modulation_schema \<Rightarrow> u32 \<Rightarrow> u32" where
  "mangle_for s = (if s = FEEDBACK_MAPMOV_QAM16 then bitMangleSlicedQam16 else bitMangleSliced)"

text \<open>The two helpers return the number of wrong bits (the code's other two results are only
  printed); \<open>t\<close> is the transform of the words.\<close>

definition demodulateSlicedHeaderHelper ::
    "sliced_buffer \<Rightarrow> (u32 \<Rightarrow> bool \<times> u32) \<Rightarrow> nat \<Rightarrow> nat \<Rightarrow> u32 \<Rightarrow> modulation_schema \<Rightarrow> nat option" where
  "demodulateSlicedHeaderHelper as_iq t word_count i sync_word schema =
     fold_option (\<lambda>j count_set.
         let lookup_i = unat (snd (t (of_nat (i + j))))
         in map_option (\<lambda>v. count_set + count_bit_set (sync_word XOR mangle_for schema v)) (vec_get (snd as_iq) lookup_i))
       [0..<word_count] 0"

definition demodulateSlicedHeaderHelperUntransformed ::
    "sliced_buffer \<Rightarrow> nat \<Rightarrow> nat \<Rightarrow> u32 \<Rightarrow> modulation_schema \<Rightarrow> nat option" where
  "demodulateSlicedHeaderHelperUntransformed as_iq word_count i sync_word schema =
     fold_option (\<lambda>j count_set.
         map_option (\<lambda>v. count_set + count_bit_set (sync_word XOR mangle_for schema v)) (vec_get (snd as_iq) (i + j)))
       [0..<word_count] 0"

definition count_votes :: "u32 list \<Rightarrow> (u32, u32) std_map" where
  "count_votes r = fold (\<lambda>v mymap. case sm_find v mymap of
       None \<Rightarrow> sm_insert v 1 mymap | Some n \<Rightarrow> sm_assign v (n + 1) mymap) r []"

definition max_vote :: "(u32, u32) std_map \<Rightarrow> (u32 \<times> u32) option" where
  "max_vote mymap = fst (fold (\<lambda>(k, n) (maxit, max_value).
       if max_value < n then (Some (k, n), n) else (maxit, max_value)) mymap (None, 0))"

text \<open>With no subcarrier enabled and no word the code follows an iterator it never set.\<close>

definition parseLengthHeader :: "air_packet \<Rightarrow> u32 list \<Rightarrow> (bool \<times> air_header) option" where
  "parseLengthHeader a r =
     (if length r \<noteq> enabled_subcarriers a then Some (False, (0, 0, 0))
      else case max_vote (count_votes r) of None \<Rightarrow> None
        | Some (word, votes) \<Rightarrow>
            if of_nat (enabled_subcarriers a div 2) < votes then Some (True, unpackHeader word)
            else Some (False, (0, 0, 0)))"

definition sync_count :: "air_packet \<Rightarrow> sliced_buffer \<Rightarrow> nat \<Rightarrow> nat \<Rightarrow> u32 \<Rightarrow> nat option" where
  "sync_count a as_iq word_count i sync_word =
     (let schema = modulation_schema a; alloc = subcarrier_allocation a in
      if schema = FEEDBACK_MAPMOV_QAM16 then
        (if alloc = MAPMOV_SUBCARRIER_128
         then demodulateSlicedHeaderHelper as_iq TransformWords128Qam16 word_count i sync_word schema
         else demodulateSlicedHeaderHelperUntransformed as_iq word_count i sync_word schema)
      else if alloc = MAPMOV_SUBCARRIER_320 \<or> alloc = MAPMOV_SUBCARRIER_640_LIN \<or> alloc = MAPMOV_SUBCARRIER_512_LIN
        then demodulateSlicedHeaderHelperUntransformed as_iq word_count i sync_word schema
        else demodulateSlicedHeaderHelper as_iq TransformWords128 word_count i sync_word schema)"

abbreviation sync_tol :: nat where "sync_tol \<equiv> 45"

lemma sync_count_0: "sync_count a as_iq 0 i w = Some 0"
  by (simp add: sync_count_def demodulateSlicedHeaderHelper_def demodulateSlicedHeaderHelperUntransformed_def Let_def)

text \<open>The search: \<open>Some (Some i)\<close> when the sixteenth sync frame is at \<open>i\<close>, \<open>Some None\<close> when the
  loop ends without a match. \<open>local_state\<close> is never more than 15.\<close>

function sync_search :: "air_packet \<Rightarrow> sliced_buffer \<Rightarrow> nat \<Rightarrow> nat \<Rightarrow> nat \<Rightarrow> nat \<Rightarrow> nat option option" where
  "sync_search a as_iq word_count read_max i local_state =
     (if i < read_max then
        (case vec_get (sync_message a) local_state of None \<Rightarrow> None
         | Some sync_word \<Rightarrow>
             (case sync_count a as_iq word_count i sync_word of None \<Rightarrow> None
              | Some count_set \<Rightarrow>
                  if count_set < sync_tol then
                    (if local_state < 15
                     then sync_search a as_iq word_count read_max (i + word_count) (local_state + 1)
                     else Some (Some i))
                  else sync_search a as_iq word_count read_max (i - local_state * word_count + word_count) 0))
      else Some None)"
  by pat_completeness auto
termination
proof (relation "measures [\<lambda>(a, q, n, read_max, i, st). read_max - (i - st * n), \<lambda>(a, q, n, read_max, i, st). 15 - st]")
  fix a q n read_max i st w c
  assume i: "i < read_max" and c: "sync_count a q n i w = Some c" "\<not> c < sync_tol"
  then have "0 < n" using sync_count_0 by (cases n) auto
  with i show "((a, q, n, read_max, i - st * n + n, 0), a, q, n, read_max, i, st)
      \<in> measures [\<lambda>(a, q, n, read_max, i, st). read_max - (i - st * n), \<lambda>(a, q, n, read_max, i, st). 15 - st]"
    by auto
qed auto

declare sync_search.simps [simp del]

text \<open>The output parameters of the header search.\<close>

record found =
  dout_valid :: bool
  found_length :: u32
  found_frame :: u32
  found_array_index :: u32
  found_header :: air_header
  erase :: nat

definition vertical_argument :: "air_packet \<Rightarrow> nat" where
  "vertical_argument a =
     (if modulation_schema a = FEEDBACK_MAPMOV_QAM16 then enabled_subcarriers a * 2
      else sliced_word_count a * 32 div bits_per_subcarrier a)"

definition length_words :: "air_packet \<Rightarrow> sliced_buffer \<Rightarrow> nat \<Rightarrow> u32 list option" where
  "length_words a as_iq k = map_option_list (\<lambda>j.
     if modulation_schema a = FEEDBACK_MAPMOV_QAM16
     then extract_vertical_from_sliced_qam16 (snd as_iq) j k (vertical_argument a)
     else extract_vertical_from_sliced (snd as_iq) j k (vertical_argument a)) [0..<enabled_subcarriers a]"

text \<open>What happens after the sixteenth match, at \<open>i\<close>.\<close>

definition header_at :: "air_packet \<Rightarrow> sliced_buffer \<Rightarrow> nat \<Rightarrow> nat \<Rightarrow> found \<Rightarrow> found option" where
  "header_at a as_iq word_count i r =
     (if word_count = 0 then None
      else case length_words a as_iq (i div word_count + 1) of None \<Rightarrow> None
        | Some ws \<Rightarrow>
            (case parseLengthHeader a ws of None \<Rightarrow> None
             | Some (header_valid, got_header) \<Rightarrow>
                 let back = 15 * word_count; start = i - back; size0 = length (fst as_iq);
                     packet_length = fst got_header
                 in if \<not> header_valid then
                      Some (r\<lparr>erase := (if start + 32 * word_count < size0 then start + 32 * word_count else start)\<rparr>)
                    else
                      let must_have = start + 32 * word_count + unat packet_length + (20 - unat packet_length mod 20)
                      in if must_have < size0 then
                           Some (r\<lparr>erase := must_have, found_length := packet_length, found_frame := fst as_iq ! start,
                             found_array_index := of_nat start, found_header := got_header, dout_valid := True\<rparr>)
                         else Some r))"

definition bitMangleHeader :: "air_packet \<Rightarrow> u32 list \<Rightarrow> u32 list option" where
  "bitMangleHeader a inp =
     (if modulation_schema a = FEEDBACK_MAPMOV_QPSK \<and> subcarrier_allocation a = MAPMOV_SUBCARRIER_320 then
        map_option_list (\<lambda>i. map_option bitMangleSliced
          (vec_get inp (unat (snd (TransformWords128QpskSc320 (of_nat i)))))) [0..<sliced_word_count a]
      else if modulation_schema a = FEEDBACK_MAPMOV_QPSK \<and> subcarrier_allocation a = MAPMOV_SUBCARRIER_64_LIN then
        map_option_list (\<lambda>i. map_option bitMangleSliced
          (vec_get inp (unat (snd (TransformWords128QpskSc64 (of_nat i)))))) [0..<sliced_word_count a]
      else Some [])"

text \<open>The duplex search, over the positions still to look at. The voted header is unpacked with the
  \<open>MacHeader\<close> object left by the checksum test.\<close>

fun duplex_search :: "air_packet \<Rightarrow> sliced_buffer \<Rightarrow> nat list \<Rightarrow> found \<Rightarrow> found option" where
  "duplex_search a q [] r = Some (r\<lparr>erase := length (fst q)\<rparr>)"
| "duplex_search a q (i # is) r =
     (if duplex_frames a = 0 then None
      else if fst q ! i mod duplex_frames a = duplex_start_frame a then
        (if length (snd q) < i + sliced_word_count a then None
         else case bitMangleHeader a (vslice i (sliced_word_count a) (snd q)) of None \<Rightarrow> None
           | Some header_array \<Rightarrow>
               (case mac_vote_header header_array of None \<Rightarrow> None
                | Some (voted, header_64) \<Rightarrow>
                    (case mac_valid_checksum_64 mac_header_new header_64 of (m, valid_checksum) \<Rightarrow>
                       if voted \<and> valid_checksum then
                         (case mac_unpack_header m (ucast (drop_bit 32 header_64)) (ucast header_64) of
                            (m', ok, len, seq_num, from_id, flags) \<Rightarrow>
                              Some (r\<lparr>dout_valid := True, found_length := len,
                                found_frame := fst q ! i mod duplex_frames a + 1,
                                found_array_index := of_nat (i + getEffectiveSlicedWordCount a) - 1,
                                found_header := mac_convert_air_header len (ucast seq_num) flags\<rparr>))
                       else duplex_search a q is r)))
      else duplex_search a q is r)"

definition demodulateSlicedHeaderDuplex :: "air_packet \<Rightarrow> sliced_buffer \<Rightarrow> found \<Rightarrow> found option" where
  "demodulateSlicedHeaderDuplex a q r = duplex_search a q [0..<length (fst q)] (r\<lparr>erase := 0\<rparr>)"

definition demodulateSlicedHeader :: "air_packet \<Rightarrow> sliced_buffer \<Rightarrow> found \<Rightarrow> found option" where
  "demodulateSlicedHeader a as_iq r0 =
     (if duplex_mode a then demodulateSlicedHeaderDuplex a as_iq r0
      else
        let r = r0\<lparr>erase := 0, dout_valid := False\<rparr>;
            word_count = getEffectiveSlicedWordCount a;
            early = word_count * 16 * 2; size1 = length (snd as_iq);
            read_max = (if early < size1 then size1 - early else 0)
        in case sync_search a as_iq word_count read_max 0 0 of None \<Rightarrow> None
           | Some (Some i) \<Rightarrow> header_at a as_iq word_count i r
           | Some None \<Rightarrow>
               Some (r\<lparr>erase := (if word_count * 64 < size1 then size1 - word_count * 64 else 0)\<rparr>))"

text \<open>The word transform of the payload.\<close>

definition payload_lookup :: "air_packet \<Rightarrow> u32 \<Rightarrow> u32" where
  "payload_lookup a j =
     (if modulation_schema a = FEEDBACK_MAPMOV_QAM16 then
        (if subcarrier_allocation a = MAPMOV_SUBCARRIER_128 then j div 16 * 16 + 15 - j mod 16
         else if subcarrier_allocation a = MAPMOV_SUBCARRIER_320 then j div 40 * 40 + 39 - j mod 40
         else let x = of_nat (sliced_word_count a) in j div x * x + (x - 1) - j mod x)
      else if modulation_schema a = FEEDBACK_MAPMOV_QPSK \<and> subcarrier_allocation a = MAPMOV_SUBCARRIER_320
        then snd (TransformWords128QpskSc320 j)
      else if modulation_schema a = FEEDBACK_MAPMOV_QPSK \<and> subcarrier_allocation a = MAPMOV_SUBCARRIER_128
        then snd (TransformWords128 j)
      else snd (TransformWordsGeneric1 (of_nat (sliced_word_count a)) j))"

definition deinterleave_stage :: "air_packet \<Rightarrow> u32 list \<Rightarrow> u32 list option" where
  "deinterleave_stage a ws =
     (if interleave_length a \<noteq> 0 then map_option (\<lambda>t. snd (deinterleave t ws)) (interleaver a) else Some ws)"

definition rs_decode_stage :: "schifra \<Rightarrow> air_packet \<Rightarrow> u32 list \<Rightarrow> u32 list option" where
  "rs_decode_stage S a ws =
     (if code_type a = AIRPACKET_CODE_REED_SOLOMON then
        (case reed_solomon a of None \<Rightarrow> None
         | Some rs \<Rightarrow> map_option snd (decode_message S ws [] (ap_code_length a) (ap_fec_length a) False))
      else Some ws)"

text \<open>The log of the last packets: their time in milliseconds and their length; a log of a second
  or more starts again.\<close>

definition push_data_rate :: "u64 \<Rightarrow> u32 \<Rightarrow> (u64 \<times> u32) list \<Rightarrow> (u64 \<times> u32) list" where
  "push_data_rate ms n data_rate =
     (let d = data_rate @ [(ms, n)] in if 1000 \<le> fst (last d) - fst (hd d) then [(ms, n)] else d)"

definition demodulateSliced ::
    "schifra \<Rightarrow> air_packet \<Rightarrow> sliced_buffer \<Rightarrow> u32 list \<Rightarrow> u32 \<Rightarrow> u32 \<Rightarrow> u64 \<Rightarrow> (u64 \<times> u32) list
      \<Rightarrow> (bool \<times> u32 list \<times> u32 \<times> (u64 \<times> u32) list) option" where
  "demodulateSliced S a as_iq dout force_detect_index force_detect_length ms data_rate =
     (let word_count = getEffectiveSlicedWordCount a in
      if word_count = 0 then None
      else
        let ofdm_frames2 = min (length (fst as_iq)) (length (snd as_iq)) div word_count;
            ofdm_frames = (if 16 < ofdm_frames2 then ofdm_frames2 - 16 else 0);
            start_at = force_detect_index; stop_at = start_at + force_detect_length
        in if ofdm_frames * word_count < unat stop_at then Some (False, dout, 0, data_rate)
           else case map_option_list (\<lambda>i. map_option (mangle_for (modulation_schema a))
                  (vec_get (snd as_iq) (unat (payload_lookup a (of_nat i))))) [unat start_at..<unat stop_at] of
                None \<Rightarrow> None
              | Some ws \<Rightarrow>
                  (case deinterleave_stage a (dout @ ws) of None \<Rightarrow> None
                   | Some ws' \<Rightarrow>
                       (case rs_decode_stage S a ws' of None \<Rightarrow> None
                        | Some dout' \<Rightarrow>
                            Some (True, dout', stop_at + (of_nat word_count - stop_at mod of_nat word_count),
                              push_data_rate ms (of_nat (length dout')) data_rate))))"

text \<open>The search of \<open>demodulateSlicedSimple\<close> writes the frame and the index into locals: the caller's
  \<open>found_frame\<close> and \<open>found_array_index\<close> keep what they held.\<close>

definition demodulateSlicedSimple ::
    "schifra \<Rightarrow> air_packet \<Rightarrow> sliced_buffer \<Rightarrow> u32 list \<Rightarrow> found \<Rightarrow> u64 \<Rightarrow> (u64 \<times> u32) list
      \<Rightarrow> (bool \<times> u32 list \<times> found \<times> (u64 \<times> u32) list) option" where
  "demodulateSlicedSimple S a sliced_words output_data r0 ms data_rate =
     (case demodulateSlicedHeader a sliced_words (r0\<lparr>dout_valid := False\<rparr>) of None \<Rightarrow> None
      | Some r \<Rightarrow>
          let found = r\<lparr>found_frame := found_frame r0, found_array_index := found_array_index r0\<rparr> in
          if dout_valid r then
            map_option (\<lambda>(again, out, junk, rate). (again, out, found, rate))
              (demodulateSliced S a sliced_words output_data
                (getForceDetectIndex a (found_array_index r)) (found_length r) ms data_rate)
          else Some (False, output_data, found, data_rate))"

section \<open>The search for the sync frames\<close>

definition sync_match :: "air_packet \<Rightarrow> sliced_buffer \<Rightarrow> nat \<Rightarrow> nat \<Rightarrow> nat \<Rightarrow> bool" where
  "sync_match a q n s f \<longleftrightarrow> (\<exists>c < sync_tol. sync_count a q n (f * n) (sync_message a ! s) = Some c)"

text \<open>Sixteen frames from \<open>k\<close> on match the sync message.\<close>

definition sync_at :: "air_packet \<Rightarrow> sliced_buffer \<Rightarrow> nat \<Rightarrow> nat \<Rightarrow> nat \<Rightarrow> bool" where
  "sync_at a q n read_max k \<longleftrightarrow> (k + 15) * n < read_max \<and> (\<forall>s < 16. sync_match a q n s (k + s))"

lemma sync_search_step:
  assumes "i < read_max" "s < length (sync_message a)" "sync_count a q n i (sync_message a ! s) = Some c"
  shows "sync_search a q n read_max i s =
    (if c < sync_tol then if s < 15 then sync_search a q n read_max (i + n) (s + 1) else Some (Some i)
     else sync_search a q n read_max (i - s * n + n) 0)"
  using assms by (subst sync_search.simps) simp

text \<open>Every frame that the loop looks at is in the buffer.\<close>

definition sync_readable :: "air_packet \<Rightarrow> sliced_buffer \<Rightarrow> nat \<Rightarrow> nat \<Rightarrow> bool" where
  "sync_readable a q n read_max \<longleftrightarrow> 0 < n \<and> length (sync_message a) = 16 \<and>
     (\<forall>f s. f * n < read_max \<and> s < 16 \<longrightarrow> sync_count a q n (f * n) (sync_message a ! s) \<noteq> None)"

definition search_result :: "air_packet \<Rightarrow> sliced_buffer \<Rightarrow> nat \<Rightarrow> nat \<Rightarrow> nat \<Rightarrow> nat option option \<Rightarrow> bool" where
  "search_result a q n read_max b r \<longleftrightarrow>
     r = Some None \<and> (\<forall>k \<ge> b. \<not> sync_at a q n read_max k) \<or>
     (\<exists>k \<ge> b. r = Some (Some ((k + 15) * n)) \<and> sync_at a q n read_max k \<and>
       (\<forall>j. b \<le> j \<and> j < k \<longrightarrow> \<not> sync_at a q n read_max j))"

lemma search_result_skip:
  "search_result a q n read_max (Suc b) r \<Longrightarrow> \<not> sync_at a q n read_max b \<Longrightarrow> search_result a q n read_max b r"
  unfolding search_result_def by (metis Suc_leI le_neq_implies_less less_imp_le_nat Suc_leD)

lemma sync_search_result:
  assumes "sync_readable a q n read_max"
    and "i = (b + s) * n" "s \<le> 15" "\<forall>t < s. sync_match a q n t (b + t)"
  shows "search_result a q n read_max b (sync_search a q n read_max i s)"
  using assms
proof (induction a q n read_max i s arbitrary: b rule: sync_search.induct)
  case (1 a q n read_max i s)
  note IH = "1.IH" and read = "1.prems"(1) and i = "1.prems"(2) and s = "1.prems"(3) and before = "1.prems"(4)
  have n: "0 < n" "length (sync_message a) = 16" using read by (simp_all add: sync_readable_def)
  show ?case
  proof (cases "i < read_max")
    case False
    have "\<not> sync_at a q n read_max k" if "b \<le> k" for k
    proof -
      have "(b + s) * n \<le> (k + 15) * n" using that s by (intro mult_le_mono1) simp
      with False i have "\<not> (k + 15) * n < read_max" by linarith
      then show ?thesis by (simp add: sync_at_def)
    qed
    moreover have "sync_search a q n read_max i s = Some None" using False by (subst sync_search.simps) simp
    ultimately show ?thesis by (simp add: search_result_def)
  next
    case True
    then obtain c where c: "sync_count a q n i (sync_message a ! s) = Some c"
      using read i s unfolding sync_readable_def by fastforce
    have get: "vec_get (sync_message a) s = Some (sync_message a ! s)" using s n by simp
    note step = sync_search_step [OF True _ c]
    show ?thesis
    proof (cases "c < sync_tol")
      case match: True
      then have "sync_match a q n s (b + s)" using c i by (auto simp: sync_match_def)
      then have upto: "\<forall>t < Suc s. sync_match a q n t (b + t)" using before by (auto simp: less_Suc_eq)
      show ?thesis
      proof (cases "s < 15")
        case less: True
        have "search_result a q n read_max b (sync_search a q n read_max (i + n) (s + 1))"
          using less upto i by (intro IH(1) [OF True get c match less read]) (simp_all add: algebra_simps)
        then show ?thesis using step match less s n by simp
      next
        case False
        then have "s = 15" using s by simp
        with upto True i have "sync_at a q n read_max b" by (simp add: sync_at_def)
        then show ?thesis using step match \<open>s = 15\<close> n i by (auto simp: search_result_def)
      qed
    next
      case miss: False
      then have "\<not> sync_match a q n s (b + s)" using c i by (simp add: sync_match_def)
      moreover have "s < 16" using s by simp
      ultimately have no: "\<not> sync_at a q n read_max b" unfolding sync_at_def by blast
      have "search_result a q n read_max (Suc b) (sync_search a q n read_max (i - s * n + n) 0)"
        by (intro IH(2) [OF True get c miss read]) (simp_all add: i add_mult_distrib)
      from this no have "search_result a q n read_max b (sync_search a q n read_max (i - s * n + n) 0)"
        by (rule search_result_skip)
      then show ?thesis using step miss s n by simp
    qed
  qed
qed

lemma sync_search_first:
  assumes "sync_readable a q n read_max"
  shows "sync_search a q n read_max 0 0 = Some (Some i) \<longleftrightarrow>
    (\<exists>k. i = (k + 15) * n \<and> sync_at a q n read_max k \<and> (\<forall>j < k. \<not> sync_at a q n read_max j))"
    and "sync_search a q n read_max 0 0 \<noteq> None"
proof -
  have r: "search_result a q n read_max 0 (sync_search a q n read_max 0 0)"
    by (rule sync_search_result [OF assms, of _ 0]) simp_all
  then show "sync_search a q n read_max 0 0 \<noteq> None" by (auto simp: search_result_def)
  have uniq: "k = k'" if "sync_at a q n read_max k" "\<forall>j < k. \<not> sync_at a q n read_max j"
    "sync_at a q n read_max k'" "\<forall>j < k'. \<not> sync_at a q n read_max j" for k k'
    using that by (metis linorder_neqE_nat)
  from r show "sync_search a q n read_max 0 0 = Some (Some i) \<longleftrightarrow>
    (\<exists>k. i = (k + 15) * n \<and> sync_at a q n read_max k \<and> (\<forall>j < k. \<not> sync_at a q n read_max j))"
    using uniq by (auto simp: search_result_def)
qed

section \<open>The vote on the length word\<close>

lemma count_votes_find:
  "sm_ok m \<Longrightarrow> sm_ok (fold (\<lambda>v mymap. case sm_find v mymap of
       None \<Rightarrow> sm_insert v 1 mymap | Some n \<Rightarrow> sm_assign v (n + 1) mymap) r m) \<and>
   (\<forall>v. sm_find v (fold (\<lambda>v mymap. case sm_find v mymap of
       None \<Rightarrow> sm_insert v 1 mymap | Some n \<Rightarrow> sm_assign v (n + 1) mymap) r m) =
     (if v \<in> set r then Some (of_nat (count_list r v) + (case sm_find v m of None \<Rightarrow> 0 | Some n \<Rightarrow> n))
      else sm_find v m))" for m :: "(u32, u32) std_map"
proof (induction r arbitrary: m)
  case Nil
  then show ?case by simp
next
  case (Cons x r)
  let ?m = "case sm_find x m of None \<Rightarrow> sm_insert x 1 m | Some n \<Rightarrow> sm_assign x (n + 1) m"
  have ok: "sm_ok ?m" using Cons.prems by (auto split: option.split intro: sm_rules)
  have find: "sm_find v ?m = (if v = x then Some (1 + (case sm_find x m of None \<Rightarrow> 0 | Some n \<Rightarrow> n)) else sm_find v m)" for v
    using Cons.prems by (auto simp: sm_rules split: option.split)
  show ?case
    using Cons.IH [OF ok] by (auto simp: find split: option.split)
qed

lemma max_vote_fold:
  "fold (\<lambda>(k, n) (maxit, max_value). if max_value < n then (Some (k, n), n) else (maxit, max_value)) m (it, mx) =
    (it', mx') \<Longrightarrow> (\<forall>(k, n) \<in> set m. n \<le> mx') \<and> mx \<le> mx' \<and>
    (it' = it \<and> mx' = mx \<or> (\<exists>k. it' = Some (k, mx') \<and> (k, mx') \<in> set m \<and> mx < mx'))"
  for m :: "(u32, u32) std_map"
proof (induction m arbitrary: it mx)
  case Nil
  then show ?case by simp
next
  case (Cons e m)
  obtain k n where e: "e = (k, n)" by (cases e)
  show ?case
  proof (cases "mx < n")
    case True
    then have "fold (\<lambda>(k, n) (maxit, max_value). if max_value < n then (Some (k, n), n) else (maxit, max_value)) m
        (Some (k, n), n) = (it', mx')" using Cons.prems by (simp add: e)
    from Cons.IH [OF this] True show ?thesis by (auto simp: e)
  next
    case False
    then have "fold (\<lambda>(k, n) (maxit, max_value). if max_value < n then (Some (k, n), n) else (maxit, max_value)) m
        (it, mx) = (it', mx')" using Cons.prems by (simp add: e)
    from Cons.IH [OF this] False show ?thesis by (auto simp: e)
  qed
qed

lemma count_votes_mem:
  assumes "length r < 2 ^ 32"
  shows "(v, n) \<in> set (count_votes r) \<longleftrightarrow> v \<in> set r \<and> unat n = count_list r v"
proof -
  have c: "unat (of_nat (count_list r v) :: u32) = count_list r v"
    using assms count_le_length [of r v] by (intro unat_of_nat_u32) simp
  have "(v, n) \<in> set (count_votes r) \<longleftrightarrow> sm_find v (count_votes r) = Some n"
    using count_votes_find [of "[]" r] unfolding count_votes_def by (intro sm_find_mem [symmetric]) simp
  also have "\<dots> \<longleftrightarrow> v \<in> set r \<and> of_nat (count_list r v) = n"
    using count_votes_find [of "[]" r] by (auto simp: count_votes_def)
  also have "\<dots> \<longleftrightarrow> v \<in> set r \<and> unat n = count_list r v"
    using c by (auto simp: word_unat_eq_iff)
  finally show ?thesis .
qed

lemma parse_vote:
  assumes "0 < enabled_subcarriers a" "enabled_subcarriers a < 2 ^ 32" "length r = enabled_subcarriers a"
  shows "\<exists>w. parseLengthHeader a r = Some (enabled_subcarriers a div 2 < count_list r w,
      if enabled_subcarriers a div 2 < count_list r w then unpackHeader w else (0, 0, 0)) \<and>
    (\<forall>v. count_list r v \<le> count_list r w)"
proof -
  let ?m = "count_votes r" and ?half = "enabled_subcarriers a div 2"
  obtain it mx where f: "fold (\<lambda>(k, n) (maxit, max_value). if max_value < n then (Some (k, n), n) else (maxit, max_value)) ?m
      (None, 0) = (it, mx)" by (rule prod.exhaust)
  note max = max_vote_fold [OF f]
  have mem: "(v, n) \<in> set ?m \<longleftrightarrow> v \<in> set r \<and> unat n = count_list r v" for v n
    using assms by (intro count_votes_mem) simp
  obtain x where x: "x \<in> set r" using assms by (cases r) auto
  then have "(x, of_nat (count_list r x)) \<in> set ?m"
    using assms(2,3) count_le_length [of r x] by (simp add: mem unat_of_nat_u32)
  moreover have "0 < count_list r x" using x count_list_0_iff [of r x] by simp
  moreover have "unat (of_nat (count_list r x) :: u32) = count_list r x"
    using assms(2,3) count_le_length [of r x] by (intro unat_of_nat_u32) simp
  ultimately have "0 < mx" using max by (auto simp: word_less_nat_alt word_le_nat_alt)
  with max obtain w where w: "it = Some (w, mx)" "(w, mx) \<in> set ?m" by auto
  then have mx: "unat mx = count_list r w" by (simp add: mem)
  have most: "count_list r v \<le> count_list r w" for v
  proof (cases "v \<in> set r")
    case True
    have "unat (of_nat (count_list r v) :: u32) = count_list r v"
      using assms(2,3) count_le_length [of r v] by (intro unat_of_nat_u32) simp
    with True have "(v, of_nat (count_list r v)) \<in> set ?m" by (simp add: mem)
    with max have "of_nat (count_list r v) \<le> mx" by auto
    then show ?thesis
      using mx assms(2,3) count_le_length [of r v] by (simp add: word_le_nat_alt unat_of_nat_u32)
  next
    case False
    then show ?thesis by (simp add: count_list_0_iff)
  qed
  have "of_nat ?half < mx \<longleftrightarrow> ?half < count_list r w"
    using mx assms(2) by (simp add: word_less_nat_alt unat_of_nat_u32)
  then have "parseLengthHeader a r = Some (?half < count_list r w,
      if ?half < count_list r w then unpackHeader w else (0, 0, 0))"
    using assms(3) w(1) f by (simp add: parseLengthHeader_def max_vote_def)
  with most show ?thesis by blast
qed

section \<open>What the code promises\<close>

text \<open>
  Given one word per enabled subcarrier, \<open>parseLengthHeader\<close> accepts exactly the header that
  more than half of the subcarriers carry, whatever the others say, and rejects when there is none.
\<close>
lemma length_vote_majority:
  assumes "0 < enabled_subcarriers a" and "enabled_subcarriers a < 2 ^ 32" and "length r = enabled_subcarriers a"
  shows "(\<exists>b h. parseLengthHeader a r = Some (b, h)) \<and>
    (parseLengthHeader a r = Some (True, h) \<longleftrightarrow>
      (\<exists>w. enabled_subcarriers a div 2 < count_list r w \<and> h = unpackHeader w))"
proof -
  obtain w where w: "parseLengthHeader a r = Some (enabled_subcarriers a div 2 < count_list r w,
      if enabled_subcarriers a div 2 < count_list r w then unpackHeader w else (0, 0, 0))"
    and most: "\<forall>v. count_list r v \<le> count_list r w"
    using parse_vote [OF assms] by blast
  have "v = w" if "enabled_subcarriers a div 2 < count_list r v" for v
  proof (rule ccontr)
    assume "v \<noteq> w"
    from count_list_two [OF this, of r] most that assms(3) show False
      using spec [OF most, of v] by linarith
  qed
  moreover have "enabled_subcarriers a div 2 < count_list r w" if "enabled_subcarriers a div 2 < count_list r v" for v
    using that spec [OF most, of v] by linarith
  ultimately have "(\<exists>v. enabled_subcarriers a div 2 < count_list r v \<and> h = unpackHeader v) \<longleftrightarrow>
      enabled_subcarriers a div 2 < count_list r w \<and> h = unpackHeader w" by blast
  moreover have "\<exists>b h. parseLengthHeader a r = Some (b, h)" unfolding w by blast
  ultimately show ?thesis unfolding w by (cases "enabled_subcarriers a div 2 < count_list r w") auto
qed

theorem length_vote_majority_witness:
  "\<exists>a0 a. AirPacket 100 1 = Some a0 \<and> setTestDefaults a0 = Some a \<and>
    parseLengthHeader a (replicate 63 0 @ replicate 65 0x12300045) = Some (True, (0x45, 0x23, 1))"
proof -
  let ?r = "replicate 63 0 @ replicate 65 (0x12300045 :: u32)"
  obtain a0 where a0: "AirPacket 100 1 = Some a0" using AirPacket_ok [of 100 1] by auto
  obtain m where "setTestDefaults a0 = Some (settings_did_change ((set_modulation_schema FEEDBACK_MAPMOV_QPSK a0)
      \<lparr>enabled_subcarriers := 128, subcarrier_allocation := MAPMOV_SUBCARRIER_128, emulate_mapmov := m\<rparr>))"
    unfolding setTestDefaults_def using set_allocation_total [of MAPMOV_SUBCARRIER_128 128] by auto
  then obtain a where a: "setTestDefaults a0 = Some a" "enabled_subcarriers a = 128"
    by (simp add: settings_did_change_def setSyncMessage_def)
  define r where "r = ?r"
  have "count_list (replicate n y) x = (if x = y then n else 0)" for n and x y :: u32 by (induction n) auto
  then have "count_list ?r 0x12300045 = 65" by (simp only: count_list_append) simp
  moreover have "unpackHeader 0x12300045 = (0x45, 0x23, 1)" by (simp add: unpackHeader_def)
  moreover have "length ?r = 128" by (simp only: length_append length_replicate)
  ultimately have r: "enabled_subcarriers a div 2 < count_list r 0x12300045" "(0x45, 0x23, 1) = unpackHeader 0x12300045"
    "length r = enabled_subcarriers a" unfolding r_def using a(2) by simp_all
  have "0 < enabled_subcarriers a" "enabled_subcarriers a < 2 ^ 32" using a(2) by simp_all
  from length_vote_majority [OF this r(3), of "(0x45, 0x23, 1)"] r(1,2)
  have "parseLengthHeader a r = Some (True, (0x45, 0x23, 1))" by blast
  with a0 a(1) show ?thesis unfolding r_def by blast
qed

end
