(* ===== verification/Air_Link.thy ===== *)
theory Air_Link
  imports Air_Inbound
begin

text \<open>
  The two ends together. A message goes through \<open>transform\<close>, over the emulated air and back
  through \<open>demodulateSlicedSimple\<close>. The lemmas follow the receiver: what the air does to the words
  of a frame, what a frame of equal words counts as, where the search stops, what the vote reads,
  and that the two coding stages undo each other (\<open>codec_chain\<close>).
\<close>

section \<open>Frames on the air\<close>

definition frame_rev :: "nat \<Rightarrow> u32 list \<Rightarrow> u32 list" where
  "frame_rev w ws = concat (map rev (chunks w ws))"

lemma frame_rev_vslices:
  "0 < w \<Longrightarrow> length ws = k * w \<Longrightarrow> frame_rev w ws = concat (map (\<lambda>i. rev (vslice (i * w) w ws)) [0..<k])"
  by (simp add: frame_rev_def chunks_vslices o_def)

lemma length_frame_rev:
  assumes "0 < w" "length ws = k * w"
  shows "length (frame_rev w ws) = length ws"
proof -
  have "length (frame_rev w ws) = length (concat (chunks w ws))"
    unfolding frame_rev_def by (simp add: length_concat o_def)
  then show ?thesis using assms(1) by simp
qed

lemma nth_frame_rev:
  assumes "0 < w" "length ws = k * w" "f < k" "j < w"
  shows "frame_rev w ws ! (f * w + j) = ws ! (f * w + (w - 1 - j))"
proof -
  have le: "f * w + w \<le> length ws"
  proof -
    have "Suc f * w \<le> k * w" using assms(3) by (intro mult_le_mono1) simp
    then show ?thesis using assms(2) by simp
  qed
  have full: "length (vslice (i * w) w ws) = w" if "i < k" for i
  proof -
    have "Suc i * w \<le> k * w" using that by (intro mult_le_mono1) simp
    then show ?thesis using assms(2) by (intro vslice_in) simp
  qed
  let ?cs = "map (\<lambda>i. rev (vslice (i * w) w ws)) [0..<k]"
  have "vslice (f * w) w (frame_rev w ws) = rev (vslice (f * w) w ws)"
    unfolding frame_rev_vslices [OF assms(1,2)] using assms(3) full by (subst vslice_concat) auto
  moreover have "vslice (f * w) w (frame_rev w ws) ! j = frame_rev w ws ! (f * w + j)"
    using assms(4) le by (intro nth_vslice) (simp_all add: length_frame_rev [OF assms(1,2)])
  moreover have "rev (vslice (f * w) w ws) ! j = vslice (f * w) w ws ! (w - 1 - j)"
    using assms(4) full [OF assms(3)] by (simp add: rev_nth)
  moreover have "vslice (f * w) w ws ! (w - 1 - j) = ws ! (f * w + (w - 1 - j))"
    using assms(4) le by (intro nth_vslice) simp_all
  ultimately show ?thesis by simp
qed

text \<open>The two modes the header search and the emulator both support.\<close>

definition qpsk_mode :: "air_packet \<Rightarrow> nat \<Rightarrow> bool" where
  "qpsk_mode a w \<longleftrightarrow> modulation_schema a = FEEDBACK_MAPMOV_QPSK \<and> \<not> duplex_mode a \<and>
     (subcarrier_allocation a = MAPMOV_SUBCARRIER_128 \<and> w = 8 \<or> subcarrier_allocation a = MAPMOV_SUBCARRIER_320 \<and> w = 20) \<and>
     sliced_word_count a = w \<and> enabled_subcarriers a = 16 * w \<and> bits_per_subcarrier a = 2 \<and>
     sync_message a = sync_frames"

lemma frame_lookup:
  assumes "w = 8 \<and> t = TransformWords128 \<or> w = 20 \<and> t = TransformWords128QpskSc320"
    and "j < w" "f * w + w \<le> 2 ^ 32"
  shows "unat (snd (t (of_nat (f * w + j)))) = f * w + (w - 1 - j)"
proof -
  have i: "unat (of_nat (f * w + j) :: u32) = f * w + j"
    using assms(2,3) by (intro unat_of_nat_u32) simp
  have d: "(f * w + j) div w = f" "(f * w + j) mod w = j" using assms(2) by simp_all
  from assms(1) show ?thesis
  proof
    assume "w = 8 \<and> t = TransformWords128"
    then show ?thesis using qpsk128.t_reverses [of "of_nat (f * w + j)"] i d assms(3) by (simp del: of_nat_add of_nat_mult)
  next
    assume "w = 20 \<and> t = TransformWords128QpskSc320"
    then show ?thesis using qpsk320.t_reverses [of "of_nat (f * w + j)"] i d assms(3) by (simp del: of_nat_add of_nat_mult)
  qed
qed

lemma fold_add_const: "fold (\<lambda>j c. c + v) xs s = s + length xs * (v :: nat)"
  by (induction xs arbitrary: s) simp_all

text \<open>The place the helper looks at for the \<open>j\<close>-th word of frame \<open>f\<close>.\<close>

definition sync_lookup :: "air_packet \<Rightarrow> nat \<Rightarrow> nat \<Rightarrow> nat \<Rightarrow> nat" where
  "sync_lookup a w f j = (if subcarrier_allocation a = MAPMOV_SUBCARRIER_128 then f * w + (w - 1 - j) else f * w + j)"

lemma sync_count_eq:
  assumes "qpsk_mode a w" "f * w + w \<le> length (snd q)" "length (snd q) \<le> 2 ^ 32"
  shows "sync_count a q w (f * w) sync = Some (fold (\<lambda>j c. c + count_bit_set (sync XOR bitMangleSliced
    (snd q ! sync_lookup a w f j))) [0..<w] 0)"
proof (cases "subcarrier_allocation a = MAPMOV_SUBCARRIER_128")
  case True
  then have w: "w = 8" "modulation_schema a = FEEDBACK_MAPMOV_QPSK" using assms(1) by (auto simp: qpsk_mode_def)
  have look: "unat (snd (TransformWords128 (of_nat (f * w + j)))) = f * w + (w - 1 - j)" if "j < w" for j
    using w(1) assms(2,3) that by (intro frame_lookup) auto
  have "fold_option (\<lambda>j count_set. let lookup_i = unat (snd (TransformWords128 (of_nat (f * w + j))))
       in map_option (\<lambda>v. count_set + count_bit_set (sync XOR mangle_for FEEDBACK_MAPMOV_QPSK v)) (vec_get (snd q) lookup_i))
     [0..<w] 0 = Some (fold (\<lambda>j c. c + count_bit_set (sync XOR bitMangleSliced (snd q ! sync_lookup a w f j))) [0..<w] 0)"
    using look assms(2) True by (intro fold_option_Some) (simp add: Let_def sync_lookup_def mangle_for_def del: of_nat_add of_nat_mult)
  then show ?thesis
    using True w(2) by (simp add: sync_count_def demodulateSlicedHeaderHelper_def del: of_nat_add of_nat_mult)
next
  case False
  then have m: "subcarrier_allocation a = MAPMOV_SUBCARRIER_320" "modulation_schema a = FEEDBACK_MAPMOV_QPSK"
    using assms(1) by (auto simp: qpsk_mode_def)
  have "fold_option (\<lambda>j count_set.
       map_option (\<lambda>v. count_set + count_bit_set (sync XOR mangle_for FEEDBACK_MAPMOV_QPSK v)) (vec_get (snd q) (f * w + j)))
     [0..<w] 0 = Some (fold (\<lambda>j c. c + count_bit_set (sync XOR bitMangleSliced (snd q ! sync_lookup a w f j))) [0..<w] 0)"
    using assms(2) m(1) by (intro fold_option_Some) (simp add: sync_lookup_def mangle_for_def)
  then show ?thesis
    using m by (simp add: sync_count_def demodulateSlicedHeaderHelperUntransformed_def)
qed

lemma sync_count_const:
  assumes "qpsk_mode a w" "f * w + w \<le> length (snd q)" "length (snd q) \<le> 2 ^ 32"
    and "\<And>j. j < w \<Longrightarrow> snd q ! (f * w + j) = bitMangleSliced c"
  shows "sync_count a q w (f * w) sync = Some (w * count_bit_set (sync XOR c))"
proof -
  have "snd q ! sync_lookup a w f j = bitMangleSliced c" if "j < w" for j
    using assms(4) [of j] assms(4) [of "w - 1 - j"] that by (simp add: sync_lookup_def)
  then have "fold (\<lambda>j n. n + count_bit_set (sync XOR bitMangleSliced (snd q ! sync_lookup a w f j))) [0..<w] 0 =
      fold (\<lambda>j n. n + count_bit_set (sync XOR c)) [0..<w] 0"
    by (intro fold_cong) auto
  then show ?thesis
    unfolding sync_count_eq [OF assms(1-3)] by (simp add: fold_add_const)
qed

lemma sync_readable_mode:
  assumes "qpsk_mode a w" "length (snd q) = k * w" "length (snd q) \<le> 2 ^ 32" "read_max \<le> length (snd q)"
  shows "sync_readable a q w read_max"
  unfolding sync_readable_def
proof (intro conjI allI impI)
  show "0 < w" "length (sync_message a) = 16" using assms(1) by (auto simp: qpsk_mode_def sync_frames_def)
  fix f s :: nat
  assume "f * w < read_max \<and> s < 16"
  then have "f < k" using assms(2,4) by (metis dual_order.strict_trans1 mult_less_cancel2)
  then have "Suc f * w \<le> k * w" by (intro mult_le_mono1) simp
  then show "sync_count a q w (f * w) (sync_message a ! s) \<noteq> None"
    using sync_count_eq [OF assms(1) _ assms(3)] assms(2) by simp
qed

section \<open>A packet in the stream\<close>

text \<open>Idle frames, the sync frames, the length frames, the payload and fill.\<close>

definition packet_stream :: "nat \<Rightarrow> nat \<Rightarrow> u32 \<Rightarrow> u32 list \<Rightarrow> nat \<Rightarrow> u32 list" where
  "packet_stream w k hw payload t = replicate (k * w) 0 @ new_subcarrier_data_sync [] 0xBEEFBABE (16 * w) @
     new_subcarrier_data_sync [] hw (16 * w) @ payload @ replicate t 0"

lemma length_packet_stream: "length (packet_stream w k hw payload t) = (k + 32) * w + length payload + t"
  by (simp add: packet_stream_def length_data_sync algebra_simps)

lemma sync_sent: "map (new_sync_frame 0xBEEFBABE) frame_shifts = sync_frames"
  by code_simp

lemma sync_sent_nth: "s < 16 \<Longrightarrow> new_sync_frame 0xBEEFBABE (30 - 2 * s) = sync_frames ! s"
  unfolding sync_sent [symmetric] by (simp add: nth_frame_shifts)

lemma stream_idle: "f < k \<Longrightarrow> j < w \<Longrightarrow> packet_stream w k hw payload t ! (f * w + j) = 0"
proof -
  assume "f < k" "j < w"
  then have "f * w + j < Suc f * w" "Suc f * w \<le> k * w" by (simp, intro mult_le_mono1) simp
  then have "f * w + j < k * w" by linarith
  then show ?thesis by (simp add: packet_stream_def nth_append)
qed

lemma frame_offset: "s < n \<Longrightarrow> j < w \<Longrightarrow> s * w + j < n * (w :: nat)"
proof -
  assume "s < n" "j < w"
  then have "s * w + j < Suc s * w" "Suc s * w \<le> n * w" by (simp, intro mult_le_mono1) simp
  then show ?thesis by linarith
qed

lemma stream_sync:
  assumes "s < 16" "j < w"
  shows "packet_stream w k hw payload t ! ((k + s) * w + j) = sync_frames ! s"
proof -
  have "(k + s) * w + j = k * w + (s * w + j)" by (simp add: algebra_simps)
  moreover have "s * w + j < length (new_subcarrier_data_sync [] 0xBEEFBABE (16 * w))"
    using frame_offset [OF assms] by (simp add: length_data_sync)
  ultimately show ?thesis
    using nth_data_sync [where k = s and c = j and sc = "16 * w" and sync = "0xBEEFBABE"] assms sync_sent_nth [OF assms(1)]
    by (simp add: packet_stream_def nth_append)
qed

lemma stream_length_word:
  assumes "s < 16" "j < w"
  shows "packet_stream w k hw payload t ! ((k + 16 + s) * w + j) = new_sync_frame hw (30 - 2 * s)"
proof -
  have "(k + 16 + s) * w + j = k * w + (16 * w + (s * w + j))" by (simp add: algebra_simps)
  moreover have "s * w + j < length (new_subcarrier_data_sync [] hw (16 * w))"
    using frame_offset [OF assms] by (simp add: length_data_sync)
  ultimately show ?thesis
    using nth_data_sync [where k = s and c = j and sc = "16 * w" and sync = hw] assms
    by (simp add: packet_stream_def nth_append length_data_sync)
qed

lemma stream_payload:
  assumes "i < length payload"
  shows "packet_stream w k hw payload t ! ((k + 32) * w + i) = payload ! i"
proof -
  have "(k + 32) * w + i = k * w + (16 * w + (16 * w + i))" by (simp add: algebra_simps)
  then show ?thesis using assms by (simp add: packet_stream_def nth_append length_data_sync)
qed

text \<open>What the receiver has of it.\<close>

definition received :: "nat \<Rightarrow> u32 list \<Rightarrow> u32 list" where
  "received w stream = map bitMangleSliced (frame_rev w stream)"

lemma nth_received:
  assumes "0 < w" "length stream = n * w" "f < n" "j < w"
  shows "received w stream ! (f * w + j) = bitMangleSliced (stream ! (f * w + (w - 1 - j)))"
proof -
  have "f * w + j < length (frame_rev w stream)"
    using frame_offset [OF assms(3,4)] by (simp add: length_frame_rev [OF assms(1,2)] assms(2))
  then show ?thesis using nth_frame_rev [OF assms] by (simp add: received_def)
qed

lemma length_received: "0 < w \<Longrightarrow> length stream = n * w \<Longrightarrow> length (received w stream) = n * w"
  by (simp add: received_def length_frame_rev)

section \<open>The receiver finds the packet\<close>

lemma w_pos: "qpsk_mode a w \<Longrightarrow> 8 \<le> w \<and> getEffectiveSlicedWordCount a = w \<and> \<not> duplex_mode a"
  by (auto simp: qpsk_mode_def getEffectiveSlicedWordCount_def)

text \<open>A frame of equal words counts the same in any order.\<close>

lemma received_frame_count:
  assumes "qpsk_mode a w" "length stream = n * w" "n * w \<le> 2 ^ 32" "f < n"
    and "\<And>j. j < w \<Longrightarrow> stream ! (f * w + j) = c"
  shows "sync_count a (row0, received w stream) w (f * w) sync = Some (w * count_bit_set (sync XOR c))"
proof (rule sync_count_const [OF assms(1)])
  have w: "0 < w" using w_pos [OF assms(1)] by simp
  have "Suc f * w \<le> n * w" using assms(4) by (intro mult_le_mono1) simp
  then show "f * w + w \<le> length (snd (row0, received w stream))" by (simp add: length_received [OF w assms(2)])
  show "length (snd (row0, received w stream)) \<le> 2 ^ 32" using assms(3) by (simp add: length_received [OF w assms(2)])
  show "snd (row0, received w stream) ! (f * w + j) = bitMangleSliced c" if "j < w" for j
    using nth_received [OF w assms(2,4) that] assms(5) [of "w - 1 - j"] that by simp
qed

lemma idle_count: "count_bit_set (0xAAAAAAAA XOR 0) = 16"
  by code_simp

lemma count_zero: "count_bit_set 0 = 0"
  by code_simp

definition packet_sent :: "air_packet \<Rightarrow> nat \<Rightarrow> nat \<Rightarrow> u32 \<Rightarrow> u32 list \<Rightarrow> nat \<Rightarrow> nat \<Rightarrow> bool" where
  "packet_sent a w k hw payload t n \<longleftrightarrow> qpsk_mode a w \<and> length (packet_stream w k hw payload t) = n * w \<and>
     n * w \<le> 2 ^ 31 \<and> 16 * w \<le> t \<and> unpackHeader hw = (of_nat (length payload), snd (unpackHeader hw)) \<and>
     length payload < 2 ^ 20"

lemma packet_sentD:
  assumes "packet_sent a w k hw payload t n"
  shows "qpsk_mode a w" "8 \<le> w" "0 < w" "length (packet_stream w k hw payload t) = n * w" "n * w \<le> 2 ^ 32"
    "n * w \<le> 2 ^ 31" "k + 48 \<le> n" "n * w = (k + 32) * w + length payload + t" "16 * w \<le> t"
    "fst (unpackHeader hw) = of_nat (length payload)" "length payload < 2 ^ 20"
    "getEffectiveSlicedWordCount a = w" "\<not> duplex_mode a"
proof -
  show mode: "qpsk_mode a w" and len: "length (packet_stream w k hw payload t) = n * w" and n: "n * w \<le> 2 ^ 31"
    and fill: "16 * w \<le> t" and "length payload < 2 ^ 20"
    using assms by (simp_all add: packet_sent_def)
  show w: "8 \<le> w" and "getEffectiveSlicedWordCount a = w" "\<not> duplex_mode a" using w_pos [OF mode] by simp_all
  show "0 < w" "n * w \<le> 2 ^ 32" using w n by simp_all
  show eq: "n * w = (k + 32) * w + length payload + t" using len by (simp add: length_packet_stream)
  have "(k + 48) * w \<le> n * w" unfolding eq using fill by (simp add: add_mult_distrib)
  then show "k + 48 \<le> n" using w by simp
  show "fst (unpackHeader hw) = of_nat (length payload)" using assms by (metis packet_sent_def fst_conv)
qed

lemma sync_position:
  fixes row0 :: "u32 list"
  assumes "packet_sent a w k hw payload t n"
  defines "q \<equiv> (row0, received w (packet_stream w k hw payload t))"
  shows "sync_search a q w (n * w - w * 16 * 2) 0 0 = Some (Some ((k + 15) * w))"
proof -
  note d = packet_sentD [OF assms(1)]
  let ?rm = "n * w - w * 16 * 2"
  have sync: "sync_message a = sync_frames" using d(1) by (simp add: qpsk_mode_def)
  have match: "sync_match a q w s (k + s)" if "s < 16" for s
  proof -
    have "sync_count a q w ((k + s) * w) (sync_frames ! s) = Some (w * count_bit_set (sync_frames ! s XOR sync_frames ! s))"
      unfolding q_def using d(7) that by (intro received_frame_count [OF d(1,4,5)] stream_sync) simp_all
    then show ?thesis by (simp add: sync_match_def sync count_zero)
  qed
  have "(k + 15) * w < ?rm"
  proof -
    have "(k + 48) * w \<le> n * w" using d(7) by (rule mult_le_mono1)
    then show ?thesis using d(3) by (simp add: add_mult_distrib)
  qed
  then have here: "sync_at a q w ?rm k" using match by (simp add: sync_at_def)
  have "\<not> sync_at a q w ?rm f" if "f < k" for f
  proof -
    have "sync_count a q w (f * w) (sync_frames ! 0) = Some (w * count_bit_set (sync_frames ! 0 XOR 0))"
      unfolding q_def using d(7) that by (intro received_frame_count [OF d(1,4,5)] stream_idle) simp_all
    then have "sync_count a q w (f * w) (sync_frames ! 0) = Some (w * 16)"
      using idle_count by (simp add: sync_frames_def)
    then have "\<not> sync_match a q w 0 (f + 0)" using d(2) by (simp add: sync_match_def sync)
    then show ?thesis unfolding sync_at_def by (metis zero_less_numeral)
  qed
  moreover have "sync_readable a q w ?rm"
    using d(5) length_received [OF d(3,4)] by (intro sync_readable_mode [OF d(1), of q n]) (simp_all add: q_def)
  ultimately show ?thesis using here sync_search_first(1) [of a q w ?rm] by blast
qed

lemma length_word_read:
  assumes "packet_sent a w k hw payload t n" "j < 16 * w"
  shows "extract_vertical_from_sliced (received w (packet_stream w k hw payload t)) j (k + 16) (16 * w) = Some hw"
  unfolding extract_vertical_from_sliced_def
proof (rule vertical_word [where mangle = bitMangleSliced])
  note d = packet_sentD [OF assms(1)]
  fix s c :: nat
  assume s: "s < 16" "c < 16 * w div 16"
  then have c: "c < w" and f: "k + 16 + s < n" using d(7) by simp_all
  have "(k + 16 + s) * w + c < n * w" using frame_offset [OF f c] .
  moreover have "received w (packet_stream w k hw payload t) ! ((k + 16 + s) * w + c) =
      bitMangleSliced (new_sync_frame hw (30 - 2 * s))"
    using nth_received [OF d(3,4) f c] stream_length_word [of s "w - 1 - c" w k hw payload t] s(1) c by simp
  ultimately show "(k + 16 + s) * (16 * w div 16) + c < length (received w (packet_stream w k hw payload t)) \<and>
      received w (packet_stream w k hw payload t) ! ((k + 16 + s) * (16 * w div 16) + c) =
      bitMangleSliced (new_sync_frame hw (30 - 2 * s))"
    by (simp add: length_received [OF d(3,4)])
next
  show "j div 16 < 16 * w div 16" using assms(2) by (simp add: div_less_iff_less_mult mult.commute)
qed (auto simp: bit_bitMangleSliced)

lemma unanimous_vote:
  assumes "0 < enabled_subcarriers a" "enabled_subcarriers a < 2 ^ 32"
  shows "parseLengthHeader a (replicate (enabled_subcarriers a) hw) = Some (True, unpackHeader hw)"
proof -
  let ?r = "replicate (enabled_subcarriers a) hw"
  obtain v where v: "parseLengthHeader a ?r = Some (enabled_subcarriers a div 2 < count_list ?r v,
      if enabled_subcarriers a div 2 < count_list ?r v then unpackHeader v else (0, 0, 0))"
    and most: "\<forall>x. count_list ?r x \<le> count_list ?r v"
    using parse_vote [OF assms, of ?r] by auto
  have "count_list (replicate m hw) x = (if x = hw then m else 0)" for m x by (induction m) auto
  moreover have "v = hw" using most assms(1) calculation by (metis le_zero_eq not_gr_zero)
  moreover have "enabled_subcarriers a div 2 < enabled_subcarriers a" using assms(1) by simp
  ultimately show ?thesis using v by simp
qed

lemma header_found:
  fixes row0 :: "u32 list"
  assumes "packet_sent a w k hw payload t n" "length row0 = n * w"
  defines "q \<equiv> (row0, received w (packet_stream w k hw payload t))"
  shows "\<exists>e. demodulateSlicedHeader a q r = Some (r\<lparr>erase := e, found_length := of_nat (length payload),
    found_frame := row0 ! (k * w), found_array_index := of_nat (k * w), found_header := unpackHeader hw, dout_valid := True\<rparr>)"
proof -
  note d = packet_sentD [OF assms(1)]
  have mode: "modulation_schema a = FEEDBACK_MAPMOV_QPSK" "enabled_subcarriers a = 16 * w" "vertical_argument a = 16 * w"
    "w \<le> 20"
    using d(1) by (auto simp: qpsk_mode_def vertical_argument_def)
  have div: "(k + 15) * w div w + 1 = k + 16" using d(3) by simp
  have "length_words a q (k + 16) = Some (map (\<lambda>j. hw) [0..<enabled_subcarriers a])"
    unfolding length_words_def using mode length_word_read [OF assms(1)]
    by (intro map_option_list_Some) (simp add: q_def)
  then have words: "length_words a q ((k + 15) * w div w + 1) = Some (replicate (enabled_subcarriers a) hw)"
    unfolding div by (simp add: map_replicate_const)
  have vote: "parseLengthHeader a (replicate (enabled_subcarriers a) hw) = Some (True, unpackHeader hw)"
    using mode d(3) by (intro unanimous_vote) simp_all
  have start: "(k + 15) * w - 15 * w = k * w" by (simp add: add_mult_distrib)
  have len: "unat (of_nat (length payload) :: u32) = length payload" using d(11) by (simp add: unat_of_nat_u32)
  have "20 - length payload mod 20 \<le> 20" by simp
  then have must: "k * w + 32 * w + length payload + (20 - length payload mod 20) < length (fst q)"
    using d(2,8,9) assms(2) by (simp add: q_def add_mult_distrib)
  have at: "header_at a q w ((k + 15) * w) r = Some (r\<lparr>erase := k * w + 32 * w + length payload + (20 - length payload mod 20),
      found_length := of_nat (length payload), found_frame := row0 ! (k * w), found_array_index := of_nat (k * w),
      found_header := unpackHeader hw, dout_valid := True\<rparr>)" for r
    unfolding header_at_def words vote option.case prod.case Let_def start d(10) len
    using must d(3) by (simp add: q_def)
  have size: "w * 16 * 2 < n * w" using d(3,7) by simp
  have "length (snd q) = n * w" using length_received [OF d(3,4)] by (simp add: q_def)
  with size sync_position [OF assms(1), of row0] at d(12,13) show ?thesis
    by (intro exI [of _ "k * w + 32 * w + length payload + (20 - length payload mod 20)"])
      (simp add: demodulateSlicedHeader_def Let_def q_def)
qed

section \<open>The payload\<close>

lemma payload_lookup_frame:
  assumes "qpsk_mode a w" "i < n * w" "n * w \<le> 2 ^ 32"
  shows "unat (payload_lookup a (of_nat i)) = i div w * w + (w - 1 - i mod w)"
proof -
  have w: "0 < w" using w_pos [OF assms(1)] by simp
  have f: "i div w < n" using assms(2) by (rule less_mult_imp_div_less)
  have "Suc (i div w) * w \<le> n * w" using f by (intro mult_le_mono1) simp
  then have "i div w * w + w \<le> 2 ^ 32" using assms(3) by simp
  moreover have "i mod w < w" using w by simp
  moreover have "i = i div w * w + i mod w" by simp
  ultimately have "\<And>t. w = 8 \<and> t = TransformWords128 \<or> w = 20 \<and> t = TransformWords128QpskSc320 \<Longrightarrow>
      unat (snd (t (of_nat i))) = i div w * w + (w - 1 - i mod w)"
    using frame_lookup by metis
  then show ?thesis using assms(1) by (auto simp: qpsk_mode_def payload_lookup_def)
qed

lemma payload_read:
  assumes "packet_sent a w k hw payload t n"
  shows "map_option_list (\<lambda>i. map_option (mangle_for (modulation_schema a))
      (vec_get (received w (packet_stream w k hw payload t)) (unat (payload_lookup a (of_nat i)))))
    [(k + 32) * w..<(k + 32) * w + length payload] = Some payload"
proof -
  note d = packet_sentD [OF assms]
  have "map_option (mangle_for (modulation_schema a)) (vec_get (received w (packet_stream w k hw payload t))
      (unat (payload_lookup a (of_nat i)))) = Some (packet_stream w k hw payload t ! i)"
    if "i \<in> set [(k + 32) * w..<(k + 32) * w + length payload]" for i
  proof -
    have i: "i < n * w" using that d(8) by simp
    let ?f = "i div w" and ?j = "i mod w"
    have j: "?j < w" "w - 1 - ?j < w" "w - 1 - (w - 1 - ?j) = ?j" using d(3) mod_less_divisor [OF d(3), of i] by auto
    have f: "?f < n" using i by (rule less_mult_imp_div_less)
    have "received w (packet_stream w k hw payload t) ! (?f * w + (w - 1 - ?j)) =
        bitMangleSliced (packet_stream w k hw payload t ! i)"
      using nth_received [OF d(3,4) f j(2)] j(3) by simp
    moreover have "?f * w + (w - 1 - ?j) < length (received w (packet_stream w k hw payload t))"
      using frame_offset [OF f j(2)] by (simp add: length_received [OF d(3,4)])
    ultimately show ?thesis
      using payload_lookup_frame [OF d(1) i d(5)] d(1) by (simp add: mangle_for_def qpsk_mode_def)
  qed
  then have "map_option_list (\<lambda>i. map_option (mangle_for (modulation_schema a))
      (vec_get (received w (packet_stream w k hw payload t)) (unat (payload_lookup a (of_nat i)))))
    [(k + 32) * w..<(k + 32) * w + length payload] =
    Some (map (\<lambda>i. packet_stream w k hw payload t ! i) [(k + 32) * w..<(k + 32) * w + length payload])"
    by (rule map_option_list_Some)
  also have "map (\<lambda>i. packet_stream w k hw payload t ! i) [(k + 32) * w..<(k + 32) * w + length payload] = payload"
    by (rule nth_equalityI) (simp_all add: stream_payload)
  finally show ?thesis .
qed

lemma payload_demodulated:
  assumes "packet_sent a w k hw payload t n" "length row0 = n * w"
    and "deinterleave_stage a payload = Some ws'" "rs_decode_stage S a ws' = Some ws"
  shows "\<exists>e rate'. demodulateSliced S a (row0, received w (packet_stream w k hw payload t)) []
    (getForceDetectIndex a (of_nat (k * w))) (of_nat (length payload)) ms rate = Some (True, ws, e, rate')"
proof -
  note d = packet_sentD [OF assms(1)]
  let ?q = "(row0, received w (packet_stream w k hw payload t))"
  have start: "getForceDetectIndex a (of_nat (k * w)) = of_nat ((k + 32) * w)"
    using d(1) by (auto simp: qpsk_mode_def getForceDetectIndex_def algebra_simps)
  have "(k + 32) * w + length payload < 2 ^ 32" using d(3,6,8,9) by simp
  then have un: "unat (of_nat ((k + 32) * w) :: u32) = (k + 32) * w"
    "unat (of_nat ((k + 32) * w) + of_nat (length payload) :: u32) = (k + 32) * w + length payload"
    by (simp_all add: unat_of_nat_u32 flip: of_nat_add del: of_nat_mult of_nat_add)
  have "min (length (fst ?q)) (length (snd ?q)) div w = n"
    using d(3) assms(2) by (simp add: length_received [OF d(3,4)])
  moreover have "(n - 16) * w = n * w - 16 * w" by (simp add: diff_mult_distrib)
  then have "\<not> (n - 16) * w < (k + 32) * w + length payload" using d(8,9) by simp
  ultimately show ?thesis
    unfolding demodulateSliced_def start un d(12) Let_def
    using d(2,7) assms(3,4) payload_read [OF assms(1)] by simp
qed

section \<open>The coding stages undo each other\<close>

text \<open>What the code relies on of the schifra library: every message of a block is encoded to a code
  word of 255 bytes, and decoding that code word gives the data bytes back.\<close>

definition schifra_ok :: "schifra \<Rightarrow> nat \<Rightarrow> bool" where
  "schifra_ok S fec \<longleftrightarrow> string_lengths S \<and>
     (\<forall>m. length m = 255 \<longrightarrow> (\<exists>b. sch_encode S fec m = Some b \<and> length b = 255 \<and> recovers S fec m b))"

text \<open>The messages that survive: with Reed-Solomon, not empty and not ending like the key when they
  fill the last block; without, not ending in the interleaver's key when that is used.\<close>

definition rs_ok :: "schifra \<Rightarrow> air_packet \<Rightarrow> u32 list \<Rightarrow> bool" where
  "rs_ok S a ws \<longleftrightarrow> codecs_ok a \<and>
     (if code_type a = AIRPACKET_CODE_REED_SOLOMON
      then schifra_ok S (ap_fec_length a) \<and> ws \<noteq> [] \<and>
        (length ws mod rs_words (ap_fec_length a) = 0 \<longrightarrow> last ws AND 0xFFFFFF00 \<noteq> RS_REMOVE_KEY)
      else interleave_length a \<noteq> 0 \<longrightarrow> ws = [] \<or> last ws \<noteq> INTERLEAVE_REMOVE_KEY)"

definition il_stage_ok :: "air_packet \<Rightarrow> u32 list \<Rightarrow> bool" where
  "il_stage_ok a ws \<longleftrightarrow> codecs_ok a \<and> (interleave_length a \<noteq> 0 \<longrightarrow> ws = [] \<or> last ws \<noteq> INTERLEAVE_REMOVE_KEY)"

lemma schifra_ok_encodes: "schifra_ok S fec \<Longrightarrow> encodes S fec xs i"
proof -
  assume S: "schifra_ok S fec"
  have "length (rs_message (rs_piece fec xs i)) = 255" by (simp add: rs_message_def)
  with S show ?thesis unfolding schifra_ok_def encodes_def by blast
qed

lemma rs_stage_inverse:
  assumes "rs_ok S a ws"
  shows "\<exists>enc. rs_stage S a ws = Some enc \<and> il_stage_ok a enc \<and> rs_decode_stage S a enc = Some ws"
proof (cases "code_type a = AIRPACKET_CODE_REED_SOLOMON")
  case True
  let ?fec = "ap_fec_length a"
  have valid: "settings_valid 255 ?fec" "ap_code_length a = 255" "reed_solomon a = Some (ReedSolomon 255 ?fec)"
    using assms True by (auto simp: rs_ok_def codecs_ok_def settings_valid_def)
  have S: "schifra_ok S ?fec" "ws \<noteq> []"
    "length ws mod rs_words ?fec = 0 \<longrightarrow> last ws AND 0xFFFFFF00 \<noteq> RS_REMOVE_KEY" using assms True by (simp_all add: rs_ok_def)
  obtain out where out: "encode_message S (ReedSolomon 255 ?fec) ws [] 255 ?fec False = Some (True, out)"
    "length out = 64 * rs_count ?fec ws" "out = [] \<or> drop_bit 24 (last out) = 0"
    "\<forall>i < rs_count ?fec ws. sch_encode S ?fec (rs_message (rs_piece ?fec (rs_padded ?fec ws) i)) = Some (rs_received out i)"
    using encode_message_eq [OF valid(1), of ws S False] schifra_ok_encodes [OF S(1)] by blast
  have "recovers S ?fec (rs_message (rs_piece ?fec (rs_padded ?fec ws) i)) (rs_received out i)" if "i < rs_count ?fec ws" for i
  proof -
    have "length (rs_message (rs_piece ?fec (rs_padded ?fec ws) i)) = 255" by (simp add: rs_message_def)
    then obtain b where "sch_encode S ?fec (rs_message (rs_piece ?fec (rs_padded ?fec ws) i)) = Some b"
      "recovers S ?fec (rs_message (rs_piece ?fec (rs_padded ?fec ws) i)) b"
      using S(1) unfolding schifra_ok_def by blast
    with out(4) that show ?thesis by simp
  qed
  then have "decode_message S out [] 255 ?fec False = Some (True, ws)"
    using S out(2) valid(1) by (intro decode_message_recovered) (simp_all add: schifra_ok_def)
  moreover have "drop_bit 24 INTERLEAVE_REMOVE_KEY \<noteq> 0" by simp
  then have "out = [] \<or> last out \<noteq> INTERLEAVE_REMOVE_KEY" using out(3) by metis
  ultimately show ?thesis
    using True valid out(1) assms
    by (intro exI [of _ out]) (simp add: rs_stage_def rs_decode_stage_def il_stage_ok_def rs_ok_def)
qed (use assms in \<open>simp add: rs_stage_def rs_decode_stage_def il_stage_ok_def rs_ok_def\<close>)

lemma interleave_stage_inverse:
  assumes "il_stage_ok a ws"
  shows "\<exists>out. interleave_stage a ws = Some out \<and> deinterleave_stage a out = Some ws"
proof (cases "interleave_length a = 0")
  case False
  then obtain c where c: "interleave_length a = Suc c" by (cases "interleave_length a") auto
  have "interleaver a = Some (Interleaver (Suc c))" using assms c by (simp add: il_stage_ok_def codecs_ok_def)
  moreover have "snd (deinterleave (Interleaver (Suc c)) (snd (interleave (Interleaver (Suc c)) ws))) = ws"
    using il.dec_enc [of ws c] assms c by (auto simp: il_stage_ok_def split: prod.splits if_splits)
  ultimately show ?thesis using c by (simp add: interleave_stage_def deinterleave_stage_def)
qed (simp add: interleave_stage_def deinterleave_stage_def)

interpretation coding: codec_chain "rs_ok S a" "\<lambda>ws. the (rs_stage S a ws)" "rs_decode_stage S a"
  "il_stage_ok a" "\<lambda>ws. the (interleave_stage a ws)" "deinterleave_stage a" for S a
proof unfold_locales
  fix ws
  show "rs_decode_stage S a (the (rs_stage S a ws)) = Some ws" if "rs_ok S a ws"
    using rs_stage_inverse [OF that] by auto
  show "deinterleave_stage a (the (interleave_stage a ws)) = Some ws" if "il_stage_ok a ws"
    using interleave_stage_inverse [OF that] by auto
  show "il_stage_ok a (the (rs_stage S a ws))" if "rs_ok S a ws"
    using rs_stage_inverse [OF that] by auto
qed

section \<open>Over the air\<close>

lemma qpsk_mode_reached:
  assumes "modes_ok a" "numbers_ok a" "modulation_schema a = FEEDBACK_MAPMOV_QPSK" "\<not> duplex_mode a"
    and "subcarrier_allocation a = MAPMOV_SUBCARRIER_128 \<or> subcarrier_allocation a = MAPMOV_SUBCARRIER_320"
  shows "qpsk_mode a (sliced_word_count a)"
  using assms by (auto simp: modes_ok_def numbers_ok_def qpsk_mode_def)

lemma air_received:
  assumes "qpsk_mode a w" "modes_ok a" "length ws = n * w"
  shows "\<exists>row0. emulateHiggsToHiggs a ws counter = Some (Some (row0, received w ws)) \<and> length row0 = n * w \<and>
    (\<forall>f < n. row0 ! (f * w) = counter + of_nat f)"
proof -
  have w: "0 < w" "sliced_word_count a = w" using assms(1) by (auto simp: qpsk_mode_def)
  have "symmetric_mode (subcarrier_allocation a)" "length (enabled_list (subcarrier_allocation a)) = 16 * w"
    using assms(1) enabled_counts by (auto simp: qpsk_mode_def symmetric_mode_def)
  then have air: "emulate_air (emulate_mapmov a) ws = Some (Some (received w ws))"
    unfolding received_def frame_rev_def using assms(2,3) w(1)
    by (intro emulate_air_eq [of _ w ws n]) (simp_all add: modes_ok_def)
  define rows where "rows = map (\<lambda>i. (replicate w 0)[0 := counter + of_nat i]) [0..<n]"
  have rows: "\<forall>r \<in> set rows. length r = w" by (auto simp: rows_def)
  have len: "length (concat rows) = n * w"
    using rows by (simp add: length_concat sum_list_triv rows_def o_def)
  have "concat rows ! (f * w) = counter + of_nat f" if "f < n" for f
  proof -
    have "vslice (f * w) w (concat rows) = rows ! f" using rows that by (intro vslice_concat) (simp_all add: rows_def)
    moreover have "vslice (f * w) w (concat rows) ! 0 = concat rows ! (f * w + 0)"
      using frame_offset [OF that w(1)] w(1) len by (intro nth_vslice) simp_all
    ultimately show ?thesis using that w(1) by (simp add: rows_def)
  qed
  moreover have "emulateHiggsToHiggs a ws counter = Some (Some (concat rows, received w ws))"
    using air w length_received [OF w(1) assms(3)] concat_vslices [of w "received w ws" n]
    by (simp add: emulateHiggsToHiggs_def format_rx_data_def Let_def rows_def mult.commute)
  ultimately show ?thesis using len by blast
qed

lemma packet_delivered:
  assumes "packet_sent a w k hw payload t n" "length row0 = n * w"
    and "deinterleave_stage a payload = Some ws'" "rs_decode_stage S a ws' = Some ws"
  shows "\<exists>r rate'. demodulateSlicedSimple S a (row0, received w (packet_stream w k hw payload t)) [] r0 ms rate =
    Some (True, ws, r, rate') \<and> found_header r = unpackHeader hw"
proof -
  let ?q = "(row0, received w (packet_stream w k hw payload t))"
  obtain e where "demodulateSlicedHeader a ?q (r0\<lparr>dout_valid := False\<rparr>) = Some ((r0\<lparr>dout_valid := False\<rparr>)
      \<lparr>erase := e, found_length := of_nat (length payload), found_frame := row0 ! (k * w),
       found_array_index := of_nat (k * w), found_header := unpackHeader hw, dout_valid := True\<rparr>)"
    using header_found [OF assms(1,2)] by blast
  moreover obtain e' rate' where "demodulateSliced S a ?q [] (getForceDetectIndex a (of_nat (k * w)))
      (of_nat (length payload)) ms rate = Some (True, ws, e', rate')"
    using payload_demodulated [OF assms] by blast
  ultimately show ?thesis by (simp add: demodulateSlicedSimple_def Let_def)
qed

section \<open>What the code promises\<close>

text \<open>A word transform stays in its block, so a lookup is less than a block beyond its place.\<close>

lemma transform_near:
  assumes "t = TransformWords128 \<or> t = TransformWords128Qam16" "i + 16 \<le> 2 ^ 32"
  shows "unat (snd (t (of_nat i))) < i + 16"
proof -
  have i: "unat (of_nat i :: u32) = i" using assms(2) by (intro unat_of_nat_u32) simp
  have blocks: "i div 8 * 8 + 8 \<le> i + 8" "i div 16 * 16 + 16 \<le> i + 16" by simp_all
  from assms(1) show ?thesis
  proof
    assume "t = TransformWords128"
    moreover have "i div 8 * 8 + 8 \<le> 2 ^ 32" using blocks(1) assms(2) by linarith
    ultimately have "unat (snd (t (of_nat i))) = i div 8 * 8 + (8 - 1 - i mod 8)"
      using qpsk128.t_reverses [of "of_nat i"] i by simp
    then show ?thesis using blocks(1) by linarith
  next
    assume "t = TransformWords128Qam16"
    moreover have "i div 16 * 16 + 16 \<le> 2 ^ 32" using blocks(2) assms(2) by linarith
    ultimately have "unat (snd (t (of_nat i))) = i div 16 * 16 + (16 - 1 - i mod 16)"
      using qam128.t_reverses [of "of_nat i"] i by simp
    then show ?thesis using blocks(2) by linarith
  qed
qed

lemma header_helpers_read:
  assumes "i + w + 16 \<le> length (snd q)" "length (snd q) \<le> 2 ^ 32"
  shows "t = TransformWords128 \<or> t = TransformWords128Qam16 \<Longrightarrow> demodulateSlicedHeaderHelper q t w i sync schema \<noteq> None"
    and "demodulateSlicedHeaderHelperUntransformed q w i sync schema \<noteq> None"
proof -
  have "vec_get (snd q) (i + j) = Some (snd q ! (i + j))" if "j < w" for j using assms(1) that by simp
  then show "demodulateSlicedHeaderHelperUntransformed q w i sync schema \<noteq> None"
    unfolding demodulateSlicedHeaderHelperUntransformed_def
    by (subst fold_option_Some [where g = "\<lambda>j n. n + count_bit_set (sync XOR mangle_for schema (snd q ! (i + j)))"]) simp_all
  assume t: "t = TransformWords128 \<or> t = TransformWords128Qam16"
  let ?l = "\<lambda>j. unat (snd (t (of_nat (i + j))))"
  have "vec_get (snd q) (?l j) = Some (snd q ! ?l j)" if "j < w" for j
    using transform_near [OF t, of "i + j"] assms that by simp
  then show "demodulateSlicedHeaderHelper q t w i sync schema \<noteq> None"
    unfolding demodulateSlicedHeaderHelper_def
    by (subst fold_option_Some [where g = "\<lambda>j n. n + count_bit_set (sync XOR mangle_for schema (snd q ! ?l j))"])
      (simp_all add: Let_def del: of_nat_add)
qed

lemma sync_readable_any:
  assumes "0 < w" "length (sync_message a) = 16" "length (snd q) \<le> 2 ^ 32" "read_max \<le> length (snd q) - 32 * w"
  shows "sync_readable a q w read_max"
  unfolding sync_readable_def
proof (intro conjI allI impI)
  fix f s :: nat
  assume f: "f * w < read_max \<and> s < 16"
  then have "f * w + w + 16 \<le> length (snd q)" using assms(1,4) by linarith
  from header_helpers_read [OF this assms(3)] show "sync_count a q w (f * w) (sync_message a ! s) \<noteq> None"
    by (simp add: sync_count_def Let_def)
qed (use assms in simp_all)

text \<open>
  C14. In every modulation and subcarrier allocation, on any buffer of at most $2^{32}$ words, noise
  included, the header search that is not the duplex one stops at the first frame from which sixteen
  frames in a row match the sync message within the tolerance (fewer than 45 wrong bits each, as the
  code counts them), and never reads outside the buffer: the rewind after a partial match misses no
  start. \<open>w\<close> is the number of words of a frame, and the bound of the search is that of
  \<open>demodulateSlicedHeader\<close>, which leaves 32 frames at the end.
\<close>
theorem sync_search_finds_first:
  assumes "w = getEffectiveSlicedWordCount a" and "0 < w" and "length (sync_message a) = 16"
    and "length (snd q) \<le> 2 ^ 32" and "read_max = (if w * 16 * 2 < length (snd q) then length (snd q) - w * 16 * 2 else 0)"
  shows "sync_search a q w read_max 0 0 \<noteq> None \<and>
    (sync_search a q w read_max 0 0 = Some (Some i) \<longleftrightarrow>
      (\<exists>f. i = (f + 15) * w \<and> sync_at a q w read_max f \<and> (\<forall>g < f. \<not> sync_at a q w read_max g)))"
proof -
  have "read_max \<le> length (snd q) - 32 * w" using assms(5) by (simp split: if_splits)
  then show ?thesis using sync_search_first [OF sync_readable_any [OF assms(2-4)]] by simp
qed

lemma test_defaults_mode:
  "\<exists>a0 a. AirPacket frames start_frame = Some a0 \<and> setTestDefaults a0 = Some a \<and> qpsk_mode a 8"
proof -
  obtain a0 where a0: "AirPacket frames start_frame = Some a0" using AirPacket_ok by blast
  then have d: "\<not> duplex_mode a0" by (auto simp: AirPacket_def)
  obtain m where "setTestDefaults a0 = Some (settings_did_change ((set_modulation_schema FEEDBACK_MAPMOV_QPSK a0)
      \<lparr>enabled_subcarriers := 128, subcarrier_allocation := MAPMOV_SUBCARRIER_128, emulate_mapmov := m\<rparr>))"
    unfolding setTestDefaults_def using set_allocation_total [of MAPMOV_SUBCARRIER_128 128] by auto
  with a0 d show ?thesis
    by (simp add: qpsk_mode_def settings_did_change_def setSyncMessage_def set_modulation_schema_def)
qed

theorem sync_search_finds_first_witness:
  "\<exists>a0 a. AirPacket 100 1 = Some a0 \<and> setTestDefaults a0 = Some a \<and>
    sync_search a ([], replicate 320 0) 8 64 0 0 \<noteq> None"
proof -
  obtain a0 a where a: "AirPacket 100 1 = Some a0" "setTestDefaults a0 = Some a" "qpsk_mode a 8"
    using test_defaults_mode by blast
  have "8 = getEffectiveSlicedWordCount a" "(0 :: nat) < 8" "length (sync_message a) = 16"
    using w_pos [OF a(3)] a(3) by (simp_all add: qpsk_mode_def sync_frames_def)
  moreover have "length (snd ([] :: u32 list, replicate 320 (0 :: u32))) \<le> 2 ^ 32"
    "64 = (if 8 * 16 * 2 < length (snd ([] :: u32 list, replicate 320 (0 :: u32)))
      then length (snd ([] :: u32 list, replicate 320 (0 :: u32))) - 8 * 16 * 2 else 0)" unfolding snd_conv length_replicate by simp_all
  ultimately have "sync_search a ([], replicate 320 0) 8 64 0 0 \<noteq> None"
    by (rule sync_search_finds_first [THEN conjunct1])
  with a show ?thesis by blast
qed

end
