(* ===== verification/Safe_Queue.thy ===== *)
theory Safe_Queue
  imports Modem_Prelude
begin

text \<open>
  \<open>SafeQueue\<close> and \<open>SafeQueueTracked\<close> (common/SafeQueue.hpp), the locked queues between
  the threads of the modem. The \<open>std::queue\<close> is the list of its elements, front first.

  Each member function is one definition on the queue. A member that would wait on the condition
  variable, or read the front of an empty queue, returns \<open>None\<close>. The second part models what
  the threads see: the lock makes the members atomic, so the program is a step relation
  \<open>sq_step\<close> over the queue, the threads asleep in \<open>c.wait\<close> and the threads that were
  notified but have not taken the lock again yet. The standard library lets a wait return without
  a notification; that is a step too.
\<close>

section \<open>The members of SafeQueue\<close>

definition enqueue :: "'a list \<Rightarrow> 'a \<Rightarrow> 'a list" where
  "enqueue q t = q @ [t]"

definition unsafeEnqueue :: "'a list \<Rightarrow> 'a \<Rightarrow> 'a list" where
  "unsafeEnqueue q t = q @ [t]"

definition enqueue_vec :: "'a list \<Rightarrow> 'a list \<Rightarrow> 'a list" where
  "enqueue_vec q vec = foldl (\<lambda>q e. q @ [e]) q vec"

fun dequeue :: "'a list \<Rightarrow> ('a \<times> 'a list) option" where
  "dequeue [] = None"
| "dequeue (val # q) = Some (val, q)"

fun peek :: "'a list \<Rightarrow> 'a option" where
  "peek [] = None"
| "peek (val # q) = Some val"

definition queue_size :: "'a list \<Rightarrow> nat" where
  "queue_size q = length q"

fun dump_loop :: "'a list \<Rightarrow> nat \<Rightarrow> nat \<times> 'a list" where
  "dump_loop [] dumped = (dumped, [])"
| "dump_loop (x # q) dumped = dump_loop q (dumped + 1)"

definition dump :: "'a list \<Rightarrow> nat \<times> 'a list" where
  "dump q = dump_loop q 0"

text \<open>The loop pops the copy and reads the front of the queue it copied.\<close>

fun tally_loop :: "'a list list \<Rightarrow> 'a list list \<Rightarrow> nat \<Rightarrow> nat" where
  "tally_loop q [] tally = tally"
| "tally_loop q (x # copy) tally = tally_loop q copy (tally + length (hd q))"

definition expensiveSizeAll :: "'a list list \<Rightarrow> nat" where
  "expensiveSizeAll q = tally_loop q q 0"

function get_loop :: "nat \<Rightarrow> nat \<Rightarrow> 'a list \<Rightarrow> 'a list \<Rightarrow> 'a list \<times> 'a list" where
  "get_loop num i out q =
     (if i < num \<and> q \<noteq> [] then get_loop num (i + 1) (out[i := hd q]) (tl q) else (out, q))"
  by pat_completeness auto
termination
  by (relation "measure (\<lambda>(num, i, out, q). length q)") auto

declare get_loop.simps [simp del]

text \<open>\<open>def\<close> is the element \<open>T()\<close> the vector of \<open>num\<close> elements starts with.\<close>

definition queue_get :: "'a \<Rightarrow> nat \<Rightarrow> 'a list \<Rightarrow> 'a list \<times> 'a list" where
  "queue_get def num q = get_loop num 0 (replicate num def) q"

section \<open>What the members do\<close>

lemma enqueue_vec_eq: "enqueue_vec q vec = q @ vec"
  by (induction vec arbitrary: q) (simp_all add: enqueue_vec_def)

lemma dequeue_eq: "dequeue q = (if q = [] then None else Some (hd q, tl q))"
  by (cases q) simp_all

lemma dequeue_None [simp]: "dequeue q = None \<longleftrightarrow> q = []"
  by (cases q) simp_all

lemma dequeue_Some: "dequeue q = Some (x, q') \<longleftrightarrow> q = x # q'"
  by (cases q) auto

lemma dump_loop_eq: "dump_loop q n = (n + length q, [])"
  by (induction q arbitrary: n) simp_all

lemma dump_eq: "dump q = (length q, [])"
  by (simp add: dump_def dump_loop_eq)

lemma tally_loop_eq: "tally_loop q copy n = n + length copy * length (hd q)"
  by (induction copy arbitrary: n) simp_all

lemma expensiveSizeAll_eq: "expensiveSizeAll q = length q * length (hd q)"
  by (simp add: expensiveSizeAll_def tally_loop_eq)

lemma get_loop_eq:
  "i \<le> num \<Longrightarrow> length out = num \<Longrightarrow>
    get_loop num i out q =
      (take i out @ take (num - i) q @ drop (i + length (take (num - i) q)) out, drop (num - i) q)"
proof (induction num i out q rule: get_loop.induct)
  case (1 num i out q)
  show ?case
  proof (cases "i < num \<and> q \<noteq> []")
    case True
    then obtain x q' where q: "q = x # q'" by (cases q) auto
    have suc: "num - i = Suc (num - (i + 1))" using True by arith
    have "take (i + 1) (out[i := x]) = take i out @ [x]"
      using True "1.prems" by (simp add: take_Suc_conv_app_nth)
    with True 1 show ?thesis by (subst get_loop.simps) (simp add: q suc)
  next
    case False
    with "1.prems" show ?thesis by (subst get_loop.simps) auto
  qed
qed

lemma queue_get_eq: "queue_get def num q = (vec_resize num def q, drop num q)"
proof -
  have "drop (min (length q) num) (replicate num def) = replicate (num - length q) def"
    by (simp add: min_def)
  then show ?thesis by (simp add: queue_get_def get_loop_eq vec_resize_def)
qed

text \<open>So two packets of one and two words count as two words, not three.\<close>

lemma expensiveSizeAll_wrong: "expensiveSizeAll [[a], [b, c]] = 2 \<and> sum_list (map length [[a], [b, c]]) = 3"
  by (simp add: expensiveSizeAll_eq)

section \<open>SafeQueueTracked\<close>

record ('t, 'y) tracked =
  tq :: "'t list"
  tq2 :: "'y list"

definition tracked_enqueue :: "('t, 'y) tracked \<Rightarrow> 't \<Rightarrow> 'y \<Rightarrow> ('t, 'y) tracked" where
  "tracked_enqueue s t y = s\<lparr>tq := tq s @ [t], tq2 := tq2 s @ [y]\<rparr>"

definition tracked_dequeue :: "('t, 'y) tracked \<Rightarrow> (('t \<times> 'y) \<times> ('t, 'y) tracked) option" where
  "tracked_dequeue s =
     (if tq s = [] \<or> tq2 s = [] then None
      else Some ((hd (tq s), hd (tq2 s)), s\<lparr>tq := tl (tq s), tq2 := tl (tq2 s)\<rparr>))"

definition tracked_size :: "('t, 'y) tracked \<Rightarrow> nat" where
  "tracked_size s = length (tq s)"

function tracked_get_loop ::
    "nat \<Rightarrow> nat \<Rightarrow> ('t \<times> 'y) list \<Rightarrow> ('t, 'y) tracked \<Rightarrow> ('t \<times> 'y) list \<times> ('t, 'y) tracked" where
  "tracked_get_loop num i out s =
     (if i < num \<and> tq s \<noteq> []
      then tracked_get_loop num (i + 1) (out[i := (hd (tq s), hd (tq2 s))])
             (s\<lparr>tq := tl (tq s), tq2 := tl (tq2 s)\<rparr>)
      else (out, s))"
  by pat_completeness auto
termination
  by (relation "measure (\<lambda>(num, i, out, s). length (tq s))") auto

declare tracked_get_loop.simps [simp del]

definition tracked_get :: "'t \<times> 'y \<Rightarrow> nat \<Rightarrow> ('t, 'y) tracked \<Rightarrow> ('t \<times> 'y) list \<times> ('t, 'y) tracked" where
  "tracked_get def num s = tracked_get_loop num 0 (replicate num def) s"

definition tracked_peek :: "('t, 'y) tracked \<Rightarrow> ('t \<times> 'y) option" where
  "tracked_peek s = (if tq s = [] \<or> tq2 s = [] then None else Some (hd (tq s), hd (tq2 s)))"

definition peekBack :: "('t, 'y) tracked \<Rightarrow> ('t \<times> 'y) option" where
  "peekBack s = (if tq s = [] \<or> tq2 s = [] then None else Some (last (tq s), last (tq2 s)))"

text \<open>
  The abstract queue is one queue of pairs; the two concrete queues are always equally long.
\<close>

definition tracked_ok :: "('t, 'y) tracked \<Rightarrow> bool" where
  "tracked_ok s \<longleftrightarrow> length (tq s) = length (tq2 s)"

definition tracked_abs :: "('t, 'y) tracked \<Rightarrow> ('t \<times> 'y) list" where
  "tracked_abs s = zip (tq s) (tq2 s)"

lemma tracked_enqueue_refines:
  "tracked_ok s \<Longrightarrow> tracked_ok (tracked_enqueue s t y) \<and>
    tracked_abs (tracked_enqueue s t y) = enqueue (tracked_abs s) (t, y)"
  by (simp add: tracked_ok_def tracked_abs_def tracked_enqueue_def enqueue_def)

lemma tracked_pop:
  "tracked_ok s \<Longrightarrow> tracked_ok (s\<lparr>tq := tl (tq s), tq2 := tl (tq2 s)\<rparr>) \<and>
    tracked_abs (s\<lparr>tq := tl (tq s), tq2 := tl (tq2 s)\<rparr>) = tl (tracked_abs s)"
  by (cases "tq s"; cases "tq2 s") (simp_all add: tracked_ok_def tracked_abs_def)

lemma tracked_empty: "tracked_ok s \<Longrightarrow> tracked_abs s = [] \<longleftrightarrow> tq s = []"
  by (auto simp: tracked_ok_def tracked_abs_def zip_eq_Nil_iff)

lemma tracked_front: "tracked_ok s \<Longrightarrow> tq s \<noteq> [] \<Longrightarrow> tq2 s \<noteq> [] \<and> hd (tracked_abs s) = (hd (tq s), hd (tq2 s))"
  by (cases "tq s"; cases "tq2 s") (simp_all add: tracked_ok_def tracked_abs_def)

lemma tracked_dequeue_refines:
  "tracked_ok s \<Longrightarrow> map_option (\<lambda>(v, s'). (v, tracked_abs s')) (tracked_dequeue s) = dequeue (tracked_abs s)"
  using tracked_pop [of s] tracked_empty [of s] tracked_front [of s]
  by (auto simp: tracked_dequeue_def dequeue_eq)

lemma tracked_get_loop_refines:
  "tracked_ok s \<Longrightarrow>
    tracked_ok (snd (tracked_get_loop num i out s)) \<and>
    map_prod id tracked_abs (tracked_get_loop num i out s) = get_loop num i out (tracked_abs s)"
proof (induction num i out s rule: tracked_get_loop.induct)
  case (1 num i out s)
  show ?case
  proof (cases "i < num \<and> tq s \<noteq> []")
    case True
    then show ?thesis
      using 1 tracked_pop [of s] tracked_empty [of s] tracked_front [of s]
      by (simp add: tracked_get_loop.simps [of num i out s] get_loop.simps [of num i out "tracked_abs s"])
  next
    case False
    then show ?thesis
      using "1.prems" tracked_empty [of s]
      by (auto simp: tracked_get_loop.simps [of num i out s] get_loop.simps [of num i out "tracked_abs s"])
  qed
qed

lemma tracked_last: "tracked_ok s \<Longrightarrow> tq s \<noteq> [] \<Longrightarrow> last (tracked_abs s) = (last (tq s), last (tq2 s))"
  by (cases "tq2 s = []") (auto simp: tracked_ok_def tracked_abs_def last_zip)

text \<open>
  C25. The tracked queue is a queue of pairs. From equally long component queues every member does
  to the pairs what the plain queue does: \<open>enqueue\<close>, \<open>dequeue\<close>, \<open>get\<close>, \<open>peek\<close> and
  \<open>size\<close> commute with pairing the components up, and the lengths stay equal.
\<close>
theorem tracked_refines_queue:
  assumes "tracked_ok s"
  shows "tracked_ok (tracked_enqueue s t y) \<and>
    tracked_abs (tracked_enqueue s t y) = enqueue (tracked_abs s) (t, y) \<and>
    map_option (\<lambda>(v, s'). (v, tracked_abs s')) (tracked_dequeue s) = dequeue (tracked_abs s) \<and>
    list_all (\<lambda>(v, s'). tracked_ok s') (case tracked_dequeue s of None \<Rightarrow> [] | Some r \<Rightarrow> [r]) \<and>
    tracked_ok (snd (tracked_get d n s)) \<and>
    map_prod id tracked_abs (tracked_get d n s) = queue_get d n (tracked_abs s) \<and>
    tracked_peek s = peek (tracked_abs s) \<and> tracked_size s = queue_size (tracked_abs s) \<and>
    peekBack s = (if tracked_abs s = [] then None else Some (last (tracked_abs s)))"
proof -
  note s = tracked_front [OF assms] tracked_empty [OF assms] tracked_pop [OF assms]
  have "tracked_peek s = peek (tracked_abs s)"
    using s by (cases "tracked_abs s") (auto simp: tracked_peek_def)
  moreover have "tracked_size s = queue_size (tracked_abs s)"
    using assms by (simp add: tracked_size_def queue_size_def tracked_abs_def tracked_ok_def)
  moreover have "peekBack s = (if tracked_abs s = [] then None else Some (last (tracked_abs s)))"
    using s tracked_last [OF assms] by (auto simp: peekBack_def)
  moreover have "list_all (\<lambda>(v, s'). tracked_ok s') (case tracked_dequeue s of None \<Rightarrow> [] | Some r \<Rightarrow> [r])"
    using s by (simp add: tracked_dequeue_def)
  ultimately show ?thesis
    using tracked_enqueue_refines [OF assms] tracked_dequeue_refines [OF assms]
      tracked_get_loop_refines [OF assms] by (simp add: tracked_get_def queue_get_def)
qed

theorem tracked_refines_queue_witness:
  "tracked_ok \<lparr>tq = [1, 2::nat], tq2 = [True, False]\<rparr> \<and>
   map_prod id tracked_abs (tracked_get (0, False) 3 \<lparr>tq = [1, 2::nat], tq2 = [True, False]\<rparr>) =
     queue_get (0, False) 3 [(1, True), (2, False)]"
proof -
  let ?s = "\<lparr>tq = [1, 2::nat], tq2 = [True, False]\<rparr>"
  have ok: "tracked_ok ?s" by (simp add: tracked_ok_def)
  have "tracked_abs ?s = [(1, True), (2, False)]" by (simp add: tracked_abs_def)
  then show ?thesis using tracked_refines_queue [OF ok, of 0 True "(0, False)" 3] ok by simp
qed

section \<open>Producers and consumers\<close>

text \<open>
  A producer calls \<open>enqueue\<close>; a consumer calls \<open>dequeue\<close>. \<open>waiting\<close> are the
  consumers asleep in \<open>c.wait(lock)\<close>, \<open>woken\<close> those that were notified (or returned from
  the wait on their own) and will test \<open>q.empty()\<close> again when they get the lock.
  \<open>notify_one\<close> moves any one sleeper, or does nothing when nobody sleeps.
\<close>

record 'a threads =
  items :: "'a list"
  waiting :: "nat set"
  woken :: "nat set"

datatype 'a queue_event =
    Enqueue 'a
  | EnqueueVec "'a list"
  | Took nat 'a
  | Sleeps nat
  | Wakes nat

definition notified :: "'a threads \<Rightarrow> nat \<Rightarrow> 'a threads" where
  "notified s t = s\<lparr>waiting := waiting s - {t}, woken := insert t (woken s)\<rparr>"

inductive notify_one :: "'a threads \<Rightarrow> 'a threads \<Rightarrow> bool" where
  nobody: "waiting s = {} \<Longrightarrow> notify_one s s"
| somebody: "t \<in> waiting s \<Longrightarrow> notify_one s (notified s t)"

inductive sq_step :: "'a threads \<Rightarrow> 'a queue_event \<Rightarrow> 'a threads \<Rightarrow> bool" where
  put: "notify_one (s\<lparr>items := enqueue (items s) x\<rparr>) s' \<Longrightarrow> sq_step s (Enqueue x) s'"
| put_vec: "notify_one (s\<lparr>items := enqueue_vec (items s) xs\<rparr>) s' \<Longrightarrow> sq_step s (EnqueueVec xs) s'"
| take: "t \<notin> waiting s \<Longrightarrow> dequeue (items s) = Some (x, q) \<Longrightarrow>
    sq_step s (Took t x) (s\<lparr>items := q, woken := woken s - {t}\<rparr>)"
| sleep: "t \<notin> waiting s \<Longrightarrow> dequeue (items s) = None \<Longrightarrow>
    sq_step s (Sleeps t) (s\<lparr>waiting := insert t (waiting s), woken := woken s - {t}\<rparr>)"
| spurious: "t \<in> waiting s \<Longrightarrow> sq_step s (Wakes t) (notified s t)"

inductive sq_run :: "'a queue_event list \<Rightarrow> 'a threads \<Rightarrow> bool" where
  start: "sq_run [] \<lparr>items = [], waiting = {}, woken = {}\<rparr>"
| step: "sq_run es s \<Longrightarrow> sq_step s e s' \<Longrightarrow> sq_run (es @ [e]) s'"

inductive_cases put_cases [elim!]: "sq_step s (Enqueue x) s'"
inductive_cases put_vec_cases [elim!]: "sq_step s (EnqueueVec xs) s'"
inductive_cases notify_cases [elim!]: "notify_one s s'"
inductive_simps take_iff: "sq_step s (Took t x) s'"
inductive_simps sleep_iff: "sq_step s (Sleeps t) s'"
inductive_simps wakes_iff: "sq_step s (Wakes t) s'"

lemmas sq_step_iffs = take_iff sleep_iff wakes_iff

fun put_in :: "'a queue_event \<Rightarrow> 'a list" where
  "put_in (Enqueue x) = [x]"
| "put_in (EnqueueVec xs) = xs"
| "put_in _ = []"

fun taken_out :: "'a queue_event \<Rightarrow> 'a list" where
  "taken_out (Took t x) = [x]"
| "taken_out _ = []"

lemma notified_frame [simp]:
  "items (notified s t) = items s" "waiting (notified s t) = waiting s - {t}"
  "woken (notified s t) = insert t (woken s)"
  by (simp_all add: notified_def)

lemma sq_step_items: "sq_step s e s' \<Longrightarrow> taken_out e @ items s' = items s @ put_in e"
  by (cases e) (auto simp: sq_step_iffs enqueue_def enqueue_vec_eq dequeue_Some)

text \<open>
  C23. Whatever the threads do, and however the standard library schedules and wakes them, the
  elements taken out of a \<open>SafeQueue\<close> so far followed by the ones still in it are exactly the
  elements put in, in order: nothing is lost, duplicated or reordered.
\<close>
theorem queue_is_fifo:
  assumes "sq_run es s"
  shows "concat (map taken_out es) @ items s = concat (map put_in es)"
  using assms
proof (induction rule: sq_run.induct)
  case start
  then show ?case by simp
next
  case (step es s e s')
  have "concat (map taken_out (es @ [e])) @ items s' = (concat (map taken_out es) @ items s) @ put_in e"
    using sq_step_items [OF step.hyps(2)] by simp
  then show ?case using step.IH by simp
qed

text \<open>The wake-up invariant: while a consumer sleeps there is a woken one for every element.\<close>

definition awake :: "'a threads \<Rightarrow> bool" where
  "awake s \<longleftrightarrow> finite (woken s) \<and> waiting s \<inter> woken s = {} \<and>
    (waiting s = {} \<or> length (items s) \<le> card (woken s))"

lemma awake_start: "awake \<lparr>items = [], waiting = {}, woken = {}\<rparr>"
  by (simp add: awake_def)

lemma awake_notified: "awake s \<Longrightarrow> t \<in> waiting s \<Longrightarrow> awake (notified s t)"
  by (auto simp: awake_def card_insert_if)

lemma awake_put:
  assumes "awake s" and "notify_one (s\<lparr>items := enqueue (items s) x\<rparr>) s'"
  shows "awake s'"
  using assms(2)
proof (rule notify_cases)
  assume "s' = s\<lparr>items := enqueue (items s) x\<rparr>" "waiting (s\<lparr>items := enqueue (items s) x\<rparr>) = {}"
  then show ?thesis using assms(1) by (simp add: awake_def)
next
  fix t
  assume "s' = notified (s\<lparr>items := enqueue (items s) x\<rparr>) t" "t \<in> waiting (s\<lparr>items := enqueue (items s) x\<rparr>)"
  then show ?thesis using assms(1) by (auto simp: awake_def enqueue_def card_insert_if)
qed

lemma awake_step:
  assumes "awake s" and "sq_step s e s'" and "\<forall>xs. e \<noteq> EnqueueVec xs"
  shows "awake s'"
proof (cases e)
  case (Enqueue x)
  with assms(2) have "notify_one (s\<lparr>items := enqueue (items s) x\<rparr>) s'" by (auto elim: sq_step.cases)
  then show ?thesis by (rule awake_put [OF assms(1)])
next
  case (Took t x)
  with assms(2) obtain q where q: "items s = x # q" "t \<notin> waiting s"
    "s' = s\<lparr>items := q, woken := woken s - {t}\<rparr>" by (auto simp: take_iff dequeue_Some)
  have "length q \<le> card (woken s - {t})" if "length (items s) \<le> card (woken s)"
    using that q(1) by (auto simp: card_Diff_singleton_if)
  then show ?thesis using assms(1) q by (auto simp: awake_def)
next
  case (Sleeps t)
  with assms(1,2) show ?thesis by (auto simp: sleep_iff awake_def)
qed (use assms awake_notified in \<open>auto simp: wakes_iff\<close>)

text \<open>
  C24. No consumer is forgotten. In every history of single-element \<open>enqueue\<close>, \<open>dequeue\<close>,
  sleeping and waking, as long as some consumer is asleep in \<open>dequeue\<close> the queue holds no more
  elements than there are consumers already on their way to take one. In particular nobody sleeps
  beside a non-empty queue with no consumer awake.
\<close>
theorem dequeue_never_forgotten:
  assumes "sq_run es s" and "list_all (\<lambda>e. \<forall>xs. e \<noteq> EnqueueVec xs) es" and "waiting s \<noteq> {}"
  shows "length (items s) \<le> card (woken s)"
proof -
  have "list_all (\<lambda>e. \<forall>xs. e \<noteq> EnqueueVec xs) es \<longrightarrow> awake s"
    using assms(1)
  proof (induction rule: sq_run.induct)
    case start
    then show ?case by (simp add: awake_start)
  next
    case (step es s e s')
    then show ?case using awake_step by auto
  qed
  then show ?thesis using assms(2,3) by (simp add: awake_def)
qed

text \<open>Two consumers sleep and one vector of two elements arrives: one of them is notified.\<close>

lemma sq_run_step: "sq_run es s \<Longrightarrow> sq_step s e s' \<Longrightarrow> fs = es @ [e] \<Longrightarrow> sq_run fs s'"
  by (simp add: sq_run.step)

lemma one_sleeper: "sq_run [Sleeps 1] \<lparr>items = [], waiting = {1}, woken = {}\<rparr>"
  by (rule sq_run_step [OF sq_run.start, of "Sleeps 1"]) (simp_all add: sleep_iff)

lemma two_sleepers: "sq_run [Sleeps 1, Sleeps 2] \<lparr>items = [], waiting = {1, 2}, woken = {}\<rparr>"
  by (rule sq_run_step [OF one_sleeper, of "Sleeps 2"]) (auto simp: sleep_iff)

lemma sleeper_notified:
  "sq_run [Sleeps 1, Sleeps 2, Enqueue x] \<lparr>items = [x], waiting = {2}, woken = {1}\<rparr>"
proof (rule sq_run_step [OF two_sleepers, of "Enqueue x"])
  let ?s = "\<lparr>items = [], waiting = {1, 2}, woken = {}\<rparr>\<lparr>items := enqueue [] x\<rparr> :: 'a threads"
  have "notify_one ?s (notified ?s 1)" by (rule notify_one.somebody) simp
  then have "sq_step \<lparr>items = [], waiting = {1, 2}, woken = {}\<rparr> (Enqueue x) (notified ?s 1)"
    by (intro sq_step.put) simp
  then show "sq_step \<lparr>items = [], waiting = {1, 2}, woken = {}\<rparr> (Enqueue x) \<lparr>items = [x], waiting = {2}, woken = {1}\<rparr>"
    by (simp add: notified_def enqueue_def insert_Diff_if)
qed simp

lemma notified_takes:
  "sq_run [Sleeps 1, Sleeps 2, Enqueue x, Took 1 x] \<lparr>items = [], waiting = {2}, woken = {}\<rparr>"
proof (rule sq_run_step [OF sleeper_notified [of x], of "Took 1 x"])
  show "sq_step \<lparr>items = [x], waiting = {2}, woken = {1}\<rparr> (Took 1 x) \<lparr>items = [], waiting = {2}, woken = {}\<rparr>"
    by (simp add: take_iff)
qed simp

theorem queue_is_fifo_witness:
  "sq_run [Sleeps 1, Sleeps 2, Enqueue (7 :: nat), Took 1 7] \<lparr>items = [], waiting = {2}, woken = {}\<rparr> \<and>
    concat (map taken_out [Sleeps 1, Sleeps 2, Enqueue (7 :: nat), Took 1 7]) = [7] \<and>
    concat (map put_in [Sleeps 1, Sleeps 2, Enqueue (7 :: nat), Took 1 7]) = [7]"
  using notified_takes [of "7 :: nat"] queue_is_fifo [OF notified_takes [of "7 :: nat"]] by simp

theorem dequeue_never_forgotten_witness:
  "length [7 :: nat] \<le> card {1 :: nat} \<and> (\<exists>s. sq_run [Sleeps 1, Sleeps 2, Enqueue (7::nat)] s \<and> waiting s \<noteq> {})"
proof -
  have "length (items \<lparr>items = [7 :: nat], waiting = {2}, woken = {1}\<rparr>) \<le>
      card (woken \<lparr>items = [7 :: nat], waiting = {2}, woken = {1}\<rparr>)"
    by (rule dequeue_never_forgotten [OF sleeper_notified]) simp_all
  moreover have "\<exists>s. sq_run [Sleeps 1, Sleeps 2, Enqueue (7::nat)] s \<and> waiting s \<noteq> {}"
    using sleeper_notified [of "7 :: nat"] by force
  ultimately show ?thesis by simp
qed

text \<open>
  The vector form of \<open>enqueue\<close> breaks that promise: it pushes every element and then
  notifies one thread. With two consumers asleep and two elements pushed at once, the notified one
  takes an element and leaves, and the other is still asleep with an element in the queue and
  nobody awake.
\<close>
lemma enqueue_vec_forgets_a_sleeper:
  "\<exists>s. sq_run [Sleeps 1, Sleeps 2, EnqueueVec [x, y], Took 1 x] s \<and>
    items s = [y] \<and> waiting s = {2} \<and> woken s = {}"
proof -
  let ?s = "\<lparr>items = [], waiting = {1, 2}, woken = {}\<rparr> :: 'a threads"
  let ?s' = "\<lparr>items = [x, y], waiting = {2}, woken = {1}\<rparr>"
  have "notify_one (?s\<lparr>items := enqueue_vec (items ?s) [x, y]\<rparr>) (notified (?s\<lparr>items := enqueue_vec (items ?s) [x, y]\<rparr>) 1)"
    by (rule notify_one.somebody) simp
  then have "sq_step ?s (EnqueueVec [x, y]) (notified (?s\<lparr>items := enqueue_vec (items ?s) [x, y]\<rparr>) 1)"
    by (rule sq_step.put_vec)
  then have "sq_step ?s (EnqueueVec [x, y]) ?s'"
    by (simp add: notified_def enqueue_vec_eq insert_Diff_if)
  from sq_run_step [OF two_sleepers this]
  have "sq_run [Sleeps 1, Sleeps 2, EnqueueVec [x, y]] ?s'" by simp
  from sq_run_step [OF this, of "Took 1 x" "\<lparr>items = [y], waiting = {2}, woken = {}\<rparr>"]
  show ?thesis by (intro exI [of _ "\<lparr>items = [y], waiting = {2}, woken = {}\<rparr>"]) (simp add: take_iff)
qed

end
