(* ===== verification/Retransmit.thy ===== *)
theory Retransmit
  imports Std_Map Interfaces
begin

text \<open>
  \<open>RetransmitBuffer\<close> (driver/RetransmitBuffer.cpp): what was sent over the air, kept by the time
  it was sent, and the queue of packets to send again. The clock is a parameter: every operation
  that calls \<open>steady_clock::now()\<close> takes the value it got, in nanoseconds. Each member locks the
  object's mutex, so the members are atomic.

  \<open>getPacket\<close> reads \<open>need_retransmit[0]\<close> unchecked: on an empty queue the model returns
  \<open>None\<close>.
\<close>

section \<open>The buffer\<close>

type_synonym packets = "u32 list list"

record retransmit_buffer =
  sent_buffer :: "(time_point, u8 \<times> packets) std_map"
  need_retransmit :: packets

definition RetransmitBuffer :: retransmit_buffer where
  "RetransmitBuffer = \<lparr>sent_buffer = [], need_retransmit = []\<rparr>"

definition retransmit_delete_after_us :: u32 where
  "retransmit_delete_after_us = 4000000"

definition sentOverAir :: "time_point \<Rightarrow> u8 \<Rightarrow> packets \<Rightarrow> retransmit_buffer \<Rightarrow> retransmit_buffer" where
  "sentOverAir now seq bunch b = b\<lparr>sent_buffer := sm_insert now (seq, bunch) (sent_buffer b)\<rparr>"

definition pruneOld :: "(time_point, u8 \<times> packets) std_map \<Rightarrow> time_point \<Rightarrow> (time_point, u8 \<times> packets) std_map" where
  "pruneOld mm now = filter (\<lambda>(t, r). \<not> age_us now t > retransmit_delete_after_us) mm"

text \<open>
  The search loop of \<open>scheduleRetransmit\<close>, oldest entry first: the entries left in the map and
  the packets queued.
\<close>

fun retransmit_search ::
    "u8 \<Rightarrow> u32 list \<Rightarrow> bool \<Rightarrow> (time_point, u8 \<times> packets) std_map \<Rightarrow> (time_point, u8 \<times> packets) std_map \<times> packets" where
  "retransmit_search seq indices allmissing [] = ([], [])"
| "retransmit_search seq indices allmissing ((t, (buffer_seq, packets)) # rest) =
     (if buffer_seq = seq
      then if allmissing then (rest, packets)
           else if list_ex (\<lambda>x. unat x \<ge> length packets) indices then ((t, (buffer_seq, packets)) # rest, [])
           else (rest, if length packets > 1919293 then [] else map (\<lambda>x. packets ! unat x) indices)
      else (let (rest', queued) = retransmit_search seq indices allmissing rest
            in ((t, (buffer_seq, packets)) # rest', queued)))"

definition scheduleRetransmit :: "time_point \<Rightarrow> u8 \<Rightarrow> u32 list \<Rightarrow> retransmit_buffer \<Rightarrow> retransmit_buffer" where
  "scheduleRetransmit now seq indices b =
     (let allmissing = (length indices = 1 \<and> indices ! 0 = 0xFFFFFFFF);
          (buffer', queued) = retransmit_search seq indices allmissing (sent_buffer b)
      in b\<lparr>sent_buffer := pruneOld buffer' now, need_retransmit := need_retransmit b @ queued\<rparr>)"

definition firstLength :: "retransmit_buffer \<Rightarrow> nat" where
  "firstLength b = (if length (need_retransmit b) = 0 then 0 else length (need_retransmit b ! 0))"

definition packetsReady :: "retransmit_buffer \<Rightarrow> nat" where
  "packetsReady b = length (need_retransmit b)"

definition getPacket :: "retransmit_buffer \<Rightarrow> (u32 list \<times> retransmit_buffer) option" where
  "getPacket b =
     (case need_retransmit b of [] \<Rightarrow> None | v # vs \<Rightarrow> Some (v, b\<lparr>need_retransmit := vs\<rparr>))"

section \<open>Its contracts\<close>

definition retransmit_ok :: "retransmit_buffer \<Rightarrow> bool" where
  "retransmit_ok b \<longleftrightarrow> sm_ok (sent_buffer b)"

interpretation resend: packet_source "\<lambda>_. True" packetsReady firstLength getPacket need_retransmit
  by unfold_locales (simp_all add: packetsReady_def firstLength_def getPacket_def)

lemma retransmit_search_skip:
  "list_all (\<lambda>(t, s, ps). s \<noteq> seq) pre \<Longrightarrow>
    retransmit_search seq idx am (pre @ m) = (pre @ fst (retransmit_search seq idx am m), snd (retransmit_search seq idx am m))"
  by (induction pre) (auto split: prod.splits)

lemma retransmit_search_hit:
  "list_all (\<lambda>x. unat x < length ps) idx \<Longrightarrow> length ps \<le> 1919293 \<Longrightarrow>
    retransmit_search seq idx False ((t, seq, ps) # m) = (m, map (\<lambda>x. ps ! unat x) idx)"
  by (auto simp: list_ex_iff list_all_iff not_le)


lemma retransmit_search_illegal:
  "list_ex (\<lambda>x. length ps \<le> unat x) idx \<Longrightarrow>
    retransmit_search seq idx False ((t, seq, ps) # m) = ((t, seq, ps) # m, [])"
  by simp

lemma set_retransmit_search: "set (fst (retransmit_search seq idx am m)) \<subseteq> set m"
  by (induction seq idx am m rule: retransmit_search.induct) (auto split: prod.splits if_splits)

lemma sm_ok_retransmit_search: "sm_ok m \<Longrightarrow> sm_ok (fst (retransmit_search seq idx am m))"
proof (induction seq idx am m rule: retransmit_search.induct)
  case (1 seq idx am)
  then show ?case by simp
next
  case (2 seq idx am t s ps rest)
  have "sm_ok ((t, s, ps) # fst (retransmit_search seq idx am rest))" if "s \<noteq> seq"
    using 2 that set_retransmit_search [of seq idx am rest] by (auto simp: sm_ok_Cons)
  with 2 show ?case by (auto simp: sm_ok_Cons split: prod.splits)
qed

lemma pruneOld_subset: "set (pruneOld m now) \<subseteq> set m"
  by (auto simp: pruneOld_def)

lemma retransmit_ok_steps:
  "retransmit_ok RetransmitBuffer"
  "retransmit_ok b \<Longrightarrow> retransmit_ok (sentOverAir now seq bunch b)"
  "retransmit_ok b \<Longrightarrow> retransmit_ok (scheduleRetransmit now seq idx b)"
  "retransmit_ok b \<Longrightarrow> getPacket b = Some (v, b') \<Longrightarrow> retransmit_ok b'"
  by (auto simp: retransmit_ok_def RetransmitBuffer_def sentOverAir_def scheduleRetransmit_def
      getPacket_def pruneOld_def sm_ok_insert sm_ok_filter split: prod.splits list.splits
      dest: sm_ok_retransmit_search [of _ seq idx "length idx = 1 \<and> idx ! 0 = 0xFFFFFFFF"])

text \<open>A request for packets of the oldest entry with that number queues them, in the order asked.\<close>

lemma scheduleRetransmit_found:
  assumes "sent_buffer b = pre @ (t, seq, ps) # post" "list_all (\<lambda>(t, s, ps). s \<noteq> seq) pre"
    and "list_all (\<lambda>x. unat x < length ps) idx" "length ps \<le> 1919293"
  shows "scheduleRetransmit now seq idx b =
    b\<lparr>sent_buffer := pruneOld (pre @ post) now, need_retransmit := need_retransmit b @ map (\<lambda>x. ps ! unat x) idx\<rparr>"
proof -
  have "\<not> (length idx = 1 \<and> idx ! 0 = 0xFFFFFFFF)"
  proof
    assume one: "length idx = 1 \<and> idx ! 0 = 0xFFFFFFFF"
    then have "(0xFFFFFFFF :: u32) \<in> set idx" by (metis less_one nth_mem)
    then have "unat (0xFFFFFFFF :: u32) < length ps" using assms(3) by (auto simp: list_all_iff)
    then show False using assms(4) by simp
  qed
  then show ?thesis
    using retransmit_search_skip [OF assms(2)] retransmit_search_hit [OF assms(3,4)] assms(1)
    by (auto simp: scheduleRetransmit_def Let_def)
qed

lemma scheduleRetransmit_all:
  assumes "sent_buffer b = pre @ (t, seq, ps) # post" "list_all (\<lambda>(t, s, ps). s \<noteq> seq) pre"
  shows "scheduleRetransmit now seq [0xFFFFFFFF] b =
    b\<lparr>sent_buffer := pruneOld (pre @ post) now, need_retransmit := need_retransmit b @ ps\<rparr>"
  using retransmit_search_skip [OF assms(2)] assms(1) by (simp add: scheduleRetransmit_def)

lemma scheduleRetransmit_illegal:
  assumes "sent_buffer b = pre @ (t, seq, ps) # post" "list_all (\<lambda>(t, s, ps). s \<noteq> seq) pre"
    and "list_ex (\<lambda>x. length ps \<le> unat x) idx" "idx \<noteq> [0xFFFFFFFF]"
  shows "scheduleRetransmit now seq idx b = b\<lparr>sent_buffer := pruneOld (sent_buffer b) now\<rparr>"
proof -
  have "\<not> (length idx = 1 \<and> idx ! 0 = 0xFFFFFFFF)"
    using assms(4) by (cases idx) auto
  then show ?thesis
    using retransmit_search_skip [OF assms(2)] retransmit_search_illegal [OF assms(3)] assms(1)
    by (auto simp: scheduleRetransmit_def Let_def)
qed

lemma scheduleRetransmit_unknown:
  "list_all (\<lambda>(t, s, ps). s \<noteq> seq) (sent_buffer b) \<Longrightarrow>
    scheduleRetransmit now seq idx b = b\<lparr>sent_buffer := pruneOld (sent_buffer b) now\<rparr>"
  using retransmit_search_skip [of seq "sent_buffer b" idx _ "[]"]
  by (simp add: scheduleRetransmit_def Let_def)

text \<open>Only a request prunes: without one the buffer keeps every transmission.\<close>

lemma sentOverAir_keeps_everything:
  "retransmit_ok b \<Longrightarrow> sm_find now (sent_buffer b) = None \<Longrightarrow>
    length (sent_buffer (sentOverAir now seq bunch b)) = Suc (length (sent_buffer b))"
  by (simp add: retransmit_ok_def sentOverAir_def length_sm_insert)

text \<open>
  Sequence numbers are eight bits and the search does not look at ages: of two transmissions with the
  same number the oldest answers, however old it is, because pruning comes after the search.
\<close>

lemma stale_transmission_answers:
  "need_retransmit (scheduleRetransmit now seq [0]
     (sentOverAir 1000000000000 seq [new] (sentOverAir 0 seq [old] RetransmitBuffer))) = [old]"
  by (simp add: scheduleRetransmit_def sentOverAir_def RetransmitBuffer_def)

end
