(* ===== verification/Arbiter.thy ===== *)
theory Arbiter
  imports Air_Messages Packet_Words Retransmit Safe_Queue
begin

text \<open>
  The arbiter's transmit path (driver/EventDspArbiter.cpp): packets from three places, repeats first,
  then retransmissions, then the tun queue, are pulled into one joint-transmit message of at most
  \<open>max_words\<close> words (or one packet), and what was sent is remembered for retransmission.

  The feedback-bus frame around a message and its ZMQ transport are library code: sending is
  recorded as a value of \<open>arb_message\<close> carrying the vector handed to the transport.
  \<open>joint_loop\<close> is the \<open>while(more)\<close> loop over the callbacks; it is a partial function, so a loop
  that does not end is \<open>None\<close>, and so is a callback that reads out of range.
\<close>

section \<open>The loop over the callbacks\<close>

datatype arb_message =
    JointTransmit "nat list" "u32 list"
  | PacketHashes nat "u32 list"
  | RetransmitRequest nat "u32 list"

record joint_acc =
  joint_all :: packets
  joint_hashes :: "u32 list"
  for_retransmit :: packets
  total_words :: nat
  total_packets :: u32

definition joint_acc0 :: joint_acc where
  "joint_acc0 = \<lparr>joint_all = [], joint_hashes = [], for_retransmit = [], total_words = 0, total_packets = 0\<rparr>"

definition joint_add :: "bool \<Rightarrow> (u32 list \<Rightarrow> u32) \<Rightarrow> u32 list \<Rightarrow> joint_acc \<Rightarrow> joint_acc" where
  "joint_add doRetransmit getHash fromTun acc =
     \<lparr>joint_all = joint_all acc @ [fromTun],
      joint_hashes = joint_hashes acc @ (if doRetransmit then [getHash fromTun] else []),
      for_retransmit = for_retransmit acc @ (if doRetransmit then [fromTun] else []),
      total_words = total_words acc + length fromTun,
      total_packets = total_packets acc + 1\<rparr>"

partial_function (option) joint_loop ::
    "('s \<Rightarrow> nat) \<Rightarrow> ('s \<Rightarrow> (u32 list \<times> 's) option) \<Rightarrow> ('s \<Rightarrow> nat) \<Rightarrow> (u32 list \<Rightarrow> u32) \<Rightarrow> bool \<Rightarrow> nat \<Rightarrow>
      joint_acc \<Rightarrow> 's \<Rightarrow> (joint_acc \<times> 's) option" where
  "joint_loop getPacketsReady getNextPacket getNextLength getHash doRetransmit max_words acc s =
     Option.bind (getNextPacket s) (\<lambda>(fromTun, s').
       let acc' = joint_add doRetransmit getHash fromTun acc
       in if getPacketsReady s' > 0 \<and> getNextLength s' + total_words acc' \<le> max_words
          then joint_loop getPacketsReady getNextPacket getNextLength getHash doRetransmit max_words acc' s'
          else Some (acc', s'))"

definition scheduleJointFromTunDataFunctional ::
    "u32 \<Rightarrow> nat list \<Rightarrow> u8 \<Rightarrow> nat \<Rightarrow> u32 \<Rightarrow> u32 \<Rightarrow> bool \<Rightarrow> ('s \<Rightarrow> nat) \<Rightarrow> ('s \<Rightarrow> (u32 list \<times> 's) option) \<Rightarrow>
      ('s \<Rightarrow> nat) \<Rightarrow> (u32 list \<Rightarrow> u32) \<Rightarrow> (u32 list \<Rightarrow> packets \<Rightarrow> u32 \<Rightarrow> 's \<Rightarrow> arb_message list \<times> 's) \<Rightarrow>
      's \<Rightarrow> ((nat \<times> nat) \<times> arb_message list \<times> 's) option" where
  "scheduleJointFromTunDataFunctional node_id peers seq max_words epoc ts doRetransmit
      getPacketsReady getNextPacket getNextLength getHash updateRetransmit s =
     (if getPacketsReady s = 0 then Some ((0, 0), [], s)
      else Option.bind
        (joint_loop getPacketsReady getNextPacket getNextLength getHash doRetransmit max_words joint_acc0 s)
        (\<lambda>(acc, s1).
          let payload = packJointZmq (node_id, epoc, ts, seq) (joint_all acc);
              (more_messages, s2) =
                (if doRetransmit then updateRetransmit (joint_hashes acc) (for_retransmit acc) (ucast seq) s1
                 else ([], s1))
          in Some ((total_words acc, unat (total_packets acc)), JointTransmit peers payload # more_messages, s2)))"

section \<open>The callbacks of the arbiter\<close>

record arbiter =
  repeatBuffer :: "packets list"
  repeatHistory :: nat
  enableRepeat :: bool
  retransmitArb :: retransmit_buffer
  txTun2EventDsp :: packets

definition setupRepeat :: "arbiter \<Rightarrow> arbiter" where
  "setupRepeat a = a\<lparr>repeatBuffer := vec_resize 5 [] (repeatBuffer a), repeatHistory := 0, enableRepeat := False\<rparr>"

definition fn_packets :: "arbiter \<Rightarrow> nat" where
  "fn_packets a =
     length (repeatBuffer a ! repeatHistory a) + packetsReady (retransmitArb a) + queue_size (txTun2EventDsp a)"

definition fn_next :: "nat \<Rightarrow> arbiter \<Rightarrow> (u32 list \<times> arbiter) option" where
  "fn_next historyLoad a =
     (if repeatBuffer a ! repeatHistory a \<noteq> []
      then Some (hd (repeatBuffer a ! repeatHistory a),
                 a\<lparr>repeatBuffer := (repeatBuffer a)[repeatHistory a := tl (repeatBuffer a ! repeatHistory a)]\<rparr>)
      else if packetsReady (retransmitArb a) \<noteq> 0
      then map_option (\<lambda>(v, r). (v, a\<lparr>retransmitArb := r\<rparr>)) (getPacket (retransmitArb a))
      else if queue_size (txTun2EventDsp a) \<noteq> 0
      then (case dequeue (txTun2EventDsp a) of
              None \<Rightarrow> None
            | Some (copy, q) \<Rightarrow>
                if enableRepeat a
                then (case vec_get (repeatBuffer a) historyLoad of
                        None \<Rightarrow> None
                      | Some slot \<Rightarrow> Some (copy, a\<lparr>txTun2EventDsp := q,
                          repeatBuffer := (repeatBuffer a)[historyLoad := slot @ [copy]]\<rparr>))
                else Some (copy, a\<lparr>txTun2EventDsp := q\<rparr>))
      else Some ([], a))"

definition fn_first_len :: "arbiter \<Rightarrow> nat" where
  "fn_first_len a =
     (if repeatBuffer a ! repeatHistory a \<noteq> [] then length (hd (repeatBuffer a ! repeatHistory a))
      else if packetsReady (retransmitArb a) \<noteq> 0 then firstLength (retransmitArb a)
      else if queue_size (txTun2EventDsp a) \<noteq> 0
      then (case peek (txTun2EventDsp a) of None \<Rightarrow> 0 | Some v \<Rightarrow> length v)
      else 0)"

text \<open>\<open>sendHashesToPartnerSeq\<close> of HiggsPartner.cpp puts the sequence number before the hashes.\<close>

definition sendHashesToPartnerSeq :: "nat \<Rightarrow> u32 list \<Rightarrow> u32 \<Rightarrow> arb_message" where
  "sendHashesToPartnerSeq peer hs tx_seq = PacketHashes peer (tx_seq # hs)"

definition fn_retransmit ::
    "nat \<Rightarrow> time_point \<Rightarrow> u32 list \<Rightarrow> packets \<Rightarrow> u32 \<Rightarrow> arbiter \<Rightarrow> arb_message list \<times> arbiter" where
  "fn_retransmit peer_rx now hs bunch tx_seq a =
     ([sendHashesToPartnerSeq peer_rx hs tx_seq],
      a\<lparr>retransmitArb := sentOverAir now (ucast tx_seq) bunch (retransmitArb a)\<rparr>)"

text \<open>
  \<open>peer_rx\<close> and \<open>validate\<close> are the settings \<open>GET_PEER_RX\<close> and
  \<open>GET_DATA_HASH_VALIDATE_ALL\<close>; \<open>now\<close> is the clock when the transmission is saved. The
  callbacks read \<open>repeatBuffer[repeatHistory]\<close> unchecked, which is \<open>None\<close> when it is short.
\<close>

definition scheduleJointFromTunData ::
    "u32 \<Rightarrow> nat \<Rightarrow> bool \<Rightarrow> time_point \<Rightarrow> nat list \<Rightarrow> u8 \<Rightarrow> nat \<Rightarrow> u32 \<Rightarrow> u32 \<Rightarrow> arbiter \<Rightarrow>
      ((nat \<times> nat) \<times> arb_message list \<times> arbiter) option" where
  "scheduleJointFromTunData node_id peer_rx validate now peers seq max_words epoc ts a =
     (let a1 = a\<lparr>repeatHistory := (repeatHistory a + 1) mod 5\<rparr>;
          historyLoad = (repeatHistory a1 + 4) mod 5
      in if length (repeatBuffer a1) \<le> repeatHistory a1 then None
         else scheduleJointFromTunDataFunctional node_id peers seq max_words epoc ts validate
                fn_packets (fn_next historyLoad) fn_first_len getHashForWords (fn_retransmit peer_rx now) a1)"

function dump_tun_loop :: "packets \<Rightarrow> nat \<Rightarrow> nat \<times> packets" where
  "dump_tun_loop q burned =
     (case dequeue q of None \<Rightarrow> (burned, q) | Some (v, q') \<Rightarrow> dump_tun_loop q' (burned + 1))"
  by pat_completeness auto
termination
  by (relation "measure (\<lambda>(q, burned). length q)") (auto simp: dequeue_Some)

declare dump_tun_loop.simps [simp del]

definition dumpTunBuffer :: "arbiter \<Rightarrow> nat \<times> arbiter" where
  "dumpTunBuffer a = (let (burned, q) = dump_tun_loop (txTun2EventDsp a) 0 in (burned, a\<lparr>txTun2EventDsp := q\<rparr>))"

definition wordsInTun :: "arbiter \<Rightarrow> nat" where
  "wordsInTun a = expensiveSizeAll (txTun2EventDsp a)"

section \<open>Which packets make up a message\<close>

text \<open>The words of a list of packets, and how many of the waiting ones go into one message.\<close>

definition words_of :: "packets \<Rightarrow> nat" where
  "words_of ps = sum_list (map length ps)"

fun more_fit :: "nat \<Rightarrow> nat \<Rightarrow> packets \<Rightarrow> nat" where
  "more_fit max_words so_far [] = 0"
| "more_fit max_words so_far (p # ps) =
     (if length p + so_far \<le> max_words then Suc (more_fit max_words (so_far + length p) ps) else 0)"

definition joint_batch :: "nat \<Rightarrow> packets \<Rightarrow> nat" where
  "joint_batch max_words ps = (case ps of [] \<Rightarrow> 0 | p # ps' \<Rightarrow> Suc (more_fit max_words (length p) ps'))"

lemma words_of_simps [simp]: "words_of [] = 0" "words_of (p # ps) = length p + words_of ps"
  by (simp_all add: words_of_def)

lemma words_of_append [simp]: "words_of (ps @ qs) = words_of ps + words_of qs"
  by (simp add: words_of_def)

lemma more_fit_le: "more_fit m t ps \<le> length ps"
  by (induction m t ps rule: more_fit.induct) simp_all

lemma more_fit_words: "0 < more_fit m t ps \<Longrightarrow> t + words_of (take (more_fit m t ps) ps) \<le> m"
proof (induction m t ps rule: more_fit.induct)
  case (2 m t p ps)
  then show ?case by (cases "more_fit m (t + length p) ps") (auto simp: algebra_simps split: if_splits)
qed simp

lemma more_fit_max:
  "more_fit m t ps < n \<Longrightarrow> n \<le> length ps \<Longrightarrow> m < t + words_of (take n ps)"
proof (induction m t ps arbitrary: n rule: more_fit.induct)
  case (2 m t p ps)
  show ?case
  proof (cases n)
    case (Suc k)
    with 2 show ?thesis by (cases "length p + t \<le> m") (auto simp: add.assoc)
  qed (use 2 in simp)
qed simp

lemma joint_batch_pos: "ps \<noteq> [] \<Longrightarrow> 0 < joint_batch m ps"
  by (cases ps) (simp_all add: joint_batch_def)

lemma joint_batch_le: "joint_batch m ps \<le> length ps"
  by (cases ps) (simp_all add: joint_batch_def more_fit_le)

lemma joint_batch_fits: "1 < joint_batch m ps \<Longrightarrow> words_of (take (joint_batch m ps) ps) \<le> m"
  by (cases ps) (auto simp: joint_batch_def dest!: more_fit_words)

lemma joint_batch_max:
  "joint_batch m ps < n \<Longrightarrow> n \<le> length ps \<Longrightarrow> m < words_of (take n ps)"
proof (cases ps)
  case (Cons p ps')
  assume "joint_batch m ps < n" "n \<le> length ps"
  with Cons obtain k where "n = Suc k" "more_fit m (length p) ps' < k" "k \<le> length ps'"
    by (cases n) (auto simp: joint_batch_def)
  with more_fit_max [of m "length p" ps' k] Cons show ?thesis by simp
qed (simp add: joint_batch_def)

definition joint_added :: "bool \<Rightarrow> (u32 list \<Rightarrow> u32) \<Rightarrow> packets \<Rightarrow> joint_acc \<Rightarrow> joint_acc" where
  "joint_added d h ps acc = fold (joint_add d h) ps acc"

lemma joint_added_eq:
  "joint_added d h ps acc =
    \<lparr>joint_all = joint_all acc @ ps, joint_hashes = joint_hashes acc @ (if d then map h ps else []),
     for_retransmit = for_retransmit acc @ (if d then ps else []), total_words = total_words acc + words_of ps,
     total_packets = total_packets acc + of_nat (length ps)\<rparr>"
  by (induction ps arbitrary: acc) (simp_all add: joint_added_def joint_add_def)

context packet_source
begin

text \<open>
  Whatever the source, the loop ends and has taken the first packet and the ones after it that
  still fitted, in order.
\<close>

lemma joint_loop_takes:
  "ok s \<Longrightarrow> contents s = p # ps \<Longrightarrow>
    \<exists>s'. joint_loop ready get first_len h d m acc s =
        Some (joint_added d h (take (Suc (more_fit m (total_words acc + length p) ps)) (p # ps)) acc, s') \<and>
      ok s' \<and> contents s' = drop (more_fit m (total_words acc + length p) ps) ps"
proof (induction ps arbitrary: p acc s)
  case Nil
  then obtain s' where s': "get s = Some (p, s')" "ok s'" "contents s' = []"
    using get_contents by blast
  then show ?case
    by (subst joint_loop.simps) (simp add: ready_contents joint_added_def Let_def)
next
  case (Cons q ps)
  let ?acc = "joint_add d h p acc"
  have words: "total_words ?acc = total_words acc + length p" by (simp add: joint_add_def)
  obtain s' where s': "get s = Some (p, s')" "ok s'" "contents s' = q # ps"
    using get_contents [OF Cons.prems] by blast
  then have len: "first_len s' = length q" "0 < ready s'"
    by (simp_all add: first_len_contents ready_contents)
  show ?case
  proof (cases "length q + (total_words acc + length p) \<le> m")
    case True
    then show ?thesis
      using Cons.IH [OF s'(2,3), of ?acc] s'(1) len words
      by (subst joint_loop.simps) (simp add: joint_added_def Let_def algebra_simps)
  next
    case False
    then show ?thesis
      using s' len words by (subst joint_loop.simps) (simp add: joint_added_def Let_def)
  qed
qed

lemma joint_message_sent:
  fixes m :: nat
  assumes "ok s" and "contents s \<noteq> []"
  defines "n \<equiv> joint_batch m (contents s)"
  shows "\<exists>s'. ok s' \<and> contents s' = drop n (contents s) \<and>
    scheduleJointFromTunDataFunctional node peers seq m epoc ts d ready get first_len h upd s =
      Some ((words_of (take n (contents s)), unat (of_nat n :: u32)),
        JointTransmit peers (packJointZmq (node, epoc, ts, seq) (take n (contents s))) #
          (if d then fst (upd (map h (take n (contents s))) (take n (contents s)) (ucast seq) s') else []),
        if d then snd (upd (map h (take n (contents s))) (take n (contents s)) (ucast seq) s') else s')"
proof -
  obtain p ps where ps: "contents s = p # ps" using assms(2) by (cases "contents s") auto
  have n: "n = Suc (more_fit m (length p) ps)" by (simp add: n_def ps joint_batch_def)
  have len: "length (take n (contents s)) = n" using joint_batch_le [of m "contents s"] by (simp add: n_def)
  obtain s' where s': "ok s'" "contents s' = drop n (contents s)"
    "joint_loop ready get first_len h d m joint_acc0 s = Some (joint_added d h (take n (contents s)) joint_acc0, s')"
    using joint_loop_takes [OF assms(1) ps, of h d m joint_acc0] by (auto simp: n ps joint_acc0_def)
  have "ready s \<noteq> 0" using assms(1,2) ready_0 by blast
  with s' len show ?thesis
    by (intro exI [of _ s'])
      (simp add: scheduleJointFromTunDataFunctional_def joint_added_eq joint_acc0_def Let_def split: prod.splits)
qed

lemma joint_nothing_sent:
  "ok s \<Longrightarrow> contents s = [] \<Longrightarrow>
    scheduleJointFromTunDataFunctional node peers seq m epoc ts d ready get first_len h upd s = Some ((0, 0), [], s)"
  by (simp add: scheduleJointFromTunDataFunctional_def ready_contents)

end

section \<open>The arbiter as a packet source\<close>

definition arbiter_ok :: "arbiter \<Rightarrow> bool" where
  "arbiter_ok a \<longleftrightarrow> length (repeatBuffer a) = 5 \<and> repeatHistory a < 5 \<and> retransmit_ok (retransmitArb a)"

text \<open>The packets waiting to be sent, in the order the callbacks hand them out.\<close>

definition waiting_packets :: "arbiter \<Rightarrow> packets" where
  "waiting_packets a = repeatBuffer a ! repeatHistory a @ need_retransmit (retransmitArb a) @ txTun2EventDsp a"

text \<open>What stays the same while packets are pulled: \<open>saved\<close> is the slot repeats go to, plus the tun
  packets that will go there, and \<open>sent\<close> what the retransmit buffer remembers.\<close>

definition pulling :: "nat \<Rightarrow> nat \<Rightarrow> bool \<Rightarrow> packets \<Rightarrow> (time_point, u8 \<times> packets) std_map \<Rightarrow> arbiter \<Rightarrow> bool" where
  "pulling h l e saved sent a \<longleftrightarrow> length (repeatBuffer a) = 5 \<and> repeatHistory a = h \<and> h < 5 \<and> l < 5 \<and> h \<noteq> l \<and>
    enableRepeat a = e \<and> sent_buffer (retransmitArb a) = sent \<and>
    repeatBuffer a ! l @ (if e then txTun2EventDsp a else []) = saved"

lemma fn_next_pulls:
  assumes "pulling h l e saved sent a" and "waiting_packets a = p # ps"
  shows "\<exists>a'. fn_next l a = Some (p, a') \<and> pulling h l e saved sent a' \<and> waiting_packets a' = ps"
proof -
  note a = assms [unfolded pulling_def waiting_packets_def]
  have "repeatBuffer a ! h @ need_retransmit (retransmitArb a) @ txTun2EventDsp a \<noteq> []" using a by auto
  then consider "repeatBuffer a ! h \<noteq> []" | "repeatBuffer a ! h = []" "need_retransmit (retransmitArb a) \<noteq> []"
    | "repeatBuffer a ! h = []" "need_retransmit (retransmitArb a) = []" "txTun2EventDsp a \<noteq> []"
    by blast
  then show ?thesis
  proof cases
    case 1
    then show ?thesis
      using a by (auto simp: fn_next_def pulling_def waiting_packets_def neq_Nil_conv)
  next
    case 2
    then show ?thesis
      using a by (auto simp: fn_next_def pulling_def waiting_packets_def packetsReady_def getPacket_def neq_Nil_conv)
  next
    case 3
    then show ?thesis
      using a by (auto simp: fn_next_def pulling_def waiting_packets_def packetsReady_def queue_size_def neq_Nil_conv)
  qed
qed

interpretation arb: packet_source "pulling h l e saved sent" fn_packets fn_first_len "fn_next l" waiting_packets
  for h l e saved sent
proof unfold_locales
  fix s p ps
  assume s: "pulling h l e saved sent s"
  then show "fn_packets s = length (waiting_packets s)"
    by (simp add: fn_packets_def waiting_packets_def packetsReady_def queue_size_def)
  assume c: "waiting_packets s = p # ps"
  show "fn_first_len s = length p"
    using s c by (cases "txTun2EventDsp s")
      (auto simp: fn_first_len_def waiting_packets_def packetsReady_def queue_size_def firstLength_def
        append_eq_Cons_conv)
  show "\<exists>s'. fn_next l s = Some (p, s') \<and> pulling h l e saved sent s' \<and> waiting_packets s' = ps"
    by (rule fn_next_pulls [OF s c])
qed

lemma setupRepeat_ok: "retransmit_ok (retransmitArb a) \<Longrightarrow> arbiter_ok (setupRepeat a)"
  by (simp add: arbiter_ok_def setupRepeat_def)

lemma dump_tun_loop_eq: "dump_tun_loop q n = (n + length q, [])"
  by (induction q n rule: dump_tun_loop.induct)
    (auto simp: dump_tun_loop.simps dequeue_Some split: option.splits)

lemma dumpTunBuffer_eq: "dumpTunBuffer a = (length (txTun2EventDsp a), a\<lparr>txTun2EventDsp := []\<rparr>)"
  by (simp add: dumpTunBuffer_def dump_tun_loop_eq)

section \<open>One joint transmission\<close>

text \<open>The arbiter when it starts pulling, and the packets it pulls from.\<close>

definition next_history :: "arbiter \<Rightarrow> arbiter" where
  "next_history a = a\<lparr>repeatHistory := (repeatHistory a + 1) mod 5\<rparr>"

definition history_load :: "arbiter \<Rightarrow> nat" where
  "history_load a = (repeatHistory (next_history a) + 4) mod 5"

definition repeat_saved :: "arbiter \<Rightarrow> nat \<Rightarrow> packets" where
  "repeat_saved a l = repeatBuffer a ! l @ (if enableRepeat a then txTun2EventDsp a else [])"

lemma history_load_other: "history_load a < 5 \<and> repeatHistory (next_history a) \<noteq> history_load a"
  by (simp add: history_load_def next_history_def) presburger

lemma next_history_frame [simp]:
  "repeatBuffer (next_history a) = repeatBuffer a" "retransmitArb (next_history a) = retransmitArb a"
  "enableRepeat (next_history a) = enableRepeat a" "txTun2EventDsp (next_history a) = txTun2EventDsp a"
  "repeatHistory (next_history a) < 5"
  by (simp_all add: next_history_def)

lemma next_history_pulling:
  "arbiter_ok a \<Longrightarrow> pulling (repeatHistory (next_history a)) (history_load a) (enableRepeat a)
    (repeat_saved a (history_load a)) (sent_buffer (retransmitArb a)) (next_history a)"
  using history_load_other [of a] by (simp add: pulling_def arbiter_ok_def repeat_saved_def)

lemma pulling_frame:
  "pulling h l e saved sent a \<Longrightarrow> retransmit_ok (retransmitArb b) \<Longrightarrow> sent_buffer (retransmitArb b) = sent \<Longrightarrow>
    arbiter_ok a \<and> repeat_saved a l = saved \<and> enableRepeat a = e"
  by (auto simp: pulling_def arbiter_ok_def repeat_saved_def retransmit_ok_def)

lemma fn_retransmit_frame:
  "fst (fn_retransmit peer now hs ps sq a) = [PacketHashes peer (sq # hs)]"
  "arbiter_ok a \<Longrightarrow> arbiter_ok (snd (fn_retransmit peer now hs ps sq a))"
  "waiting_packets (snd (fn_retransmit peer now hs ps sq a)) = waiting_packets a"
  "repeat_saved (snd (fn_retransmit peer now hs ps sq a)) l = repeat_saved a l"
  "sent_buffer (retransmitArb (snd (fn_retransmit peer now hs ps sq a))) =
    sm_insert now (ucast sq, ps) (sent_buffer (retransmitArb a))"
  by (simp_all add: fn_retransmit_def sendHashesToPartnerSeq_def arbiter_ok_def waiting_packets_def repeat_saved_def sentOverAir_def
      retransmit_ok_def sm_ok_insert)

lemma joint_scheduled:
  fixes m :: nat
  assumes "arbiter_ok a" and "waiting_packets (next_history a) \<noteq> []"
  defines "w \<equiv> waiting_packets (next_history a)" and "n \<equiv> joint_batch m (waiting_packets (next_history a))"
  shows "\<exists>a'. scheduleJointFromTunData node peer_rx validate now peers seq m epoc ts a =
      Some ((words_of (take n w), unat (of_nat n :: u32)),
        JointTransmit peers (packJointZmq (node, epoc, ts, seq) (take n w)) #
          (if validate then [PacketHashes peer_rx (ucast seq # map getHashForWords (take n w))] else []), a') \<and>
    arbiter_ok a' \<and> waiting_packets a' = drop n w \<and>
    repeat_saved a' (history_load a) = repeat_saved a (history_load a) \<and>
    sent_buffer (retransmitArb a') =
      (if validate then sm_insert now (seq, take n w) (sent_buffer (retransmitArb a)) else sent_buffer (retransmitArb a))"
proof -
  from arb.joint_message_sent [OF next_history_pulling [OF assms(1)] assms(2), where m = m and
      h = getHashForWords and upd = "fn_retransmit peer_rx now" and d = validate and node = node and peers = peers
      and seq = seq and epoc = epoc and ts = ts]
  obtain s' where s': "pulling (repeatHistory (next_history a)) (history_load a) (enableRepeat a)
      (repeat_saved a (history_load a)) (sent_buffer (retransmitArb a)) s'" "waiting_packets s' = drop n w"
    "scheduleJointFromTunDataFunctional node peers seq m epoc ts validate fn_packets (fn_next (history_load a))
        fn_first_len getHashForWords (fn_retransmit peer_rx now) (next_history a) =
      Some ((words_of (take n w), unat (of_nat n :: u32)),
        JointTransmit peers (packJointZmq (node, epoc, ts, seq) (take n w)) #
          (if validate then fst (fn_retransmit peer_rx now (map getHashForWords (take n w)) (take n w) (ucast seq) s') else []),
        if validate then snd (fn_retransmit peer_rx now (map getHashForWords (take n w)) (take n w) (ucast seq) s') else s')"
    unfolding w_def n_def by blast
  have "length (repeatBuffer a) = 5" "retransmit_ok (retransmitArb a)" using assms(1) by (simp_all add: arbiter_ok_def)
  note ok = pulling_frame [OF s'(1) this(2) refl]
  have sent: "sent_buffer (retransmitArb s') = sent_buffer (retransmitArb a)" using s'(1) by (simp add: pulling_def)
  have "scheduleJointFromTunData node peer_rx validate now peers seq m epoc ts a =
      scheduleJointFromTunDataFunctional node peers seq m epoc ts validate fn_packets (fn_next (history_load a))
        fn_first_len getHashForWords (fn_retransmit peer_rx now) (next_history a)"
    using mod_less_divisor [of 5 "Suc (repeatHistory a)"] \<open>length (repeatBuffer a) = 5\<close>
    by (auto simp: scheduleJointFromTunData_def Let_def history_load_def next_history_def simp del: mod_less_divisor)
  then show ?thesis
    using s'(2,3) ok sent by (cases validate) (simp_all add: fn_retransmit_frame)
qed

text \<open>
  C5. One call of \<open>scheduleJointFromTunData\<close> ends and sends the longest prefix of the waiting
  packets (the repeats due now, then retransmissions, then the tun queue) that has at most
  \<open>max_words\<close> words, or the first packet alone when that one is already longer. The message is taken
  apart by the receiver into exactly those packets; the others stay waiting, in order. With hash
  validation on, their hashes go to the receiver and the batch is remembered under its sequence
  number. With repeats on, what came from the tun queue is in the slot that is due four calls later.
\<close>
theorem joint_sends_longest_prefix:
  assumes "arbiter_ok a" and "w = waiting_packets (a\<lparr>repeatHistory := (repeatHistory a + 1) mod 5\<rparr>)" and "w \<noteq> []"
    and "length w < 2 ^ 32" and "\<forall>p \<in> set w. length p < 2 ^ 32"
  shows "\<exists>n payload hs a'. scheduleJointFromTunData node peer_rx validate now peers seq max_words epoc ts a =
      Some ((words_of (take n w), n), JointTransmit peers payload # hs, a') \<and>
    0 < n \<and> n \<le> length w \<and> (n = 1 \<or> words_of (take n w) \<le> max_words) \<and>
    (\<forall>k. n < k \<longrightarrow> k \<le> length w \<longrightarrow> max_words < words_of (take k w)) \<and>
    unpackJointZmq payload = Some ((node, epoc, ts, seq), take n w) \<and>
    arbiter_ok a' \<and> waiting_packets a' = drop n w \<and>
    hs = (if validate then [PacketHashes peer_rx (ucast seq # map getHashForWords (take n w))] else []) \<and>
    sent_buffer (retransmitArb a') =
      (if validate then sm_insert now (seq, take n w) (sent_buffer (retransmitArb a)) else sent_buffer (retransmitArb a)) \<and>
    repeat_saved a' (repeatHistory a) = repeat_saved a (repeatHistory a)"
proof -
  have w: "w = waiting_packets (next_history a)" by (simp add: assms(2) next_history_def)
  have l: "history_load a = repeatHistory a"
    using assms(1) by (simp add: history_load_def next_history_def mod_simps arbiter_ok_def)
  let ?n = "joint_batch max_words w"
  have n: "?n \<le> length w" "0 < ?n" using joint_batch_le joint_batch_pos assms(3) by blast+
  have "unat (of_nat ?n :: u32) = ?n" using n(1) assms(4) by (intro unat_of_nat_u32) simp
  moreover have "unpackJointZmq (packJointZmq (node, epoc, ts, seq) (take ?n w)) = Some ((node, epoc, ts, seq), take ?n w)"
    using joint.dec_enc [of "((node, epoc, ts, seq), take ?n w)"] assms(5) by (auto dest: in_set_takeD)
  moreover have "?n = 1 \<or> words_of (take ?n w) \<le> max_words"
    using n(2) joint_batch_fits [of max_words w] by (cases "?n = 1") simp_all
  moreover have "\<forall>k. ?n < k \<longrightarrow> k \<le> length w \<longrightarrow> max_words < words_of (take k w)"
    using joint_batch_max by blast
  ultimately show ?thesis
    using joint_scheduled [OF assms(1), where m = max_words and node = node and peer_rx = peer_rx and
        validate = validate and now = now and peers = peers and seq = seq and epoc = epoc and ts = ts] assms(3) n
    unfolding w [symmetric] l by (intro exI [of _ ?n]) force
qed

theorem joint_sends_longest_prefix_witness:
  "\<exists>n payload hs a'. scheduleJointFromTunData 1 2 True 50 [7] 9 3 100 200
      \<lparr>repeatBuffer = [[], [], [], [], []], repeatHistory = 4, enableRepeat = True,
        retransmitArb = \<lparr>sent_buffer = [], need_retransmit = [[1, 2]]\<rparr>, txTun2EventDsp = [[3], [4, 5, 6]]\<rparr> =
      Some ((words_of (take n [[1, 2], [3], [4, 5, 6]]), n), JointTransmit [7] payload # hs, a') \<and>
    unpackJointZmq payload = Some ((1, 100, 200, 9), take n [[1, 2], [3], [4, 5, 6]]) \<and>
    waiting_packets a' = drop n [[1, 2], [3], [4, 5, 6]]"
proof -
  let ?a = "\<lparr>repeatBuffer = [[], [], [], [], []], repeatHistory = 4, enableRepeat = True,
        retransmitArb = \<lparr>sent_buffer = [], need_retransmit = [[1, 2]]\<rparr>, txTun2EventDsp = [[3], [4, 5, 6]]\<rparr>"
  have "arbiter_ok ?a" by (simp add: arbiter_ok_def retransmit_ok_def)
  moreover have "[[1, 2], [3], [4, 5, 6]] = waiting_packets (?a\<lparr>repeatHistory := (repeatHistory ?a + 1) mod 5\<rparr>)"
    by (simp add: waiting_packets_def)
  moreover have "[[1, 2], [3], [4, 5, 6]] \<noteq> ([] :: packets)" "length ([[1, 2], [3], [4, 5, 6]] :: packets) < 2 ^ 32"
    "\<forall>p \<in> set ([[1, 2], [3], [4, 5, 6]] :: packets). length p < 2 ^ 32" by simp_all
  ultimately show ?thesis
    by (rule joint_sends_longest_prefix [THEN exE]) blast
qed

end
