(* ===== verification/Verify_Hash.thy ===== *)
theory Verify_Hash
  imports Std_Map Air_Messages Packet_Words
begin

text \<open>
  \<open>VerifyHash\<close> (driver/VerifyHash.cpp), receiver side: the lists of packet hashes the sender
  announced, the lists of hashes of what came over the air, and the comparison of the two that
  decides which packets to ask for again. A list starts with the sequence number of the transmission.

  The two reported ratios are doubles: \<open>percent_correct\<close> is left out, and \<open>bytes_per_second\<close>
  is kept as \<open>bytes_in_window\<close>, the sum it is half of. The one double that decides anything, the
  tolerance of \<open>compare\<close>, is modelled exactly: \<open>tolerance n\<close> is the double product
  \<open>n * 0.7\<close>, as a multiple of \<open>2^-53\<close>. \<open>getStatus\<close> is \<open>None\<close> where the code
  would read element 0 of an empty list.
\<close>

section \<open>The tolerance\<close>

fun bit_length :: "nat \<Rightarrow> nat" where
  "bit_length n = (if n = 0 then 0 else Suc (bit_length (n div 2)))"

declare bit_length.simps [simp del]

text \<open>Rounding to 53 significant bits, ties to even.\<close>

definition double_round :: "nat \<Rightarrow> nat" where
  "double_round m =
     (let s = bit_length m - 53; q = m div 2 ^ s; r = m mod 2 ^ s
      in if 2 * r > 2 ^ s \<or> 2 * r = 2 ^ s \<and> odd q then (q + 1) * 2 ^ s else q * 2 ^ s)"

text \<open>The double literal \<open>0.7\<close> is \<open>6305039478318694 / 2^53\<close>.\<close>

definition tolerance :: "nat \<Rightarrow> nat" where
  "tolerance lesser_size = double_round (lesser_size * 6305039478318694)"

definition above_tolerance :: "nat \<Rightarrow> nat \<Rightarrow> bool" where
  "above_tolerance same lesser_size \<longleftrightarrow> same * 2 ^ 53 > tolerance lesser_size"

section \<open>Comparing two lists\<close>

record match_results =
  did_match :: bool
  match_correct :: nat
  match_total :: nat
  match_bytes_correct :: u32
  match_bytes_total :: u32
  missing_indices :: "u32 list"

definition no_match :: match_results where
  "no_match = \<lparr>did_match = False, match_correct = 0, match_total = 0, match_bytes_correct = 0,
    match_bytes_total = 0, missing_indices = []\<rparr>"

text \<open>The loop over the common indices: \<open>same\<close>, \<open>bytes_same\<close>, \<open>bytes_total\<close>, \<open>invalid_idx\<close>.\<close>

fun compare_loop :: "nat \<Rightarrow> u32 list \<Rightarrow> u32 list \<Rightarrow> nat \<times> u32 \<times> u32 \<times> u32 list \<Rightarrow> nat \<times> u32 \<times> u32 \<times> u32 list" where
  "compare_loop i (x # a) (y # b) (same, bytes_same, bytes_total, invalid_idx) =
     compare_loop (i + 1) a b
       (if x = y
        then (same + 1, if i \<noteq> 0 then bytes_same + getLengthFromHash x else bytes_same,
              if i \<noteq> 0 then bytes_total + getLengthFromHash y else bytes_total, invalid_idx)
        else (same, bytes_same, if i \<noteq> 0 then bytes_total + getLengthFromHash y else bytes_total,
              if i \<noteq> 0 then invalid_idx @ [of_nat (i - 1)] else invalid_idx))"
| "compare_loop i a b acc = acc"

definition compare :: "u32 list \<Rightarrow> u32 list \<Rightarrow> match_results" where
  "compare a b =
     (let greater_size = max (length a) (length b);
          lesser_size = min (length a) (length b);
          (same, bytes_same, bytes_total, invalid_idx) = compare_loop 0 a b (0, 0, 0, [])
      in if lesser_size < 5
         then if greater_size = lesser_size \<and> same = lesser_size
              then \<lparr>did_match = True, match_correct = lesser_size, match_total = lesser_size,
                    match_bytes_correct = bytes_same, match_bytes_total = bytes_total, missing_indices = invalid_idx\<rparr>
              else no_match
         else if above_tolerance same lesser_size
              then \<lparr>did_match = True, match_correct = same, match_total = greater_size,
                    match_bytes_correct = bytes_same, match_bytes_total = bytes_total, missing_indices = invalid_idx\<rparr>
              else no_match)"

section \<open>The object\<close>

record verify_hash =
  count_sent :: u32
  count_got :: u32
  bytes_sent :: u32
  bytes_got :: u32
  count_stale_expected :: u32
  count_stale_received :: u32
  bytes_in_window :: nat
  report_after_counter :: u32
  vh_expected :: "(time_point, u32 list) std_map"
  vh_received :: "(time_point, u32 list) std_map"
  data_rate :: "(time_point, u32) std_map"

definition VerifyHash :: verify_hash where
  "VerifyHash = \<lparr>count_sent = 0, count_got = 0, bytes_sent = 0, bytes_got = 0, count_stale_expected = 0,
    count_stale_received = 0, bytes_in_window = 0, report_after_counter = 0, vh_expected = [], vh_received = [],
    data_rate = []\<rparr>"

definition resetCounters :: "verify_hash \<Rightarrow> verify_hash" where
  "resetCounters v = v\<lparr>count_sent := 0, count_got := 0, bytes_sent := 0, bytes_got := 0,
    count_stale_expected := 0, count_stale_received := 0, report_after_counter := 0,
    vh_expected := [], vh_received := []\<rparr>"

text \<open>\<open>pruneOld\<close>: the entries kept and the new values of the two counters (the third is not touched).\<close>

fun prune_hashes ::
    "(time_point, u32 list) std_map \<Rightarrow> time_point \<Rightarrow> u32 \<Rightarrow> u32 \<Rightarrow> (time_point, u32 list) std_map \<times> u32 \<times> u32" where
  "prune_hashes [] now bump_counter bump_counter2 = ([], bump_counter, bump_counter2)"
| "prune_hashes ((t, v) # m) now bump_counter bump_counter2 =
     (if age_us now t > 5000000
      then prune_hashes m now (bump_counter + of_nat (length v)) (bump_counter2 + of_nat (length v))
      else (let (m', c, c2) = prune_hashes m now bump_counter bump_counter2 in ((t, v) # m', c, c2)))"

definition updateDataRate :: "time_point \<Rightarrow> verify_hash \<Rightarrow> verify_hash" where
  "updateDataRate now v =
     (let rate = filter (\<lambda>(t, n). \<not> age_us now t > 2000000) (data_rate v)
      in v\<lparr>data_rate := rate, bytes_in_window := sum_list (map (\<lambda>(t, n). unat n) rate)\<rparr>)"

text \<open>The inner loop of \<open>getStatus\<close>: the first announced list that matches.\<close>

fun find_ideal :: "u32 list \<Rightarrow> (time_point, u32 list) std_map \<Rightarrow> (time_point \<times> u32 list \<times> match_results) option" where
  "find_ideal found [] = None"
| "find_ideal found ((t, ideal) # m) =
     (let r = compare found ideal in if did_match r then Some (t, ideal, r) else find_ideal found m)"

type_synonym retransmit_request = "bool \<times> u8 \<times> u32 list"

definition count_match :: "time_point \<Rightarrow> time_point \<Rightarrow> match_results \<Rightarrow> verify_hash \<Rightarrow> verify_hash" where
  "count_match now t r v = v\<lparr>
     data_rate := sm_insert now (match_bytes_correct r) (data_rate v),
     count_got := count_got v + of_nat (match_correct r), count_sent := count_sent v + of_nat (match_total r),
     bytes_got := bytes_got v + match_bytes_correct r, bytes_sent := bytes_sent v + match_bytes_total r,
     vh_expected := sm_erase t (vh_expected v)\<rparr>"

text \<open>
  The outer loop, over the lists received: \<open>kept\<close> are the ones it passed. Its result is the
  object and the values of \<open>key_of_interest\<close>, \<open>need_retransmit\<close> and \<open>retransmit_return\<close>.
\<close>

fun status_loop ::
    "time_point \<Rightarrow> time_point \<Rightarrow> (time_point, u32 list) std_map \<Rightarrow> (time_point, u32 list) std_map \<Rightarrow>
      bool \<times> bool \<times> retransmit_request \<Rightarrow> verify_hash \<Rightarrow> ((bool \<times> bool \<times> retransmit_request) \<times> verify_hash) option" where
  "status_loop now for_key kept [] flags v = Some (flags, v\<lparr>vh_received := kept\<rparr>)"
| "status_loop now for_key kept ((t, found) # rest) (_, _, retransmit_return) v =
     (let key_of_interest = (t = for_key)
      in case find_ideal found (vh_expected v) of
           None \<Rightarrow> status_loop now for_key (kept @ [(t, found)]) rest (key_of_interest, False, retransmit_return) v
         | Some (ti, ideal, r) \<Rightarrow>
             if ideal = [] then None
             else
               let flags = (key_of_interest, match_total r \<noteq> match_correct r,
                            (True, ucast (ideal ! 0), missing_indices r));
                   v' = count_match now ti r v
               in if key_of_interest then Some (flags, v'\<lparr>vh_received := kept @ rest\<rparr>)
                  else status_loop now for_key kept rest flags v')"

definition getStatus :: "time_point \<Rightarrow> time_point \<Rightarrow> verify_hash \<Rightarrow> (retransmit_request \<times> verify_hash) option" where
  "getStatus now for_key v =
     (let (expected, stale_e, sent) = prune_hashes (vh_expected v) now (count_stale_expected v) (count_sent v);
          (received, stale_r, junk) = prune_hashes (vh_received v) now (count_stale_received v) 0;
          v1 = v\<lparr>vh_expected := expected, count_stale_expected := stale_e, count_sent := sent,
                 vh_received := received, count_stale_received := stale_r\<rparr>
      in case status_loop now for_key [] received (False, False, (False, 0, [])) v1 of
           None \<Rightarrow> None
         | Some ((key_of_interest, need_retransmit, retransmit_return), v2) \<Rightarrow>
             Some (if key_of_interest \<and> need_retransmit then retransmit_return else (False, 0, []),
                   updateDataRate now v2))"

definition rateControlledReport :: "time_point \<Rightarrow> time_point \<Rightarrow> verify_hash \<Rightarrow> (retransmit_request \<times> verify_hash) option" where
  "rateControlledReport now for_key v =
     getStatus now for_key (v\<lparr>report_after_counter := report_after_counter v + 1\<rparr>)"

text \<open>The clock is read on entry (\<open>now\<close>) and again in \<open>getStatus\<close> (\<open>later\<close>); the default
  key is the epoch.\<close>

definition gotHashListFromPeer :: "time_point \<Rightarrow> time_point \<Rightarrow> u32 list \<Rightarrow> verify_hash \<Rightarrow> verify_hash option" where
  "gotHashListFromPeer now later v vh =
     map_option snd (rateControlledReport later 0 (vh\<lparr>vh_expected := sm_insert now v (vh_expected vh)\<rparr>))"

definition gotHashListOverAir ::
    "time_point \<Rightarrow> time_point \<Rightarrow> u32 list \<Rightarrow> air_header \<Rightarrow> verify_hash \<Rightarrow> (retransmit_request \<times> verify_hash) option" where
  "gotHashListOverAir now later v hdr vh =
     (let v2 = ucast (fst (snd hdr)) # v
      in rateControlledReport later now (vh\<lparr>vh_received := sm_insert now v2 (vh_received vh)\<rparr>))"

section \<open>The tolerance is seventy percent\<close>

lemma bit_length_bounds: "0 < m \<Longrightarrow> 2 ^ (bit_length m - 1) \<le> m \<and> m < 2 ^ bit_length m"
proof (induction m rule: bit_length.induct)
  case (1 m)
  show ?case
  proof (cases "m = 1")
    case True
    then show ?thesis by (simp add: bit_length.simps)
  next
    case False
    then have "0 < m div 2" using 1 by linarith
    then have ih: "2 ^ (bit_length (m div 2) - 1) \<le> m div 2" "m div 2 < 2 ^ bit_length (m div 2)"
      and pos: "bit_length (m div 2) = Suc (bit_length (m div 2) - 1)"
      using 1 bit_length.simps [of "m div 2"] by auto
    have "bit_length m = Suc (bit_length (m div 2))" using 1 bit_length.simps [of m] by simp
    moreover have "2 * 2 ^ (bit_length (m div 2) - 1) = (2::nat) ^ bit_length (m div 2)"
      by (subst (2) pos) simp
    ultimately show ?thesis using ih by simp linarith
  qed
qed

lemma double_round_near: "double_round m * 2 ^ 53 \<le> m * 2 ^ 53 + m" "m * 2 ^ 53 \<le> double_round m * 2 ^ 53 + m"
proof -
  define s q r where "s = bit_length m - 53" and "q = m div 2 ^ s" and "r = m mod 2 ^ s"
  have m: "m = q * 2 ^ s + r" unfolding q_def r_def by (rule div_mult_mod_eq [symmetric])
  have d: "double_round m = (if 2 * r > 2 ^ s \<or> 2 * r = 2 ^ s \<and> odd q then (q + 1) * 2 ^ s else q * 2 ^ s)"
    by (simp add: double_round_def Let_def s_def q_def r_def)
  have r: "r < 2 ^ s" by (simp add: r_def)
  have near: "2 * double_round m \<le> 2 * m + 2 ^ s" "2 * m \<le> 2 * double_round m + 2 ^ s"
    unfolding d using m r by (auto simp: algebra_simps)
  have "double_round m * 2 ^ 53 \<le> m * 2 ^ 53 + m \<and> m * 2 ^ 53 \<le> double_round m * 2 ^ 53 + m"
  proof (cases "s = 0")
    case True
    then have "double_round m = m" unfolding d using m r by simp
    then show ?thesis by simp
  next
    case False
    then have big: "bit_length m - 1 = s + 52" "0 < m"
      by (cases "m = 0"; simp add: s_def bit_length.simps [of 0])+
    then have "2 ^ s * 2 ^ 52 \<le> m" using bit_length_bounds [of m] by (simp add: power_add)
    then show ?thesis using near by simp
  qed
  then show "double_round m * 2 ^ 53 \<le> m * 2 ^ 53 + m" "m * 2 ^ 53 \<le> double_round m * 2 ^ 53 + m" by blast+
qed

lemma above_tolerance_if: "n < 2 ^ 40 \<Longrightarrow> 7 * n < 10 * same \<Longrightarrow> above_tolerance same n"
  using double_round_near(1) [of "n * 6305039478318694"] by (simp add: above_tolerance_def tolerance_def)

lemma not_above_tolerance_if: "n < 2 ^ 40 \<Longrightarrow> 10 * same < 7 * n \<Longrightarrow> \<not> above_tolerance same n"
  using double_round_near(2) [of "n * 6305039478318694"] by (simp add: above_tolerance_def tolerance_def)

text \<open>At exactly seventy percent the rounding of the product decides.\<close>

lemma tolerance_boundary: "above_tolerance 63 90 \<and> \<not> above_tolerance 7 10"
  by (simp add: above_tolerance_def tolerance_def double_round_def bit_length.simps)

section \<open>What compare reports\<close>

definition mismatches :: "u32 list \<Rightarrow> u32 list \<Rightarrow> nat list" where
  "mismatches a b = filter (\<lambda>i. a ! i \<noteq> b ! i) [0..<min (length a) (length b)]"

lemma mismatches_Nil [simp]: "mismatches [] b = []" "mismatches a [] = []"
  by (simp_all add: mismatches_def)

lemma mismatches_Cons:
  "mismatches (x # a) (y # b) = (if x = y then [] else [0]) @ map Suc (mismatches a b)"
proof -
  have "[0..<Suc (min (length a) (length b))] = 0 # map Suc [0..<min (length a) (length b)]"
    by (simp add: map_Suc_upt upt_conv_Cons del: upt_Suc)
  then show ?thesis by (simp add: mismatches_def filter_map comp_def)
qed

lemma mismatches_less: "i \<in> set (mismatches a b) \<Longrightarrow> i < length a \<and> i < length b"
  by (simp add: mismatches_def)

lemma mismatches_empty: "length a = length b \<Longrightarrow> mismatches a b = [] \<longleftrightarrow> a = b"
  by (auto simp: mismatches_def filter_empty_conv intro: nth_equalityI)

lemma length_mismatches: "length (mismatches a b) \<le> min (length a) (length b)"
  using length_filter_le [of "\<lambda>i. a ! i \<noteq> b ! i" "[0..<min (length a) (length b)]"] by (simp add: mismatches_def)

text \<open>The bytes of the announced packets, and of those that came through.\<close>

definition hash_bytes :: "u32 list \<Rightarrow> u32" where
  "hash_bytes hs = sum_list (map getLengthFromHash hs)"

definition matching :: "u32 list \<Rightarrow> u32 list \<Rightarrow> u32 list" where
  "matching a b = map fst (filter (\<lambda>(x, y). x = y) (zip a b))"

lemma compare_loop_Suc:
  "compare_loop (Suc i) a b (same, bs, bt, idx) =
    (same + length (matching a b), bs + hash_bytes (matching a b), bt + hash_bytes (take (length a) b),
     idx @ map (\<lambda>j. of_nat (i + j)) (mismatches a b))"
proof (induction a arbitrary: i b same bs bt idx)
  case Nil
  then show ?case by (simp add: matching_def hash_bytes_def)
next
  case (Cons x a)
  show ?case
  proof (cases b)
    case Nil
    then show ?thesis by (simp add: matching_def hash_bytes_def)
  next
    case (Cons y b')
    have "map (\<lambda>j. of_nat (Suc i + j) :: u32) js = map ((\<lambda>j. of_nat (i + j)) \<circ> Suc) js" for js
      by simp
    then show ?thesis
      using Cons.IH [of "Suc i" b'] Cons
      by (simp add: matching_def hash_bytes_def mismatches_Cons comp_def algebra_simps)
  qed
qed

lemma compare_loop_lists:
  "compare_loop 0 (x # a) (y # b) (0, 0, 0, []) =
    ((if x = y then 1 else 0) + length (matching a b), hash_bytes (matching a b), hash_bytes (take (length a) b),
     map of_nat (mismatches a b))"
  using compare_loop_Suc [of 0 a b] by simp

lemma matching_mismatches: "length (matching a b) + length (mismatches a b) = min (length a) (length b)"
proof (induction a arbitrary: b)
  case (Cons x a)
  then show ?case by (cases b) (auto simp: matching_def mismatches_Cons)
qed (simp add: matching_def)

lemma matching_same [simp]: "matching b b = b"
  by (induction b) (simp_all add: matching_def)

lemma compare_small:
  assumes "length b < 4" "length a = length b"
  shows "compare (s # a) (s # b) = (if a = b
      then \<lparr>did_match = True, match_correct = Suc (length b), match_total = Suc (length b),
        match_bytes_correct = hash_bytes b, match_bytes_total = hash_bytes b, missing_indices = []\<rparr>
      else no_match)"
proof (cases "a = b")
  case True
  then have "mismatches a b = []" using mismatches_empty by blast
  with True assms show ?thesis unfolding compare_def compare_loop_lists by (simp add: Let_def)
next
  case False
  then have "mismatches a b \<noteq> []" using mismatches_empty [OF assms(2)] by blast
  then have "length (matching a b) < length b" using matching_mismatches [of a b] assms(2) by (cases "mismatches a b") auto
  with False assms show ?thesis unfolding compare_def compare_loop_lists by (simp add: Let_def)
qed

lemma compare_large:
  "4 \<le> length a \<Longrightarrow> 4 \<le> length b \<Longrightarrow>
    compare (s # a) (s # b) = (if above_tolerance (Suc (length (matching a b))) (Suc (min (length a) (length b)))
      then \<lparr>did_match = True, match_correct = Suc (length (matching a b)), match_total = Suc (max (length a) (length b)),
        match_bytes_correct = hash_bytes (matching a b), match_bytes_total = hash_bytes (take (length a) b),
        missing_indices = map of_nat (mismatches a b)\<rparr>
      else no_match)"
  unfolding compare_def compare_loop_lists by (simp add: Let_def)

text \<open>
  C26. The comparison of the hashes received with the hashes announced for a transmission, equally
  many and under the same sequence number. Up to three packets must all be right. From four on, the
  lists match when fewer than three in ten entries (the sequence number counts as one) differ and do
  not match when more do. A match names the packets that are wrong and no others, by their index, in
  increasing order, and reports fewer correct than total entries just when some packet is wrong.
\<close>
theorem compare_reports_mismatches:
  assumes "length a = length b" and "length b < 2 ^ 32"
  shows "(length b < 4 \<longrightarrow> did_match (compare (s # a) (s # b)) = (a = b)) \<and>
    (4 \<le> length b \<longrightarrow> 10 * length (mismatches a b) < 3 * Suc (length b) \<longrightarrow> did_match (compare (s # a) (s # b))) \<and>
    (4 \<le> length b \<longrightarrow> 3 * Suc (length b) < 10 * length (mismatches a b) \<longrightarrow> \<not> did_match (compare (s # a) (s # b))) \<and>
    (did_match (compare (s # a) (s # b)) \<longrightarrow>
      map unat (missing_indices (compare (s # a) (s # b))) = filter (\<lambda>i. a ! i \<noteq> b ! i) [0..<length b] \<and>
      (match_total (compare (s # a) (s # b)) \<noteq> match_correct (compare (s # a) (s # b))) = (a \<noteq> b))"
proof -
  note m = matching_mismatches [of a b] and e = mismatches_empty [OF assms(1)]
  have idx: "map unat (map of_nat (mismatches a b) :: u32 list) = filter (\<lambda>i. a ! i \<noteq> b ! i) [0..<length b]"
    using assms by (auto simp: mismatches_def intro!: map_idI unat_of_nat_u32)
  show ?thesis
  proof (cases "length b < 4")
    case True
    then show ?thesis
      using compare_small [OF True assms(1), of s] e idx by (auto simp: no_match_def)
  next
    case False
    then have "Suc (length b) < 2 ^ 40" using assms(2) by simp
    note tol = above_tolerance_if [OF this, of "Suc (length (matching a b))"]
      not_above_tolerance_if [OF this, of "Suc (length (matching a b))"]
    have "length (matching a b) = length b \<longleftrightarrow> a = b" using m e assms(1) by auto
    then show ?thesis
      using False compare_large [of a b s] assms(1) m tol idx by (auto simp: no_match_def)
  qed
qed

theorem compare_reports_mismatches_witness:
  "did_match (compare [9, 1, 2, 3, 4] [9, 1, 7, 3, 4]) \<and>
   map unat (missing_indices (compare [9, 1, 2, 3, 4] [9, 1, 7, 3, 4])) = [1]"
proof -
  have f: "mismatches [1, 2, 3, 4] [1, 7, 3, 4] = [1]" by (simp add: mismatches_Cons)
  then have "filter (\<lambda>i. [1, 2, 3, 4] ! i \<noteq> ([1, 7, 3, 4] ! i :: u32)) [0..<length ([1, 7, 3, 4] :: u32 list)] = [1]"
    by (simp add: mismatches_def)
  then show ?thesis
    using compare_reports_mismatches [of "[1, 2, 3, 4]" "[1, 7, 3, 4]" 9] f by simp
qed

text \<open>
  A transmission whose last packets never arrived matches, is reported incomplete, and asks for
  nothing: the indices past the end of the shorter list are not in the report.
\<close>

lemma lost_tail_not_requested:
  assumes "4 \<le> n" "n < length b" "length b < 2 ^ 32"
  shows "did_match (compare (s # take n b) (s # b)) \<and> missing_indices (compare (s # take n b) (s # b)) = [] \<and>
    match_total (compare (s # take n b) (s # b)) \<noteq> match_correct (compare (s # take n b) (s # b))"
proof -
  have "mismatches (take n b) b = []" using assms(2) by (simp add: mismatches_def filter_empty_conv)
  then have "length (matching (take n b) b) = n" using matching_mismatches [of "take n b" b] assms(2) by simp
  then show ?thesis
    using compare_large [of "take n b" b s] assms above_tolerance_if [of "Suc n" "Suc n"]
      \<open>mismatches (take n b) b = []\<close> by simp
qed

section \<open>What is asked for\<close>

definition young :: "time_point \<Rightarrow> (time_point, u32 list) std_map \<Rightarrow> (time_point, u32 list) std_map" where
  "young now m = filter (\<lambda>(t, v). \<not> age_us now t > 5000000) m"

lemma prune_hashes_fst: "fst (prune_hashes m now c c2) = young now m"
  by (induction m now c c2 rule: prune_hashes.induct) (auto simp: young_def split: prod.splits)

lemma young_append: "young now (a @ b) = young now a @ young now b"
  by (simp add: young_def)

lemma find_ideal_first:
  "list_all (\<lambda>(t, i). \<not> did_match (compare found i)) pre \<Longrightarrow> did_match (compare found ideal) \<Longrightarrow>
    find_ideal found (pre @ (t, ideal) # post) = Some (t, ideal, compare found ideal)"
  by (induction pre) (auto simp: Let_def)

lemma find_ideal_None: "find_ideal found m = None \<longleftrightarrow> list_all (\<lambda>(t, i). \<not> did_match (compare found i)) m"
  by (induction m) (auto simp: Let_def split: if_splits)

lemma status_loop_pass:
  "list_all (\<lambda>(t, f). t \<noteq> key \<and> find_ideal f (vh_expected v) = None) xs \<Longrightarrow>
    status_loop now key kept (xs @ ys) (False, False, r) v = status_loop now key (kept @ xs) ys (False, False, r) v"
  by (induction xs arbitrary: kept) (auto simp: Let_def)

text \<open>What \<open>getStatus\<close> finds when the lists received before match nothing.\<close>

lemma getStatus_key:
  assumes R: "young now (vh_received v) = old @ [(key, found)]"
    and old: "list_all (\<lambda>(t, f). t \<noteq> key \<and> find_ideal f (young now (vh_expected v)) = None) old"
    and E: "find_ideal found (young now (vh_expected v)) = Some (ti, ideal, r)" and "ideal \<noteq> []"
  shows "\<exists>v'. getStatus now key v = Some
      (if match_total r \<noteq> match_correct r then (True, ucast (ideal ! 0), missing_indices r) else (False, 0, []), v') \<and>
    vh_received v' = old \<and> vh_expected v' = sm_erase ti (young now (vh_expected v))"
proof -
  obtain sx c where px: "prune_hashes (vh_expected v) now (count_stale_expected v) (count_sent v) =
      (young now (vh_expected v), sx, c)" using prune_hashes_fst by (metis prod.collapse)
  obtain sr j where pr: "prune_hashes (vh_received v) now (count_stale_received v) 0 = (old @ [(key, found)], sr, j)"
    using prune_hashes_fst R by (metis prod.collapse)
  show ?thesis
    using E assms(4)
    by (simp add: getStatus_def px pr Let_def status_loop_pass old count_match_def updateDataRate_def)
qed

lemma getStatus_quiet:
  assumes "young now (vh_received v) = []"
  shows "\<exists>v'. getStatus now key v = Some ((False, 0, []), v') \<and>
    vh_received v' = [] \<and> vh_expected v' = young now (vh_expected v)"
proof -
  obtain sx c where px: "prune_hashes (vh_expected v) now (count_stale_expected v) (count_sent v) =
      (young now (vh_expected v), sx, c)" using prune_hashes_fst by (metis prod.collapse)
  obtain sr j where pr: "prune_hashes (vh_received v) now (count_stale_received v) 0 = ([], sr, j)"
    using prune_hashes_fst assms by (metis prod.collapse)
  show ?thesis by (simp add: getStatus_def px pr Let_def updateDataRate_def)
qed

end
