(* ===== verification/Retransmission.thy ===== *)
theory Retransmission
  imports Arbiter Verify_Hash
begin

text \<open>
  The retransmission cycle across its four components: the arbiter sends a batch and announces its
  hashes (\<open>Arbiter\<close>), the receiver compares them with what came over the air (\<open>Verify_Hash\<close>)
  and asks for what is wrong (\<open>DemodThread::demodGotPacket\<close>, \<open>HiggsPartner.cpp\<close>), and the
  request reaches the sender's \<open>RetransmitBuffer\<close> (the handlers of \<open>handlePcPcVectorType\<close> in
  EventDsp.cpp). The bus frame around each vector is library code and carries the vector unchanged.
\<close>

section \<open>The messages and their handlers\<close>

definition sendRetransmitRequestToPartner :: "nat \<Rightarrow> u8 \<Rightarrow> u32 list \<Rightarrow> arb_message" where
  "sendRetransmitRequestToPartner peer seq indices = RetransmitRequest peer (ucast seq # indices)"

definition handle_packet_hash :: "time_point \<Rightarrow> time_point \<Rightarrow> u32 list \<Rightarrow> verify_hash \<Rightarrow> verify_hash option" where
  "handle_packet_hash now later data_vec vh = gotHashListFromPeer now later data_vec vh"

definition handle_req_retransmit :: "time_point \<Rightarrow> u32 list \<Rightarrow> retransmit_buffer \<Rightarrow> retransmit_buffer" where
  "handle_req_retransmit now data_vec b =
     (if length data_vec > 1 then scheduleRetransmit now (ucast (data_vec ! 0)) (tl data_vec) b else b)"

text \<open>The tail of \<open>demodGotPacket\<close> with hash validation on; \<open>peer\<close> is \<open>retransmit_to_peer_id\<close>.\<close>

definition demod_verify ::
    "time_point \<Rightarrow> time_point \<Rightarrow> nat \<Rightarrow> u32 list \<Rightarrow> air_header \<Rightarrow> verify_hash \<Rightarrow> (arb_message list \<times> verify_hash) option" where
  "demod_verify now later peer hs hdr vh =
     (case gotHashListOverAir now later hs hdr vh of
        None \<Rightarrow> None
      | Some ((needed, retransmit_seq, retransmit_idxs), vh') \<Rightarrow>
          Some (if needed then [sendRetransmitRequestToPartner peer retransmit_seq retransmit_idxs] else [], vh'))"

section \<open>The receiver\<close>

lemma young_keeps: "\<not> age_us now t > 5000000 \<Longrightarrow> young now [(t, v)] = [(t, v)]"
  by (simp add: young_def)

lemma announced:
  assumes "vh_received vh = []" and "\<forall>e \<in> set (vh_expected vh). fst e < t1" and "\<not> age_us t2 t1 > 5000000"
  shows "\<exists>vh1. handle_packet_hash t1 t2 hs vh = Some vh1 \<and> vh_received vh1 = [] \<and>
    vh_expected vh1 = young t2 (vh_expected vh) @ [(t1, hs)]"
  using getStatus_quiet [of t2 "vh\<lparr>vh_expected := vh_expected vh @ [(t1, hs)], report_after_counter := report_after_counter vh + 1\<rparr>" 0]
    assms
  by (auto simp: handle_packet_hash_def gotHashListFromPeer_def rateControlledReport_def sm_insert_last
      young_append young_keeps young_def)

lemma compared:
  assumes "vh_received vh = []" and "vh_expected vh = pre @ [(t1, ideal)]" and "ideal \<noteq> []"
    and "list_all (\<lambda>(t, i). \<not> did_match (compare (ucast seq # rs) i)) pre" and "did_match (compare (ucast seq # rs) ideal)"
    and "\<not> age_us t4 t1 > 5000000" and "\<not> age_us t4 t3 > 5000000"
  shows "\<exists>vh2. demod_verify t3 t4 peer rs (len, seq, flags) vh = Some
    (if match_total (compare (ucast seq # rs) ideal) \<noteq> match_correct (compare (ucast seq # rs) ideal)
     then [RetransmitRequest peer (ucast (ucast (ideal ! 0) :: u8) # missing_indices (compare (ucast seq # rs) ideal))]
     else [], vh2)"
proof -
  let ?f = "ucast seq # rs :: u32 list"
  let ?v = "vh\<lparr>vh_received := [(t3, ?f)], report_after_counter := report_after_counter vh + 1\<rparr>"
  have "list_all (\<lambda>(t, i). \<not> did_match (compare ?f i)) (young t4 pre)"
    using assms(4) by (auto simp: young_def list_all_iff)
  then have "find_ideal ?f (young t4 (vh_expected ?v)) = Some (t1, ideal, compare ?f ideal)"
    using assms(2,5,6) by (simp add: young_append young_keeps find_ideal_first)
  from getStatus_key [OF _ _ this assms(3), of "[]" t3] assms(7)
  obtain v' where "getStatus t4 t3 ?v = Some
      (if match_total (compare ?f ideal) \<noteq> match_correct (compare ?f ideal)
       then (True, ucast (ideal ! 0), missing_indices (compare ?f ideal)) else (False, 0, []), v')"
    by (auto simp: young_keeps)
  then show ?thesis
    using assms(1) by (simp add: demod_verify_def gotHashListOverAir_def rateControlledReport_def
        sendRetransmitRequestToPartner_def)
qed

section \<open>The cycle\<close>

text \<open>The packets of a batch whose received hash is wrong, in order.\<close>

definition lost_packets :: "packets \<Rightarrow> u32 list \<Rightarrow> packets" where
  "lost_packets ps rs = map ((!) ps) (filter (\<lambda>i. rs ! i \<noteq> getHashForWords (ps ! i)) [0..<length ps])"

lemma lost_packets_eq:
  "length rs = length ps \<Longrightarrow> lost_packets ps rs = map ((!) ps) (mismatches rs (map getHashForWords ps))"
  by (auto simp: lost_packets_def mismatches_def intro!: arg_cong [of _ _ "map _"] filter_cong)

lemma requested:
  assumes "\<forall>e \<in> set m. fst e < now" "list_all (\<lambda>(t, s, ps). s \<noteq> seq) m" "length ps \<le> 1919293"
    and "sent_buffer b = sm_insert now (seq, ps) m" "idx \<noteq> []" "\<forall>i \<in> set idx. i < length ps"
  shows "need_retransmit (handle_req_retransmit t5 (ucast seq # map of_nat idx) b) =
    need_retransmit b @ map ((!) ps) idx"
proof -
  have s: "ucast (ucast seq :: u32) = seq" by simp
  have u: "unat (of_nat i :: u32) = i" if "i \<in> set idx" for i
    using that assms(3,6) by (intro unat_of_nat_u32) (auto dest!: bspec)
  have "list_all (\<lambda>x. unat x < length ps) (map of_nat idx :: u32 list)"
    using assms(6) by (auto simp: list_all_iff u)
  moreover have "sent_buffer b = m @ (now, seq, ps) # []" using assms(1,4) by (simp add: sm_insert_last)
  ultimately show ?thesis
    using scheduleRetransmit_found [of b m now seq ps "[]" "map of_nat idx" t5] assms(2,3,5)
    by (auto simp: handle_req_retransmit_def u)
qed

text \<open>
  C4. Lost packets are sent again. The arbiter sends a batch \<open>ps\<close> with hash validation on; the
  announced hashes reach the receiver; it decodes as many packets as were sent, fewer than three in
  ten of them wrong, and all of this within five seconds. Then it asks for a retransmission, and the
  request puts exactly the packets whose hash was wrong, in order, at the end of the arbiter's
  retransmission queue, which is sent before anything from the tun queue. The hypotheses ask that the
  receiver has settled earlier transmissions (none of the announced ones still kept matches this one)
  and that no transmission with this sequence number is left in the retransmit buffer.
\<close>
theorem lost_packets_resent:
  assumes "arbiter_ok a" and "scheduleJointFromTunData node rx True now peers seq max_words epoc ts a =
      Some (counts, [JointTransmit peers payload, PacketHashes rx hs], a')"
    and "unpackJointZmq payload = Some ((node, epoc, ts, seq), ps)" and "\<forall>p \<in> set (waiting_packets (next_history a)). length p < 2 ^ 32"
    and "\<forall>e \<in> set (sent_buffer (retransmitArb a)). fst e < now"
    and "list_all (\<lambda>(t, s, qs). s \<noteq> seq) (sent_buffer (retransmitArb a))"
    and "vh_received vh = []" and "\<forall>e \<in> set (vh_expected vh). fst e < t1"
    and "list_all (\<lambda>(t, i). \<not> did_match (compare (ucast seq # rs) i)) (vh_expected vh)"
    and "\<not> age_us t2 t1 > 5000000" and "\<not> age_us t4 t1 > 5000000" and "\<not> age_us t4 t3 > 5000000"
    and "length rs = length ps" and "4 \<le> length ps" and "length ps \<le> 1919293"
    and "0 < length (lost_packets ps rs)" and "10 * length (lost_packets ps rs) < 3 * (length ps + 1)"
  shows "\<exists>vh1 vh2 request. handle_packet_hash t1 t2 hs vh = Some vh1 \<and>
    demod_verify t3 t4 tx rs (len, seq, flags) vh1 = Some ([RetransmitRequest tx request], vh2) \<and>
    need_retransmit (handle_req_retransmit t5 request (retransmitArb a')) =
      need_retransmit (retransmitArb a') @ lost_packets ps rs"
proof -
  let ?w = "waiting_packets (next_history a)" and ?hs = "map getHashForWords ps"
  have w: "?w \<noteq> []"
  proof
    assume "?w = []"
    then have "scheduleJointFromTunData node rx True now peers seq max_words epoc ts a = Some ((0, 0), [], next_history a)
        \<or> scheduleJointFromTunData node rx True now peers seq max_words epoc ts a = None"
      using arb.joint_nothing_sent [OF next_history_pulling [OF assms(1)]]
      by (simp add: scheduleJointFromTunData_def Let_def next_history_def history_load_def)
    with assms(2) show False by auto
  qed
  from joint_scheduled [OF assms(1) w, where m = max_words and node = node and peer_rx = rx and validate = True
      and now = now and peers = peers and seq = seq and epoc = epoc and ts = ts] assms(2)
  obtain n where n: "payload = packJointZmq (node, epoc, ts, seq) (take n ?w)"
    "hs = ucast seq # map getHashForWords (take n ?w)"
    "sent_buffer (retransmitArb a') = sm_insert now (seq, take n ?w) (sent_buffer (retransmitArb a))"
    by auto
  then have ps: "ps = take n ?w"
    using joint.dec_enc [of "((node, epoc, ts, seq), take n ?w)"] assms(3,4) by (auto dest: in_set_takeD)
  let ?bad = "mismatches rs ?hs"
  have lost: "lost_packets ps rs = map ((!) ps) ?bad" by (rule lost_packets_eq [OF assms(13)])
  have len: "length rs = length ?hs" using assms(13) by simp
  obtain vh1 where vh1: "handle_packet_hash t1 t2 hs vh = Some vh1" "vh_received vh1 = []"
    "vh_expected vh1 = young t2 (vh_expected vh) @ [(t1, hs)]"
    using announced [OF assms(7,8,10)] by blast
  have hs: "hs = ucast seq # ?hs" using n(2) ps by simp
  have tol: "above_tolerance (Suc (length (matching rs ?hs))) (Suc (length ps))"
    using matching_mismatches [of rs ?hs] assms(13,15,17) lost by (intro above_tolerance_if) simp_all
  have cmp: "compare (ucast seq # rs) hs = \<lparr>did_match = True, match_correct = Suc (length (matching rs ?hs)),
      match_total = Suc (length ps), match_bytes_correct = hash_bytes (matching rs ?hs),
      match_bytes_total = hash_bytes (take (length rs) ?hs), missing_indices = map of_nat ?bad\<rparr>"
    using compare_large [of rs ?hs "ucast seq"] tol assms(13,14) by (simp add: hs)
  have "?bad \<noteq> []" using assms(16) lost by auto
  then have fewer: "length (matching rs ?hs) \<noteq> length ps"
    using matching_mismatches [of rs ?hs] assms(13) by (cases ?bad) auto
  have pre: "list_all (\<lambda>(t, i). \<not> did_match (compare (ucast seq # rs) i)) (young t2 (vh_expected vh))"
    using assms(9) by (auto simp: young_def list_all_iff)
  have "ucast (ucast (hs ! 0) :: u8) = (ucast seq :: u32)" by (simp add: hs)
  with compared [OF vh1(2,3) _ pre _ assms(11,12), of tx len flags] cmp fewer hs
  obtain vh2 where "demod_verify t3 t4 tx rs (len, seq, flags) vh1 =
      Some ([RetransmitRequest tx (ucast seq # map of_nat ?bad)], vh2)" by auto
  moreover have "need_retransmit (handle_req_retransmit t5 (ucast seq # map of_nat ?bad) (retransmitArb a')) =
      need_retransmit (retransmitArb a') @ map ((!) ps) ?bad"
    using n(3) ps assms(5,6,15) \<open>?bad \<noteq> []\<close> by (intro requested) (auto dest: mismatches_less)
  ultimately show ?thesis unfolding lost using vh1(1) by blast
qed

text \<open>Four one-word packets are sent and the first comes through wrong.\<close>

definition example_arbiter :: arbiter where
  "example_arbiter = \<lparr>repeatBuffer = [[], [], [], [], []], repeatHistory = 0, enableRepeat = False,
    retransmitArb = RetransmitBuffer, txTun2EventDsp = [[10], [20], [30], [40]]\<rparr>"

definition example_hashes :: "u32 list" where
  "example_hashes = (getHashForWords [10] + 1) # map getHashForWords [[20], [30], [40]]"

lemma example_lost: "lost_packets [[10], [20], [30], [40]] example_hashes = [[10]]"
  by (simp add: lost_packets_def example_hashes_def upt_rec)

lemma example_sent:
  "\<exists>a'. scheduleJointFromTunData 1 2 True 5000 [7] 9 100 50 60 example_arbiter =
    Some ((4, 4), [JointTransmit [7] (packJointZmq (1, 50, 60, 9) [[10], [20], [30], [40]]),
      PacketHashes 2 (9 # map getHashForWords [[10], [20], [30], [40]])], a') \<and>
    need_retransmit (retransmitArb a') = []"
proof -
  have w: "waiting_packets (next_history example_arbiter) = [[10], [20], [30], [40]]"
    by (simp add: waiting_packets_def next_history_def example_arbiter_def RetransmitBuffer_def)
  have ok: "arbiter_ok example_arbiter" by (simp add: arbiter_ok_def example_arbiter_def retransmit_ok_steps)
  from joint_scheduled [OF ok, where m = 100 and validate = True and node = 1 and peer_rx = 2 and
      now = 5000 and peers = "[7]" and seq = 9 and epoc = 50 and ts = 60, unfolded w]
  obtain a' where a': "scheduleJointFromTunData 1 2 True 5000 [7] 9 100 50 60 example_arbiter =
    Some ((4, 4), [JointTransmit [7] (packJointZmq (1, 50, 60, 9) [[10], [20], [30], [40]]),
      PacketHashes 2 (9 # map getHashForWords [[10], [20], [30], [40]])], a')" "waiting_packets a' = []"
    by (auto simp: joint_batch_def)
  from a'(2) have "need_retransmit (retransmitArb a') = []" by (simp add: waiting_packets_def)
  with a'(1) show ?thesis by blast
qed

theorem lost_packets_resent_witness:
  "\<exists>(a' :: arbiter) vh1 vh2 request. need_retransmit (retransmitArb a') = [] \<and>
    handle_packet_hash 6000 7000 (9 # map getHashForWords [[10], [20], [30], [40]]) VerifyHash = Some vh1 \<and>
    demod_verify 8000 9000 1 example_hashes (100, 9, 0) vh1 = Some ([RetransmitRequest 1 request], vh2) \<and>
    need_retransmit (handle_req_retransmit 10000 request (retransmitArb a')) = [[10]]"
proof -
  obtain a' where a': "scheduleJointFromTunData 1 2 True 5000 [7] 9 100 50 60 example_arbiter =
    Some ((4, 4), [JointTransmit [7] (packJointZmq (1, 50, 60, 9) [[10], [20], [30], [40]]),
      PacketHashes 2 (9 # map getHashForWords [[10], [20], [30], [40]])], a')" "need_retransmit (retransmitArb a') = []"
    using example_sent by blast
  have "unpackJointZmq (packJointZmq (1, 50, 60, 9) [[10], [20], [30], [40]]) = Some ((1, 50, 60, 9), [[10], [20], [30], [40]])"
    using joint.dec_enc [of "((1, 50, 60, 9), [[10], [20], [30], [40]])"] by simp
  moreover have "arbiter_ok example_arbiter" by (simp add: arbiter_ok_def example_arbiter_def retransmit_ok_steps)
  moreover have "\<forall>p \<in> set (waiting_packets (next_history example_arbiter)). length p < 2 ^ 32"
    "sent_buffer (retransmitArb example_arbiter) = []"
    by (simp_all add: waiting_packets_def next_history_def example_arbiter_def RetransmitBuffer_def)
  moreover have "vh_received VerifyHash = []" "vh_expected VerifyHash = []" by (simp_all add: VerifyHash_def)
  moreover have "length example_hashes = 4" by (simp add: example_hashes_def)
  ultimately show ?thesis
    using lost_packets_resent [OF _ a'(1), of "[[10], [20], [30], [40]]" VerifyHash 6000 example_hashes 7000 9000 8000 1 100 0 10000]
      a'(2) by (intro exI [of _ a']) (auto simp: example_lost age_us_def)
qed

end
