(* ===== verification/Udp_Reorder.thy ===== *)
theory Udp_Reorder
  imports Std_Map "HOL-Library.Multiset"
begin

text \<open>
  \<open>HiggsUdpOOO\<close> (driver/HiggsUdpOOO.hpp): UDP datagrams that may arrive out of order are held in a
  map from sequence number to memory block and handed out in sequence; when more than \<open>GIVEUP\<close> are
  held and the next one is not there, all but the one with the largest number are dropped.

  A block is a number, with 0 for the null pointer. The pool that hands out blocks is library code:
  the calls of \<open>pool.free\<close> that \<open>getNext\<close> makes are part of its result. \<open>markFull\<close> gets
  the sequence number it reads from the first word of the block as an argument.
\<close>

section \<open>The object\<close>

record higgs_udp_ooo =
  seq_ok :: bool
  initial_seq_number :: u32
  errors_found :: u32
  num_drops :: u32
  full :: "(u32, nat) std_map"
  a_seq :: u32

definition HiggsUdpOOO :: higgs_udp_ooo where
  "HiggsUdpOOO = \<lparr>seq_ok = False, initial_seq_number = 0, errors_found = 0, num_drops = 0, full = [], a_seq = 0\<rparr>"

definition markFull :: "u32 \<Rightarrow> nat \<Rightarrow> higgs_udp_ooo \<Rightarrow> higgs_udp_ooo" where
  "markFull seq_number data s =
     (let s1 = s\<lparr>a_seq := seq_number, full := sm_insert seq_number data (full s)\<rparr>
      in if \<not> seq_ok s1 then s1\<lparr>seq_ok := True, initial_seq_number := seq_number\<rparr> else s1)"

text \<open>The first loop of the give-up branch: the largest number and its block.\<close>

definition find_max :: "(u32, nat) std_map \<Rightarrow> u32 \<times> nat" where
  "find_max m = fold (\<lambda>(k, data) (new_max, data_max). if k > new_max then (k, data) else (new_max, data_max)) m (0, 0)"

text \<open>The block returned, the blocks freed and the new state.\<close>

definition getNext :: "nat \<Rightarrow> higgs_udp_ooo \<Rightarrow> nat \<times> nat list \<times> higgs_udp_ooo" where
  "getNext GIVEUP s =
     (if length (full s) = 0 then (0, [], s)
      else case sm_find (initial_seq_number s) (full s) of
        Some ptr \<Rightarrow> (ptr, [], s\<lparr>full := sm_erase (initial_seq_number s) (full s),
                              initial_seq_number := initial_seq_number s + 1\<rparr>)
      | None \<Rightarrow>
          if length (full s) > GIVEUP
          then (let (new_max, data_max) = find_max (full s)
                in (0, filter (\<lambda>d. data_max \<noteq> d) (map snd (full s)),
                    s\<lparr>full := sm_insert new_max data_max [], initial_seq_number := new_max,
                      num_drops := num_drops s + 1\<rparr>))
          else (0, [], s))"

section \<open>Sequences of calls\<close>

datatype ooo_call = MarkFull u32 nat | GetNext

text \<open>
  What a sequence of calls hands out, frees and loses. \<open>stamp\<close> holds for each block the number its
  first word carried when it was last marked full, and a block that is handed out is logged with
  its stamp: nothing of the object's own bookkeeping enters the log.
\<close>

record ooo_log =
  stamp :: "nat \<Rightarrow> u32"
  handed_out :: "(u32 \<times> nat) list"
  freed :: "nat list"
  forgotten :: "nat list"

fun ooo_call_step :: "nat \<Rightarrow> ooo_call \<Rightarrow> ooo_log \<times> higgs_udp_ooo \<Rightarrow> ooo_log \<times> higgs_udp_ooo" where
  "ooo_call_step G (MarkFull k d) (l, s) =
     ((if sm_find k (full s) = None then l else l\<lparr>forgotten := forgotten l @ [d]\<rparr>)\<lparr>stamp := (stamp l)(d := k)\<rparr>,
      markFull k d s)"
| "ooo_call_step G GetNext (l, s) =
     (let (ptr, fr, s') = getNext G s
      in (l\<lparr>handed_out := handed_out l @ (if sm_find (initial_seq_number s) (full s) = None then []
                                          else [(stamp l ptr, ptr)]),
           freed := freed l @ fr\<rparr>, s'))"

definition ooo_start :: ooo_log where
  "ooo_start = \<lparr>stamp = \<lambda>_. 0, handed_out = [], freed = [], forgotten = []\<rparr>"

definition ooo_calls :: "nat \<Rightarrow> ooo_call list \<Rightarrow> ooo_log \<times> higgs_udp_ooo \<Rightarrow> ooo_log \<times> higgs_udp_ooo" where
  "ooo_calls G cs ls = fold (ooo_call_step G) cs ls"

fun marked :: "ooo_call \<Rightarrow> nat list" where
  "marked (MarkFull k d) = [d]"
| "marked GetNext = []"

section \<open>Its invariant\<close>

text \<open>The map is ordered and its blocks are distinct, so the give-up branch keeps just one.\<close>

definition ooo_ok :: "higgs_udp_ooo \<Rightarrow> bool" where
  "ooo_ok s \<longleftrightarrow> sm_ok (full s)"

lemma find_max_last: "sm_ok (m @ [(k, d)]) \<Longrightarrow> 0 < k \<Longrightarrow> find_max (m @ [(k, d)]) = (k, d)"
proof -
  assume ok: "sm_ok (m @ [(k, d)])" and k: "0 < k"
  have "\<forall>e \<in> set m. fst e < k" using ok by (auto simp: sm_ok_def sorted_wrt_append)
  then have "fst (fold (\<lambda>(k, data) (new_max, data_max). if k > new_max then (k, data) else (new_max, data_max)) m acc) < k"
    if "fst acc < k" for acc
    using that by (induction m arbitrary: acc) auto
  from this [of "(0, 0)"] k show ?thesis by (auto simp: find_max_def split: prod.splits)
qed

lemma sm_last_pos: "sm_ok m \<Longrightarrow> 1 < length m \<Longrightarrow> 0 < fst (last m)" for m :: "(u32, nat) std_map"
proof -
  assume ok: "sm_ok m" and len: "1 < length m"
  then have "map fst m ! 0 < map fst m ! (length m - 1)"
    by (intro sorted_wrt_nth_less [of "(<)"]) (simp_all add: sm_ok_def)
  moreover have "m \<noteq> []" using len by auto
  ultimately have lt: "fst (m ! 0) < fst (last m)" by (simp add: last_conv_nth)
  show ?thesis by (rule le_less_trans [OF word_zero_le lt])
qed

lemma find_max_eq: "sm_ok m \<Longrightarrow> 1 < length m \<Longrightarrow> find_max m = last m"
proof -
  assume m: "sm_ok m" "1 < length m"
  then have "m \<noteq> []" by auto
  then have "m = butlast m @ [(fst (last m), snd (last m))]" by simp
  with find_max_last [of "butlast m" "fst (last m)" "snd (last m)"] sm_last_pos [OF m] m(1) show ?thesis by simp
qed

lemma sm_ok_single: "sm_ok [e]"
  by (cases e) (simp add: sm_ok_def)

lemma ooo_ok_markFull: "ooo_ok s \<Longrightarrow> ooo_ok (markFull k d s)"
  by (simp add: ooo_ok_def markFull_def Let_def sm_ok_insert)

lemma ooo_ok_getNext: "ooo_ok s \<Longrightarrow> ooo_ok (snd (snd (getNext G s)))"
  by (auto simp: ooo_ok_def getNext_def sm_ok_erase sm_ok_single Let_def split: option.splits prod.splits)

section \<open>Order\<close>

definition gives_up :: "nat \<Rightarrow> higgs_udp_ooo \<Rightarrow> bool" where
  "gives_up G s \<longleftrightarrow> full s \<noteq> [] \<and> sm_find (initial_seq_number s) (full s) = None \<and> G < length (full s)"

lemma getNext_cases:
  obtains (empty) "full s = []" "getNext G s = (0, [], s)"
  | (hit) ptr where "sm_find (initial_seq_number s) (full s) = Some ptr"
      "getNext G s = (ptr, [], s\<lparr>full := sm_erase (initial_seq_number s) (full s),
        initial_seq_number := initial_seq_number s + 1\<rparr>)"
  | (wait) "sm_find (initial_seq_number s) (full s) = None" "getNext G s = (0, [], s)" "length (full s) \<le> G"
  | (drop) "gives_up G s" "getNext G s = (let (k, d) = find_max (full s)
      in (0, filter (\<lambda>x. d \<noteq> x) (map snd (full s)),
          s\<lparr>full := [(k, d)], initial_seq_number := k, num_drops := num_drops s + 1\<rparr>))"
  by (cases "full s = []"; cases "sm_find (initial_seq_number s) (full s)"; cases "length (full s) \<le> G")
    (auto simp: getNext_def gives_up_def)

section \<open>Runs\<close>

text \<open>Runs from the start in which a block is not marked full again while it is held.\<close>

inductive ooo_run :: "nat \<Rightarrow> ooo_call list \<Rightarrow> ooo_log \<Rightarrow> higgs_udp_ooo \<Rightarrow> bool" where
  start: "ooo_run G [] ooo_start HiggsUdpOOO"
| mark: "ooo_run G cs l s \<Longrightarrow> d \<notin> snd ` set (full s) \<Longrightarrow> ooo_call_step G (MarkFull k d) (l, s) = (l', s') \<Longrightarrow>
    ooo_run G (cs @ [MarkFull k d]) l' s'"
| next_: "ooo_run G cs l s \<Longrightarrow> ooo_call_step G GetNext (l, s) = (l', s') \<Longrightarrow> ooo_run G (cs @ [GetNext]) l' s'"

text \<open>A held block sits under the number its first word carried.\<close>

definition stamps_ok :: "ooo_log \<Rightarrow> higgs_udp_ooo \<Rightarrow> bool" where
  "stamps_ok l s \<longleftrightarrow> ooo_ok s \<and> (\<forall>(k, d) \<in> set (full s). stamp l d = k)"

lemma sm_insert_subset: "set (sm_insert k v m) \<subseteq> insert (k, v) (set m)" for m :: "(u32, nat) std_map"
  by (induction k v m rule: sm_insert.induct) auto

lemma stamps_ok_step:
  assumes "stamps_ok l s" and "0 < G" and "\<And>k d. c = MarkFull k d \<Longrightarrow> d \<notin> snd ` set (full s)"
    and "ooo_call_step G c (l, s) = (l', s')"
  shows "stamps_ok l' s'"
proof (cases c)
  case (MarkFull k d)
  then have s': "s' = markFull k d s" "stamp l' = (stamp l)(d := k)" using assms(4) by (auto split: if_splits)
  have old: "\<forall>(k', d') \<in> set (full s). stamp l d' = k' \<and> d' \<noteq> d"
    using assms(1,3) MarkFull by (force simp: stamps_ok_def)
  have "full s' = sm_insert k d (full s)" using s'(1) by (simp add: markFull_def Let_def)
  moreover have "set (sm_insert k d (full s)) \<subseteq> insert (k, d) (set (full s))" by (rule sm_insert_subset)
  ultimately show ?thesis
    using old s' assms(1) ooo_ok_markFull [of s k d] by (fastforce simp: stamps_ok_def)
next
  case GetNext
  have ok: "ooo_ok s'" using assms(1,4) GetNext ooo_ok_getNext [of s G] by (auto simp: stamps_ok_def split: prod.splits)
  have st: "stamp l' = stamp l" using assms(4) GetNext by (auto split: prod.splits)
  have "set (full s') \<subseteq> set (full s)"
  proof (cases rule: getNext_cases [of s G])
    case drop
    then have "1 < length (full s)" using assms(2) by (auto simp: gives_up_def)
    then have ne: "full s \<noteq> []" by auto
    have "find_max (full s) = last (full s)"
      using \<open>1 < length (full s)\<close> assms(1) find_max_eq [of "full s"] by (simp add: stamps_ok_def ooo_ok_def)
    then have "find_max (full s) \<in> set (full s)" using last_in_set [OF ne] by simp
    then show ?thesis using drop assms(4) GetNext by (auto split: prod.splits)
  qed (use assms(4) GetNext in \<open>auto simp: sm_erase_def split: prod.splits\<close>)
  then show ?thesis using assms(1) ok st by (auto simp: stamps_ok_def)
qed

lemma ooo_run_stamps: "ooo_run G cs l s \<Longrightarrow> 0 < G \<Longrightarrow> stamps_ok l s"
proof (induction rule: ooo_run.induct)
  case (start G)
  then show ?case by (simp add: stamps_ok_def ooo_ok_def HiggsUdpOOO_def)
next
  case (mark G cs l s d k l' s')
  then show ?case using stamps_ok_step [of l s G "MarkFull k d" l' s'] by simp
next
  case (next_ G cs l s l' s')
  then show ?case using stamps_ok_step [of l s G GetNext l' s'] by simp
qed

lemma ooo_step_order:
  assumes "seq_ok s" and "stamps_ok l s" and "ooo_call_step G c (l, s) = (l', s')"
  shows "seq_ok s' \<and> (num_drops s' = num_drops s + 1 \<or>
    (\<exists>out. num_drops s' = num_drops s \<and> handed_out l' = handed_out l @ out \<and> length out \<le> 1 \<and>
      list_all (\<lambda>e. fst e = initial_seq_number s) out \<and>
      initial_seq_number s' = initial_seq_number s + of_nat (length out)))"
proof (cases c)
  case (MarkFull k d)
  then show ?thesis using assms by (auto simp: markFull_def Let_def split: if_splits)
next
  case GetNext
  have "stamp l ptr = initial_seq_number s" if "sm_find (initial_seq_number s) (full s) = Some ptr" for ptr
    using assms(2) that by (auto simp: stamps_ok_def ooo_ok_def sm_find_mem)
  with GetNext assms show ?thesis by (cases rule: getNext_cases [of s G]) (auto split: prod.splits)
qed

lemma ooo_run_snoc:
  assumes "ooo_run G (cs @ [c]) l' s'"
  obtains l s where "ooo_run G cs l s" "ooo_call_step G c (l, s) = (l', s')"
    "\<And>k d. c = MarkFull k d \<Longrightarrow> d \<notin> snd ` set (full s)"
  using assms by (cases rule: ooo_run.cases) auto

lemma ooo_run_functional: "ooo_run G cs l s \<Longrightarrow> ooo_calls G cs (ooo_start, HiggsUdpOOO) = (l, s)"
  by (induction rule: ooo_run.induct) (simp_all add: ooo_calls_def)

text \<open>A continuation of a run gives up some times; when it does not, it hands out the numbers in order.\<close>

lemma ooo_run_order:
  assumes "ooo_run G cs l s" and "0 < G" and "seq_ok s"
  shows "ooo_run G (cs @ cs') l' s' \<Longrightarrow> seq_ok s' \<and> (\<exists>g \<le> length cs'. num_drops s' = num_drops s + of_nat g \<and>
    (g = 0 \<longrightarrow> (\<exists>out. handed_out l' = handed_out l @ out \<and>
      map fst out = map (\<lambda>j. initial_seq_number s + of_nat j) [0..<length out] \<and>
      initial_seq_number s' = initial_seq_number s + of_nat (length out))))"
proof (induction cs' arbitrary: l' s' rule: rev_induct)
  case Nil
  then have "(l', s') = (l, s)"
    using ooo_run_functional [of G cs l' s'] ooo_run_functional [OF assms(1)] by simp
  then show ?case using assms(3) by auto
next
  case (snoc c cs')
  then obtain l1 s1 where run: "ooo_run G (cs @ cs') l1 s1" and st: "ooo_call_step G c (l1, s1) = (l', s')"
    using ooo_run_snoc [of G "cs @ cs'" c l' s'] by (metis append.assoc)
  from snoc.IH [OF run] obtain g where g: "seq_ok s1" "g \<le> length cs'" "num_drops s1 = num_drops s + of_nat g"
    "g = 0 \<longrightarrow> (\<exists>out. handed_out l1 = handed_out l @ out \<and>
      map fst out = map (\<lambda>j. initial_seq_number s + of_nat j) [0..<length out] \<and>
      initial_seq_number s1 = initial_seq_number s + of_nat (length out))" by blast
  note one = ooo_step_order [OF g(1) ooo_run_stamps [OF run assms(2)] st]
  show ?case
  proof (cases "num_drops s' = num_drops s1 + 1")
    case True
    then show ?thesis using g(2,3) one by (intro conjI exI [of _ "Suc g"]) simp_all
  next
    case False
    with one obtain o1 where o1: "num_drops s' = num_drops s1" "handed_out l' = handed_out l1 @ o1" "length o1 \<le> 1"
      "list_all (\<lambda>e. fst e = initial_seq_number s1) o1" "initial_seq_number s' = initial_seq_number s1 + of_nat (length o1)"
      by blast
    have "\<exists>out. handed_out l' = handed_out l @ out \<and>
        map fst out = map (\<lambda>j. initial_seq_number s + of_nat j) [0..<length out] \<and>
        initial_seq_number s' = initial_seq_number s + of_nat (length out)" if "g = 0"
    proof -
      from g(4) that obtain out where out: "handed_out l1 = handed_out l @ out"
        "map fst out = map (\<lambda>j. initial_seq_number s + of_nat j) [0..<length out]"
        "initial_seq_number s1 = initial_seq_number s + of_nat (length out)" by blast
      have "map fst (out @ o1) = map (\<lambda>j. initial_seq_number s + of_nat j) [0..<length (out @ o1)]"
        using o1(3,4) out(2,3) by (cases o1) auto
      then show ?thesis using out(1,3) o1(2,5) by (intro exI [of _ "out @ o1"]) (simp add: add.assoc)
    qed
    then show ?thesis using g(2,3) o1(1) one by (intro conjI exI [of _ g]) simp_all
  qed
qed

text \<open>
  C7. Datagrams are handed out in sequence. Take any run of the object in which no block is marked
  full again while it is held, and any continuation of fewer than $2^{32}$ calls, after a first
  datagram has been seen, in which the object never gave up waiting: whatever the order of arrival,
  the blocks handed out are, one after the other, blocks whose first word was the next number from
  \<open>initial_seq_number\<close> on when they were marked, each number once and without a gap, wrapping around
  at 32 bits.
\<close>
theorem ooo_in_order:
  assumes "ooo_run G cs l s" and "ooo_run G (cs @ cs') l' s'" and "0 < G" and "seq_ok s"
    and "num_drops s' = num_drops s" and "length cs' < 2 ^ 32"
  shows "\<exists>out. handed_out l' = handed_out l @ out \<and>
    map fst out = map (\<lambda>j. initial_seq_number s + of_nat j) [0..<length out] \<and>
    initial_seq_number s' = initial_seq_number s + of_nat (length out)"
proof -
  from ooo_run_order [OF assms(1,3,4,2)] obtain g where g: "g \<le> length cs'" "num_drops s' = num_drops s + of_nat g"
    "g = 0 \<longrightarrow> (\<exists>out. handed_out l' = handed_out l @ out \<and>
      map fst out = map (\<lambda>j. initial_seq_number s + of_nat j) [0..<length out] \<and>
      initial_seq_number s' = initial_seq_number s + of_nat (length out))" by blast
  then have "(of_nat g :: u32) = 0" using assms(5) by simp
  then have "unat (of_nat g :: u32) = 0" by simp
  then have "g = 0" using g(1) assms(6) by (subst (asm) unat_of_nat_u32) simp_all
  with g(3) show ?thesis by blast
qed

text \<open>The side condition of a run as a test, for examples.\<close>

fun ooo_fresh :: "nat \<Rightarrow> ooo_call list \<Rightarrow> ooo_log \<times> higgs_udp_ooo \<Rightarrow> bool" where
  "ooo_fresh G [] ls \<longleftrightarrow> True"
| "ooo_fresh G (c # cs) ls \<longleftrightarrow>
     (case c of MarkFull k d \<Rightarrow> d \<notin> snd ` set (full (snd ls)) | GetNext \<Rightarrow> True) \<and> ooo_fresh G cs (ooo_call_step G c ls)"

lemma ooo_run_append:
  "ooo_run G cs l s \<Longrightarrow> ooo_fresh G cs' (l, s) \<Longrightarrow> ooo_calls G cs' (l, s) = (l', s') \<Longrightarrow> ooo_run G (cs @ cs') l' s'"
proof (induction cs' arbitrary: cs l s)
  case Nil
  then show ?case by (simp add: ooo_calls_def)
next
  case (Cons c cs')
  obtain l1 s1 where st: "ooo_call_step G c (l, s) = (l1, s1)" by (metis surj_pair)
  have "ooo_run G (cs @ [c]) l1 s1"
    using Cons.prems(1,2) st by (cases c) (auto intro: ooo_run.mark ooo_run.next_)
  from Cons.IH [OF this] Cons.prems(2,3) st show ?case by (simp add: ooo_calls_def)
qed

theorem ooo_in_order_witness:
  "\<exists>l s l' s'. ooo_run 40 [MarkFull 4 1] l s \<and>
    ooo_run 40 ([MarkFull 4 1] @ [MarkFull 6 2, GetNext, MarkFull 5 3, GetNext, GetNext, GetNext]) l' s' \<and>
    handed_out l' = handed_out l @ [(4, 1), (5, 3), (6, 2)] \<and> initial_seq_number s' = 7 \<and>
    (\<exists>out. handed_out l' = handed_out l @ out \<and> map fst out = map (\<lambda>j. 4 + of_nat j) [0..<length out])"
proof -
  note defs = ooo_calls_def markFull_def HiggsUdpOOO_def getNext_def sm_find_def sm_erase_def ooo_start_def
  let ?c1 = "[MarkFull 4 1]" and ?c2 = "[MarkFull 6 2, GetNext, MarkFull 5 3, GetNext, GetNext, GetNext]"
  define r where "r = ooo_calls 40 ?c1 (ooo_start, HiggsUdpOOO)"
  define r' where "r' = ooo_calls 40 ?c2 r"
  have "ooo_run 40 ([] @ ?c1) (fst r) (snd r)"
    by (rule ooo_run_append [OF ooo_run.start]) (simp_all add: r_def HiggsUdpOOO_def)
  then have run: "ooo_run 40 ?c1 (fst r) (snd r)" by simp
  have run': "ooo_run 40 (?c1 @ ?c2) (fst r') (snd r')"
    by (rule ooo_run_append [OF run]) (simp_all add: r'_def r_def defs)
  have r: "seq_ok (snd r)" "num_drops (snd r') = num_drops (snd r)" "initial_seq_number (snd r) = 4"
    "initial_seq_number (snd r') = 7" "handed_out (fst r') = handed_out (fst r) @ [(4, 1), (5, 3), (6, 2)]"
    by (simp_all add: r'_def r_def defs)
  have "length ?c2 < 2 ^ 32" by simp
  from ooo_in_order [OF run run' _ r(1,2) this] r(3) have "\<exists>out. handed_out (fst r') = handed_out (fst r) @ out \<and>
      map fst out = map (\<lambda>j. 4 + of_nat j) [0..<length out]" by auto
  then show ?thesis using run run' r(4,5) by blast
qed

section \<open>Accounting\<close>

definition blocks :: "ooo_log \<Rightarrow> higgs_udp_ooo \<Rightarrow> nat multiset" where
  "blocks l s = mset (map snd (handed_out l)) + mset (freed l) + mset (forgotten l) + mset (map snd (full s))"

lemma mset_sm_insert: "sm_ok m \<Longrightarrow> sm_find k m = None \<Longrightarrow> mset (sm_insert k v m) = add_mset (k, v) (mset m)"
  by (induction k v m rule: sm_insert.induct) (auto simp: sm_find_def sm_ok_Cons split: if_splits)

lemma mset_sm_erase: "sm_ok m \<Longrightarrow> sm_find k m = Some v \<Longrightarrow> mset m = add_mset (k, v) (mset (sm_erase k m))"
proof (induction m)
  case (Cons e m)
  obtain k' v' where e: "e = (k', v')" by fastforce
  show ?case
  proof (cases "k' = k")
    case True
    then have "sm_find k m = None" using Cons.prems(1) e by (intro sm_find_None_less) (auto simp: sm_ok_Cons)
    then have "sm_erase k m = m" by (auto simp: sm_find_None sm_erase_def intro!: filter_True)
    with True Cons.prems(2) e show ?thesis by (simp add: sm_find_def sm_erase_def)
  next
    case False
    with Cons e show ?thesis by (simp add: sm_find_def sm_erase_def sm_ok_Cons)
  qed
qed (simp add: sm_find_def)

lemma mset_snd_insert:
  "sm_ok m \<Longrightarrow> sm_find k m = None \<Longrightarrow> mset (map snd (sm_insert k v m)) = add_mset v (mset (map snd m))"
  by (simp add: mset_sm_insert)

lemma mset_snd_erase:
  "sm_ok m \<Longrightarrow> sm_find k m = Some v \<Longrightarrow> mset (map snd m) = add_mset v (mset (map snd (sm_erase k m)))"
  using mset_sm_erase [of m k v] by (metis image_mset_add_mset mset_map snd_conv)

lemma blocks_mark:
  assumes "ooo_ok s" and "ooo_call_step G (MarkFull k d) (l, s) = (l', s')"
  shows "blocks l' s' = add_mset d (blocks l s)"
proof (cases "sm_find k (full s)")
  case None
  then show ?thesis
    using assms mset_snd_insert [of "full s" k d]
    by (auto simp: blocks_def ooo_ok_def markFull_def Let_def simp del: mset_map)
next
  case (Some u)
  then show ?thesis
    using assms sm_insert_existing [of "full s" k u d]
    by (auto simp: blocks_def ooo_ok_def markFull_def Let_def split: if_splits)
qed

lemma give_up_blocks:
  assumes "distinct (map snd m)" and "m \<noteq> []"
  shows "mset (map snd m) = add_mset (snd (last m)) (mset (filter (\<lambda>x. snd (last m) \<noteq> x) (map snd m)))"
proof -
  have m: "map snd m = map snd (butlast m) @ [snd (last m)]"
    using assms(2) by (metis append_butlast_last_id list.simps(8) list.simps(9) map_append)
  then have "snd (last m) \<notin> set (map snd (butlast m))" using assms(1) by (metis distinct_append disjoint_insert(1) list.simps(15))
  then have "filter (\<lambda>x. snd (last m) \<noteq> x) (map snd (butlast m)) = map snd (butlast m)"
    by (intro filter_True) auto
  then show ?thesis by (subst (1 2) m) simp
qed

lemma blocks_next:
  assumes "ooo_ok s" and "0 < G" and "distinct (map snd (full s))" and "ooo_call_step G GetNext (l, s) = (l', s')"
  shows "blocks l' s' = blocks l s \<and> distinct (map snd (full s'))"
proof (cases rule: getNext_cases [of s G])
  case empty
  then show ?thesis using assms by (auto simp: blocks_def)
next
  case (hit ptr)
  then show ?thesis
    using assms mset_snd_erase [of "full s" "initial_seq_number s" ptr]
    by (auto simp: blocks_def ooo_ok_def sm_erase_def distinct_map_filter simp del: mset_map)
next
  case wait
  then show ?thesis using assms by (auto simp: blocks_def)
next
  case drop
  then have "find_max (full s) = last (full s)" "full s \<noteq> []"
    using assms(1,2) find_max_eq [of "full s"] by (auto simp: gives_up_def ooo_ok_def)
  moreover obtain k d where kd: "last (full s) = (k, d)" by fastforce
  ultimately have "getNext G s = (0, filter (\<lambda>x. d \<noteq> x) (map snd (full s)),
      s\<lparr>full := [(k, d)], initial_seq_number := k, num_drops := num_drops s + 1\<rparr>)"
    and "mset (map snd (full s)) = add_mset d (mset (filter (\<lambda>x. d \<noteq> x) (map snd (full s))))"
    using drop(2) give_up_blocks [OF assms(3)] by (simp_all del: mset_map)
  then show ?thesis
    using drop(1) assms(4) by (auto simp: blocks_def gives_up_def simp del: mset_map mset_filter)
qed

text \<open>
  C27. Every block is accounted for. In every history in which the caller does not mark a block full
  again while it is held, each block marked full is exactly one of: handed out, freed by a give-up,
  still held, or forgotten because a datagram with the same number was held already. So none is
  handed out twice, or freed while it is held or has been handed out; the forgotten ones are never
  returned to the pool.
\<close>
theorem ooo_blocks_accounted:
  assumes "ooo_run G cs l s" and "0 < G"
  shows "mset (map snd (handed_out l)) + mset (freed l) + mset (forgotten l) + mset (map snd (full s)) =
    mset (concat (map marked cs))"
proof -
  have "blocks l s = mset (concat (map marked cs)) \<and> ooo_ok s \<and> distinct (map snd (full s))"
    using assms
  proof (induction rule: ooo_run.induct)
    case (start G)
    then show ?case by (simp add: blocks_def HiggsUdpOOO_def ooo_ok_def ooo_start_def)
  next
    case (mark G cs l s d k l' s')
    have s': "s' = markFull k d s" using mark.hyps(3) by auto
    have "distinct (map snd (full s'))"
    proof (cases "sm_find k (full s)")
      case None
      then have "mset (map snd (sm_insert k d (full s))) = mset (d # map snd (full s))"
        using mark by (simp add: ooo_ok_def mset_snd_insert del: mset_map)
      from mset_eq_imp_distinct_iff [OF this] mark s' show ?thesis
        by (simp add: markFull_def Let_def)
    next
      case (Some u)
      with mark s' show ?thesis by (simp add: markFull_def Let_def ooo_ok_def sm_insert_existing)
    qed
    with mark show ?case using blocks_mark [of s G k d l l' s'] ooo_ok_markFull [of s k d] s' by simp
  next
    case (next_ G cs l s l' s')
    have "ooo_ok s'" using next_ ooo_ok_getNext [of s G] by (auto split: prod.splits)
    with next_ show ?case using blocks_next [of s G l l' s'] by simp
  qed
  then show ?thesis by (simp add: blocks_def)
qed

lemma example_run:
  "ooo_run 40 [MarkFull 4 1, MarkFull 4 2, GetNext]
    \<lparr>stamp = (\<lambda>_. 0)(1 := 4, 2 := 4), handed_out = [(4, 1)], freed = [], forgotten = [2]\<rparr>
    \<lparr>seq_ok = True, initial_seq_number = 5, errors_found = 0, num_drops = 0, full = [], a_seq = 4\<rparr>"
proof -
  note defs = ooo_start_def markFull_def HiggsUdpOOO_def getNext_def sm_find_def sm_erase_def
  let ?s1 = "\<lparr>seq_ok = True, initial_seq_number = 4, errors_found = 0, num_drops = 0, full = [(4, 1)], a_seq = 4\<rparr>"
  have "ooo_run 40 ([] @ [MarkFull 4 1]) \<lparr>stamp = (\<lambda>_. 0)(1 := 4), handed_out = [], freed = [], forgotten = []\<rparr> ?s1"
    by (rule ooo_run.mark [OF ooo_run.start]) (simp_all add: defs)
  then have "ooo_run 40 (([] @ [MarkFull 4 1]) @ [MarkFull 4 2])
      \<lparr>stamp = (\<lambda>_. 0)(1 := 4, 2 := 4), handed_out = [], freed = [], forgotten = [2]\<rparr> ?s1"
    by (rule ooo_run.mark) (simp_all add: defs)
  from ooo_run.next_ [OF this] show ?thesis by (simp add: defs)
qed

theorem ooo_blocks_accounted_witness:
  "mset (map snd [(4 :: u32, 1 :: nat)]) + mset [] + mset [2] + mset (map snd []) =
    mset (concat (map marked [MarkFull 4 1, MarkFull 4 2, GetNext]))"
  using ooo_blocks_accounted [OF example_run] by simp

text \<open>
  Datagrams that arrive after their turn stay in the map, and enough of them make the object give up
  and go back to the largest of them: here 3 is handed out after 5.
\<close>

lemma ooo_goes_backwards:
  "handed_out (fst (ooo_calls 2 [MarkFull 5 1, GetNext, MarkFull 1 2, MarkFull 2 3, MarkFull 3 4, GetNext, GetNext]
      (ooo_start, HiggsUdpOOO))) = [(5, 1), (3, 4)]"
  by (simp add: ooo_start_def ooo_calls_def markFull_def HiggsUdpOOO_def getNext_def sm_find_def sm_erase_def find_max_def Let_def)

end
