(* ===== verification/Air_Bitrate.thy ===== *)
theory Air_Bitrate
  imports Modem_Prelude
begin

text \<open>
  The bit-error test pattern (driver/AirMacBitrate.cpp): the sender generates a pattern that depends
  on the seed and carries a sequence number at every twentieth word, the receiver regenerates it and
  counts the bits that differ. Both keep the pattern in a cache that is reused when it is long enough.

  \<open>got\<close> is \<open>None\<close> where the code reads past the end of the packet. The printed data rate is a
  double and is left out; the times and sizes it is computed from are kept.
\<close>

section \<open>The pattern and its cache\<close>

definition genhack :: "nat \<Rightarrow> u32 \<Rightarrow> u32 list" where
  "genhack data_length base = map (\<lambda>i. base + of_nat (i mod 80) * 77777) [0..<data_length]"

definition pattern_base :: "u32 \<Rightarrow> u32" where
  "pattern_base seed = push_bit 24 (seed AND 0xFF)"

definition updateCache :: "nat \<Rightarrow> u32 list \<Rightarrow> u32 \<Rightarrow> bool \<Rightarrow> u32 list \<times> bool" where
  "updateCache count cache seed cacheValid =
     (if count < length cache \<and> cacheValid then (cache, cacheValid) else (genhack count (pattern_base seed), True))"

text \<open>The loop that writes the sequence number at every twentieth word but the first.\<close>

definition stamp :: "u32 \<Rightarrow> u32 list \<Rightarrow> u32 list" where
  "stamp w v = map (\<lambda>i. if i \<noteq> 0 \<and> i mod 20 = 0 then w else v ! i) [0..<length v]"

record bitrate_tx =
  tx_pattern_seed :: u32
  tx_cache :: "u32 list"
  tx_cacheValid :: bool

definition AirMacBitrateTx :: bitrate_tx where
  "AirMacBitrateTx = \<lparr>tx_pattern_seed = 0x44, tx_cache = [], tx_cacheValid = False\<rparr>"

definition setSeed_tx :: "u32 \<Rightarrow> bitrate_tx \<Rightarrow> bitrate_tx" where
  "setSeed_tx s t = t\<lparr>tx_pattern_seed := s\<rparr>"

definition generate :: "nat \<Rightarrow> u32 \<Rightarrow> bitrate_tx \<Rightarrow> u32 list \<times> bitrate_tx" where
  "generate count arg t =
     (if count = 0 then ([], t)
      else let (cache, valid) = updateCache count (tx_cache t) (tx_pattern_seed t) (tx_cacheValid t);
               out = (take count cache)[0 := arg]
           in (stamp (out ! 0) out, t\<lparr>tx_cache := cache, tx_cacheValid := valid\<rparr>))"

section \<open>Counting the errors\<close>

definition hamming_32 :: "u32 \<Rightarrow> u32 \<Rightarrow> u8" where
  "hamming_32 a b =
     fold (\<lambda>i out. if drop_bit i a AND 1 \<noteq> drop_bit i b AND 1 then out + 1 else out) [0..<32] 0"

definition hamming_vector :: "u32 list \<Rightarrow> u32 list \<Rightarrow> u32" where
  "hamming_vector va vb =
     fold (\<lambda>i out. out + ucast (hamming_32 (va ! i) (vb ! i))) [1..<min (length va) (length vb)] 0"

text \<open>\<open>std::equal\<close> with one end: it stops at the first difference and reads past a shorter second range.\<close>

fun equal_range :: "'a list \<Rightarrow> 'a list \<Rightarrow> bool option" where
  "equal_range [] ys = Some True"
| "equal_range (x # xs) [] = None"
| "equal_range (x # xs) (y # ys) = (if x = y then equal_range xs ys else Some False)"

record bitrate_rx =
  rx_pattern_seed :: u32
  rx_cache :: "u32 list"
  rx_cacheValid :: bool
  last_seq :: u32
  bits_correct :: u32
  bits_wrong :: u32
  rx_data_rate :: "(u64 \<times> u32) list"

definition AirMacBitrateRx :: bitrate_rx where
  "AirMacBitrateRx = \<lparr>rx_pattern_seed = 0x44, rx_cache = [], rx_cacheValid = False, last_seq = 0,
    bits_correct = 0, bits_wrong = 0, rx_data_rate = []\<rparr>"

definition setSeed_rx :: "u32 \<Rightarrow> bitrate_rx \<Rightarrow> bitrate_rx" where
  "setSeed_rx s r = r\<lparr>rx_pattern_seed := s\<rparr>"

definition resetBer :: "bitrate_rx \<Rightarrow> bitrate_rx" where
  "resetBer r = r\<lparr>bits_correct := 0, bits_wrong := 0\<rparr>"

definition got :: "u64 \<Rightarrow> u32 list \<Rightarrow> bitrate_rx \<Rightarrow> bitrate_rx option" where
  "got ms packet r =
     (if packet = [] then None
      else let len = length packet;
               got_bits = (of_nat len - 1 :: u32);
               (cache0, valid) = updateCache len (rx_cache r) (rx_pattern_seed r) (rx_cacheValid r);
               cache = stamp (packet ! 0) cache0
           in case equal_range (drop 1 cache) (drop 1 packet) of
                None \<Rightarrow> None
              | Some same \<Rightarrow>
                  let errors = (if \<not> same then hamming_vector cache packet else 0)
                  in Some (r\<lparr>rx_cache := cache, rx_cacheValid := valid,
                        bits_correct := bits_correct r + (got_bits - errors), bits_wrong := bits_wrong r + errors,
                        rx_data_rate := rx_data_rate r @ [(ms, of_nat len)], last_seq := packet ! 0\<rparr>))"

section \<open>What they do\<close>

lemma length_genhack [simp]: "length (genhack n b) = n"
  by (simp add: genhack_def)

lemma length_stamp [simp]: "length (stamp w v) = length v"
  by (simp add: stamp_def)

lemma nth_stamp: "i < length v \<Longrightarrow> stamp w v ! i = (if i \<noteq> 0 \<and> i mod 20 = 0 then w else v ! i)"
  unfolding stamp_def by (subst nth_map_upt) auto

lemma nth_genhack: "i < n \<Longrightarrow> genhack n b ! i = b + of_nat (i mod 80) * 77777"
  unfolding genhack_def by (subst nth_map_upt) auto

text \<open>The caches hold the pattern of the seed, up to the stamped words.\<close>

definition cache_ok :: "u32 \<Rightarrow> u32 list \<Rightarrow> bool \<Rightarrow> bool" where
  "cache_ok seed cache valid \<longleftrightarrow>
    (valid \<longrightarrow> (\<forall>i < length cache. (i = 0 \<or> i mod 20 \<noteq> 0) \<longrightarrow> cache ! i = pattern_base seed + of_nat (i mod 80) * 77777))"

text \<open>The packet the sender makes for a seed and an argument.\<close>

definition test_pattern :: "u32 \<Rightarrow> nat \<Rightarrow> u32 \<Rightarrow> u32 list" where
  "test_pattern seed count arg =
     map (\<lambda>i. if i mod 20 = 0 then arg else pattern_base seed + of_nat (i mod 80) * 77777) [0..<count]"

lemma nth_test_pattern:
  "i < count \<Longrightarrow> test_pattern seed count arg ! i =
    (if i mod 20 = 0 then arg else pattern_base seed + of_nat (i mod 80) * 77777)"
  unfolding test_pattern_def by (subst nth_map_upt) auto

lemma length_test_pattern [simp]: "length (test_pattern seed count arg) = count"
  by (simp add: test_pattern_def)

lemma updateCache_ok:
  assumes "cache_ok seed cache valid" and "updateCache count cache seed valid = (cache', valid')"
  shows "cache_ok seed cache' valid' \<and> valid' \<and> count \<le> length cache'"
proof (cases "count < length cache \<and> valid")
  case True
  with assms show ?thesis by (auto simp: updateCache_def)
next
  case False
  with assms(2) have "cache' = genhack count (pattern_base seed)" "valid'" by (auto simp: updateCache_def)
  then show ?thesis unfolding cache_ok_def using nth_genhack by simp
qed

lemma generate_pattern:
  assumes "cache_ok (tx_pattern_seed t) (tx_cache t) (tx_cacheValid t)"
  shows "fst (generate count arg t) = test_pattern (tx_pattern_seed t) count arg \<and>
    cache_ok (tx_pattern_seed (snd (generate count arg t))) (tx_cache (snd (generate count arg t)))
      (tx_cacheValid (snd (generate count arg t)))"
proof (cases "count = 0")
  case True
  then show ?thesis using assms by (simp add: generate_def test_pattern_def)
next
  case False
  obtain c v where u: "updateCache count (tx_cache t) (tx_pattern_seed t) (tx_cacheValid t) = (c, v)" by fastforce
  note c = updateCache_ok [OF assms u]
  have gen: "generate count arg t = (stamp arg ((take count c)[0 := arg]), t\<lparr>tx_cache := c, tx_cacheValid := v\<rparr>)"
    using False c by (simp add: generate_def u Let_def)
  have "stamp arg ((take count c)[0 := arg]) = test_pattern (tx_pattern_seed t) count arg"
    by (rule nth_equalityI) (use c in \<open>auto simp: nth_stamp nth_test_pattern cache_ok_def nth_list_update\<close>)
  with gen c show ?thesis by (cases v) simp_all
qed

lemma equal_range_same_length: "length xs \<le> length ys \<Longrightarrow> equal_range xs ys = Some (xs = take (length xs) ys)"
  by (induction xs ys rule: equal_range.induct) auto

lemma hamming_32_count: "hamming_32 a b = of_nat (length (filter (\<lambda>i. bit a i \<noteq> bit b i) [0..<32]))"
proof -
  have "fold (\<lambda>i out. if drop_bit i a AND 1 \<noteq> drop_bit i b AND 1 then out + 1 else out) is acc =
      acc + (of_nat (length (filter (\<lambda>i. bit a i \<noteq> bit b i) is)) :: u8)" for "is" acc
    by (induction "is" arbitrary: acc)
      (auto simp: and_one_eq mod2_eq_if bit_iff_odd_drop_bit split: if_splits)
  from this [of "[0..<32]" 0] show ?thesis by (simp add: hamming_32_def)
qed

lemma hamming_32_self [simp]: "hamming_32 a a = 0"
  by (simp add: hamming_32_count)

lemma hamming_vector_cong:
  "length v = length v' \<Longrightarrow> drop 1 v = drop 1 v' \<Longrightarrow> hamming_vector v w = hamming_vector v' w"
proof -
  assume v: "length v = length v'" "drop 1 v = drop 1 v'"
  have "v ! i = v' ! i" if "i \<in> set [1..<min (length v') (length w)]" for i
  proof -
    have "drop 1 v ! (i - 1) = drop 1 v' ! (i - 1)" by (simp only: v(2))
    then show ?thesis using that v(1) by simp
  qed
  then show ?thesis unfolding hamming_vector_def v(1) by (intro fold_cong) auto
qed

lemma hamming_vector_same: "drop 1 v = drop 1 w \<Longrightarrow> length v = length w \<Longrightarrow> hamming_vector v w = 0"
proof -
  assume v: "drop 1 v = drop 1 w" "length v = length w"
  have "hamming_vector v w = hamming_vector w w" by (rule hamming_vector_cong [OF v(2,1)])
  moreover have "fold (\<lambda>i out. out + ucast (hamming_32 (w ! i) (w ! i))) is 0 = (0 :: u32)" for "is"
    by (induction "is") simp_all
  ultimately show ?thesis by (simp add: hamming_vector_def)
qed

text \<open>
  A packet that starts with the right sequence number, any of its other words damaged, is counted
  bit for bit, when the receiver has not cached a longer pattern; but the correct ones are words
  less errors, not bits.
\<close>

lemma got_counts:
  assumes "packet \<noteq> []" and "length (rx_cache r) \<le> length packet"
  defines "sent \<equiv> test_pattern (rx_pattern_seed r) (length packet) (packet ! 0)"
  shows "\<exists>r'. got ms packet r = Some r' \<and> bits_wrong r' = bits_wrong r + hamming_vector sent packet \<and>
    bits_correct r' = bits_correct r + (of_nat (length packet) - 1 - hamming_vector sent packet)"
proof -
  let ?c = "stamp (packet ! 0) (genhack (length packet) (pattern_base (rx_pattern_seed r)))"
  have u: "updateCache (length packet) (rx_cache r) (rx_pattern_seed r) (rx_cacheValid r) =
      (genhack (length packet) (pattern_base (rx_pattern_seed r)), True)"
    using assms(2) by (simp add: updateCache_def)
  have "drop 1 ?c = drop 1 sent"
    by (rule nth_equalityI) (auto simp: sent_def nth_stamp nth_test_pattern nth_genhack)
  then have same: "equal_range (drop 1 ?c) (drop 1 packet) = Some (drop 1 sent = drop 1 packet)"
    and h: "hamming_vector ?c packet = hamming_vector sent packet"
    using equal_range_same_length [of "drop 1 ?c" "drop 1 packet"] hamming_vector_cong [of ?c sent packet]
    by (simp_all add: sent_def)
  have "drop 1 sent = drop 1 packet \<Longrightarrow> hamming_vector sent packet = 0"
    by (rule hamming_vector_same) (simp_all add: sent_def)
  then show ?thesis
    unfolding got_def Let_def u prod.case same option.case h using assms(1) by simp
qed

text \<open>A shorter packet that is right is compared with the longer cache, past its end.\<close>

lemma shorter_packet_overread:
  "Option.bind (got 0 (test_pattern 0x44 3 1) AirMacBitrateRx) (got 1 (test_pattern 0x44 2 2)) = None"
proof -
  have "test_pattern 0x44 3 1 = [1, pattern_base 0x44 + 77777, pattern_base 0x44 + 2 * 77777]"
    "test_pattern 0x44 2 2 = [2, pattern_base 0x44 + 77777]"
    by (simp_all add: test_pattern_def upt_rec)
  then show ?thesis
    by (simp add: got_def AirMacBitrateRx_def updateCache_def stamp_def genhack_def upt_rec Let_def)
qed

text \<open>Changing the seed does not touch the cache: the next packet still has the old pattern.\<close>

lemma setSeed_keeps_pattern:
  "fst (generate 2 7 (setSeed_tx 0x55 (snd (generate 3 1 AirMacBitrateTx)))) = test_pattern 0x44 2 7"
  by (simp add: generate_def setSeed_tx_def AirMacBitrateTx_def updateCache_def genhack_def stamp_def
      test_pattern_def upt_rec)

end
