(* ===== verification/Tx_Schedule.thy ===== *)
theory Tx_Schedule
  imports Air_Outbound Arbiter Air_Bitrate
begin

text \<open>
  The data path of a transmitter, \<open>TxSchedule\<close> (driver/TxSchedule.cpp) without its state machine:
  joint messages from the arbiter wait in \<open>beamform_buffer\<close>, one at a time becomes the pending
  packet, and when its second comes its packets replace the tun queue; \<open>pullAndPrepTunData\<close> then
  strings the waiting packets together, each behind its hash, and makes an air packet of them.

  Acknowledgements to the arbiter are values of \<open>joint_ack\<close>. \<open>pullAndPrepTunData\<close> passes an
  uninitialised \<open>uint8_t\<close> to \<open>transform\<close> as the sequence number; that value is the argument
  \<open>indeterminate\<close>. The functions of the duplex schedule are outside the repository and are
  arguments: \<open>next_frame\<close> for \<open>duplex_next_frame\<close> and \<open>duty_done\<close> for
  \<open>duplex_duty_frame_done\<close> with the role's usage map.
\<close>

section \<open>The packets\<close>

record tx_sched =
  airTx :: air_outbound
  retransmitBuffer :: retransmit_buffer
  tx_tun :: packets
  beamform_buffer :: "u32 list list"
  pending_valid :: nat
  pending_from_peer :: u32
  pending_epoc :: u32
  pending_ts :: u32
  pending_seq :: u8
  pending_packets :: packets
  pending_lifetime :: u32
  debug_duplex :: nat
  debug_duplex_type :: u32
  debug_duplex_size :: u32
  debug_extra_gap :: u32
  debug_duplex_busy_until :: u32
  debug_busy_valid :: bool
  debug_duplex_ahead :: u32
  duplex_seq :: u32
  macBitrate :: bitrate_tx

datatype joint_ack =
    JointAck u32 u32 u32 u8 u32 u32 bool
  | JointAckLifetime u32 u32 u8 u32 bool

definition tunFirstLength :: "'a tx_sched_scheme \<Rightarrow> nat" where
  "tunFirstLength s =
     (if packetsReady (retransmitBuffer s) \<noteq> 0 then firstLength (retransmitBuffer s)
      else if queue_size (tx_tun s) \<noteq> 0
      then (case peek (tx_tun s) of None \<Rightarrow> 0 | Some v \<Rightarrow> length v)
      else 0)"

definition tunPacketsReady :: "'a tx_sched_scheme \<Rightarrow> nat" where
  "tunPacketsReady s = queue_size (tx_tun s) + packetsReady (retransmitBuffer s)"

definition tunGetPacket :: "'a tx_sched_scheme \<Rightarrow> (u32 list \<times> 'a tx_sched_scheme) option" where
  "tunGetPacket s =
     (if packetsReady (retransmitBuffer s) \<noteq> 0
      then map_option (\<lambda>(v, b). (v, s\<lparr>retransmitBuffer := b\<rparr>)) (getPacket (retransmitBuffer s))
      else if queue_size (tx_tun s) \<noteq> 0
      then map_option (\<lambda>(v, q). (v, s\<lparr>tx_tun := q\<rparr>)) (dequeue (tx_tun s))
      else Some ([], s))"

definition tx_waiting :: "'a tx_sched_scheme \<Rightarrow> packets" where
  "tx_waiting s = need_retransmit (retransmitBuffer s) @ tx_tun s"

section \<open>Joint messages\<close>

text \<open>\<open>EventDsp::handleJointTransmit\<close>: \<open>slots\<close> is \<open>SCHEDULE_SLOTS\<close>, \<open>est\<close> the
  predicted epoch and frame.\<close>

definition handleJointTransmit ::
    "u32 \<Rightarrow> u32 \<times> u32 \<Rightarrow> u32 list \<Rightarrow> 'a tx_sched_scheme \<Rightarrow> (joint_ack list \<times> 'a tx_sched_scheme) option" where
  "handleJointTransmit slots est data_vec s =
     (case unpackJointZmqHeader data_vec of
        None \<Rightarrow> None
      | Some (from_peer, epoc, ts, seq) \<Rightarrow>
          if ts \<ge> slots then Some ([], s)
          else Some ([JointAck from_peer epoc ts seq (fst est) (snd est) False],
                     s\<lparr>beamform_buffer := beamform_buffer s @ [data_vec]\<rparr>))"

definition bufferedBeamform :: "'a tx_sched_scheme \<Rightarrow> nat" where
  "bufferedBeamform s = length (beamform_buffer s)"

definition loadPendingMember :: "'a tx_sched_scheme \<Rightarrow> 'a tx_sched_scheme option" where
  "loadPendingMember s =
     (if pending_valid s \<noteq> 0 then Some s
      else case beamform_buffer s of
        [] \<Rightarrow> Some s
      | m # rest \<Rightarrow>
          (case unpackJointZmq m of
             None \<Rightarrow> None
           | Some ((from_peer, epoc, ts, seq), packets) \<Rightarrow>
               Some (s\<lparr>pending_from_peer := from_peer, pending_epoc := epoc, pending_ts := ts, pending_seq := seq,
                       pending_packets := packets, pending_valid := 1, beamform_buffer := rest\<rparr>)))"

definition dumpPendingPacket_epoc :: "u32 \<Rightarrow> u32 \<Rightarrow> 'a tx_sched_scheme \<Rightarrow> joint_ack list \<times> 'a tx_sched_scheme" where
  "dumpPendingPacket_epoc now_epoc now_frame s =
     ([JointAck (pending_from_peer s) (pending_epoc s) (pending_ts s) (pending_seq s) now_epoc now_frame True],
      s\<lparr>pending_valid := 0\<rparr>)"

definition dumpPendingPacket :: "u32 \<Rightarrow> 'a tx_sched_scheme \<Rightarrow> joint_ack list \<times> 'a tx_sched_scheme" where
  "dumpPendingPacket now_lifetime32 s =
     ([JointAckLifetime (pending_from_peer s) (pending_lifetime s) (pending_seq s) now_lifetime32 True],
      s\<lparr>pending_valid := 0\<rparr>)"

definition loadZmqBeamform :: "u32 \<Rightarrow> u32 \<Rightarrow> 'a tx_sched_scheme \<Rightarrow> joint_ack list \<times> 'a tx_sched_scheme" where
  "loadZmqBeamform now_epoc now_frame s =
     (if pending_valid s \<noteq> 1 then ([], s)
      else if now_epoc > pending_epoc s then dumpPendingPacket_epoc now_epoc now_frame s
      else if now_epoc + 20 < pending_epoc s then dumpPendingPacket_epoc now_epoc now_frame s
      else if now_epoc = pending_epoc s \<or> now_epoc + 1 = pending_epoc s
      then (let (dumped, tun) = dump_tun_loop (tx_tun s) 0
            in ([], s\<lparr>tx_tun := foldl enqueue tun (pending_packets s),
                      airTx := (airTx s)\<lparr>tx_seq := pending_seq s\<rparr>, pending_valid := 2\<rparr>))
      else ([], s))"

section \<open>From packets to words\<close>

record load_acc =
  load_hashes :: "u32 list"
  load_retransmit :: packets
  build_packet :: "u32 list"
  input_total :: int
  load_count :: int

definition load_acc0 :: load_acc where
  "load_acc0 = \<lparr>load_hashes = [], load_retransmit = [], build_packet = [], input_total = 0, load_count = 0\<rparr>"

definition load_add :: "bool \<Rightarrow> u32 list \<Rightarrow> load_acc \<Rightarrow> load_acc" where
  "load_add verify_hash fromTun acc =
     (let packet_hash = getHashForWords fromTun
      in \<lparr>load_hashes = load_hashes acc @ (if verify_hash then [packet_hash] else []),
          load_retransmit = load_retransmit acc @ (if verify_hash then [fromTun] else []),
          build_packet = build_packet acc @ [packet_hash] @ fromTun,
          input_total = input_total acc + int (length fromTun),
          load_count = load_count acc + 1\<rparr>)"

partial_function (option) load_loop ::
    "bool \<Rightarrow> int \<Rightarrow> load_acc \<Rightarrow> 'a tx_sched_scheme \<Rightarrow> (load_acc \<times> 'a tx_sched_scheme) option" where
  "load_loop verify_hash output_limit_words acc s =
     Option.bind (tunGetPacket s) (\<lambda>(fromTun, s').
       let acc' = load_add verify_hash fromTun acc
       in if tunPacketsReady s' > 0 \<and>
             (output_limit_words \<noteq> 0 \<longrightarrow> int (tunFirstLength s') + 1 + input_total acc' < output_limit_words)
          then load_loop verify_hash output_limit_words acc' s'
          else Some (acc', s'))"

definition loadAllPackets :: "bool \<Rightarrow> int \<Rightarrow> 'a tx_sched_scheme \<Rightarrow> (load_acc \<times> 'a tx_sched_scheme) option" where
  "loadAllPackets verify_hash output_limit_words s =
     (if tunPacketsReady s > 0 then load_loop verify_hash output_limit_words load_acc0 s else Some (load_acc0, s))"

definition pullAndPrepTunData ::
    "schifra \<Rightarrow> u8 \<Rightarrow> bool \<Rightarrow> int \<Rightarrow> 'a tx_sched_scheme \<Rightarrow> (u32 list \<times> 'a tx_sched_scheme) option" where
  "pullAndPrepTunData S indeterminate verify_hash max_mapmov_size s =
     (let output_limit_words =
            (if max_mapmov_size = 0 then 0 else max_mapmov_size - int (header_overhead_words (air (airTx s))))
      in case loadAllPackets verify_hash output_limit_words s of
           None \<Rightarrow> None
         | Some (acc, s') \<Rightarrow>
             map_option (\<lambda>d. (d, s')) (transform S (air (airTx s')) (build_packet acc) indeterminate 0))"

partial_function (option) dump_user_loop :: "nat \<Rightarrow> 'a tx_sched_scheme \<Rightarrow> (nat \<times> 'a tx_sched_scheme) option" where
  "dump_user_loop burned s =
     (if tunPacketsReady s > 0
      then Option.bind (tunGetPacket s) (\<lambda>(v, s'). dump_user_loop (burned + 1) s')
      else Some (burned, s))"

definition dumpUserData :: "'a tx_sched_scheme \<Rightarrow> 'a tx_sched_scheme option" where
  "dumpUserData s = map_option snd (dump_user_loop 0 s)"

section \<open>Debug packets of the duplex mode\<close>

text \<open>\<open>life\<close> is what \<open>predictLifetime32\<close> answers.\<close>

definition isDebugDuplex :: "nat \<Rightarrow> u32 \<Rightarrow> 'a tx_sched_scheme \<Rightarrow> bool \<times> 'a tx_sched_scheme" where
  "isDebugDuplex pv life s =
     (if pv \<noteq> 0 then (False, s)
      else if debug_busy_valid s
      then if life < debug_duplex_busy_until s + debug_extra_gap s then (False, s)
           else (debug_duplex s > 0, s\<lparr>debug_busy_valid := False\<rparr>)
      else (debug_duplex s > 0, s))"

definition applyDebugDuplex1 :: "(u32 \<Rightarrow> u32 \<Rightarrow> u32) \<Rightarrow> u32 \<Rightarrow> u32 \<Rightarrow> 'a tx_sched_scheme \<Rightarrow> 'a tx_sched_scheme" where
  "applyDebugDuplex1 next_frame start_frame lifetime32 s =
     s\<lparr>pending_lifetime := next_frame (lifetime32 + debug_duplex_ahead s) start_frame\<rparr>"

text \<open>\<open>_get_counter\<close> counts in \<open>int\<close>.\<close>

definition get_counter :: "u32 \<Rightarrow> u32 \<Rightarrow> u32 list" where
  "get_counter start stop = map word_of_int [sint start..sint stop - 1]"

definition applyDebugDuplex2 :: "schifra \<Rightarrow> u8 \<Rightarrow> 'a tx_sched_scheme \<Rightarrow> (u32 list \<times> 'a tx_sched_scheme) option" where
  "applyDebugDuplex2 S indeterminate s =
     (let (counter, s1) =
            (if debug_duplex_type s = 1
             then (let (out, m) = generate (unat (debug_duplex_size s)) (duplex_seq s) (macBitrate s)
                   in (out, s\<lparr>macBitrate := m, duplex_seq := duplex_seq s + 1\<rparr>))
             else (get_counter 0xFF000000 (0xFF000000 + debug_duplex_size s), s))
      in case transform S (air (airTx s1)) counter indeterminate 0 of
           None \<Rightarrow> None
         | Some padded \<Rightarrow> map_option (\<lambda>d. (d, s1)) (padData (air (airTx s1)) padded))"

text \<open>Division by a word count of zero stops the program.\<close>

definition estimateBusy :: "(u32 \<Rightarrow> u32 \<Rightarrow> u32) \<Rightarrow> u32 \<Rightarrow> u32 \<Rightarrow> 'a tx_sched_scheme \<Rightarrow> u32 option" where
  "estimateBusy duty_done since sent_length s =
     (if sliced_word_count (air (airTx s)) = 0 then None
      else Some (duty_done since (of_nat (unat sent_length div sliced_word_count (air (airTx s))))))"

definition finishedDebugDuplex ::
    "(u32 \<Rightarrow> u32 \<Rightarrow> u32) \<Rightarrow> u32 \<Rightarrow> bool \<Rightarrow> 'a tx_sched_scheme \<Rightarrow> 'a tx_sched_scheme option" where
  "finishedDebugDuplex duty_done sent_length skipped s =
     (if \<not> skipped
      then (case estimateBusy duty_done (pending_lifetime s) sent_length s of
              None \<Rightarrow> None
            | Some busy \<Rightarrow> Some (s\<lparr>debug_duplex_busy_until := busy, debug_busy_valid := True,
                debug_duplex := (if debug_duplex s > 0 then debug_duplex s - 1 else debug_duplex s)\<rparr>))
      else Some s)"

text \<open>
  \<open>splitFeedbackVectorMapmovScheduledSized\<close>: the data is cut in chunks of alternating sizes, each
  sent at a lifetime of its own. \<open>frame\<close> stands for the library calls that wrap a chunk and stamp it.
\<close>

partial_function (option) split_chunks ::
    "u32 list \<Rightarrow> nat \<times> u32 \<Rightarrow> nat \<times> u32 \<Rightarrow> nat \<Rightarrow> u32 \<Rightarrow> nat \<Rightarrow> (u32 \<times> u32 list) list option" where
  "split_chunks d j0 j1 jump_count lifetime_now built =
     (if built < length d
      then (let (word_size, bump) = (if jump_count mod 2 = 0 then j0 else j1);
                using_size = min (length d - built) word_size
            in Option.bind (split_chunks d j0 j1 (jump_count + 1) (lifetime_now + bump) (built + using_size))
                 (\<lambda>rest. Some ((lifetime_now, vslice built using_size d) # rest)))
      else Some [])"

definition splitFeedbackVectorMapmovScheduledSized ::
    "(u32 \<Rightarrow> u32 list \<Rightarrow> u32 list) \<Rightarrow> u32 list \<Rightarrow> nat \<times> u32 \<Rightarrow> nat \<times> u32 \<Rightarrow> nat \<Rightarrow> u32 \<Rightarrow> u32 list option" where
  "splitFeedbackVectorMapmovScheduledSized frame d j0 j1 slicewc lstart =
     (if slicewc = 0 then None
      else if length d mod slicewc \<noteq> 0 then Some []
      else map_option (\<lambda>cs. concat (map (\<lambda>(l, c). frame l c) cs)) (split_chunks d j0 j1 0 lstart 0))"

section \<open>The transmitter as a packet source\<close>

interpretation txq: packet_source "\<lambda>_. True" tunPacketsReady tunFirstLength tunGetPacket tx_waiting
proof unfold_locales
  fix s :: "'a tx_sched_scheme" and v vs
  show "tunPacketsReady s = length (tx_waiting s)"
    by (simp add: tunPacketsReady_def tx_waiting_def packetsReady_def queue_size_def)
  assume w: "tx_waiting s = v # vs"
  consider u us where "need_retransmit (retransmitBuffer s) = u # us"
    | "need_retransmit (retransmitBuffer s) = []" "tx_tun s = v # vs"
    using w by (cases "need_retransmit (retransmitBuffer s)") (auto simp: tx_waiting_def)
  then have "tunFirstLength s = length v \<and>
      (\<exists>s'. tunGetPacket s = Some (v, s') \<and> tx_waiting s' = vs)"
    using w by cases (auto simp: tunFirstLength_def tunGetPacket_def tx_waiting_def packetsReady_def firstLength_def
        getPacket_def queue_size_def)
  then show "tunFirstLength s = length v" "\<exists>s'. tunGetPacket s = Some (v, s') \<and> True \<and> tx_waiting s' = vs"
    by blast+
qed

text \<open>The state with every waiting packet gone.\<close>

definition tx_drained :: "'a tx_sched_scheme \<Rightarrow> 'a tx_sched_scheme" where
  "tx_drained s = s\<lparr>retransmitBuffer := (retransmitBuffer s)\<lparr>need_retransmit := []\<rparr>, tx_tun := []\<rparr>"

lemma tunGetPacket_drains:
  "tx_waiting s = v # vs \<Longrightarrow>
    \<exists>s'. tunGetPacket s = Some (v, s') \<and> tx_waiting s' = vs \<and> tx_drained s' = tx_drained s"
  by (cases "need_retransmit (retransmitBuffer s)")
    (auto simp: tx_waiting_def tunGetPacket_def packetsReady_def getPacket_def queue_size_def tx_drained_def)

lemma tx_drained_empty: "tx_waiting s = [] \<Longrightarrow> tx_drained s = s"
  by (simp add: tx_waiting_def tx_drained_def)

lemma tx_drained_frame [simp]: "airTx (tx_drained s) = airTx s" "tx_waiting (tx_drained s) = []"
  by (simp_all add: tx_drained_def tx_waiting_def)

lemma tunReady [simp]: "tunPacketsReady s > 0 \<longleftrightarrow> tx_waiting s \<noteq> []"
  using txq.ready_contents [of s] by (cases "tx_waiting s") simp_all

lemma load_loop_all:
  "tx_waiting s = v # vs \<Longrightarrow> load_loop vh 0 acc s = Some (fold (load_add vh) (v # vs) acc, tx_drained s)"
proof (induction vs arbitrary: v acc s)
  case Nil
  then obtain s' where "tunGetPacket s = Some (v, s')" "tx_waiting s' = []" "tx_drained s' = tx_drained s"
    using tunGetPacket_drains by blast
  then show ?case using tx_drained_empty [of s'] by (subst load_loop.simps) (simp add: Let_def)
next
  case (Cons u us)
  then obtain s' where "tunGetPacket s = Some (v, s')" "tx_waiting s' = u # us" "tx_drained s' = tx_drained s"
    using tunGetPacket_drains by blast
  then show ?case using Cons.IH [of s' u "load_add vh v acc"] by (subst load_loop.simps) (simp add: Let_def)
qed

lemma fold_load_add:
  "fold (load_add vh) ps acc =
    \<lparr>load_hashes = load_hashes acc @ (if vh then map getHashForWords ps else []),
     load_retransmit = load_retransmit acc @ (if vh then ps else []),
     build_packet = build_packet acc @ concat (map (\<lambda>p. getHashForWords p # p) ps),
     input_total = input_total acc + int (words_of ps), load_count = load_count acc + int (length ps)\<rparr>"
  by (induction ps arbitrary: acc) (simp_all add: load_add_def Let_def)

lemma loadAllPackets_all:
  "loadAllPackets vh 0 s = Some (fold (load_add vh) (tx_waiting s) load_acc0, tx_drained s)"
  using tx_drained_empty [of s] by (cases "tx_waiting s") (simp_all add: loadAllPackets_def load_loop_all)

lemma dump_user_loop_all: "\<exists>n. dump_user_loop b s = Some (n, tx_drained s)"
proof (induction "tx_waiting s" arbitrary: b s)
  case Nil
  then show ?case using tx_drained_empty [of s] by (subst dump_user_loop.simps) simp
next
  case (Cons v vs)
  then obtain s' where "tunGetPacket s = Some (v, s')" "tx_waiting s' = vs" "tx_drained s' = tx_drained s"
    using tunGetPacket_drains by metis
  then show ?case using Cons.hyps(1) [of s' "b + 1"] Cons.hyps(2) [symmetric] by (subst dump_user_loop.simps) simp
qed

lemma dumpUserData_eq: "dumpUserData s = Some (tx_drained s)"
  using dump_user_loop_all [of 0 s] by (auto simp: dumpUserData_def)

text \<open>With no limit everything waiting goes into one air packet, each packet behind its hash.\<close>

lemma pullAndPrepTunData_all:
  "pullAndPrepTunData S sq vh 0 s =
    map_option (\<lambda>d. (d, tx_drained s))
      (transform S (air (airTx s)) (concat (map (\<lambda>p. getHashForWords p # p) (tx_waiting s))) sq 0)"
  by (simp add: pullAndPrepTunData_def loadAllPackets_all fold_load_add load_acc0_def)

text \<open>
  A limit leaves the hash words of the packets already taken out of account: three packets of one
  word are pulled under a limit of five and make six words.
\<close>

lemma limit_ignores_hashes:
  "map_option (\<lambda>(acc, s). (length (build_packet acc), tx_waiting s))
     (loadAllPackets False 5 (s\<lparr>retransmitBuffer := RetransmitBuffer, tx_tun := [[1], [2], [3], [4]]\<rparr>)) = Some (6, [[4]])"
  by (simp add: loadAllPackets_def load_loop.simps tunGetPacket_def tunPacketsReady_def tunFirstLength_def
      packetsReady_def firstLength_def queue_size_def RetransmitBuffer_def load_add_def load_acc0_def Let_def
      tx_waiting_def)

end
