(* ===== verification/Tx_Fsm.thy ===== *)
theory Tx_Fsm
  imports Tx_Schedule "HOL-Library.Signed_Division"
begin

text \<open>
  The state machine of the transmitter, \<open>TxSchedule::tickFsmSchedule\<close> (driver/TxSchedule.cpp), one
  definition per state. \<open>tickFsmSchedule\<close> runs the state that is pending and leaves the next one
  pending; the delays until the next tick only matter to the event loop and are left out.

  What a tick learns from outside is its argument \<open>e\<close>: the clock, the predictions of the schedule,
  the fill levels of FlushHiggs, the settings, and the library functions of the duplex schedule and
  of the bus frames. Within a tick the atomics written by other threads do not change; between ticks
  the step relation \<open>tx_step\<close> lets other threads change them. What a tick does to the rest of the
  modem is its list of actions. A tick is \<open>None\<close> where the code stops: a failed assertion or a
  division by zero in the code it calls, or a busy-wait that does not end with the given readings of
  the lifetime.
\<close>

section \<open>State\<close>

datatype tx_state =
    PRE_BOOT | DEBUG_EARLY_EVENT_0 | WAIT_EVENTS | DEBUG_TX_MAPMOV_0 | DEBUG_TX_MAPMOV_1 | DEBUG_TX_MAPMOV_2
  | PERIODIC_SCHEDULE_0 | TX_FSM_ERROR_CONDITION_0 | TX_SEND_BUSY_WAIT
  | TX_FSM_SEND_LOW_PRI_0 | TX_FSM_SEND_LOW_PRI_1 | TX_FSM_SEND_LOW_PRI_2
  | TX_FSM_RECOVER_ERROR_0_A | TX_FSM_RECOVER_ERROR_1_A | TX_FSM_RECOVER_ERROR_2_A
  | TX_FSM_RECOVER_ERROR_0 | TX_FSM_RECOVER_ERROR_1 | TX_FSM_RECOVER_ERROR_2 | TX_FSM_RECOVER_ERROR_3
  | TX_FSM_RECOVER_ERROR_4 | DEBUG_STALL | TX_STALL

datatype tx_action =
    Progress
  | MapmovRing u32
  | GainRing "u32 list list"
  | MagCheckOff
  | CheckLastUserdata
  | Ack joint_ack
  | SuppressFeedback u32
  | ToHiggs "u32 list"
  | ExitSendingLow

record tx_fsm = tx_sched +
  dsp_state :: tx_state
  dsp_state_pending :: tx_state
  role :: string
  doWarmup :: bool
  requestPause :: bool
  exitDataMode :: bool
  errorDetected :: nat
  flushZerosEnded :: nat
  flushZerosStarted :: nat
  errorDetectedLocal :: nat
  sendLowLoops :: nat
  errorRecoveryAttempts :: nat
  errorFlushZerosWaiting :: nat
  debug_grow_size :: u32
  last_low :: time_point
  last_tickle :: time_point
  idle_print :: int
  long_sleep_print :: int
  tx_mapmov_rb_for_eth :: u32
  duplex_debug_split :: bool
  duplex_skip_body :: bool
  link_up :: bool
  allow_zmq_higgs :: bool
  member_early_frames :: int
  epoc_valid :: bool
  map_mov_packets_sent :: u32
  map_mov_acks_received :: u32
  js_recover_request :: bool
  js_recover_result :: bool

record tick_env =
  now :: time_point
  woke_epoc :: u32
  woke_frame :: u32
  life_debug :: u32
  life_apply :: u32
  life_alpha :: u32
  life_bravo :: u32
  life_loop :: "u32 list"
  low_len :: nat
  fill_level :: nat
  normal_len :: nat
  valid_8k :: bool
  early_frames :: int
  barrelshift_set :: bool
  validate_all :: bool
  indeterminate_seq :: u8
  start_frame_duplex :: u32
  schedule_frames :: int
  duplex_frames_count :: int
  mapmov_mode_cmd :: u32
  allocation_code :: "air_packet \<Rightarrow> u32"
  gain_addr :: u32
  gain_cmd :: u32
  library :: schifra
  shared_settings :: "air_outbound \<Rightarrow> air_outbound option"
  next_frame :: "u32 \<Rightarrow> u32 \<Rightarrow> u32"
  duty_done :: "u32 \<Rightarrow> u32 \<Rightarrow> u32"
  mapmov_frame :: "u32 \<Rightarrow> u32 list \<Rightarrow> u32 list"
  debug_fill :: packets
  status_reply :: "u32 list \<Rightarrow> u32 list"

type_synonym tx_result = "(tx_action list \<times> tx_state \<times> tx_fsm) option"

section \<open>Helpers of the states\<close>

text \<open>\<open>elapsed_us\<close> is a \<open>size_t\<close> and is compared with a double.\<close>

definition tickleAttachedProgress :: "tick_env \<Rightarrow> tx_fsm \<Rightarrow> tx_action list \<times> tx_fsm" where
  "tickleAttachedProgress e s =
     (if (now e - last_tickle s) div 1000 < 1000000 then ([], s) else ([Progress], s\<lparr>last_tickle := now e\<rparr>))"

definition setLinkUp :: "bool \<Rightarrow> tx_fsm \<Rightarrow> tx_fsm" where
  "setLinkUp up s = s\<lparr>link_up := up\<rparr>"

section \<open>Boot\<close>

definition fsm_PRE_BOOT :: "tick_env \<Rightarrow> tx_fsm \<Rightarrow> tx_result" where
  "fsm_PRE_BOOT e s =
     (case shared_settings e (airTx s) of
        None \<Rightarrow> None
      | Some a \<Rightarrow>
          let s1 = s\<lparr>airTx := a, tx_mapmov_rb_for_eth := mapmov_mode_cmd e OR allocation_code e (air a)\<rparr>
          in if role s = ''arb'' then Some ([], TX_STALL, s1) else Some ([], DEBUG_EARLY_EVENT_0, s1))"

definition fsm_DEBUG_EARLY_EVENT_0 :: "tick_env \<Rightarrow> tx_fsm \<Rightarrow> tx_result" where
  "fsm_DEBUG_EARLY_EVENT_0 e s =
     Some ((if barrelshift_set e then [GainRing (getGainRingbus (air (airTx s)) (gain_addr e) (gain_cmd e))] else []) @
             [MagCheckOff], WAIT_EVENTS, s)"

definition fsm_WAIT_EVENTS :: "tick_env \<Rightarrow> tx_fsm \<Rightarrow> tx_result" where
  "fsm_WAIT_EVENTS e s =
     (if doWarmup s then Some ([], DEBUG_TX_MAPMOV_0, s\<lparr>doWarmup := False\<rparr>) else Some ([], WAIT_EVENTS, s))"

definition fsm_DEBUG_TX_MAPMOV_0 :: "tick_env \<Rightarrow> tx_fsm \<Rightarrow> tx_result" where
  "fsm_DEBUG_TX_MAPMOV_0 e s =
     (let (acts, s1) = tickleAttachedProgress e s
      in Some (acts @ (if tx_mapmov_rb_for_eth s1 \<noteq> 0 then [MapmovRing (tx_mapmov_rb_for_eth s1)] else []),
               DEBUG_TX_MAPMOV_1, s1\<lparr>allow_zmq_higgs := True\<rparr>))"

definition fsm_DEBUG_TX_MAPMOV_1 :: "tick_env \<Rightarrow> tx_fsm \<Rightarrow> tx_result" where
  "fsm_DEBUG_TX_MAPMOV_1 e s =
     (let (acts, s1) = tickleAttachedProgress e (s\<lparr>epoc_valid := False\<rparr>) in Some (acts, DEBUG_TX_MAPMOV_2, s1))"

definition fsm_DEBUG_TX_MAPMOV_2 :: "tick_env \<Rightarrow> tx_fsm \<Rightarrow> tx_result" where
  "fsm_DEBUG_TX_MAPMOV_2 e s =
     Some ([], if epoc_valid s then PERIODIC_SCHEDULE_0 else DEBUG_TX_MAPMOV_2, s)"

definition fsm_PERIODIC_SCHEDULE_0 :: "tick_env \<Rightarrow> tx_fsm \<Rightarrow> tx_result" where
  "fsm_PERIODIC_SCHEDULE_0 e s =
     (case dumpUserData (s\<lparr>debug_grow_size := 1, allow_zmq_higgs := False, map_mov_packets_sent := 0,
              map_mov_acks_received := 0\<rparr>) of
        None \<Rightarrow> None
      | Some s1 \<Rightarrow> Some ([], TX_SEND_BUSY_WAIT, (setLinkUp True s1)\<lparr>idle_print := 0\<rparr>))"

section \<open>Low priority data\<close>

definition fsm_SEND_LOW_PRI_0 :: "tick_env \<Rightarrow> tx_fsm \<Rightarrow> tx_result" where
  "fsm_SEND_LOW_PRI_0 e s =
     (let s1 = s\<lparr>last_low := now e\<rparr>;
          breakLoop = (map_mov_packets_sent s1 = map_mov_acks_received s1 \<and> fill_level e < 1 \<and> normal_len e = 0 \<and> \<not> valid_8k e);
          s2 = s1\<lparr>sendLowLoops := sendLowLoops s1 + 1\<rparr>
      in if sendLowLoops s1 > 2100
         then Some ([CheckLastUserdata], TX_FSM_RECOVER_ERROR_0_A,
                    s2\<lparr>errorRecoveryAttempts := errorRecoveryAttempts s2 + 1, debug_grow_size := 1\<rparr>)
         else Some ([], if breakLoop then TX_FSM_SEND_LOW_PRI_1 else TX_FSM_SEND_LOW_PRI_0, s2))"

definition fsm_SEND_LOW_PRI_1 :: "tick_env \<Rightarrow> tx_fsm \<Rightarrow> tx_result" where
  "fsm_SEND_LOW_PRI_1 e s = Some ([], TX_FSM_SEND_LOW_PRI_2, s\<lparr>allow_zmq_higgs := True\<rparr>)"

definition fsm_SEND_LOW_PRI_2 :: "tick_env \<Rightarrow> tx_fsm \<Rightarrow> tx_result" where
  "fsm_SEND_LOW_PRI_2 e s =
     Some ([ExitSendingLow], TX_SEND_BUSY_WAIT, s\<lparr>allow_zmq_higgs := False, idle_print := 0\<rparr>)"

section \<open>Recovery\<close>

definition fsm_RECOVER_ERROR_0_A :: "tick_env \<Rightarrow> tx_fsm \<Rightarrow> tx_result" where
  "fsm_RECOVER_ERROR_0_A e s =
     Some ([], TX_FSM_RECOVER_ERROR_1_A,
       (setLinkUp False s)\<lparr>allow_zmq_higgs := False, errorDetectedLocal := errorDetected s\<rparr>)"

definition fsm_RECOVER_ERROR_1_A :: "tick_env \<Rightarrow> tx_fsm \<Rightarrow> tx_result" where
  "fsm_RECOVER_ERROR_1_A e s =
     (if errorDetectedLocal s = errorDetected s
      then Some ([], TX_FSM_RECOVER_ERROR_2_A, s\<lparr>flushZerosEnded := 0, flushZerosStarted := 0, js_recover_request := True\<rparr>)
      else Some ([], TX_FSM_RECOVER_ERROR_0_A, s))"

definition fsm_RECOVER_ERROR_2_A :: "tick_env \<Rightarrow> tx_fsm \<Rightarrow> tx_result" where
  "fsm_RECOVER_ERROR_2_A e s =
     (if \<not> js_recover_result s then Some ([], TX_FSM_RECOVER_ERROR_2_A, s)
      else Some ([], TX_FSM_RECOVER_ERROR_0, s\<lparr>js_recover_result := False\<rparr>))"

definition fsm_RECOVER_ERROR_0 :: "tick_env \<Rightarrow> tx_fsm \<Rightarrow> tx_result" where
  "fsm_RECOVER_ERROR_0 e s =
     (let (acts, s1) = tickleAttachedProgress e (setLinkUp False s)
      in Some (acts, TX_FSM_RECOVER_ERROR_1, s1\<lparr>allow_zmq_higgs := False, errorDetectedLocal := errorDetected s1\<rparr>))"

definition fsm_RECOVER_ERROR_1 :: "tick_env \<Rightarrow> tx_fsm \<Rightarrow> tx_result" where
  "fsm_RECOVER_ERROR_1 e s =
     (if errorDetectedLocal s = errorDetected s
      then Some ([], TX_FSM_RECOVER_ERROR_2, s\<lparr>flushZerosEnded := 0, flushZerosStarted := 0\<rparr>)
      else Some ([], TX_FSM_RECOVER_ERROR_0, s))"

definition fsm_RECOVER_ERROR_2 :: "tick_env \<Rightarrow> tx_fsm \<Rightarrow> tx_result" where
  "fsm_RECOVER_ERROR_2 e s =
     (if flushZerosStarted s \<noteq> 0 \<or> flushZerosEnded s \<noteq> 0 then Some ([], TX_FSM_RECOVER_ERROR_0, s)
      else if errorDetectedLocal s \<noteq> errorDetected s then Some ([], TX_FSM_RECOVER_ERROR_0, s)
      else Some ([ToHiggs (replicate 64 0)], TX_FSM_RECOVER_ERROR_3, s\<lparr>errorFlushZerosWaiting := 0\<rparr>))"

text \<open>Its other two branches are disabled by constants in their conditions. \<open>status_reply\<close> is the
  library's \<open>feedback_vector_packet\<close> at the message \<open>FEEDBACK_VEC_STATUS_REPLY\<close>, for the radio.\<close>

definition fsm_RECOVER_ERROR_3 :: "tick_env \<Rightarrow> tx_fsm \<Rightarrow> tx_result" where
  "fsm_RECOVER_ERROR_3 e s =
     (let s1 = s\<lparr>flushZerosEnded := 0, errorDetectedLocal := 0, errorFlushZerosWaiting := 0\<rparr>;
          (acts, s2) = tickleAttachedProgress e s1
      in Some (ToHiggs (status_reply e (replicate 16 0)) # acts, TX_FSM_RECOVER_ERROR_4, s2\<lparr>errorFlushZerosWaiting := errorFlushZerosWaiting s2 + 1\<rparr>))"

definition fsm_RECOVER_ERROR_4 :: "tick_env \<Rightarrow> tx_fsm \<Rightarrow> tx_result" where
  "fsm_RECOVER_ERROR_4 e s =
     (let bump = (\<lambda>s. s\<lparr>errorFlushZerosWaiting := errorFlushZerosWaiting s + 1\<rparr>)
      in if flushZerosEnded s = 0
         then Some ([], if errorFlushZerosWaiting s > 20 then TX_FSM_RECOVER_ERROR_2 else TX_FSM_RECOVER_ERROR_4, bump s)
         else if flushZerosEnded s = 1
         then (case dumpUserData (s\<lparr>flushZerosStarted := 0, flushZerosEnded := 0, errorDetectedLocal := 0,
                      map_mov_acks_received := 0, map_mov_packets_sent := 0\<rparr>) of
                 None \<Rightarrow> None
               | Some s1 \<Rightarrow> Some ([], TX_SEND_BUSY_WAIT, bump ((setLinkUp True s1)\<lparr>idle_print := 0\<rparr>)))
         else Some ([], TX_FSM_RECOVER_ERROR_0, bump s))"

definition fsm_STALL :: "tick_env \<Rightarrow> tx_fsm \<Rightarrow> tx_result" where
  "fsm_STALL e s = Some ([], TX_STALL, setLinkUp False s)"

section \<open>Sending\<close>

definition with_actions :: "tx_action list \<Rightarrow> tx_result \<Rightarrow> tx_result" where
  "with_actions acts r = map_option (\<lambda>(b, n, s). (acts @ b, n, s)) r"

definition low_or_wait :: "tick_env \<Rightarrow> tx_fsm \<Rightarrow> tx_result" where
  "low_or_wait e s =
     (if low_len e > 0 then Some ([], TX_FSM_SEND_LOW_PRI_0, s\<lparr>sendLowLoops := 0\<rparr>) else Some ([], TX_SEND_BUSY_WAIT, s))"

text \<open>The loop that looks for a message that is not late; it drops up to five.\<close>

fun load_rounds :: "nat \<Rightarrow> tick_env \<Rightarrow> tx_fsm \<Rightarrow> (joint_ack list \<times> tx_fsm) option" where
  "load_rounds 0 e s = Some ([], s)"
| "load_rounds (Suc n) e s =
     (case loadPendingMember s of
        None \<Rightarrow> None
      | Some s1 \<Rightarrow>
          let (acks, s2) = loadZmqBeamform (woke_epoc e) (woke_frame e) s1
          in map_option (\<lambda>(acks', s3). (acks @ acks', s3)) (load_rounds n e s2))"

definition target_wakeup :: "bool \<Rightarrow> tick_env \<Rightarrow> tx_fsm \<Rightarrow> int" where
  "target_wakeup debug e s =
     (if debug then sint (pending_lifetime s) - early_frames e
      else (schedule_frames e + sint (pending_ts s * 512) - early_frames e) smod schedule_frames e)"

text \<open>
  The busy-wait on the readings of the lifetime: whether the wakeup time has passed, whether the
  equaliser was told to be quiet. No more readings is a loop that has not ended.
\<close>

fun busy_loop :: "int \<Rightarrow> int \<Rightarrow> u32 \<Rightarrow> u32 list \<Rightarrow> bool \<Rightarrow> (bool \<times> tx_action list) option" where
  "busy_loop target duplex until [] sent_supress = None"
| "busy_loop target duplex until (now_lifetime # readings) sent_supress =
     (if target < uint now_lifetime then Some (True, [])
      else let sleep_frames = target - uint now_lifetime;
               supress = (\<not> sent_supress \<and> sleep_frames < duplex * 2 + 250);
               acts = (if supress then [SuppressFeedback until] else [])
           in if sleep_frames \<ge> - 250 \<and> sleep_frames \<le> 250 then Some (False, acts)
              else map_option (\<lambda>(late, more). (late, acts @ more))
                     (busy_loop target duplex until readings (sent_supress \<or> supress)))"

definition send_packet :: "tick_env \<Rightarrow> u32 list \<Rightarrow> tx_fsm \<Rightarrow> tx_action list option" where
  "send_packet e d s =
     (if duplex_debug_split s
      then (let slicewc = sliced_word_count (air (airTx s))
            in map_option (\<lambda>inParts. [ToHiggs inParts])
                 (splitFeedbackVectorMapmovScheduledSized (mapmov_frame e) d (43 * slicewc, 43) (42 * slicewc, 43 + 42)
                    slicewc (pending_lifetime s)))
      else (let packet = mapmov_frame e (pending_lifetime s) d
            in Some (if length packet > 14001 then [ToHiggs (take 14000 packet), ToHiggs (drop 14000 packet)]
                     else [ToHiggs packet])))"

text \<open>From the end of the busy-wait to the end of the tick.\<close>

definition busy_next :: "tick_env \<Rightarrow> tx_fsm \<Rightarrow> tx_result" where
  "busy_next e s =
     (let error2 = (errorDetected s \<noteq> 0) in
      case loadPendingMember (s\<lparr>debug_grow_size := debug_grow_size s + 1, errorDetected := 0\<rparr>) of
        None \<Rightarrow> None
      | Some s1 \<Rightarrow>
          if error2
          then Some ([CheckLastUserdata], TX_FSM_RECOVER_ERROR_0_A,
                     s1\<lparr>errorRecoveryAttempts := errorRecoveryAttempts s1 + 1\<rparr>)
          else if exitDataMode s1 then Some ([], WAIT_EVENTS, s1\<lparr>exitDataMode := False\<rparr>)
          else if low_len e > 0 \<and> pending_valid s1 = 0
          then Some ([], TX_FSM_SEND_LOW_PRI_0, s1\<lparr>sendLowLoops := 0\<rparr>)
          else Some ([], TX_SEND_BUSY_WAIT, s1))"

definition busy_finish :: "bool \<Rightarrow> bool \<Rightarrow> u32 list \<Rightarrow> u32 \<Rightarrow> tick_env \<Rightarrow> tx_fsm \<Rightarrow> tx_result" where
  "busy_finish debug skip d final_d_length e s =
     (if skip then busy_next e s
      else case send_packet e d s of
        None \<Rightarrow> None
      | Some acts \<Rightarrow>
          (case (if debug then finishedDebugDuplex (duty_done e) final_d_length False s else Some s) of
             None \<Rightarrow> None
           | Some s1 \<Rightarrow>
               with_actions acts
                 (busy_next e (s1\<lparr>pending_valid := 0, map_mov_packets_sent := map_mov_packets_sent s1 + 1\<rparr>))))"

text \<open>Pulling the data, and waiting for its time.\<close>

definition busy_data :: "bool \<Rightarrow> tick_env \<Rightarrow> tx_fsm \<Rightarrow> (u32 list \<times> bool \<times> tx_fsm) option" where
  "busy_data debug e s =
     (if debug then map_option (\<lambda>(d, s'). (d, False, s')) (applyDebugDuplex2 (library e) (indeterminate_seq e) s)
      else if tunPacketsReady s > 0
      then map_option (\<lambda>(d, s'). (d, False, s')) (pullAndPrepTunData (library e) (indeterminate_seq e) (validate_all e) 0 s)
      else Some ([], True, s))"

definition busy_pack :: "bool \<Rightarrow> int \<Rightarrow> tick_env \<Rightarrow> tx_fsm \<Rightarrow> tx_result" where
  "busy_pack debug target e s =
     (case busy_data debug e s of
        None \<Rightarrow> None
      | Some (d0, skip, s1) \<Rightarrow>
          let d = (if duplex_skip_body s1 then vec_resize (20 * 5) 0 d0 else d0)
          in if target - uint (life_bravo e) < 0
             then (let (acks, s2) = dumpPendingPacket (life_bravo e) s1 in Some (map Ack acks, TX_SEND_BUSY_WAIT, s2))
             else (case estimateBusy (duty_done e) (pending_lifetime s1) (of_nat (length d0)) s1 of
                     None \<Rightarrow> None
                   | Some until \<Rightarrow>
                       (case busy_loop target (duplex_frames_count e) until (life_loop e) False of
                          None \<Rightarrow> None
                        | Some (late, acts) \<Rightarrow>
                            with_actions acts
                              (busy_finish debug (skip \<or> late) d (of_nat (length d0)) e
                                 (if late then s1\<lparr>pending_valid := 0\<rparr> else s1)))))"

definition busy_schedule :: "bool \<Rightarrow> tick_env \<Rightarrow> tx_fsm \<Rightarrow> tx_result" where
  "busy_schedule debug e s =
     (let target = target_wakeup debug e s;
          s1 = s\<lparr>member_early_frames := early_frames e\<rparr>
      in if (now e - last_low s1) div 1000 > 2000000 \<and> low_len e > 0
         then Some ([], TX_FSM_SEND_LOW_PRI_0, s1\<lparr>sendLowLoops := 0\<rparr>)
         else if target - uint (life_alpha e) > schedule_frames e div 3
         then low_or_wait e (s1\<lparr>long_sleep_print := long_sleep_print s1 + 1\<rparr>)
         else (let (acts, s2) = tickleAttachedProgress e (s1\<lparr>long_sleep_print := 0, idle_print := 0\<rparr>)
               in with_actions acts (busy_pack debug target e s2)))"

definition fsm_TX_SEND_BUSY_WAIT :: "tick_env \<Rightarrow> tx_fsm \<Rightarrow> tx_result" where
  "fsm_TX_SEND_BUSY_WAIT e s =
     (let (acts0, s1) = tickleAttachedProgress e (s\<lparr>idle_print := idle_print s + 1\<rparr>)
      in if errorDetected s1 \<noteq> 0
         then Some (acts0 @ [CheckLastUserdata], TX_FSM_RECOVER_ERROR_0_A,
                    s1\<lparr>errorDetected := 0, errorRecoveryAttempts := errorRecoveryAttempts s1 + 1\<rparr>)
         else
           let s2 = (if debug_grow_size s1 > 3 then s1\<lparr>tx_tun := foldl enqueue (tx_tun s1) (debug_fill e)\<rparr> else s1)
           in case load_rounds 5 e s2 of
                None \<Rightarrow> None
              | Some (acks, s3) \<Rightarrow>
                  let (debug, s4) = isDebugDuplex (pending_valid s3) (life_debug e) s3;
                      s5 = (if debug then applyDebugDuplex1 (next_frame e) (start_frame_duplex e) (life_apply e) s4 else s4)
                  in with_actions (acts0 @ map Ack acks)
                       (if \<not> debug \<and> pending_valid s5 = 0 then low_or_wait e s5 else busy_schedule debug e s5))"

section \<open>The tick\<close>

fun fsm_handler :: "tx_state \<Rightarrow> tick_env \<Rightarrow> tx_fsm \<Rightarrow> tx_result" where
  "fsm_handler PRE_BOOT = fsm_PRE_BOOT"
| "fsm_handler DEBUG_EARLY_EVENT_0 = fsm_DEBUG_EARLY_EVENT_0"
| "fsm_handler WAIT_EVENTS = fsm_WAIT_EVENTS"
| "fsm_handler DEBUG_TX_MAPMOV_0 = fsm_DEBUG_TX_MAPMOV_0"
| "fsm_handler DEBUG_TX_MAPMOV_1 = fsm_DEBUG_TX_MAPMOV_1"
| "fsm_handler DEBUG_TX_MAPMOV_2 = fsm_DEBUG_TX_MAPMOV_2"
| "fsm_handler PERIODIC_SCHEDULE_0 = fsm_PERIODIC_SCHEDULE_0"
| "fsm_handler TX_FSM_ERROR_CONDITION_0 = (\<lambda>e s. Some ([], DEBUG_STALL, s))"
| "fsm_handler TX_SEND_BUSY_WAIT = fsm_TX_SEND_BUSY_WAIT"
| "fsm_handler TX_FSM_SEND_LOW_PRI_0 = fsm_SEND_LOW_PRI_0"
| "fsm_handler TX_FSM_SEND_LOW_PRI_1 = fsm_SEND_LOW_PRI_1"
| "fsm_handler TX_FSM_SEND_LOW_PRI_2 = fsm_SEND_LOW_PRI_2"
| "fsm_handler TX_FSM_RECOVER_ERROR_0_A = fsm_RECOVER_ERROR_0_A"
| "fsm_handler TX_FSM_RECOVER_ERROR_1_A = fsm_RECOVER_ERROR_1_A"
| "fsm_handler TX_FSM_RECOVER_ERROR_2_A = fsm_RECOVER_ERROR_2_A"
| "fsm_handler TX_FSM_RECOVER_ERROR_0 = fsm_RECOVER_ERROR_0"
| "fsm_handler TX_FSM_RECOVER_ERROR_1 = fsm_RECOVER_ERROR_1"
| "fsm_handler TX_FSM_RECOVER_ERROR_2 = fsm_RECOVER_ERROR_2"
| "fsm_handler TX_FSM_RECOVER_ERROR_3 = fsm_RECOVER_ERROR_3"
| "fsm_handler TX_FSM_RECOVER_ERROR_4 = fsm_RECOVER_ERROR_4"
| "fsm_handler DEBUG_STALL = fsm_STALL"
| "fsm_handler TX_STALL = fsm_STALL"

definition tickFsmSchedule :: "tick_env \<Rightarrow> tx_fsm \<Rightarrow> (tx_action list \<times> tx_fsm) option" where
  "tickFsmSchedule e s =
     (let s1 = s\<lparr>dsp_state := dsp_state_pending s\<rparr>
      in case fsm_handler (dsp_state s1) e s1 of
           None \<Rightarrow> None
         | Some (acts, next_state, s2) \<Rightarrow> Some (acts, s2\<lparr>dsp_state_pending := next_state\<rparr>))"


section \<open>Frame lemmas\<close>

text \<open>
  The operations of the data path change only the fields of \<open>tx_sched\<close>, so they keep the fields the
  state machine adds.
\<close>

lemma more_link_up:
  fixes s s' :: tx_fsm
  shows "tx_sched.more s' = tx_sched.more s \<Longrightarrow> link_up s' = link_up s"
  by (cases s; cases s') simp

lemma loadPendingMember_more:
  "loadPendingMember s = Some s' \<Longrightarrow> tx_sched.more s' = tx_sched.more s"
  by (auto simp: loadPendingMember_def split: if_splits list.splits option.splits)

lemma loadZmqBeamform_more [simp]:
  "tx_sched.more (snd (loadZmqBeamform ep fr s)) = tx_sched.more s"
  by (simp add: loadZmqBeamform_def dumpPendingPacket_epoc_def split: prod.splits)

lemma tx_drained_more [simp]: "tx_sched.more (tx_drained s) = tx_sched.more s"
  by (simp add: tx_drained_def)

lemma pullAndPrepTunData_more:
  "pullAndPrepTunData S sq vh 0 s = Some (d, s') \<Longrightarrow> tx_sched.more s' = tx_sched.more s"
  by (auto simp: pullAndPrepTunData_all)

lemma applyDebugDuplex2_more:
  "applyDebugDuplex2 S sq s = Some (d, s') \<Longrightarrow> tx_sched.more s' = tx_sched.more s"
  by (auto simp: applyDebugDuplex2_def split: if_splits option.splits prod.splits)

lemma finishedDebugDuplex_more:
  "finishedDebugDuplex f n b s = Some s' \<Longrightarrow> tx_sched.more s' = tx_sched.more s"
  by (auto simp: finishedDebugDuplex_def split: if_splits option.splits)

lemma isDebugDuplex_more [simp]: "tx_sched.more (snd (isDebugDuplex pv l s)) = tx_sched.more s"
  by (simp add: isDebugDuplex_def)

lemma dumpPendingPacket_more [simp]: "tx_sched.more (snd (dumpPendingPacket l s)) = tx_sched.more s"
  by (simp add: dumpPendingPacket_def)

lemma load_rounds_more:
  "load_rounds n e s = Some (acks, s') \<Longrightarrow> tx_sched.more s' = tx_sched.more s"
proof (induction n arbitrary: s acks)
  case (Suc n)
  then obtain s1 acks' where "loadPendingMember s = Some s1"
    "load_rounds n e (snd (loadZmqBeamform (woke_epoc e) (woke_frame e) s1)) = Some (acks', s')"
    by (auto simp: Let_def split: option.splits prod.splits)
  then show ?case using Suc.IH loadPendingMember_more by fastforce
qed simp

lemma busy_data_more: "busy_data debug e s = Some (d, skip, s') \<Longrightarrow> tx_sched.more s' = tx_sched.more s"
  by (auto simp: busy_data_def dest: applyDebugDuplex2_more pullAndPrepTunData_more split: if_splits)

lemma tickle_link [simp]:
  "link_up (snd (tickleAttachedProgress e s)) = link_up s"
  "errorDetected (snd (tickleAttachedProgress e s)) = errorDetected s"
  by (simp_all add: tickleAttachedProgress_def)

lemma setLinkUp_link [simp]: "link_up (setLinkUp up s) = up"
  by (simp add: setLinkUp_def)

lemmas more_link = more_link_up [OF loadPendingMember_more] more_link_up [OF load_rounds_more]
  more_link_up [OF busy_data_more] more_link_up [OF finishedDebugDuplex_more]

lemmas more_links [simp] = more_link_up [OF loadZmqBeamform_more] more_link_up [OF tx_drained_more]
  more_link_up [OF isDebugDuplex_more] more_link_up [OF dumpPendingPacket_more]


section \<open>The link as an abstract machine\<close>

text \<open>
  What the rest of the modem sees of the transmitter is the setting \<open>runtime.tx.link.up\<close>. The
  abstract machine knows only the state and that flag.
\<close>

fun successors :: "tx_state \<Rightarrow> tx_state set" where
  "successors PRE_BOOT = {DEBUG_EARLY_EVENT_0, TX_STALL}"
| "successors DEBUG_EARLY_EVENT_0 = {WAIT_EVENTS}"
| "successors WAIT_EVENTS = {WAIT_EVENTS, DEBUG_TX_MAPMOV_0}"
| "successors DEBUG_TX_MAPMOV_0 = {DEBUG_TX_MAPMOV_1}"
| "successors DEBUG_TX_MAPMOV_1 = {DEBUG_TX_MAPMOV_2}"
| "successors DEBUG_TX_MAPMOV_2 = {DEBUG_TX_MAPMOV_2, PERIODIC_SCHEDULE_0}"
| "successors PERIODIC_SCHEDULE_0 = {TX_SEND_BUSY_WAIT}"
| "successors TX_FSM_ERROR_CONDITION_0 = {DEBUG_STALL}"
| "successors TX_SEND_BUSY_WAIT = {TX_SEND_BUSY_WAIT, TX_FSM_SEND_LOW_PRI_0, TX_FSM_RECOVER_ERROR_0_A, WAIT_EVENTS}"
| "successors TX_FSM_SEND_LOW_PRI_0 = {TX_FSM_SEND_LOW_PRI_0, TX_FSM_SEND_LOW_PRI_1, TX_FSM_RECOVER_ERROR_0_A}"
| "successors TX_FSM_SEND_LOW_PRI_1 = {TX_FSM_SEND_LOW_PRI_2}"
| "successors TX_FSM_SEND_LOW_PRI_2 = {TX_SEND_BUSY_WAIT}"
| "successors TX_FSM_RECOVER_ERROR_0_A = {TX_FSM_RECOVER_ERROR_1_A}"
| "successors TX_FSM_RECOVER_ERROR_1_A = {TX_FSM_RECOVER_ERROR_2_A, TX_FSM_RECOVER_ERROR_0_A}"
| "successors TX_FSM_RECOVER_ERROR_2_A = {TX_FSM_RECOVER_ERROR_2_A, TX_FSM_RECOVER_ERROR_0}"
| "successors TX_FSM_RECOVER_ERROR_0 = {TX_FSM_RECOVER_ERROR_1}"
| "successors TX_FSM_RECOVER_ERROR_1 = {TX_FSM_RECOVER_ERROR_2, TX_FSM_RECOVER_ERROR_0}"
| "successors TX_FSM_RECOVER_ERROR_2 = {TX_FSM_RECOVER_ERROR_3, TX_FSM_RECOVER_ERROR_0}"
| "successors TX_FSM_RECOVER_ERROR_3 = {TX_FSM_RECOVER_ERROR_4}"
| "successors TX_FSM_RECOVER_ERROR_4 =
     {TX_FSM_RECOVER_ERROR_4, TX_FSM_RECOVER_ERROR_2, TX_FSM_RECOVER_ERROR_0, TX_SEND_BUSY_WAIT}"
| "successors DEBUG_STALL = {TX_STALL}"
| "successors TX_STALL = {TX_STALL}"

definition link_after :: "tx_state \<Rightarrow> tx_state \<Rightarrow> bool \<Rightarrow> bool" where
  "link_after st n up =
     (if st = PERIODIC_SCHEDULE_0 \<or> st = TX_FSM_RECOVER_ERROR_4 \<and> n = TX_SEND_BUSY_WAIT then True
      else if st \<in> {TX_FSM_RECOVER_ERROR_0_A, TX_FSM_RECOVER_ERROR_0, DEBUG_STALL, TX_STALL} then False else up)"

lemma low_or_wait_link:
  "low_or_wait e s = Some (acts, n, s') \<Longrightarrow> n \<in> successors TX_SEND_BUSY_WAIT \<and> link_up s' = link_up s"
  by (auto simp: low_or_wait_def split: if_splits)

lemma with_actions_Some:
  "with_actions acts r = Some (all, n, s') \<longleftrightarrow> (\<exists>more. r = Some (more, n, s') \<and> all = acts @ more)"
  by (auto simp: with_actions_def)

lemma busy_next_link:
  "busy_next e s = Some (acts, n, s') \<Longrightarrow> n \<in> successors TX_SEND_BUSY_WAIT \<and> link_up s' = link_up s"
  by (auto simp: busy_next_def Let_def dest!: more_link split: option.splits if_splits)

lemma busy_finish_link:
  "busy_finish debug skip d len e s = Some (acts, n, s') \<Longrightarrow>
    n \<in> successors TX_SEND_BUSY_WAIT \<and> link_up s' = link_up s"
  by (auto simp: busy_finish_def with_actions_Some dest!: more_link busy_next_link split: option.splits if_splits)

lemma busy_pack_link:
  assumes "busy_pack debug target e s = Some (acts, n, s')"
  shows "n \<in> successors TX_SEND_BUSY_WAIT \<and> link_up s' = link_up s"
proof -
  obtain d skip s1 where d: "busy_data debug e s = Some (d, skip, s1)"
    using assms by (auto simp: busy_pack_def split: option.splits)
  show ?thesis
  proof (cases "target - uint (life_bravo e) < 0")
    case True
    then show ?thesis using assms d more_link(3) [OF d]
      by (auto simp: busy_pack_def Let_def dumpPendingPacket_def)
  next
    case False
    then obtain late more x y z t where
      f: "busy_finish debug x y z e (if late then s1\<lparr>pending_valid := 0\<rparr> else s1) = Some (more, n, s')"
      using assms d by (auto simp: busy_pack_def Let_def with_actions_Some split: option.splits prod.splits)
    show ?thesis using busy_finish_link [OF f] more_link(3) [OF d] by (simp split: if_splits)
  qed
qed

lemma busy_schedule_link:
  "busy_schedule debug e s = Some (acts, n, s') \<Longrightarrow> n \<in> successors TX_SEND_BUSY_WAIT \<and> link_up s' = link_up s"
  unfolding busy_schedule_def Let_def
  by (auto simp: with_actions_Some dest!: low_or_wait_link busy_pack_link
      simp: tickleAttachedProgress_def split: if_splits)


lemma fsm_TX_SEND_BUSY_WAIT_link:
  assumes "fsm_TX_SEND_BUSY_WAIT e s = Some (acts, n, s')"
  shows "n \<in> successors TX_SEND_BUSY_WAIT \<and> link_up s' = link_up s"
proof (cases "errorDetected s = 0")
  case False
  then show ?thesis using assms
    by (auto simp: fsm_TX_SEND_BUSY_WAIT_def tickleAttachedProgress_def Let_def split: if_splits)
next
  case True
  define s1 where "s1 = snd (tickleAttachedProgress e (s\<lparr>idle_print := idle_print s + 1\<rparr>))"
  define s2 where "s2 = (if debug_grow_size s1 > 3 then s1\<lparr>tx_tun := foldl enqueue (tx_tun s1) (debug_fill e)\<rparr> else s1)"
  have "link_up s2 = link_up s" by (simp add: s2_def s1_def)
  moreover obtain acks s3 where l: "load_rounds 5 e s2 = Some (acks, s3)"
    using assms True unfolding fsm_TX_SEND_BUSY_WAIT_def Let_def split_beta s2_def s1_def
    by (auto split: option.splits)
  moreover define s4 where "s4 = snd (isDebugDuplex (pending_valid s3) (life_debug e) s3)"
  moreover have "link_up s4 = link_up s3" by (simp add: s4_def)
  moreover have "\<exists>debug more. (if \<not> debug \<and> pending_valid s4 = 0 then low_or_wait e s4
      else busy_schedule debug e
        (if debug then applyDebugDuplex1 (next_frame e) (start_frame_duplex e) (life_apply e) s4 else s4)) =
      Some (more, n, s')"
    using assms True l unfolding fsm_TX_SEND_BUSY_WAIT_def Let_def split_beta s2_def s1_def s4_def
    by (intro exI [of _ "fst (isDebugDuplex (pending_valid s3) (life_debug e) s3)"])
      (auto simp: with_actions_Some applyDebugDuplex1_def split: if_splits)
  ultimately show ?thesis
    by (auto simp: applyDebugDuplex1_def dest!: low_or_wait_link busy_schedule_link more_link split: if_splits)
qed

lemmas fsm_states = fsm_PRE_BOOT_def fsm_DEBUG_EARLY_EVENT_0_def fsm_WAIT_EVENTS_def fsm_DEBUG_TX_MAPMOV_0_def
  fsm_DEBUG_TX_MAPMOV_1_def fsm_DEBUG_TX_MAPMOV_2_def fsm_PERIODIC_SCHEDULE_0_def fsm_SEND_LOW_PRI_0_def
  fsm_SEND_LOW_PRI_1_def fsm_SEND_LOW_PRI_2_def fsm_RECOVER_ERROR_0_A_def fsm_RECOVER_ERROR_1_A_def
  fsm_RECOVER_ERROR_2_A_def fsm_RECOVER_ERROR_0_def fsm_RECOVER_ERROR_1_def fsm_RECOVER_ERROR_2_def
  fsm_RECOVER_ERROR_3_def fsm_RECOVER_ERROR_4_def fsm_STALL_def

lemma fsm_handler_link:
  assumes "fsm_handler st e s = Some (acts, n, s')"
  shows "n \<in> successors st \<and> link_up s' = link_after st n (link_up s)"
proof (cases "st = TX_SEND_BUSY_WAIT")
  case True
  then show ?thesis using assms fsm_TX_SEND_BUSY_WAIT_link [of e s acts n s'] by (simp add: link_after_def)
next
  case False
  then show ?thesis using assms
    by (cases st) (auto simp: fsm_states link_after_def Let_def dumpUserData_eq tickleAttachedProgress_def
        split: option.splits if_splits prod.splits)
qed

lemma tickFsmSchedule_Some:
  "tickFsmSchedule e s = Some (acts, s') \<longleftrightarrow>
    (\<exists>n s2. fsm_handler (dsp_state_pending s) e (s\<lparr>dsp_state := dsp_state_pending s\<rparr>) = Some (acts, n, s2) \<and>
            s' = s2\<lparr>dsp_state_pending := n\<rparr>)"
  by (auto simp: tickFsmSchedule_def Let_def split: option.splits)

lemma tick_link:
  "tickFsmSchedule e s = Some (acts, s') \<Longrightarrow>
    dsp_state_pending s' \<in> successors (dsp_state_pending s) \<and>
    link_up s' = link_after (dsp_state_pending s) (dsp_state_pending s') (link_up s)"
  by (auto simp: tickFsmSchedule_Some dest!: fsm_handler_link)

section \<open>Reachable states\<close>

text \<open>
  A step is a tick in any environment, or anything the other threads do: they write the atomics,
  the queues and the settings, but not the state, not the members private to the state machine and
  not \<open>runtime.tx.link.up\<close>, which only \<open>setLinkUp\<close> writes.
\<close>

definition tx_others :: "tx_fsm \<Rightarrow> tx_fsm \<Rightarrow> bool" where
  "tx_others s s' \<longleftrightarrow> dsp_state_pending s' = dsp_state_pending s \<and> link_up s' = link_up s \<and>
     sendLowLoops s' = sendLowLoops s"

inductive tx_step :: "tx_fsm \<Rightarrow> tx_fsm \<Rightarrow> bool" where
  step_tick: "tickFsmSchedule e s = Some (acts, s') \<Longrightarrow> tx_step s s'"
| step_other: "tx_others s s' \<Longrightarrow> tx_step s s'"

text \<open>The constructor starts in \<open>PRE_BOOT\<close> with the link down.\<close>

inductive tx_reachable :: "tx_fsm \<Rightarrow> bool" where
  boot: "dsp_state_pending s = PRE_BOOT \<Longrightarrow> \<not> link_up s \<Longrightarrow> tx_reachable s"
| run: "tx_reachable s \<Longrightarrow> tx_step s s' \<Longrightarrow> tx_reachable s'"

inductive_cases tx_stepE: "tx_step s s'"

fun link_promise :: "tx_state \<Rightarrow> bool option" where
  "link_promise st =
     (if st \<in> {TX_SEND_BUSY_WAIT, TX_FSM_SEND_LOW_PRI_0, TX_FSM_SEND_LOW_PRI_1, TX_FSM_SEND_LOW_PRI_2} then Some True
      else if st \<in> {WAIT_EVENTS, DEBUG_TX_MAPMOV_0, DEBUG_TX_MAPMOV_1, DEBUG_TX_MAPMOV_2, PERIODIC_SCHEDULE_0,
                    TX_FSM_RECOVER_ERROR_0_A} then None
      else Some False)"

definition link_ok :: "tx_state \<Rightarrow> bool \<Rightarrow> bool" where
  "link_ok st up \<longleftrightarrow> st \<notin> {TX_FSM_ERROR_CONDITION_0, DEBUG_STALL} \<and> link_promise st \<in> {None, Some up}"

lemma link_ok_step:
  "link_ok st up \<Longrightarrow> n \<in> successors st \<Longrightarrow> link_ok n (link_after st n up)"
  by (cases st) (auto simp: link_ok_def link_after_def)

lemma reachable_link_ok: "tx_reachable s \<Longrightarrow> link_ok (dsp_state_pending s) (link_up s)"
proof (induction rule: tx_reachable.induct)
  case (run s s')
  from run.hyps(2) show ?case
  proof (cases rule: tx_step.cases)
    case (step_tick e acts)
    then show ?thesis using tick_link [OF step_tick] link_ok_step [OF run.IH] by simp
  next
    case step_other
    then show ?thesis using run.IH by (simp add: tx_others_def)
  qed
qed (simp add: link_ok_def)


text \<open>C6. In every state the transmitter can reach, under any behaviour of the other threads, the
  link is reported up while user data or low priority data is being sent, and reported down during
  boot, during recovery and when stalled; the two error states no code enters are never entered.\<close>

theorem link_reported_correctly:
  assumes "tx_reachable s"
  shows "dsp_state_pending s \<notin> {TX_FSM_ERROR_CONDITION_0, DEBUG_STALL} \<and>
    (case link_promise (dsp_state_pending s) of None \<Rightarrow> True | Some up \<Rightarrow> link_up s = up)"
  using reachable_link_ok [OF assms] by (auto simp: link_ok_def split: option.splits)

section \<open>What is sent to the radio\<close>

lemma fsm_handler_sends:
  assumes "fsm_handler st e s = Some (acts, n, s')" "ToHiggs w \<in> set acts"
  shows "st = TX_SEND_BUSY_WAIT \<and> errorDetected s = 0 \<or> st = TX_FSM_RECOVER_ERROR_2 \<and> w = replicate 64 0 \<or>
    st = TX_FSM_RECOVER_ERROR_3 \<and> w = status_reply e (replicate 16 0)"
proof (cases "st = TX_SEND_BUSY_WAIT")
  case True
  then show ?thesis using assms
    by (auto simp: fsm_TX_SEND_BUSY_WAIT_def tickleAttachedProgress_def Let_def split: if_splits)
next
  case False
  then show ?thesis using assms
    by (cases st) (auto simp: fsm_states Let_def dumpUserData_eq tickleAttachedProgress_def
        split: option.splits if_splits prod.splits)
qed

text \<open>C8. A tick hands words to \<open>sendToHiggs\<close>, the stream of user data to the radio, in three
  situations only: in the sending state, with the link reported up and no error pending; in the
  third state of the recovery, with the link reported down, where they are the sixty-four zeros; and
  in the state after it, also with the link down, where they are the request for a status reply. So
  user data never goes out with the link reported down.\<close>

theorem radio_words_guarded:
  assumes "tx_reachable s" "tickFsmSchedule e s = Some (acts, s')" "ToHiggs w \<in> set acts"
  shows "dsp_state_pending s = TX_SEND_BUSY_WAIT \<and> link_up s \<and> errorDetected s = 0 \<or>
    dsp_state_pending s = TX_FSM_RECOVER_ERROR_2 \<and> \<not> link_up s \<and> w = replicate 64 0 \<or>
    dsp_state_pending s = TX_FSM_RECOVER_ERROR_3 \<and> \<not> link_up s \<and> w = status_reply e (replicate 16 0)"
proof -
  have "dsp_state_pending s = TX_SEND_BUSY_WAIT \<and> errorDetected s = 0 \<or>
      dsp_state_pending s = TX_FSM_RECOVER_ERROR_2 \<and> w = replicate 64 0 \<or>
      dsp_state_pending s = TX_FSM_RECOVER_ERROR_3 \<and> w = status_reply e (replicate 16 0)"
    using assms(2,3) by (auto simp: tickFsmSchedule_Some dest: fsm_handler_sends)
  then show ?thesis using reachable_link_ok [OF assms(1)] by (auto simp: link_ok_def)
qed

text \<open>
  A joint packet's wakeup time is a frame within its second, but the prediction it is compared with
  counts frames since the beginning. Once a second has passed, a joint packet that comes to be sent is
  dropped, and with it the data just pulled.
\<close>

lemma target_wakeup_joint: "0 < schedule_frames e \<Longrightarrow> target_wakeup False e s < schedule_frames e"
  using smod_int_range [of "schedule_frames e" "schedule_frames e + sint (pending_ts s * 512) - early_frames e"]
  by (simp add: target_wakeup_def)

lemma joint_packets_dropped:
  assumes "0 < schedule_frames e" "schedule_frames e \<le> uint (life_bravo e)"
    "busy_schedule False e s = Some (acts, n, s')"
  shows "ToHiggs w \<notin> set acts"
proof -
  have "target_wakeup False e s - uint (life_bravo e) < 0" using target_wakeup_joint [of e s] assms by simp
  then show ?thesis using assms(3)
    by (auto simp: busy_schedule_def Let_def low_or_wait_def busy_pack_def with_actions_Some dumpPendingPacket_def
        tickleAttachedProgress_def split: if_splits option.splits)
qed

text \<open>Leaving data mode goes back to waiting for events, with the link still reported up.\<close>

lemma exit_leaves_link_up:
  assumes "exitDataMode s" "errorDetected s = 0" "beamform_buffer s = []"
  shows "\<exists>s'. busy_next e s = Some ([], WAIT_EVENTS, s') \<and> link_up s' = link_up s"
  using assms by (simp add: busy_next_def loadPendingMember_def)

section \<open>Low priority data never holds the transmitter\<close>

lemma low_pri_tick:
  assumes "dsp_state_pending s = TX_FSM_SEND_LOW_PRI_0" "tickFsmSchedule e s = Some (acts, s')"
  shows "sendLowLoops s' = sendLowLoops s + 1 \<and>
    (dsp_state_pending s' = TX_FSM_SEND_LOW_PRI_0 \<and> sendLowLoops s \<le> 2100 \<or>
     dsp_state_pending s' \<in> {TX_FSM_SEND_LOW_PRI_1, TX_FSM_RECOVER_ERROR_0_A})"
  using assms by (auto simp: tickFsmSchedule_Some fsm_SEND_LOW_PRI_0_def Let_def split: if_splits)

lemma low_pri_run:
  assumes "\<forall>i. dsp_state_pending (run i) = TX_FSM_SEND_LOW_PRI_0 \<longrightarrow>
      (\<exists>e acts s. tickFsmSchedule e (run i) = Some (acts, s) \<and> tx_others s (run (Suc i)))"
    "dsp_state_pending (run 0) = TX_FSM_SEND_LOW_PRI_0"
    "\<forall>j\<le>k. dsp_state_pending (run j) \<notin> {TX_FSM_SEND_LOW_PRI_1, TX_FSM_RECOVER_ERROR_0_A}"
  shows "dsp_state_pending (run k) = TX_FSM_SEND_LOW_PRI_0 \<and> sendLowLoops (run k) = sendLowLoops (run 0) + k \<and>
    (k = 0 \<or> sendLowLoops (run k) \<le> 2101)"
  using assms(3)
proof (induction k)
  case (Suc k)
  then have h: "dsp_state_pending (run k) = TX_FSM_SEND_LOW_PRI_0" "sendLowLoops (run k) = sendLowLoops (run 0) + k"
    by auto
  obtain e acts s where s: "tickFsmSchedule e (run k) = Some (acts, s)" "tx_others s (run (Suc k))"
    using assms(1) h(1) by blast
  show ?case using low_pri_tick [OF h(1) s(1)] s(2) h(2) Suc.prems by (auto simp: tx_others_def)
qed (use assms(2) in simp)

text \<open>C28. The wait for the low priority data to drain ends: whatever the other threads do and
  whatever fill levels the ticks read, after at most 2102 ticks the machine goes on, drained or into
  recovery.\<close>

theorem low_priority_wait_ends:
  assumes "\<forall>i. dsp_state_pending (run i) = TX_FSM_SEND_LOW_PRI_0 \<longrightarrow>
      (\<exists>e acts s. tickFsmSchedule e (run i) = Some (acts, s) \<and> tx_others s (run (Suc i)))"
    "dsp_state_pending (run 0) = TX_FSM_SEND_LOW_PRI_0" "sendLowLoops (run 0) = 0"
  shows "\<exists>k\<le>2102. dsp_state_pending (run k) \<in> {TX_FSM_SEND_LOW_PRI_1, TX_FSM_RECOVER_ERROR_0_A}"
proof (rule ccontr)
  assume "\<not> ?thesis"
  then show False using low_pri_run [of run 2102] assms by auto
qed


section \<open>A run of the machine\<close>

definition example_env :: tick_env where
  "example_env =
     \<lparr>now = 0, woke_epoc = 5, woke_frame = 0, life_debug = 0, life_apply = 0, life_alpha = 0, life_bravo = 0,
      life_loop = [], low_len = 1, fill_level = 0, normal_len = 0, valid_8k = False, early_frames = 100,
      barrelshift_set = False, validate_all = True, indeterminate_seq = 0, start_frame_duplex = 0,
      schedule_frames = 25600, duplex_frames_count = 128, mapmov_mode_cmd = 0, allocation_code = (\<lambda>_. 0),
      gain_addr = 0, gain_cmd = 0,
      library = \<lparr>sch_encode = \<lambda>fec m. Some m, sch_decode = \<lambda>fec b. Some b, sch_string = \<lambda>fec b n. Some b\<rparr>,
      shared_settings = Some, next_frame = (\<lambda>a b. a), duty_done = (\<lambda>a b. a), mapmov_frame = (\<lambda>l d. d),
      debug_fill = [], status_reply = (\<lambda>ws. 1 # ws)\<rparr>"

text \<open>What the other threads do in this run: warm up, answer, and report one error while sending.\<close>

definition nudge :: "tx_fsm \<Rightarrow> tx_fsm" where
  "nudge s = s\<lparr>role := ''tx'', doWarmup := True, epoc_valid := True, js_recover_result := True,
     errorDetected := (if dsp_state_pending s = TX_SEND_BUSY_WAIT then 1 else errorDetectedLocal s)\<rparr>"

definition reaches :: "tx_state \<Rightarrow> bool" where
  "reaches st \<longleftrightarrow> (\<exists>s. tx_reachable s \<and> dsp_state_pending s = st)"

lemmas tick_eval = tickFsmSchedule_Some fsm_states tickleAttachedProgress_def dumpUserData_eq nudge_def Let_def

lemma reaches_next:
  assumes "reaches st"
    "\<And>s. dsp_state_pending s = st \<Longrightarrow>
      \<exists>acts s'. tickFsmSchedule example_env (nudge s) = Some (acts, s') \<and> dsp_state_pending s' = n"
  shows "reaches n"
proof -
  obtain s where s: "tx_reachable s" "dsp_state_pending s = st" using assms(1) by (auto simp: reaches_def)
  then obtain acts s' where "tickFsmSchedule example_env (nudge s) = Some (acts, s')" "dsp_state_pending s' = n"
    using assms(2) by blast
  moreover have "tx_reachable (nudge s)" using s(1) by (rule run) (rule step_other, simp add: tx_others_def nudge_def)
  ultimately show ?thesis unfolding reaches_def using run step_tick by blast
qed

lemma reaches_boot: "reaches PRE_BOOT"
  unfolding reaches_def by (rule exI [of _ "s\<lparr>dsp_state_pending := PRE_BOOT, link_up := False\<rparr>" for s], simp add: boot)

lemma reaches_waiting: "reaches WAIT_EVENTS"
proof -
  have "reaches DEBUG_EARLY_EVENT_0"
    by (rule reaches_next [OF reaches_boot]) (simp add: tick_eval example_env_def)
  then show ?thesis by (rule reaches_next) (simp add: tick_eval example_env_def)
qed

lemma reaches_sending: "reaches TX_SEND_BUSY_WAIT"
proof -
  have "reaches DEBUG_TX_MAPMOV_0" by (rule reaches_next [OF reaches_waiting]) (simp add: tick_eval)
  then have "reaches DEBUG_TX_MAPMOV_1" by (rule reaches_next) (simp add: tick_eval)
  then have "reaches DEBUG_TX_MAPMOV_2" by (rule reaches_next) (simp add: tick_eval)
  then have "reaches PERIODIC_SCHEDULE_0" by (rule reaches_next) (simp add: tick_eval)
  then show ?thesis by (rule reaches_next) (simp add: tick_eval setLinkUp_def)
qed

lemma reaches_recovery: "reaches TX_FSM_RECOVER_ERROR_2"
proof -
  have "reaches TX_FSM_RECOVER_ERROR_0_A"
    by (rule reaches_next [OF reaches_sending]) (simp add: tick_eval fsm_TX_SEND_BUSY_WAIT_def)
  then have "reaches TX_FSM_RECOVER_ERROR_1_A" by (rule reaches_next) (simp add: tick_eval)
  then have "reaches TX_FSM_RECOVER_ERROR_2_A" by (rule reaches_next) (simp add: tick_eval)
  then have "reaches TX_FSM_RECOVER_ERROR_0" by (rule reaches_next) (simp add: tick_eval)
  then have "reaches TX_FSM_RECOVER_ERROR_1" by (rule reaches_next) (simp add: tick_eval)
  then show ?thesis by (rule reaches_next) (simp add: tick_eval)
qed

theorem link_reported_correctly_witness:
  "\<exists>s. tx_reachable s \<and> dsp_state_pending s = TX_SEND_BUSY_WAIT \<and> link_up s"
proof -
  obtain s where "tx_reachable s" "dsp_state_pending s = TX_SEND_BUSY_WAIT"
    using reaches_sending by (auto simp: reaches_def)
  then show ?thesis using link_reported_correctly [of s] by auto
qed

theorem radio_words_guarded_witness:
  "\<exists>s acts s'. tx_reachable s \<and> tickFsmSchedule example_env s = Some (acts, s') \<and>
    ToHiggs (replicate 64 0) \<in> set acts \<and> dsp_state_pending s = TX_FSM_RECOVER_ERROR_2 \<and> \<not> link_up s"
proof -
  obtain s0 where s0: "tx_reachable s0" "dsp_state_pending s0 = TX_FSM_RECOVER_ERROR_2"
    using reaches_recovery by (auto simp: reaches_def)
  define s where "s = s0\<lparr>flushZerosStarted := 0, flushZerosEnded := 0, errorDetected := errorDetectedLocal s0\<rparr>"
  have "tx_reachable s" using s0(1) by (rule run) (rule step_other, simp add: tx_others_def s_def)
  moreover obtain s' where t: "tickFsmSchedule example_env s = Some ([ToHiggs (replicate 64 0)], s')"
    using s0(2) by (auto simp: tickFsmSchedule_Some fsm_RECOVER_ERROR_2_def s_def)
  moreover have "dsp_state_pending s = TX_FSM_RECOVER_ERROR_2" using s0(2) by (simp add: s_def)
  moreover have "ToHiggs (replicate 64 0) \<in> set [ToHiggs (replicate 64 0)]" by (simp only: list.set_intros)
  ultimately show ?thesis using radio_words_guarded [of s example_env "[ToHiggs (replicate 64 0)]" s' "replicate 64 0"]
    by (metis tx_state.distinct)
qed

theorem low_priority_wait_ends_witness:
  "\<exists>run :: nat \<Rightarrow> tx_fsm. dsp_state_pending (run 0) = TX_FSM_SEND_LOW_PRI_0 \<and>
    (\<exists>k\<le>2102. dsp_state_pending (run k) \<in> {TX_FSM_SEND_LOW_PRI_1, TX_FSM_RECOVER_ERROR_0_A})"
proof -
  obtain s :: tx_fsm where s: "dsp_state_pending s = TX_FSM_SEND_LOW_PRI_0" "sendLowLoops s = 0"
    "map_mov_packets_sent s = map_mov_acks_received s"
  proof
    fix s :: tx_fsm
    let ?s = "s\<lparr>dsp_state_pending := TX_FSM_SEND_LOW_PRI_0, sendLowLoops := 0, map_mov_packets_sent := 0,
      map_mov_acks_received := 0\<rparr>"
    show "dsp_state_pending ?s = TX_FSM_SEND_LOW_PRI_0" "sendLowLoops ?s = 0"
      "map_mov_packets_sent ?s = map_mov_acks_received ?s" by simp_all
  qed
  then obtain acts s' where t: "tickFsmSchedule example_env s = Some (acts, s')"
    "dsp_state_pending s' = TX_FSM_SEND_LOW_PRI_1"
    by (auto simp: tick_eval example_env_def)
  define steps :: "nat \<Rightarrow> tx_fsm" where "steps = (\<lambda>i. if i = 0 then s else s')"
  have "\<exists>k\<le>2102. dsp_state_pending (steps k) \<in> {TX_FSM_SEND_LOW_PRI_1, TX_FSM_RECOVER_ERROR_0_A}"
  proof (rule low_priority_wait_ends)
    show "\<forall>i. dsp_state_pending (steps i) = TX_FSM_SEND_LOW_PRI_0 \<longrightarrow>
        (\<exists>e acts sa. tickFsmSchedule e (steps i) = Some (acts, sa) \<and> tx_others sa (steps (Suc i)))"
    proof (intro allI impI)
      fix i assume "dsp_state_pending (steps i) = TX_FSM_SEND_LOW_PRI_0"
      then have "steps i = s" using t(2) by (auto simp: steps_def split: if_splits)
      then show "\<exists>e acts sa. tickFsmSchedule e (steps i) = Some (acts, sa) \<and> tx_others sa (steps (Suc i))"
        using t(1) by (auto simp: steps_def tx_others_def)
    qed
  qed (use s in \<open>auto simp: steps_def\<close>)
  then show ?thesis using s(1) by (intro exI [of _ steps]) (simp add: steps_def)
qed

end
