(* ===== verification/Tun_Thread.thy ===== *)
theory Tun_Thread
  imports Packet_Words Safe_Queue
begin

text \<open>
  The threads on the tunnel device (driver/HiggsTunThread.cpp). One pass of each loop is a
  definition; what \<open>read\<close> returned is its argument, with \<open>None\<close> for -1, and the bytes the kernel
  put in the buffer, at most \<open>BUFSIZE\<close>. The buffer is cleared between passes. Opening the device
  and the sleeping are not modelled. What is written to the device is collected in \<open>to_tun\<close>.
\<close>

record tun_node =
  tun_tx_queue :: "u32 list list"
  demodRx2TunFifo :: "u32 list list"
  to_tun :: "u8 list list"
  uplink_sent :: "u32 list list"

abbreviation BUFSIZE :: nat where "BUFSIZE \<equiv> 2000"

definition tun_buffer :: "u8 list \<Rightarrow> u8 list" where
  "tun_buffer bytes = take BUFSIZE bytes @ replicate (BUFSIZE - length bytes) 0"

definition tun_packet :: "(nat \<Rightarrow> u8) \<Rightarrow> u8 list \<Rightarrow> u32 list" where
  "tun_packet slack bytes =
     charVectorPacketToWordVector slack
       (cBufferPacketToCharVector (tun_buffer bytes) (int (min BUFSIZE (length bytes))))"

definition tunThreadAsTx_pass :: "(nat \<Rightarrow> u8) \<Rightarrow> u8 list option \<Rightarrow> tun_node \<Rightarrow> tun_node" where
  "tunThreadAsTx_pass slack nread n =
     (let n1 = (case nread of
                  None \<Rightarrow> n
                | Some bytes \<Rightarrow> n\<lparr>tun_tx_queue := enqueue (tun_tx_queue n) (tun_packet slack bytes)\<rparr>)
      in case dequeue (demodRx2TunFifo n1) of
           None \<Rightarrow> n1
         | Some (tunVector, q) \<Rightarrow>
             n1\<lparr>demodRx2TunFifo := q, to_tun := to_tun n1 @ [wordVectorPacketToCharVector tunVector]\<rparr>)"

definition tunThreadAsRx_pass :: "(nat \<Rightarrow> u8) \<Rightarrow> u8 list option \<Rightarrow> tun_node \<Rightarrow> tun_node" where
  "tunThreadAsRx_pass slack nread n =
     (case nread of
        None \<Rightarrow> n
      | Some bytes \<Rightarrow>
          let constructed = tun_packet slack bytes
          in if length constructed > 0 then n\<lparr>uplink_sent := uplink_sent n @ [constructed]\<rparr> else n)"

text \<open>\<open>FEEDBACK_VEC_UPLINK\<close> of \<open>handlePcPcVectorType\<close> (EventDsp.cpp).\<close>

definition handle_uplink :: "u32 list \<Rightarrow> tun_node \<Rightarrow> tun_node" where
  "handle_uplink data_vec n = n\<lparr>demodRx2TunFifo := enqueue (demodRx2TunFifo n) data_vec\<rparr>"

definition txTunBufferLength :: "tun_node \<Rightarrow> nat" where
  "txTunBufferLength n = queue_size (tun_tx_queue n)"

lemma tun_packet_eq: "length bytes \<le> BUFSIZE \<Longrightarrow> tun_packet slack bytes = charVectorPacketToWordVector slack bytes"
proof -
  assume len: "length bytes \<le> BUFSIZE"
  have "map ((!) (tun_buffer bytes)) [0..<length bytes] = bytes"
    using len by (intro nth_equalityI) (simp_all add: tun_buffer_def nth_append)
  then show ?thesis using len by (simp add: tun_packet_def cBufferPacketToCharVector_def min_def)
qed

lemma ip_packet_short: "ip_packet b \<Longrightarrow> length b \<le> BUFSIZE"
  by (simp add: ip_packet_def)

text \<open>Reading packets one after the other queues their words in order.\<close>

lemma tun_reads_queued:
  assumes "demodRx2TunFifo n = []" and "\<forall>b \<in> set bs. length b \<le> BUFSIZE"
  shows "tun_tx_queue (fold (\<lambda>b. tunThreadAsTx_pass slack (Some b)) bs n) =
    tun_tx_queue n @ map (charVectorPacketToWordVector slack) bs"
  using assms
  by (induction bs arbitrary: n) (simp_all add: tunThreadAsTx_pass_def enqueue_def tun_packet_eq)

text \<open>An IP packet read on the receiver's tunnel comes out of the transmitter's, unchanged.\<close>

lemma uplink_delivers:
  assumes "ip_packet b" and "uplink_sent r = []" and "demodRx2TunFifo t = []"
  shows "to_tun (tunThreadAsTx_pass slack' None
      (handle_uplink (hd (uplink_sent (tunThreadAsRx_pass slack (Some b) r))) t)) = to_tun t @ [b]"
proof -
  have len: "0 < length b" "length b \<le> BUFSIZE" using assms(1) by (auto simp: ip_packet_def)
  have "wordVectorPacketToCharVector (charVectorPacketToWordVector slack b) = b"
    using packetToBytes_charVector [OF assms(1), of slack "[]"] by (simp add: wordVectorPacketToCharVector_def)
  moreover have "charVectorPacketToWordVector slack b \<noteq> []"
    using len(1) by (metis length_charVector length_greater_0_conv words_for_pos)
  ultimately show ?thesis
    using assms(2,3) len
    by (simp add: Let_def tunThreadAsRx_pass_def tun_packet_eq handle_uplink_def tunThreadAsTx_pass_def enqueue_def)
qed

end
