(* ===== verification/Feedback_Bus.thy ===== *)
theory Feedback_Bus
  imports Modem_Prelude
begin

text \<open>
  The feedback bus: the stream of words from the radio, in which frames with a header of sixteen
  words stand between zero words. \<open>EventDsp::parseFeedbackBuffer\<close> (driver/HiggsSoapyFeedbackBus.cpp)
  takes the frames out of the buffer of received bytes.

  The length of a frame is told by \<open>feedback_word_length\<close> of the bus library, an argument \<open>wl\<close> here:
  from the words at a frame it gives the number of words to advance and whether they are an error.
  The locale \<open>feedback_bus\<close> states what the parser relies on. The repository holds the function a
  second time, in the simulator (js/mock/fbparse.js); \<open>feedback_word_length\<close> is that one, and it
  satisfies the laws.

  A parse is \<open>None\<close> when it reads outside its buffer or does not end.
\<close>

section \<open>Frames\<close>

text \<open>The fields, as in \<open>FeedbackFrame\<close>, and the constants of js/mock/hconst.js.\<close>

abbreviation fb_header_words :: nat where "fb_header_words \<equiv> 16"

definition fb_type :: "u32 list \<Rightarrow> u32" where "fb_type v = v ! 0"
definition fb_length :: "u32 list \<Rightarrow> u32" where "fb_length v = v ! 1"
definition fb_vtype :: "u32 list \<Rightarrow> u32" where "fb_vtype v = v ! 4"

definition getPreMapMovCount :: "nat \<Rightarrow> u32 \<Rightarrow> u32" where
  "getPreMapMovCount enabled_subcarriers y =
     of_nat ((unat y - fb_header_words) div 1024 * enabled_subcarriers div 16)"

definition feedback_word_length :: "u32 list \<Rightarrow> u32 \<times> bool" where
  "feedback_word_length v =
     (if fb_type v = 1 \<or> fb_type v = 2
      then if fb_length v < 16 then (1, True)
           else if fb_type v = 2 \<and> fb_vtype v = 5 then (getPreMapMovCount 128 (fb_length v) + 16, False)
           else (fb_length v, False)
      else if fb_type v = 3
      then if fb_length v > 16 then (1, True) else if fb_length v < 4 then (1, True) else (16, False)
      else if fb_type v = 0 then (1, False)
      else (1, True))"

section \<open>The parser\<close>

record fb_parser =
  fb_jamming :: int
  got_jam :: bool
  fb_error_count :: int

definition setupFeedbackBus :: fb_parser where
  "setupFeedbackBus = \<lparr>fb_jamming = - 1, got_jam = False, fb_error_count = 0\<rparr>"

definition fb_zero :: "fb_parser \<Rightarrow> fb_parser" where
  "fb_zero s =
     (if fb_jamming s = - 1 then s\<lparr>fb_jamming := 1\<rparr>
      else s\<lparr>fb_jamming := fb_jamming s + 1, got_jam := got_jam s \<or> fb_jamming s + 1 = 367 * 2\<rparr>)"

text \<open>The loop: the frames handed on, the words consumed. The index is a \<open>uint32_t\<close>.\<close>

partial_function (option) fb_loop ::
    "(u32 list \<Rightarrow> u32 \<times> bool) \<Rightarrow> u32 list \<Rightarrow> u32 \<Rightarrow> u32 \<Rightarrow> u32 list list \<Rightarrow> fb_parser \<Rightarrow>
      (u32 list list \<times> u32 \<times> fb_parser) option" where
  "fb_loop wl data i valid_consumed out s =
     (if unat i < length data
      then if data ! unat i \<noteq> 0
           then if unat (i + 1 + 16) > length data then Some (out, valid_consumed, s)
                else let (advance, adv_error) = wl (drop (unat i) data)
                     in if unat (i + 1 + advance) > length data then Some (out, valid_consumed, s)
                        else if adv_error
                        then fb_loop wl data (i + 1) (valid_consumed + 1) out
                               (s\<lparr>fb_jamming := - 1, fb_error_count := fb_error_count s + 1\<rparr>)
                        else if unat i + unat advance > length data then None
                        else fb_loop wl data (i + advance) (valid_consumed + advance)
                               (out @ [vslice (unat i) (unat advance) data]) (s\<lparr>fb_jamming := - 1\<rparr>)
           else fb_loop wl data (i + 1) (valid_consumed + 1) out (fb_zero s)
      else Some (out, valid_consumed, s))"

abbreviation LINEAR_SIZE :: nat where "LINEAR_SIZE \<equiv> 2048"

definition parseFeedbackBuffer ::
    "(u32 list \<Rightarrow> u32 \<times> bool) \<Rightarrow> u8 list \<Rightarrow> fb_parser \<Rightarrow> (u32 list list \<times> u8 list \<times> fb_parser) option" where
  "parseFeedbackBuffer wl input s =
     (let make_linear_size_words = min (length input div 4) LINEAR_SIZE;
          fb_buf_data = bytes_vec (take (make_linear_size_words * 4) input)
      in map_option (\<lambda>(out, valid_consumed, s'). (out, drop (unat (valid_consumed * 4)) input, s'))
           (fb_loop wl fb_buf_data 0 0 [] s))"

section \<open>Specification\<close>

text \<open>
  What a stream of words holds: its frames, and the words at its end that are not yet a whole
  frame. A frame is whole when \<open>extra\<close> more words follow it.
\<close>

function fb_split :: "nat \<Rightarrow> (u32 list \<Rightarrow> u32 \<times> bool) \<Rightarrow> u32 list \<Rightarrow> u32 list list \<times> u32 list" where
  "fb_split extra wl ws =
     (if ws = [] then ([], [])
      else if hd ws = 0 then fb_split extra wl (tl ws)
      else if length ws < fb_header_words + extra \<or> length ws < unat (fst (wl ws)) + extra then ([], ws)
      else if snd (wl ws) then fb_split extra wl (tl ws)
      else let (fs, r) = fb_split extra wl (drop (max 1 (unat (fst (wl ws)))) ws)
           in (take (unat (fst (wl ws))) ws # fs, r))"
  by pat_completeness auto
termination
  by (relation "measure (\<lambda>(extra, wl, ws). length ws)") auto

declare fb_split.simps [simp del]

lemma fb_split_Nil [simp]: "fb_split extra wl [] = ([], [])"
  by (simp add: fb_split.simps)

lemma fb_split_zero [simp]: "fb_split extra wl (0 # ws) = fb_split extra wl ws"
  by (simp add: fb_split.simps [of _ _ "0 # ws"])

text \<open>No sixteen words of the stream announce more than \<open>bound\<close> words.\<close>

definition fb_bounded :: "nat \<Rightarrow> (u32 list \<Rightarrow> u32 \<times> bool) \<Rightarrow> u32 list \<Rightarrow> bool" where
  "fb_bounded bound wl ws \<longleftrightarrow>
     list_all (\<lambda>k. unat (fst (wl (take fb_header_words (drop k ws)))) \<le> bound) [0..<length ws - 15]"

text \<open>The longest frame the bus carries, \<open>FEEDBACK_MAPMOV_MAX_LENGTH\<close> of js/mock/hconst.js.\<close>

abbreviation fb_sane :: "(u32 list \<Rightarrow> u32 \<times> bool) \<Rightarrow> u32 list \<Rightarrow> bool" where
  "fb_sane \<equiv> fb_bounded 0x9c40000"


locale feedback_bus =
  fixes wl :: "u32 list \<Rightarrow> u32 \<times> bool"
  assumes header_only: "fb_header_words \<le> length v \<Longrightarrow> wl v = wl (take fb_header_words v)"
    and advances: "fb_header_words \<le> length v \<Longrightarrow> 0 < fst (wl v)"
begin

lemma wl_append: "fb_header_words \<le> length v \<Longrightarrow> wl (v @ w) = wl v"
  using header_only [of "v @ w"] header_only [of v] by simp

lemma wl_take: "fb_header_words \<le> n \<Longrightarrow> n \<le> length v \<Longrightarrow> wl (take n v) = wl v"
  using header_only [of "take n v"] header_only [of v] by simp

text \<open>What has been taken out of a stream does not depend on what comes after it.\<close>

lemma split_append:
  "fb_split extra wl (ws @ later) =
    (fst (fb_split extra wl ws) @ fst (fb_split extra wl (snd (fb_split extra wl ws) @ later)),
     snd (fb_split extra wl (snd (fb_split extra wl ws) @ later)))"
proof (induction ws rule: length_induct)
  case (1 ws)
  let ?stop = "length ws < fb_header_words + extra \<or> length ws < unat (fst (wl ws)) + extra"
  show ?case
  proof (cases "ws = [] \<or> hd ws = 0 \<or> ?stop")
    case True
    then consider "ws = []" | "ws \<noteq> []" "hd ws = 0" | "ws \<noteq> []" "hd ws \<noteq> 0" ?stop by blast
    then show ?thesis
    proof cases
      case 2
      then obtain us where ws: "ws = 0 # us" by (cases ws) auto
      show ?thesis unfolding ws using 1 [rule_format, of us] ws by simp
    qed (simp_all add: fb_split.simps [of extra wl ws])
  next
    case False
    then have len: "fb_header_words \<le> length ws" and w: "wl (ws @ later) = wl ws" using wl_append by auto
    let ?n = "max 1 (unat (fst (wl ws)))"
    have n: "?n \<le> length ws" using False by auto
    have shorter: "length (tl ws) < length ws" "length (drop ?n ws) < length ws" using False by auto
    note whole = fb_split.simps [of extra wl ws] fb_split.simps [of extra wl "ws @ later"]
    show ?thesis
    proof (cases "snd (wl ws)")
      case True
      then show ?thesis using False w 1 [rule_format, OF shorter(1)] whole by (simp add: tl_append2)
    next
      case ok: False
      have "drop ?n (ws @ later) = drop ?n ws @ later" "take (unat (fst (wl ws))) (ws @ later) = take (unat (fst (wl ws))) ws"
        using n by simp_all
      then show ?thesis using False ok w 1 [rule_format, OF shorter(2)] whole by (simp add: split_beta Let_def)
    qed
  qed
qed

lemma bounded_at:
  assumes "fb_bounded bound wl ws" "i + fb_header_words \<le> length ws"
  shows "unat (fst (wl (drop i ws))) \<le> bound"
proof -
  have "i \<in> set [0..<length ws - 15]" using assms(2) by auto
  then have "unat (fst (wl (take fb_header_words (drop i ws)))) \<le> bound"
    using assms(1) unfolding fb_bounded_def list_all_iff by blast
  then show ?thesis using header_only [of "drop i ws"] assms(2) by simp
qed

lemma loop_splits:
  assumes "length data \<le> LINEAR_SIZE" "fb_sane wl data" "i \<le> length data"
  shows "\<exists>s'. fb_loop wl data (of_nat i) (of_nat i) out s =
    Some (out @ fst (fb_split 1 wl (drop i data)), of_nat (length data - length (snd (fb_split 1 wl (drop i data)))), s')"
  using assms(3)
proof (induction "length data - i" arbitrary: i out s rule: less_induct)
  case less
  let ?ws = "drop i data" and ?loop = "fb_loop wl data"
  have i: "unat (of_nat i :: u32) = i" using less.prems assms(1) by simp
  note loop = fb_loop.simps [of wl data "of_nat i" "of_nat i" out s, unfolded i]
  have one: "of_nat i + 1 = (of_nat (i + 1) :: u32)" by simp
  show ?case
  proof (cases "i < length data")
    case False
    then show ?thesis using less.prems loop by simp
  next
    case True
    then have ws: "?ws \<noteq> []" "hd ?ws = data ! i" "tl ?ws = drop (i + 1) data" by (simp_all add: hd_drop_conv_nth drop_Suc tl_drop)
    note IH = less.hyps [of "i + 1"]
    note spec = fb_split.simps [of 1 wl ?ws]
    have h: "unat (of_nat i + 1 + 16 :: u32) = i + 17"
      using assms(1) True unat_of_nat_u32 [of "i + 17"] by (simp add: ac_simps)
    consider "data ! i = 0" | "data ! i \<noteq> 0" "length data < i + 17" | "data ! i \<noteq> 0" "i + 17 \<le> length data" by linarith
    then show ?thesis
    proof cases
      case 1
      obtain s' where "?loop (of_nat (i + 1)) (of_nat (i + 1)) out (fb_zero s) =
          Some (out @ fst (fb_split 1 wl (tl ?ws)), of_nat (length data - length (snd (fb_split 1 wl (tl ?ws)))), s')"
        using IH [of out "fb_zero s"] True ws(3) by fastforce
      then show ?thesis using 1 True loop one spec ws(1,2) by simp
    next
      case 2
      then have "fb_split 1 wl ?ws = ([], ?ws)" using spec ws by auto
      then show ?thesis using 2 True loop h by simp
    next
      case 3
      let ?a = "fst (wl ?ws)"
      have len: "fb_header_words \<le> length ?ws" using 3 by simp
      have a: "unat ?a \<le> 0x9c40000" "0 < unat ?a"
        using bounded_at [OF assms(2), of i] 3 advances [OF len] by (simp_all add: unat_gt_0)
      have sum: "of_nat i + 1 + ?a = (of_nat (i + 1 + unat ?a) :: u32)" "of_nat i + ?a = (of_nat (i + unat ?a) :: u32)"
        by simp_all
      have ua: "unat (of_nat i + 1 + ?a) = i + 1 + unat ?a"
        unfolding sum(1) using assms(1) True a(1) by (intro unat_of_nat_u32) simp
      have "?loop (of_nat i) (of_nat i) out s =
        (if unat (of_nat i + 1 + ?a) > length data then Some (out, of_nat i, s)
         else if snd (wl ?ws) then ?loop (of_nat i + 1) (of_nat i + 1) out
             (s\<lparr>fb_jamming := - 1, fb_error_count := fb_error_count s + 1\<rparr>)
         else if i + unat ?a > length data then None
         else ?loop (of_nat i + ?a) (of_nat i + ?a) (out @ [vslice i (unat ?a) data]) (s\<lparr>fb_jamming := - 1\<rparr>))"
        unfolding loop using leD [OF 3(2)] True 3(1) h by (simp only: split_beta Let_def if_True if_False simp_thms)
      then have step: "?loop (of_nat i) (of_nat i) out s =
        (if i + 1 + unat ?a > length data then Some (out, of_nat i, s)
         else if snd (wl ?ws) then ?loop (of_nat (i + 1)) (of_nat (i + 1)) out
             (s\<lparr>fb_jamming := - 1, fb_error_count := fb_error_count s + 1\<rparr>)
         else ?loop (of_nat (i + unat ?a)) (of_nat (i + unat ?a)) (out @ [take (unat ?a) ?ws]) (s\<lparr>fb_jamming := - 1\<rparr>))"
        unfolding ua unfolding one sum(2) vslice_def by (auto split: if_splits)
      have fits: "\<not> length data - i < 17 \<and> \<not> length data - i < Suc (unat ?a)" if "i + 1 + unat ?a \<le> length data"
        using that 3(2) by linarith
      consider "length data < i + 1 + unat ?a" | "i + 1 + unat ?a \<le> length data" "snd (wl ?ws)"
        | "i + 1 + unat ?a \<le> length data" "\<not> snd (wl ?ws)" by linarith
      then show ?thesis
      proof cases
        case a: 1
        then have "fb_split 1 wl ?ws = ([], ?ws)" using spec ws 3 by auto
        then show ?thesis using a step True by simp
      next
        case a: 2
        have "fb_split 1 wl ?ws = fb_split 1 wl (drop (i + 1) data)"
          using spec fits [OF a(1)] 3(1) a(2) ws by simp
        then show ?thesis using step a IH True by simp
      next
        case b: 3
        have "fb_split 1 wl ?ws = (take (unat ?a) ?ws # fst (fb_split 1 wl (drop (i + unat ?a) data)),
            snd (fb_split 1 wl (drop (i + unat ?a) data)))"
          using spec fits [OF b(1)] 3(1) b(2) ws(1,2) a(2)
          by (simp add: split_beta Let_def max_def Suc_le_eq add.commute)
        moreover have "length data - (i + unat ?a) < length data - i" "i + unat ?a \<le> length data" using b a(2) by linarith+
        moreover obtain s' where "?loop (of_nat (i + unat ?a)) (of_nat (i + unat ?a)) (out @ [take (unat ?a) ?ws])
            (s\<lparr>fb_jamming := - 1\<rparr>) =
          Some ((out @ [take (unat ?a) ?ws]) @ fst (fb_split 1 wl (drop (i + unat ?a) data)),
            of_nat (length data - length (snd (fb_split 1 wl (drop (i + unat ?a) data)))), s')"
          using less.hyps [OF calculation(2,3)] by blast
        ultimately show ?thesis using step b by simp
      qed
    qed
  qed
qed

lemma split_suffix: "\<exists>k\<le>length ws. snd (fb_split extra wl ws) = drop k ws"
proof (induction extra wl ws rule: fb_split.induct)
  case (1 extra wl ws)
  let ?n = "max 1 (unat (fst (wl ws)))"
  let ?stop = "length ws < fb_header_words + extra \<or> length ws < unat (fst (wl ws)) + extra"
  have tail: "\<exists>k\<le>length ws. snd (fb_split extra wl (tl ws)) = drop k ws"
    if "ws \<noteq> []" "hd ws = 0 \<or> \<not> ?stop \<and> snd (wl ws)"
  proof -
    have "\<exists>k\<le>length (tl ws). snd (fb_split extra wl (tl ws)) = drop k (tl ws)"
    proof (cases "hd ws = 0")
      case False
      with that show ?thesis using "1.IH"(2) [OF that(1) False] by simp
    qed (rule "1.IH"(1) [OF that(1)])
    then obtain k where "k \<le> length (tl ws)" "snd (fb_split extra wl (tl ws)) = drop k (tl ws)" by blast
    then show ?thesis using that(1) by (intro exI [of _ "Suc k"]) (cases ws; simp)
  qed
  have frame: "\<exists>k\<le>length ws. snd (fb_split extra wl (drop ?n ws)) = drop k ws"
    if g: "ws \<noteq> []" "hd ws \<noteq> 0" "\<not> ?stop" "\<not> snd (wl ws)"
  proof -
    obtain k where "k \<le> length (drop ?n ws)" "snd (fb_split extra wl (drop ?n ws)) = drop k (drop ?n ws)"
      using "1.IH"(3) [OF g] by blast
    moreover have "?n \<le> length ws" using g(1,3) by (cases ws) auto
    ultimately show ?thesis by (intro exI [of _ "k + ?n"]) (simp add: max_def split: if_splits)
  qed
  show ?case
    using tail frame by (subst fb_split.simps) (auto simp: split_beta Let_def intro: exI [of _ 0])
qed

end

lemma bounded_take: "fb_bounded b wl ws \<Longrightarrow> fb_bounded b wl (take n ws)"
  by (auto simp: fb_bounded_def list_all_iff drop_take min_def)

lemma bounded_drop: "fb_bounded b wl ws \<Longrightarrow> fb_bounded b wl (drop n ws)"
proof -
  assume "fb_bounded b wl ws"
  then have "unat (fst (wl (take fb_header_words (drop (k + n) ws)))) \<le> b" if "k < length (drop n ws) - 15" for k
    using that by (auto simp: fb_bounded_def list_all_iff)
  then show ?thesis by (auto simp: fb_bounded_def list_all_iff)
qed

lemma bounded_mono: "fb_bounded b wl ws \<Longrightarrow> b \<le> c \<Longrightarrow> fb_bounded c wl ws"
  unfolding fb_bounded_def list_all_iff using le_trans by blast

section \<open>Chunks\<close>

text \<open>
  Bytes come in chunks: what has been written to the buffer since the last look, one datagram or, as
  the callback is deferred, several. The read callback runs only when bytes have arrived, and only
  when the buffer holds at least the low watermark that \<open>EventDsp\<close> set for it; it parses one window.
\<close>

definition fb_low_watermark :: nat where "fb_low_watermark = (1024 + 16) * 4"

fun fb_receive ::
    "(u32 list \<Rightarrow> u32 \<times> bool) \<Rightarrow> u8 list list \<Rightarrow> u32 list list \<times> u8 list \<times> fb_parser \<Rightarrow>
      (u32 list list \<times> u8 list \<times> fb_parser) option" where
  "fb_receive wl [] st = Some st"
| "fb_receive wl (c # cs) (fs, input, s) =
     (if c = [] \<or> length (input @ c) < fb_low_watermark then fb_receive wl cs (fs, input @ c, s)
      else case parseFeedbackBuffer wl (input @ c) s of
             None \<Rightarrow> None
           | Some (out, input', s') \<Rightarrow> fb_receive wl cs (fs @ out, input', s'))"

lemma bytes_vec_cut:
  "n * 4 \<le> length a \<Longrightarrow> bytes_vec (a @ b) = take n (bytes_vec a) @ bytes_vec (drop (n * 4) a @ b)"
proof -
  assume n: "n * 4 \<le> length a"
  have "bytes_vec (take (n * 4) a @ (drop (n * 4) a @ b)) = bytes_vec (take (n * 4) a) @ bytes_vec (drop (n * 4) a @ b)"
    using n by (intro bytes_vec_append) simp
  moreover have "take (n * 4) a @ (drop (n * 4) a @ b) = a @ b" by (simp only: append_assoc [symmetric] append_take_drop_id)
  ultimately show ?thesis by (simp only: bytes_vec_take)
qed

context feedback_bus
begin

text \<open>One call, on the words of its buffer.\<close>

lemma parse_splits:
  assumes "fb_sane wl (bytes_vec input)"
  defines "window \<equiv> take LINEAR_SIZE (bytes_vec input)"
  obtains n s' where "parseFeedbackBuffer wl input s = Some (fst (fb_split 1 wl window), drop (n * 4) input, s')"
    "n \<le> length window" "snd (fb_split 1 wl window) = drop n window" "n * 4 \<le> length input"
proof -
  obtain k where k: "k \<le> length window" "snd (fb_split 1 wl window) = drop k window" using split_suffix by blast
  have len: "length window \<le> LINEAR_SIZE" "4 * length window \<le> length input" by (simp_all add: window_def)
  have "min (length input div 4) LINEAR_SIZE = length window" by (simp add: window_def min.commute)
  moreover have "bytes_vec (take (length window * 4) input) = window"
    by (auto simp: bytes_vec_take window_def min_def)
  moreover obtain s' where "fb_loop wl window 0 0 [] s =
      Some (fst (fb_split 1 wl window), of_nat (length window - length (drop k window)), s')"
    using loop_splits [OF len(1), of 0 "[]" s] bounded_take [OF assms(1)] k(2) by (auto simp: window_def)
  moreover have "unat (of_nat k * 4 :: u32) = k * 4"
    using unat_of_nat_u32 [of "k * 4"] k(1) len(1) by simp
  ultimately have "parseFeedbackBuffer wl input s = Some (fst (fb_split 1 wl window), drop (k * 4) input, s')"
    using k(1) by (simp add: parseFeedbackBuffer_def Let_def)
  then show ?thesis using that k len(2) by simp
qed

text \<open>What is taken out leaves less than a frame, and nothing to take.\<close>

lemma split_idle: "fst (fb_split extra wl (snd (fb_split extra wl ws))) = []"
  "snd (fb_split extra wl (snd (fb_split extra wl ws))) = snd (fb_split extra wl ws)"
  using split_append [of extra ws "[]"] by (simp_all add: prod_eq_iff)

lemma split_rest_short:
  assumes "fb_bounded A wl ws" and "16 \<le> A"
  shows "length (snd (fb_split 1 wl ws)) \<le> A"
proof (rule ccontr)
  let ?r = "snd (fb_split 1 wl ws)"
  assume "\<not> ?thesis"
  then have long: "A < length ?r" by simp
  obtain k where "?r = drop k ws" using split_suffix by blast
  then have "fb_bounded A wl ?r" using bounded_drop [OF assms(1)] by simp
  then have a: "unat (fst (wl ?r)) \<le> A" using bounded_at [of A ?r 0] long assms(2) by simp
  have shorter: "snd (fb_split 1 wl us) \<noteq> ?r" if "length us < length ?r" for us
    using split_suffix [of us 1] that by (metis length_drop diff_le_self not_le)
  have "?r \<noteq> []" using long by auto
  then have "length (tl ?r) < length ?r" by (cases ?r) auto
  moreover have "\<not> (length ?r < fb_header_words + 1 \<or> length ?r < unat (fst (wl ?r)) + 1)" using long a assms(2) by simp
  ultimately show False
    using split_idle [of 1 ws] shorter [of "tl ?r"] fb_split.simps [of 1 wl ?r] \<open>?r \<noteq> []\<close>
    by (auto simp: split_beta Let_def split: if_splits)
qed

text \<open>A callback on the bytes \<open>a\<close> while the bytes \<open>rest\<close> are still to come.\<close>

lemma receive_call:
  assumes "fb_bounded A wl (bytes_vec (a @ rest))" and "A \<le> 0x9c40000"
  obtains n s' where "parseFeedbackBuffer wl a s = Some (fst (fb_split 1 wl (take LINEAR_SIZE (bytes_vec a))), drop (n * 4) a, s')"
    "n * 4 \<le> length a" "snd (fb_split 1 wl (take LINEAR_SIZE (bytes_vec a))) = drop n (take LINEAR_SIZE (bytes_vec a))"
    "bytes_vec (drop (n * 4) a @ rest) = drop n (bytes_vec (a @ rest))"
    "fb_split 1 wl (bytes_vec (a @ rest)) =
      (fst (fb_split 1 wl (take LINEAR_SIZE (bytes_vec a))) @ fst (fb_split 1 wl (bytes_vec (drop (n * 4) a @ rest))),
       snd (fb_split 1 wl (bytes_vec (drop (n * 4) a @ rest))))"
proof -
  let ?split = "fb_split 1 wl" and ?w = "take LINEAR_SIZE (bytes_vec a)"
  have "bytes_vec (a @ rest) = bytes_vec a @ bytes_vec (drop (length a div 4 * 4) a @ rest)"
    using bytes_vec_cut [of "length a div 4" a rest] by simp
  then have "bytes_vec a = take (length (bytes_vec a)) (bytes_vec (a @ rest))" by simp
  then have "fb_bounded A wl (bytes_vec a)" using assms(1) bounded_take by metis
  then have "fb_sane wl (bytes_vec a)" using assms(2) by (rule bounded_mono)
  then obtain n s' where call: "parseFeedbackBuffer wl a s = Some (fst (?split ?w), drop (n * 4) a, s')"
    and n: "n \<le> length ?w" "snd (?split ?w) = drop n ?w" "n * 4 \<le> length a"
    using parse_splits [of a s] by blast
  define later where "later = bytes_vec (drop (length ?w * 4) a @ rest)"
  have "length ?w * 4 \<le> length a" by (simp add: min_def) presburger
  then have w: "bytes_vec (a @ rest) = ?w @ later"
    using bytes_vec_cut [of "length ?w" a rest] by (simp add: later_def min_def split: if_splits)
  have "bytes_vec (a @ rest) = take n (bytes_vec a) @ bytes_vec (drop (n * 4) a @ rest)"
    using bytes_vec_cut n(3) by blast
  then have u: "bytes_vec (drop (n * 4) a @ rest) = drop n (bytes_vec (a @ rest))" using n(1) by simp
  then have "bytes_vec (drop (n * 4) a @ rest) = drop n ?w @ later" unfolding w using n(1) by simp
  then have split: "?split (bytes_vec (a @ rest)) =
      (fst (?split ?w) @ fst (?split (bytes_vec (drop (n * 4) a @ rest))), snd (?split (bytes_vec (drop (n * 4) a @ rest))))"
    unfolding w using split_append [of 1 ?w later] n(2) by simp
  show ?thesis by (rule that [OF call n(3) n(2) u split])
qed

text \<open>What is delivered and what is left always make up what has arrived.\<close>

lemma receive_splits:
  assumes "fb_bounded A wl (bytes_vec (input @ concat cs))" and "A \<le> 0x9c40000"
  shows "\<exists>fs' input' s'. fb_receive wl cs (fs, input, s) = Some (fs @ fs', input', s') \<and>
    fb_split 1 wl (bytes_vec (input @ concat cs)) =
      (fs' @ fst (fb_split 1 wl (bytes_vec input')), snd (fb_split 1 wl (bytes_vec input'))) \<and>
    (\<exists>k. input' = drop (k * 4) (input @ concat cs))"
  using assms(1)
proof (induction cs arbitrary: fs input s)
  case (Cons c cs)
  define a rest where "a = input @ c" and "rest = concat cs"
  have total: "input @ concat (c # cs) = a @ rest" by (simp add: a_def rest_def)
  have b: "fb_bounded A wl (bytes_vec (a @ rest))" using Cons.prems unfolding total .
  show ?case
  proof (cases "c = [] \<or> length a < fb_low_watermark")
    case True
    then have "fb_receive wl (c # cs) (fs, input, s) = fb_receive wl cs (fs, a, s)" by (auto simp: a_def)
    then show ?thesis using Cons.IH [of a fs s] b unfolding total by (simp add: rest_def)
  next
    case False
    let ?out = "fst (fb_split 1 wl (take LINEAR_SIZE (bytes_vec a)))"
    obtain n s' where call: "parseFeedbackBuffer wl a s = Some (?out, drop (n * 4) a, s')" "n * 4 \<le> length a"
      "bytes_vec (drop (n * 4) a @ rest) = drop n (bytes_vec (a @ rest))"
      "fb_split 1 wl (bytes_vec (a @ rest)) = (?out @ fst (fb_split 1 wl (bytes_vec (drop (n * 4) a @ rest))),
         snd (fb_split 1 wl (bytes_vec (drop (n * 4) a @ rest))))"
      using receive_call [OF b assms(2), of s] by blast
    have "fb_bounded A wl (bytes_vec (drop (n * 4) a @ rest))" unfolding call(3) using b by (rule bounded_drop)
    then obtain fs' input' s'' where
      "fb_receive wl cs (fs @ ?out, drop (n * 4) a, s') = Some ((fs @ ?out) @ fs', input', s'')"
      "fb_split 1 wl (bytes_vec (drop (n * 4) a @ rest)) =
        (fs' @ fst (fb_split 1 wl (bytes_vec input')), snd (fb_split 1 wl (bytes_vec input')))"
      and later_input: "\<exists>k. input' = drop (k * 4) (drop (n * 4) a @ rest)"
      using Cons.IH unfolding rest_def by blast
    then have "fb_receive wl (c # cs) (fs, input, s) = Some (fs @ (?out @ fs'), input', s'')"
      "fb_split 1 wl (bytes_vec (a @ rest)) =
        ((?out @ fs') @ fst (fb_split 1 wl (bytes_vec input')), snd (fb_split 1 wl (bytes_vec input')))"
      unfolding call(4) using call(1) False by (simp_all add: a_def)
    moreover have "drop (k * 4) (drop (n * 4) a @ rest) = drop ((k + n) * 4) (a @ rest)" for k
    proof -
      have "drop (n * 4) a @ rest = drop (n * 4) (a @ rest)" using call(2) by simp
      then show ?thesis by (simp add: add_mult_distrib del: drop_append)
    qed
    ultimately show ?thesis unfolding total using later_input by metis
  qed
qed (auto intro: exI [of _ 0])

text \<open>While the callback keeps up, a whole frame waits only for the watermark.\<close>

definition fb_waits :: "nat \<Rightarrow> u8 list \<Rightarrow> bool" where
  "fb_waits A input \<longleftrightarrow> length input \<le> 4 * A + 3 \<and>
     (length input < fb_low_watermark \<or> fst (fb_split 1 wl (bytes_vec input)) = [])"

lemma receive_keeps_up:
  assumes "fb_bounded A wl (bytes_vec (input @ concat cs))" and "1040 \<le> A" "A < LINEAR_SIZE"
    and "\<forall>c \<in> set cs. length c \<le> 4 * (LINEAR_SIZE - A)" and "fb_waits A input"
    and "fb_receive wl cs (fs, input, s) = Some (fs', input', s')"
  shows "fb_waits A input'"
  using assms(1,4-6)
proof (induction cs arbitrary: fs input s)
  case (Cons c cs)
  define a rest where "a = input @ c" and "rest = concat cs"
  have total: "input @ concat (c # cs) = a @ rest" by (simp add: a_def rest_def)
  have b: "fb_bounded A wl (bytes_vec (a @ rest))" using Cons.prems(1) unfolding total .
  have A: "A \<le> 0x9c40000" using assms(3) by simp
  show ?case
  proof (cases "c = [] \<or> length a < fb_low_watermark")
    case True
    then have "fb_receive wl cs (fs, a, s) = Some (fs', input', s')" using Cons.prems(4) by (auto simp: a_def)
    moreover have "fb_waits A a"
      using True Cons.prems(3) assms(2) by (auto simp: fb_waits_def a_def fb_low_watermark_def)
    ultimately show ?thesis using Cons.IH [of a fs s] b Cons.prems(2) by (simp add: rest_def)
  next
    case False
    obtain n s1 where call: "parseFeedbackBuffer wl a s =
        Some (fst (fb_split 1 wl (take LINEAR_SIZE (bytes_vec a))), drop (n * 4) a, s1)" "n * 4 \<le> length a"
      "snd (fb_split 1 wl (take LINEAR_SIZE (bytes_vec a))) = drop n (take LINEAR_SIZE (bytes_vec a))"
      "bytes_vec (drop (n * 4) a @ rest) = drop n (bytes_vec (a @ rest))"
      using receive_call [OF b A, of s] by blast
    have "length a \<le> 8195" using Cons.prems(2,3) assms(3) by (auto simp: a_def fb_waits_def)
    then have all: "take LINEAR_SIZE (bytes_vec a) = bytes_vec a" by simp
    have left: "bytes_vec (drop (n * 4) a) = snd (fb_split 1 wl (bytes_vec a))"
      using call(3) unfolding all by (simp add: bytes_vec_drop)
    have "bytes_vec a = take (length (bytes_vec a)) (bytes_vec (a @ rest))"
      using bytes_vec_cut [of "length a div 4" a rest] by simp
    then have "fb_bounded A wl (bytes_vec a)" using b bounded_take by metis
    then have "length (bytes_vec (drop (n * 4) a)) \<le> A"
      unfolding left using assms(2) by (intro split_rest_short) simp_all
    then have "length (drop (n * 4) a) \<le> 4 * A + 3" by simp
    then have "fb_waits A (drop (n * 4) a)" unfolding fb_waits_def left split_idle by simp
    moreover have "fb_bounded A wl (bytes_vec (drop (n * 4) a @ rest))" unfolding call(4) using b by (rule bounded_drop)
    moreover have "fb_receive wl cs (fs @ fst (fb_split 1 wl (take LINEAR_SIZE (bytes_vec a))), drop (n * 4) a, s1) =
        Some (fs', input', s')"
      using False call(1) Cons.prems(4) by (simp add: a_def)
    ultimately show ?thesis
      using Cons.IH [of "drop (n * 4) a"] Cons.prems(2) by (simp add: rest_def)
  qed
qed simp

text \<open>Unless a frame is longer than the window, a call that takes nothing leaves nothing to take.\<close>

lemma stuck_done:
  assumes "fb_bounded (LINEAR_SIZE - 1) wl ws" "snd (fb_split 1 wl (take LINEAR_SIZE ws)) = take LINEAR_SIZE ws"
  shows "fst (fb_split 1 wl ws) = []"
proof (cases "length ws \<le> LINEAR_SIZE")
  case True
  let ?r = "snd (fb_split 1 wl ws)"
  from True have "?r = ws" using assms(2) by simp
  then have "fst (fb_split 1 wl ws) = fst (fb_split 1 wl ws) @ fst (fb_split 1 wl ws)"
    using split_append [of 1 ws "[]"] by (metis append_Nil2 fst_conv)
  then show ?thesis by simp
next
  case False
  let ?w = "take LINEAR_SIZE ws"
  have len: "length ?w = LINEAR_SIZE" "?w \<noteq> []" using False by auto
  have a: "unat (fst (wl ?w)) \<le> LINEAR_SIZE - 1" using bounded_at [OF bounded_take [OF assms(1)], of 0] len(1) by simp
  have shorter: "length (snd (fb_split 1 wl (drop n ?w))) < LINEAR_SIZE" if "0 < n" for n
  proof -
    obtain k where "snd (fb_split 1 wl (drop n ?w)) = drop k (drop n ?w)" using split_suffix by blast
    then show ?thesis using that len(1) by (simp del: length_take)
  qed
  have "length (snd (fb_split 1 wl ?w)) < LINEAR_SIZE"
    using shorter [of 1] shorter [of "max 1 (unat (fst (wl ?w)))"] fb_split.simps [of 1 wl ?w] len a
    by (simp add: split_beta Let_def drop_Suc split: if_splits del: length_take)
  then show ?thesis using assms(2) len(1) by simp
qed

text \<open>A frame that fills the window is never taken, and nothing behind it is.\<close>

lemma long_frame_jams:
  assumes "bytes_vec input = ws" "fb_header_words \<le> length ws" "ws ! 0 \<noteq> 0"
    and "LINEAR_SIZE \<le> unat (fst (wl ws))" "unat (fst (wl ws)) \<le> 0x9c40000"
  shows "parseFeedbackBuffer wl input s = Some ([], input, s)"
proof -
  let ?w = "take LINEAR_SIZE ws"
  have len: "length ws = length input div 4" using assms(1) by auto
  have w: "bytes_vec (take (min (length input div 4) LINEAR_SIZE * 4) input) = ?w"
    using assms(1) len by (simp add: bytes_vec_take min_def)
  have "wl ?w = wl ws" 
    using wl_take [of LINEAR_SIZE ws] assms(2) by (cases "LINEAR_SIZE \<le> length ws") simp_all
  moreover have "unat (1 + fst (wl ws)) = 1 + unat (fst (wl ws))"
    using assms(5) by (simp add: unat_word_ariths)
  ultimately have "fb_loop wl ?w 0 0 [] s = Some ([], 0, s)"
    using assms(2-4) by (subst fb_loop.simps) (auto simp: split_beta Let_def min_def)
  then show ?thesis unfolding parseFeedbackBuffer_def Let_def w by simp
qed

end

text \<open>
  C29. The parser is independent of how the bytes arrive. However a stream is cut into chunks, at
  word boundaries or not, the parse never fails, what it leaves in the buffer is an end of the
  stream at a word boundary, and the frames handed on followed by the frames in what is left are
  exactly the frames of the stream, each once and in order. So what is handed on is always a prefix
  of the frames of the stream. Moreover, when no chunk is so large that the window overflows (at most
  2048 words less the longest frame), whole frames wait only while the buffer is below the low
  watermark of 1040 words. The assumptions: the length the bus library tells depends on the header
  alone and is positive, and no sixteen words of the stream announce more than \<open>A\<close> words, where
  \<open>A\<close> is at most the longest length of the bus (for the last part, less than the window of 2048
  words: a longer frame stops the parser, \<open>long_frame_jams\<close>).
\<close>

theorem feedback_stream_delivered:
  assumes "\<forall>v. fb_header_words \<le> length v \<longrightarrow> wl v = wl (take fb_header_words v) \<and> 0 < fst (wl v)"
    and "fb_bounded A wl (bytes_vec (concat cs))" and "A \<le> 0x9c40000"
  shows "\<exists>fs input s. fb_receive wl cs ([], [], setupFeedbackBus) = Some (fs, input, s) \<and>
    fb_split 1 wl (bytes_vec (concat cs)) =
      (fs @ fst (fb_split 1 wl (bytes_vec input)), snd (fb_split 1 wl (bytes_vec input))) \<and>
    (\<exists>k. input = drop (k * 4) (concat cs)) \<and>
    (1040 \<le> A \<and> A < LINEAR_SIZE \<and> (\<forall>c \<in> set cs. length c \<le> 4 * (LINEAR_SIZE - A)) \<longrightarrow>
      length input < fb_low_watermark \<or> fst (fb_split 1 wl (bytes_vec input)) = [])"
proof -
  have fb: "feedback_bus wl" using assms(1) unfolding feedback_bus_def by blast
  obtain fs input s where arrived: "fb_receive wl cs ([], [], setupFeedbackBus) = Some (fs, input, s)"
    and total: "fb_split 1 wl (bytes_vec (concat cs)) =
      (fs @ fst (fb_split 1 wl (bytes_vec input)), snd (fb_split 1 wl (bytes_vec input)))"
    and "\<exists>k. input = drop (k * 4) (concat cs)"
    using feedback_bus.receive_splits [OF fb, of A "[]" cs "[]" setupFeedbackBus] assms(2,3) by auto
  moreover have "feedback_bus.fb_waits wl A []"
    using feedback_bus.fb_waits_def [OF fb] by (simp add: fb_low_watermark_def)
  then have "length input < fb_low_watermark \<or> fst (fb_split 1 wl (bytes_vec input)) = []"
    if "1040 \<le> A" "A < LINEAR_SIZE" "\<forall>c \<in> set cs. length c \<le> 4 * (LINEAR_SIZE - A)"
    using feedback_bus.receive_keeps_up [OF fb _ that _ arrived] assms(2) feedback_bus.fb_waits_def [OF fb] by simp
  ultimately show ?thesis by blast
qed

section \<open>The library's function\<close>

lemma unat_pre_length: "unat (getPreMapMovCount 128 l + 16) = (unat l - 16) div 1024 * 128 div 16 + 16"
proof -
  have "unat l < 4294967296" by simp
  then have "(unat l - 16) div 1024 \<le> 4294967296 div 1024" by (intro div_le_mono) linarith
  then have "(unat l - 16) div 1024 * 128 div 16 + 16 < 4294967296" by simp
  then have "unat (of_nat ((unat l - 16) div 1024 * 128 div 16 + 16) :: u32) = (unat l - 16) div 1024 * 128 div 16 + 16"
    by (rule unat_of_nat_u32)
  then show ?thesis by (simp add: getPreMapMovCount_def)
qed

interpretation fbjs: feedback_bus feedback_word_length
proof unfold_locales
  fix v :: "u32 list"
  assume len: "fb_header_words \<le> length v"
  have "take fb_header_words v ! 0 = v ! 0" "take fb_header_words v ! 1 = v ! 1" "take fb_header_words v ! 4 = v ! 4" by simp_all
  then show "feedback_word_length v = feedback_word_length (take fb_header_words v)"
    by (simp add: feedback_word_length_def fb_type_def fb_length_def fb_vtype_def)
  have "0 < getPreMapMovCount 128 l + 16" for l
    by (simp add: word_less_nat_alt unat_pre_length)
  moreover have "0 < l" if "\<not> l < 16" for l :: u32
    using that by (cases "l = 0") (simp_all add: word_gt_0)
  ultimately show "0 < fst (feedback_word_length v)"
    by (simp add: feedback_word_length_def)
qed

text \<open>Two status frames of seventeen words between zero words.\<close>

definition example_frame :: "u32 list" where
  "example_frame = [2, 17, 1, 0, 7, 1, 0, 0, 0, 0, 0, 0, 0, 0, 0, 0, 9]"

definition example_stream :: "u32 list" where
  "example_stream = [0] @ example_frame @ [0, 0] @ example_frame @ [0]"
lemma split_zeros: "fb_split extra wl (replicate n 0) = ([], [])"
  by (induction n) simp_all

text \<open>A frame and 1100 zero words, in two chunks that are cut inside a word; the second brings the
  buffer over the watermark.\<close>

definition example_long :: "u32 list" where
  "example_long = example_frame @ replicate 1100 0"

lemma length_example_frame: "length example_frame = 17"
  by (simp add: example_frame_def)

lemma length_example_long: "length example_long = 1117"
  by (simp add: example_long_def length_example_frame)

lemma example_long_pad: "example_long = (example_frame @ replicate 16 0) @ replicate 1084 0"
  using replicate_add [of 16 1084 "0 :: u32"] by (simp add: example_long_def)

lemma example_long_split: "fb_split 1 feedback_word_length example_long = ([example_frame], [])"
proof -
  have "example_long ! 0 = 2" "hd example_long = 2" "example_long ! 1 = 17" "example_long ! 4 = 7" 
    "drop 17 example_long = replicate 1100 0" "take 17 example_long = example_frame" "example_long \<noteq> []"
    by (simp_all add: example_long_def example_frame_def)
  then show ?thesis
    by (subst fb_split.simps) (simp add: length_example_long feedback_word_length_def fb_type_def fb_length_def fb_vtype_def split_zeros)
qed

lemma example_long_bounded: "fb_bounded 1040 feedback_word_length example_long"
proof -
  have "unat (fst (feedback_word_length (take 16 (drop k example_long)))) \<le> 1040" if k: "k < 1102" for k
  proof (cases "k < 17")
    case True
    have "\<forall>k \<in> set [0..<17]. unat (fst (feedback_word_length (take 16 (drop k (example_frame @ replicate 16 0))))) \<le> 1040"
      by (simp add: upt_rec example_frame_def feedback_word_length_def fb_type_def fb_length_def fb_vtype_def)
    then have "unat (fst (feedback_word_length (take 16 (drop k (example_frame @ replicate 16 0))))) \<le> 1040"
      using True by simp
    moreover have "take 16 (drop k example_long) = take 16 (drop k (example_frame @ replicate 16 0))"
      using True by (simp add: example_long_pad length_example_frame)
    ultimately show ?thesis by simp
  next
    case False
    then have "take 16 (drop k example_long) = replicate 16 0"
      using k by (simp add: example_long_def length_example_frame)
    then show ?thesis by (simp add: feedback_word_length_def fb_type_def)
  qed
  then show ?thesis by (simp add: fb_bounded_def list_all_iff length_example_long)
qed

theorem feedback_stream_delivered_witness:
  "\<exists>input s. fb_receive feedback_word_length [take 2001 (vec_bytes example_long), drop 2001 (vec_bytes example_long)]
      ([], [], setupFeedbackBus) = Some ([example_frame], input, s) \<and>
    fst (fb_split 1 feedback_word_length (bytes_vec input)) = []"
proof -
  let ?cs = "[take 2001 (vec_bytes example_long), drop 2001 (vec_bytes example_long)]"
  have len: "length (vec_bytes example_long) = 4468" by (simp add: length_example_long)
  have total: "concat ?cs = vec_bytes example_long" by simp
  have laws: "\<forall>v. fb_header_words \<le> length v \<longrightarrow>
      feedback_word_length v = feedback_word_length (take fb_header_words v) \<and> 0 < fst (feedback_word_length v)"
    using fbjs.header_only fbjs.advances by blast
  have small: "fb_bounded 1040 feedback_word_length (bytes_vec (concat ?cs))"
    unfolding total using example_long_bounded by simp
  have "(1040 :: nat) \<le> 0x9c40000" by simp
  from feedback_stream_delivered [OF laws small this] obtain fs input s where out: "fb_receive feedback_word_length ?cs ([], [], setupFeedbackBus) = Some (fs, input, s)"
    "fb_split 1 feedback_word_length (bytes_vec (concat ?cs)) =
      (fs @ fst (fb_split 1 feedback_word_length (bytes_vec input)), snd (fb_split 1 feedback_word_length (bytes_vec input)))"
    by (elim exE conjE)
  have "fb_sane feedback_word_length (bytes_vec (vec_bytes example_long))"
    using bounded_mono [OF example_long_bounded] by simp
  from fbjs.parse_splits [OF this, of setupFeedbackBus] obtain n s' where
    "parseFeedbackBuffer feedback_word_length (vec_bytes example_long) setupFeedbackBus =
      Some (fst (fb_split 1 feedback_word_length (take LINEAR_SIZE example_long)), drop (n * 4) (vec_bytes example_long), s')"
    by (metis bytes_vec_of_bytes)
  moreover have "take LINEAR_SIZE example_long = example_long" by (simp add: length_example_long)
  ultimately have "fs = [example_frame]"
    using out(1) len by (simp add: fb_low_watermark_def example_long_split [unfolded One_nat_def] split: if_splits)
  then show ?thesis using out(1,2) unfolding total by (simp add: example_long_split [unfolded One_nat_def])
qed

end
