(* ===== verification/Fb_Standalone.thy ===== *)
theory Fb_Standalone
  imports Feedback_Bus Emulate_Mapmov
begin

text \<open>
  \<open>StandAloneFbParse\<close> (driver/StandAloneFbParse.cpp): the parser of the feedback bus for the tests
  and the bindings, fed with words instead of a libevent buffer. It keeps every word it was given and
  remembers how far it got; frames are handed to callbacks, here the events of a parse.

  The bus library's length function is the argument \<open>L\<close>: words to advance, error, and whether the
  frame is user data; \<open>fb_library\<close> picks the variant the settings ask for. The parser calls it before it
  knows that a whole header has arrived, so it may read past the end of the vector: \<open>beyond\<close> is what
  it finds there.
\<close>

section \<open>The object\<close>

datatype fb_event =
    FbRaw "u32 list"
  | FbCb u32 u32 "u32 list" "u32 list"
  | FbError

record fb_standalone =
  sa_enabled_subcarriers :: nat
  sa_subcarrier_allocation :: subcarrier_allocation
  sa_emulate_mapmov :: emulate_mapmov
  fbp_progress :: u32
  fbp_jamming :: int
  fbp_error_count :: u32
  fbp_error_cb :: bool
  fbp_raw_cb :: bool
  fbp_cb :: bool
  fb_data :: "u32 list"
  fb_history :: "u32 list"
  keep_history :: bool
  enable_decode_mapmov :: bool
  enable_expand_mapmov :: bool


definition set_mapmov :: "subcarrier_allocation \<Rightarrow> modulation_schema \<Rightarrow> fb_standalone \<Rightarrow> fb_standalone option" where
  "set_mapmov allocation_value constellation s =
     map_option (\<lambda>m. s\<lparr>sa_emulate_mapmov := em_set_modulation_schema m constellation, enable_decode_mapmov := True,
         enable_expand_mapmov := True\<rparr>)
       (em_set_subcarrier_allocation (sa_emulate_mapmov s) allocation_value)"

definition disable_mapmov :: "fb_standalone \<Rightarrow> fb_standalone" where
  "disable_mapmov s = s\<lparr>enable_decode_mapmov := False, enable_expand_mapmov := False\<rparr>"

definition addWords :: "u32 list \<Rightarrow> fb_standalone \<Rightarrow> fb_standalone" where
  "addWords words s =
     fold (\<lambda>w s. s\<lparr>fb_data := fb_data s @ [w],
                   fb_history := (if keep_history s then fb_history s @ [w] else fb_history s)\<rparr>) words s"

definition customParseFeedbackPadZeros :: "nat \<Rightarrow> fb_standalone \<Rightarrow> fb_standalone" where
  "customParseFeedbackPadZeros count s = addWords (replicate count 0) s"

definition registerRawCb :: "fb_standalone \<Rightarrow> fb_standalone" where
  "registerRawCb s = s\<lparr>fbp_raw_cb := True\<rparr>"


definition registerFbError :: "fb_standalone \<Rightarrow> fb_standalone" where
  "registerFbError s = s\<lparr>fbp_error_cb := True\<rparr>"

definition set_both :: "nat \<Rightarrow> subcarrier_allocation \<Rightarrow> fb_standalone \<Rightarrow> fb_standalone" where
  "set_both enabled_sc allocation_value s =
     s\<lparr>sa_enabled_subcarriers := enabled_sc, sa_subcarrier_allocation := allocation_value\<rparr>"

section \<open>Dispatching and parsing\<close>

text \<open>\<open>v\<close> is the buffer from the frame on; reading outside it is \<open>None\<close>. \<open>blen\<close> is an \<open>int\<close>.\<close>

definition dispatchFb :: "u32 list \<Rightarrow> u32 \<Rightarrow> fb_standalone \<Rightarrow> fb_event list option" where
  "dispatchFb v ud_len s =
     (let blen = sint ((if ud_len \<noteq> 0 then ud_len else fb_length v) - 16);
          header = take fb_header_words v;
          body = (if blen > 0 then vslice fb_header_words (nat blen) v else [])
      in if length v < fb_header_words \<or> blen > 0 \<and> int (length v) < 16 + blen then None
         else let raw = (if fbp_raw_cb s then [FbRaw header] else []); type0 = fb_type v; type1 = fb_vtype v
              in if fbp_cb s
                 then if type0 = 2 \<and> type1 = 5 \<and> enable_expand_mapmov s
                      then case move_input_data (sa_emulate_mapmov s) (map_input_data body []) [] of
                             Some (Some mapmov_out) \<Rightarrow> Some (raw @ [FbCb type0 type1 header mapmov_out])
                           | _ \<Rightarrow> None
                      else Some (raw @ [FbCb type0 type1 header body])
                 else Some raw)"

definition fb_library ::
    "(u32 list \<Rightarrow> u32 \<times> bool) \<Rightarrow> (nat \<Rightarrow> subcarrier_allocation \<Rightarrow> u32 list \<Rightarrow> u32 \<times> bool \<times> bool) \<Rightarrow> fb_standalone \<Rightarrow>
      u32 list \<Rightarrow> u32 \<times> bool \<times> bool" where
  "fb_library wl wl_mapmov s v =
     (if enable_decode_mapmov s
      then wl_mapmov (em_enabled_subcarriers (sa_emulate_mapmov s)) (em_subcarrier_allocation (sa_emulate_mapmov s)) v
      else let (advance, error) = wl v in (advance, error, False))"

definition sa_zero :: "fb_standalone \<Rightarrow> fb_standalone" where
  "sa_zero s = s\<lparr>fbp_jamming := (if fbp_jamming s = - 1 then 1 else fbp_jamming s + 1)\<rparr>"

definition sa_error :: "fb_standalone \<Rightarrow> fb_standalone" where
  "sa_error s = s\<lparr>fbp_error_count := fbp_error_count s + 1\<rparr>"

definition error_event :: "bool \<Rightarrow> fb_standalone \<Rightarrow> fb_event list" where
  "error_event error s = (if error \<and> fbp_error_cb s then [FbError] else [])"

definition waits :: "nat \<Rightarrow> u32 \<Rightarrow> u32 \<Rightarrow> bool" where
  "waits words i advance = (if advance = 1 then unat (i + 15 + advance) > words else unat (i + advance) > words)"

partial_function (option) sa_loop ::
    "(u32 list \<Rightarrow> u32 \<times> bool \<times> bool) \<Rightarrow> u32 list \<Rightarrow> u32 \<Rightarrow> fb_event list \<Rightarrow> fb_standalone \<Rightarrow>
      (u32 \<times> fb_event list \<times> fb_standalone) option" where
  "sa_loop L beyond i evs s =
     (if unat i < length (fb_data s)
      then let v = drop (unat i) (fb_data s); (advance, error, was_ud) = L (v @ beyond);
               s1 = (if error then sa_error s else s); step = (if error then 1 else advance)
           in if fb_data s ! unat i = 0
              then sa_loop L beyond (i + step) (evs @ error_event error s) (sa_zero s1)
              else if waits (length (fb_data s)) i advance then Some (i, evs, s)
              else if error then sa_loop L beyond (i + step) (evs @ error_event error s) (s1\<lparr>fbp_jamming := - 1\<rparr>)
              else Option.bind (dispatchFb v (if was_ud then advance else 0) s)
                     (\<lambda>out. sa_loop L beyond (i + step) (evs @ out) (s1\<lparr>fbp_jamming := - 1\<rparr>))
      else Some (i, evs, s))"

definition sa_parse ::
    "(u32 list \<Rightarrow> u32 \<times> bool \<times> bool) \<Rightarrow> u32 list \<Rightarrow> fb_standalone \<Rightarrow> (fb_event list \<times> fb_standalone) option" where
  "sa_parse L beyond s =
     map_option (\<lambda>(i, evs, s').
         (evs, if unat (fbp_progress s') < length (fb_data s')
               then s'\<lparr>fbp_progress := fbp_progress s' + (i - fbp_progress s')\<rparr> else s'))
       (sa_loop L beyond (fbp_progress s) [] s)"


section \<open>What the parser relies on\<close>







section \<open>One parse\<close>

text \<open>What the callbacks see of one whole frame.\<close>

definition frame_events ::
    "(u32 list \<Rightarrow> u32 \<times> bool \<times> bool) \<Rightarrow> fb_standalone \<Rightarrow> u32 list \<Rightarrow> fb_event list option" where
  "frame_events L s f = dispatchFb f (if snd (snd (L f)) then of_nat (length f) else 0) s"

definition same_object :: "fb_standalone \<Rightarrow> fb_standalone \<Rightarrow> bool" where
  "same_object s s' \<longleftrightarrow> s' = s\<lparr>fbp_jamming := fbp_jamming s', fbp_error_count := fbp_error_count s'\<rparr>"


lemma same_object_refl [simp]: "same_object s s"
  by (simp add: same_object_def)


lemma same_object_steps [simp]:
  "same_object s (sa_zero s)" "same_object s (s\<lparr>fbp_jamming := j\<rparr>)" "same_object s ((sa_error s)\<lparr>fbp_jamming := j\<rparr>)"
  by (simp_all add: same_object_def sa_zero_def sa_error_def)

abbreviation frames_only :: "fb_event list \<Rightarrow> fb_event list" where
  "frames_only \<equiv> filter (\<lambda>e. e \<noteq> FbError)"


lemma error_event_frames_only [simp]: "frames_only (error_event b s) = []"
  by (simp add: error_event_def)




section \<open>Chunks\<close>

text \<open>Words arrive in chunks, with a parse after each; every parse finds its own memory beyond.\<close>

fun sa_feed ::
    "(u32 list \<Rightarrow> u32 \<times> bool \<times> bool) \<Rightarrow> (u32 list \<times> u32 list) list \<Rightarrow> fb_event list \<Rightarrow> fb_standalone \<Rightarrow>
      (fb_event list \<times> fb_standalone) option" where
  "sa_feed L [] evs s = Some (evs, s)"
| "sa_feed L ((beyond, words) # cs) evs s =
     (case sa_parse L beyond (addWords words s) of
        None \<Rightarrow> None
      | Some (out, s') \<Rightarrow> sa_feed L cs (evs @ out) s')"


lemma addWords_eq:
  "addWords words s = s\<lparr>fb_data := fb_data s @ words, fb_history := (if keep_history s then fb_history s @ words else fb_history s)\<rparr>"
  by (induction words arbitrary: s) (simp_all add: addWords_def)

lemma addWords_frame_events [simp]: "frame_events L (addWords words s) = frame_events L s"
  by (rule ext) (simp add: addWords_eq frame_events_def dispatchFb_def Let_def cong: if_cong)






section \<open>The two parsers\<close>


section \<open>The library's function\<close>

text \<open>The third result of the simulator's function.\<close>

definition feedback_word_length_ud :: "u32 list \<Rightarrow> u32 \<times> bool \<times> bool" where
  "feedback_word_length_ud v =
     (let (advance, error) = feedback_word_length v
      in (advance, error, fb_type v = 2 \<and> fb_vtype v = 5 \<and> \<not> error))"





text \<open>
  A chunk that ends inside a header. The parser asks for the length of a frame of which it has two
  words, and with \<open>0xFFFFFFFF\<close> behind them in memory the sum of position and length wraps: it does not
  wait, and hands on a frame outside the vector.
\<close>

lemma cut_header_reads_outside:
  assumes "fb_data s = []" and "fbp_progress s = 0"
  shows "sa_feed feedback_word_length_ud [(0xFFFFFFFF # replicate 16 0, [0, 2])] [] s = None"
proof -
  let ?L = feedback_word_length_ud and ?b = "0xFFFFFFFF # replicate 16 0" and ?t = "addWords [0, 2] s"
  have t: "fb_data ?t = [0, 2]" "fbp_progress ?t = 0" using assms by (simp_all add: addWords_eq)
  have l: "?L (2 # ?b) = (0xFFFFFFFF, False, False)"
    by (simp add: feedback_word_length_ud_def feedback_word_length_def fb_type_def fb_length_def fb_vtype_def)
  have z: "fst (?L (0 # 2 # ?b)) = 1" "\<not> fst (snd (?L (0 # 2 # ?b)))"
    by (simp_all add: feedback_word_length_ud_def feedback_word_length_def fb_type_def)
  have d: "fb_data (sa_zero ?t) = [0, 2]" using t(1) by (simp add: sa_zero_def)
  have "dispatchFb [2] 0 (sa_zero ?t) = None" by (simp add: dispatchFb_def Let_def)
  then have "sa_loop ?L ?b 1 [] (sa_zero ?t) = None"
    by (subst sa_loop.simps) (simp add: d l waits_def)
  then have "sa_loop ?L ?b 0 [] ?t = None"
    using z by (subst sa_loop.simps) (simp add: t split_beta Let_def error_event_def)
  then show ?thesis by (simp add: sa_parse_def t(2))
qed

end
