(* ===== verification/Flush_Higgs.thy ===== *)
theory Flush_Higgs
  imports Complex_Main Feedback_Bus Std_Map Modem_Modes "HOL-Library.Sublist"
begin

text \<open>
  \<open>FlushHiggs\<close> (driver/FlushHiggs.cpp): the thread that hands the words of the transmitter to the
  radio board. It owns two byte buffers, one for user data and one of low priority that carries bus
  messages, decides which of them the wire belongs to, paces the user data by the clock and by the
  fill level the board reports, and cuts what it sends into datagrams.

  \<^item> \<open>normal\<close> and \<open>low\<close> are the two libevent buffers (\<open>for_higgs_bev\<close>, \<open>for_higgs_via_zmq_bev\<close>),
    \<open>wire\<close> the datagrams handed to \<open>sendto\<close> so far, each with the buffer it came from. \<open>put_normal\<close>
    and \<open>put_low\<close> are what other threads have written, write by write; they are there for the
    specification and no operation reads them.
  \<^item> \<open>flush_lib\<close> holds what is not in the repository, the library functions of the bus and of the
    schedule and the memory behind the low buffer, and the three expressions the code computes in
    double precision.
  \<^item> A run of \<open>petSendToHiggs2\<close> gets the reading of the clock. What other threads do between two runs
    is a list of \<open>flush_op\<close>.

  Pauses of a microsecond between datagrams, the settings that only switch prints
  (\<open>updateFlags\<close>) and the unused reading of /proc/net/udp are left out.
\<close>

section \<open>State\<close>

datatype stream = Normal | Low

definition SENDING_IDLE :: int where "SENDING_IDLE = 0"
definition SENDING_NORMAL :: int where "SENDING_NORMAL = 1"
definition SENDING_LOW :: int where "SENDING_LOW = 2"

lemmas sending_simps [simp] = SENDING_IDLE_def SENDING_NORMAL_def SENDING_LOW_def

abbreviation SEND_TO_HIGGS_PACKET_SIZE :: nat where "SEND_TO_HIGGS_PACKET_SIZE \<equiv> 1456"

record flush =
  normal :: "u8 list"
  low :: "u8 list"
  time_prev_sent_pet_higgs :: time_point
  time_8k_start :: time_point
  valid_8k :: bool
  words_8k :: u32
  words_8k_sent :: u32
  early_frame_8k :: u32
  early_frame_8k_applied :: bool
  cs20_early_flag :: bool
  cs20_early_rb :: u32
  packets_after_early_8k :: u32
  fill_when_enter_8k :: u32
  early_target_8k :: u32
  did_pause_8k :: bool
  member_early_frames :: int
  last_fill_taken_at :: time_point
  last_fill_level :: u32
  should_pause_p :: bool
  should_use_new_level :: bool
  allow_zmq_higgs :: bool
  sending_to :: int
  dump_low_pri_buf :: bool
  keep_data_history :: bool
  drain_rate :: rat
  max_packet_burst :: int
  do_force_boost :: bool
  data_history :: "u8 list"
  requestExitSendingLow :: bool
  wire :: "(stream \<times> u8 list) list"
  put_normal :: "u8 list list"
  put_low :: "u8 list list"

record flush_lib =
  word_length :: "u32 list \<Rightarrow> u32 \<times> bool"
  beyond :: "u32 list"
  parse_delta :: "u32 \<Rightarrow> u32"
  drained_in :: "rat \<Rightarrow> int \<Rightarrow> int"
  before_early :: "int \<Rightarrow> u32 \<Rightarrow> int \<Rightarrow> bool"
  drained_since_early :: "rat \<Rightarrow> int \<Rightarrow> u32 \<Rightarrow> int \<Rightarrow> int \<Rightarrow> int"

text \<open>The initial values the constructor sets; fields without one are \<open>later\<close>'s, as the memory had them.\<close>

definition FlushHiggs :: "time_point \<Rightarrow> flush \<Rightarrow> flush" where
  "FlushHiggs now later = later\<lparr>normal := [], low := [], time_prev_sent_pet_higgs := 0, time_8k_start := 0,
     valid_8k := False, words_8k := 0,
     words_8k_sent := 0, early_frame_8k := 0, early_frame_8k_applied := False, cs20_early_flag := False,
     cs20_early_rb := 0, packets_after_early_8k := 0, fill_when_enter_8k := 0, early_target_8k := 3000,
     did_pause_8k := False, member_early_frames := 3000, last_fill_taken_at := now, last_fill_level := 0,
     should_pause_p := False, allow_zmq_higgs := False, sending_to := SENDING_IDLE, dump_low_pri_buf := False,
     keep_data_history := False, drain_rate := 16 / 10, max_packet_burst := 8, do_force_boost := False,
     data_history := [], requestExitSendingLow := False, wire := [], put_normal := [], put_low := []\<rparr>"

section \<open>Operations of other threads\<close>

definition sendToHiggs :: "u8 list \<Rightarrow> flush \<Rightarrow> flush" where
  "sendToHiggs data s = s\<lparr>normal := normal s @ data, put_normal := put_normal s @ [data]\<rparr>"

definition sendToHiggs_words :: "u32 list \<Rightarrow> flush \<Rightarrow> flush" where
  "sendToHiggs_words vec s = sendToHiggs (vec_bytes vec) s"

definition sendToHiggsLowPriority :: "u8 list \<Rightarrow> flush \<Rightarrow> flush" where
  "sendToHiggsLowPriority data s = s\<lparr>low := low s @ data, put_low := put_low s @ [data]\<rparr>"

definition exitSendingLowMode :: "flush \<Rightarrow> flush" where
  "exitSendingLowMode s = s\<lparr>requestExitSendingLow := True\<rparr>"

definition consumeUserdataLatencyEarly :: "u32 \<Rightarrow> flush \<Rightarrow> flush" where
  "consumeUserdataLatencyEarly word s = s\<lparr>cs20_early_flag := True, cs20_early_rb := word\<rparr>"

definition consumeRingbusFill :: "time_point \<Rightarrow> u32 \<Rightarrow> flush \<Rightarrow> flush" where
  "consumeRingbusFill now word s = s\<lparr>last_fill_taken_at := now, last_fill_level := word AND 0x00ffffff\<rparr>"

definition getNormalLen :: "flush \<Rightarrow> nat" where "getNormalLen s = length (normal s)"
definition getLowLen :: "flush \<Rightarrow> nat" where "getLowLen s = length (low s)"

text \<open>The pair is declared with its components the other way round; both fit.\<close>

definition fillAge :: "time_point \<Rightarrow> flush \<Rightarrow> u32 \<times> u64" where
  "fillAge now s =
     (last_fill_level s, ucast (word_of_int (us_between now (last_fill_taken_at s)) :: u32))"

definition getDataHistory :: "flush \<Rightarrow> u8 list" where "getDataHistory s = data_history s"
definition eraseDataHistory :: "flush \<Rightarrow> flush" where "eraseDataHistory s = s\<lparr>data_history := []\<rparr>"
definition dumpLow :: "flush \<Rightarrow> flush" where "dumpLow s = s\<lparr>low := drop (length (low s)) (low s)\<rparr>"
definition dumpNormal :: "flush \<Rightarrow> flush" where "dumpNormal s = s\<lparr>normal := drop (length (normal s)) (normal s)\<rparr>"

datatype flush_op =
    ToNormal "u8 list"
  | ToLow "u8 list"
  | LatencyEarly u32
  | RingbusFill time_point u32
  | ExitLow
  | AllowZmq bool
  | EarlyFrames int
  | KeepHistory bool
  | EraseHistory
  | DumpLow

fun flush_do :: "flush_op \<Rightarrow> flush \<Rightarrow> flush" where
  "flush_do (ToNormal bs) s = sendToHiggs bs s"
| "flush_do (ToLow bs) s = sendToHiggsLowPriority bs s"
| "flush_do (LatencyEarly w) s = consumeUserdataLatencyEarly w s"
| "flush_do (RingbusFill t w) s = consumeRingbusFill t w s"
| "flush_do ExitLow s = exitSendingLowMode s"
| "flush_do (AllowZmq b) s = s\<lparr>allow_zmq_higgs := b\<rparr>"
| "flush_do (EarlyFrames n) s = s\<lparr>member_early_frames := n\<rparr>"
| "flush_do (KeepHistory b) s = s\<lparr>keep_data_history := b\<rparr>"
| "flush_do EraseHistory s = eraseDataHistory s"
| "flush_do DumpLow s = dumpLow s"

section \<open>Whose turn it is\<close>

definition updateSendingFlag :: "flush \<Rightarrow> flush" where
  "updateSendingFlag s =
     (let len_normal = length (normal s);
          len_low = length (low s);
          s1 = (if requestExitSendingLow s
                then s\<lparr>requestExitSendingLow := False,
                       sending_to := (if sending_to s = SENDING_LOW then SENDING_IDLE else sending_to s)\<rparr>
                else s);
          to_low = len_low \<noteq> 0 \<and> allow_zmq_higgs s1
      in s1\<lparr>sending_to :=
           (if sending_to s1 = SENDING_IDLE
            then if len_normal \<noteq> 0 then SENDING_NORMAL else if to_low then SENDING_LOW else SENDING_IDLE
            else if sending_to s1 = SENDING_NORMAL
            then if len_normal = 0 then if to_low then SENDING_LOW else SENDING_IDLE else SENDING_NORMAL
            else if sending_to s1 = SENDING_LOW
            then if len_low = 0 then if len_normal \<noteq> 0 then SENDING_NORMAL else SENDING_IDLE else SENDING_LOW
            else SENDING_IDLE)\<rparr>)"

section \<open>From a buffer to the socket\<close>

definition stream_buf :: "stream \<Rightarrow> flush \<Rightarrow> u8 list" where
  "stream_buf b s = (case b of Normal \<Rightarrow> normal s | Low \<Rightarrow> low s)"

definition evbuffer_drain :: "stream \<Rightarrow> nat \<Rightarrow> flush \<Rightarrow> flush" where
  "evbuffer_drain b n s = (case b of Normal \<Rightarrow> s\<lparr>normal := drop n (normal s)\<rparr> | Low \<Rightarrow> s\<lparr>low := drop n (low s)\<rparr>)"

text \<open>The turns of the loop that are left, the bytes, and how many of them went out. The lengths are cast to \<open>int\<close>.\<close>

primrec burst_loop :: "nat \<Rightarrow> u8 list \<Rightarrow> nat \<Rightarrow> u8 list list \<times> nat" where
  "burst_loop 0 data sent = ([], sent)"
| "burst_loop (Suc k) data sent =
     (let remaining = sint (of_nat (length data) - of_nat sent :: u32);
          one_packet_len = min 1456 remaining
      in if one_packet_len \<le> 0 then ([], sent)
         else let (rest, all) = burst_loop k data (sent + nat one_packet_len)
              in (vslice sent (nat one_packet_len) data # rest, all))"

definition evbufToSocketBurst :: "stream \<Rightarrow> nat \<Rightarrow> flush \<Rightarrow> (nat \<times> flush) option" where
  "evbufToSocketBurst b request_len s =
     (let in_buffer = length (stream_buf b s)
      in if in_buffer > 1024 * 8 * 4 \<and> \<not> valid_8k s then Some (0, s)
         else let in_buffer_floored = (in_buffer div 4) * 4;
                  actual_read = min request_len in_buffer_floored;
                  floor_chunks = actual_read div 1456;
                  (datagrams, sent) = burst_loop (floor_chunks + 1) (take actual_read (stream_buf b s)) 0
              in if actual_read \<noteq> sent then None
                 else Some (actual_read, evbuffer_drain b actual_read
                        (s\<lparr>wire := wire s @ map (Pair b) datagrams,
                           data_history := (if keep_data_history s then data_history s @ concat datagrams else data_history s)\<rparr>)))"

section \<open>Low priority\<close>

definition inspectLowPri :: "flush_lib \<Rightarrow> flush \<Rightarrow> flush option" where
  "inspectLowPri L s =
     (let in_buffer = length (low s);
          (advance, adv_error) = word_length L (bytes_vec (low s) @ beyond L)
      in if \<not> adv_error then map_option snd (evbufToSocketBurst Low in_buffer s)
         else Some (evbuffer_drain Low in_buffer s))"

definition sendZmqHiggsNow :: "flush_lib \<Rightarrow> flush \<Rightarrow> flush option" where
  "sendZmqHiggsNow L s =
     (let s1 = (if dump_low_pri_buf s then evbuffer_drain Low (length (low s)) s else s);
          len_low = length (low s1);
          s2 = updateSendingFlag s1
      in if len_low = 0 then Some s2
         else if sending_to s2 = SENDING_LOW then inspectLowPri L s2 else Some s2)"

section \<open>User data\<close>

text \<open>The drain rate of the board in bytes per microsecond, for each mode.\<close>

definition updateDrainRate :: "modulation_schema \<Rightarrow> subcarrier_allocation \<Rightarrow> flush \<Rightarrow> flush" where
  "updateDrainRate schema allocation s =
     (let rate = (\<lambda>r boost s. s\<lparr>drain_rate := r, max_packet_burst := 8, do_force_boost := boost\<rparr>);
          s1 = (if schema = FEEDBACK_MAPMOV_QPSK then rate (16 / 10) False s else s);
          s2 = (if schema = FEEDBACK_MAPMOV_QAM16 \<and> allocation = MAPMOV_SUBCARRIER_128 then rate (16 / 10 * 2) False s1 else s1);
          s3 = (if schema = FEEDBACK_MAPMOV_QAM16 \<and> allocation = MAPMOV_SUBCARRIER_320 then rate (390625 / 100000) True s2 else s2);
          s4 = (if schema = FEEDBACK_MAPMOV_QPSK \<and> allocation = MAPMOV_SUBCARRIER_320
                then rate (390625 / 100000 / 2 * (9 / 10)) True s3 else s3);
          s5 = (if schema = FEEDBACK_MAPMOV_QPSK \<and> allocation = MAPMOV_SUBCARRIER_640_LIN then rate (390625 / 100000) True s4 else s4)
      in if schema = FEEDBACK_MAPMOV_QAM16 \<and> allocation = MAPMOV_SUBCARRIER_640_LIN then rate (390625 / 100000 * 2) True s5 else s5)"

text \<open>More than the board can hold is waiting: the mode in which the clock alone decides how much may be sent.\<close>

definition pet_8k_mode :: "time_point \<Rightarrow> flush \<Rightarrow> bool \<times> flush" where
  "pet_8k_mode now s =
     (let total_buffer_words = length (normal s) div 4
      in if \<not> valid_8k s
         then if total_buffer_words \<ge> 1024 * 8
              then (True, s\<lparr>early_target_8k := word_of_int (member_early_frames s), valid_8k := True, time_8k_start := now,
                     words_8k := of_nat total_buffer_words, words_8k_sent := 0, did_pause_8k := False,
                     cs20_early_flag := False, early_frame_8k := 0, early_frame_8k_applied := False,
                     packets_after_early_8k := 0, fill_when_enter_8k := last_fill_level s\<rparr>)
              else (False, s)
         else (False, if total_buffer_words = 0 then s\<lparr>valid_8k := False, fill_when_enter_8k := 0\<rparr> else s))"

text \<open>The board's report of how early the data came. \<open>early_frame_8k\<close> is an \<open>int32_t\<close>, kept as its word.\<close>

definition pet_early_report :: "flush_lib \<Rightarrow> flush \<Rightarrow> flush" where
  "pet_early_report L s =
     (if \<not> early_frame_8k_applied s \<and> cs20_early_flag s
      then let rb_delta = parse_delta L (cs20_early_rb s);
               s1 = s\<lparr>early_frame_8k_applied := True\<rparr>
           in if sint rb_delta > 0 then s1\<lparr>early_frame_8k := early_target_8k s1 - rb_delta\<rparr> else s1
      else s)"

definition initial_bump :: "flush \<Rightarrow> u32" where
  "initial_bump s = word_of_int (max (4 * 1024 - sint (fill_when_enter_8k s) * 4) 0)"

text \<open>The bytes that may go out now; \<open>holdover\<close> and \<open>fudge\<close> are read off before the early report.\<close>

definition pet_allowed :: "flush_lib \<Rightarrow> time_point \<Rightarrow> bool \<Rightarrow> int \<Rightarrow> int \<Rightarrow> flush \<Rightarrow> int \<times> flush" where
  "pet_allowed L now just_entered_8k holdover fudge s =
     (let by_rate = drained_in L (drain_rate s) (us_between now (time_prev_sent_pet_higgs s));
          allowed = (if by_rate < 0 then 1024 * 4 else by_rate);
          age_8k = us_between now (time_8k_start s);
          early_frames = early_target_8k s - early_frame_8k s
      in if just_entered_8k then (sint (initial_bump s * 4), s)
         else if valid_8k s
         then if before_early L age_8k early_frames fudge then (0, s)
              else let due = drained_since_early L (drain_rate s) age_8k early_frames fudge
                               (sint ((words_8k_sent s - initial_bump s) * 4));
                       due = (if packets_after_early_8k s = 0 then holdover else due)
                   in (max due 0, s\<lparr>packets_after_early_8k := packets_after_early_8k s + 1\<rparr>)
         else (allowed, s))"

definition pet_pause :: "flush \<Rightarrow> bool \<times> flush" where
  "pet_pause s =
     (let attached_should_pause = (if should_pause_p s \<and> should_use_new_level s then last_fill_level s > 1024 * 5
                                   else last_fill_level s > 1024 * 3);
          s1 = (if last_fill_level s > 1024 * 5 then s\<lparr>should_use_new_level := True\<rparr> else s);
          s2 = (if last_fill_level s1 < 1024 * 3 then s1\<lparr>should_use_new_level := False\<rparr> else s1);
          s3 = s2\<lparr>should_pause_p := attached_should_pause\<rparr>
      in if \<not> valid_8k s3 \<and> attached_should_pause then (True, s3\<lparr>did_pause_8k := True\<rparr>)
         else (False, s3\<lparr>did_pause_8k := False\<rparr>))"

definition petSendToHiggs2 :: "flush_lib \<Rightarrow> time_point \<Rightarrow> flush \<Rightarrow> (u32 \<times> flush) option" where
  "petSendToHiggs2 L now s =
     (let (just_entered_8k, s1) = pet_8k_mode now s;
          holdover = (if early_frame_8k_applied s1 \<and> sint (early_frame_8k s1) > 100 then 0 else 1024 * 2 * 4);
          fudge = (if packets_after_early_8k s1 \<ge> 3 then 30 + 14 else 0);
          s2 = pet_early_report L s1;
          (allowed_to_send, s3) = pet_allowed L now just_entered_8k holdover fudge s2;
          (pause, s4) = pet_pause s3
      in if pause then Some (0, s4)
         else let will_send = min (max_packet_burst s4) ((allowed_to_send - 1) sdiv 1456)
              in if will_send > 0
                 then case evbufToSocketBurst Normal (nat (will_send * 1456)) s4 of
                        None \<Rightarrow> None
                      | Some (did_send, s5) \<Rightarrow>
                          let s6 = (if valid_8k s5 then s5\<lparr>words_8k_sent := words_8k_sent s5 + of_nat (did_send div 4)\<rparr> else s5)
                          in Some (if did_send > 0 then (1, s6\<lparr>time_prev_sent_pet_higgs := now\<rparr>) else (0, s6))
                 else Some (0, s4))"

section \<open>The thread\<close>

text \<open>The runs of the loop that are left; before each run the other threads do what \<open>moments\<close> says.\<close>

primrec pet_runs ::
    "flush_lib \<Rightarrow> nat \<Rightarrow> (nat \<Rightarrow> flush_op list \<times> time_point) \<Rightarrow> u32 \<Rightarrow> flush \<Rightarrow> (u32 \<times> flush) option" where
  "pet_runs L 0 moments val s = Some (val, s)"
| "pet_runs L (Suc k) moments val s =
     (case petSendToHiggs2 L (snd (moments k)) (fold flush_do (fst (moments k)) s) of
        None \<Rightarrow> None
      | Some (val', s') \<Rightarrow> pet_runs L k moments val' s')"

definition petSendToHiggs ::
    "flush_lib \<Rightarrow> (nat \<Rightarrow> flush_op list \<times> time_point) \<Rightarrow> flush \<Rightarrow> (u32 \<times> flush) option" where
  "petSendToHiggs L moments s =
     (let s1 = updateSendingFlag s
      in if sending_to s1 \<noteq> SENDING_NORMAL
         then map_option (Pair 0) (if sending_to s1 = SENDING_LOW \<and> allow_zmq_higgs s1 then sendZmqHiggsNow L s1 else Some s1)
         else pet_runs L (1 + 80000) moments 0 s1)"

definition handle_sendto_higgs_timer ::
    "flush_lib \<Rightarrow> modulation_schema \<Rightarrow> subcarrier_allocation \<Rightarrow> (nat \<Rightarrow> flush_op list \<times> time_point) \<Rightarrow> flush \<Rightarrow> flush option" where
  "handle_sendto_higgs_timer L schema allocation moments s =
     map_option snd (petSendToHiggs L moments (updateDrainRate schema allocation s))"

text \<open>
  Everything that can happen to the object, in any order. What is written at low priority are bus
  messages, which consist of words.
\<close>

fun of_words :: "flush_op \<Rightarrow> bool" where
  "of_words (ToLow bs) = (length bs mod 4 = 0)"
| "of_words _ = True"

inductive flush_step :: "flush_lib \<Rightarrow> flush \<Rightarrow> flush \<Rightarrow> bool" for L where
  other: "of_words c \<Longrightarrow> flush_step L s (flush_do c s)"
| tick: "handle_sendto_higgs_timer L schema allocation moments s = Some s' \<Longrightarrow>
    \<forall>k. list_all of_words (fst (moments k)) \<Longrightarrow> flush_step L s s'"

inductive flush_reachable :: "flush_lib \<Rightarrow> flush \<Rightarrow> bool" for L where
  boot: "flush_reachable L (FlushHiggs now later)"
| step: "flush_reachable L s \<Longrightarrow> flush_step L s s' \<Longrightarrow> flush_reachable L s'"


section \<open>Datagrams\<close>

lemma uint_of_nat_u32: "uint (of_nat n :: u32) = int (n mod 2 ^ 32)"
  by (simp add: unsigned_of_nat take_bit_eq_mod)

lemma remaining_bytes: "sent \<le> n \<Longrightarrow> sint (of_nat n - of_nat sent :: u32) \<le> int (n - sent)"
proof -
  assume "sent \<le> n"
  then have d: "(of_nat n - of_nat sent :: u32) = of_nat (n - sent)" by (simp add: of_nat_diff)
  have "int ((n - sent) mod 2 ^ 32) \<le> int (n - sent)" by (simp only: of_nat_le_iff mod_less_eq_dividend)
  moreover obtain x y where xy: "int ((n - sent) mod 2 ^ 32) = x" "int (n - sent) = y" by blast
  ultimately show ?thesis unfolding d sint_u32 uint_of_nat_u32 xy by simp
qed

lemma remaining_exact: "sent \<le> n \<Longrightarrow> n - sent < 2 ^ 31 \<Longrightarrow> sint (of_nat n - of_nat sent :: u32) = int (n - sent)"
proof -
  assume n: "sent \<le> n" "n - sent < 2 ^ 31"
  then have d: "(of_nat n - of_nat sent :: u32) = of_nat (n - sent)" by (simp add: of_nat_diff)
  have "(n - sent) mod 2 ^ 32 = n - sent" using n by simp
  then show ?thesis unfolding d sint_u32 uint_of_nat_u32 using n(2) by simp
qed

abbreviation next_packet :: "u8 list \<Rightarrow> nat \<Rightarrow> int" where
  "next_packet data sent \<equiv> min 1456 (sint (of_nat (length data) - of_nat sent :: u32))"

lemma burst_stop: "next_packet data sent \<le> 0 \<Longrightarrow> burst_loop (Suc k) data sent = ([], sent)"
  unfolding burst_loop.simps Let_def by (simp only: if_True)

lemma burst_more:
  "\<not> next_packet data sent \<le> 0 \<Longrightarrow> burst_loop (Suc k) data sent =
    (vslice sent (nat (next_packet data sent)) data # fst (burst_loop k data (sent + nat (next_packet data sent))),
     snd (burst_loop k data (sent + nat (next_packet data sent))))"
  unfolding burst_loop.simps Let_def by (simp only: if_False split_beta)

declare burst_loop.simps(2) [simp del]

text \<open>Whatever happens with the casts, what goes out is a piece of the data from \<open>sent\<close> on, cut into datagrams.\<close>

lemma burst_loop_sends:
  assumes "burst_loop k data sent = (ds, all)" "sent \<le> length data"
  shows "sent \<le> all \<and> all \<le> length data \<and> concat ds = vslice sent (all - sent) data \<and>
    (\<forall>d \<in> set ds. d \<noteq> [] \<and> length d \<le> 1456) \<and> length ds \<le> k"
  using assms
proof (induction k arbitrary: sent ds)
  case 0
  then show ?case by (simp add: vslice_def)
next
  case (Suc k)
  let ?n = "next_packet data sent"
  show ?case
  proof (cases "?n \<le> 0")
    case True
    then have "ds = []" "all = sent" using Suc.prems(1) burst_stop by simp_all
    then show ?thesis using Suc.prems(2) by (simp add: vslice_def)
  next
    case False
    obtain n where n: "n = nat ?n" by blast
    have "0 < n" "n \<le> 1456" using False unfolding n by linarith+
    obtain rest where rest: "burst_loop k data (sent + n) = (rest, all)" "ds = vslice sent n data # rest"
      using Suc.prems(1) unfolding burst_more [OF False] n [symmetric] by (metis prod.collapse prod.inject)
    have "?n \<le> int (length data - sent)" using remaining_bytes [OF Suc.prems(2)] by linarith
    then have "n \<le> length data - sent" unfolding n by (simp only: nat_le_iff)
    then have fits: "sent + n \<le> length data" using Suc.prems(2) by linarith
    note ih = Suc.IH [OF rest(1) fits]
    have len: "length (vslice sent n data) = n" using fits by simp
    obtain m where m: "all = sent + n + m" using ih le_Suc_ex by blast
    have "vslice sent (n + m) data = vslice sent n data @ vslice (sent + n) m data"
      unfolding vslice_def take_add drop_drop by (simp only: add.commute)
    then have "concat ds = vslice sent (all - sent) data" using ih rest(2) m by simp
    moreover have "vslice sent n data \<noteq> []" using len \<open>0 < n\<close> by (metis list.size(3) less_irrefl)
    ultimately show ?thesis using ih rest(2) m len \<open>n \<le> 1456\<close> by auto
  qed
qed

text \<open>For anything shorter than two gigabytes the assertion behind the loop holds and the datagrams are full.\<close>

lemma burst_loop_chunks:
  assumes "(length data - sent) div 1456 < k" "sent \<le> length data" "length data < 2 ^ 31"
  shows "burst_loop k data sent = (chunks 1456 (drop sent data), length data)"
  using assms
proof (induction k arbitrary: sent)
  case (Suc k)
  have r: "next_packet data sent = min 1456 (int (length data - sent))"
    using Suc.prems by (subst remaining_exact) auto
  consider "sent = length data" | "sent < length data" "length data \<le> sent + 1456" | "sent + 1456 < length data"
    using Suc.prems(2) by linarith
  then show ?case
  proof cases
    case 1
    then have "next_packet data sent \<le> 0" unfolding r by simp
    from burst_stop [OF this] 1 show ?thesis by simp
  next
    case 2
    have go: "\<not> next_packet data sent \<le> 0" and n: "nat (next_packet data sent) = length data - sent"
      and e: "sent + (length data - sent) = length data"
      unfolding r using 2 by auto
    have "next_packet data (length data) \<le> 0" by simp
    from burst_stop [OF this] have last: "burst_loop k data (length data) = ([], length data)" by (cases k) simp_all
    have "chunks 1456 (drop sent data) = [drop sent data]" using 2 by (intro chunks_short) auto
    then show ?thesis unfolding burst_more [OF go] n e last by (simp add: vslice_def)
  next
    case 3
    have go: "\<not> next_packet data sent \<le> 0" and e: "nat (next_packet data sent) = 1456" unfolding r using 3 by auto
    obtain m where m: "length data = sent + 1456 + m" using 3 by (meson le_Suc_ex less_imp_le)
    then have "(length data - (sent + 1456)) div 1456 < k" using Suc.prems(1) by simp
    then have ih: "burst_loop k data (sent + 1456) = (chunks 1456 (drop (sent + 1456) data), length data)"
      using Suc.prems(3) 3 by (intro Suc.IH) auto
    have "drop sent data = vslice sent 1456 data @ drop (sent + 1456) data"
      unfolding vslice_def by (metis add.commute append_take_drop_id drop_drop)
    then have "chunks 1456 (drop sent data) = vslice sent 1456 data # chunks 1456 (drop (sent + 1456) data)"
      using 3 by (simp add: chunks_append)
    then show ?thesis unfolding burst_more [OF go] e ih by simp
  qed
qed simp

section \<open>What a burst does\<close>

definition blocked :: "stream \<Rightarrow> flush \<Rightarrow> bool" where
  "blocked b s \<longleftrightarrow> length (stream_buf b s) > 1024 * 8 * 4 \<and> \<not> valid_8k s"

definition handed_out :: "stream \<Rightarrow> nat \<Rightarrow> u8 list list \<Rightarrow> flush \<Rightarrow> flush" where
  "handed_out b n ds s = evbuffer_drain b n (s\<lparr>wire := wire s @ map (Pair b) ds,
     data_history := (if keep_data_history s then data_history s @ concat ds else data_history s)\<rparr>)"

lemma burst_cases:
  assumes "evbufToSocketBurst b n s = Some (m, s')"
  obtains (blocked) "blocked b s" "m = 0" "s' = s"
    | (sent) ds where "\<not> blocked b s" "m = min n (length (stream_buf b s) div 4 * 4)" "s' = handed_out b m ds s"
        "concat ds = take m (stream_buf b s)" "\<forall>d \<in> set ds. d \<noteq> [] \<and> length d \<le> 1456" "m < 2 ^ 31 \<Longrightarrow> ds = chunks 1456 (take m (stream_buf b s))"
proof (cases "blocked b s")
  case False
  let ?m = "min n (length (stream_buf b s) div 4 * 4)"
  obtain ds all where l: "burst_loop (?m div 1456 + 1) (take ?m (stream_buf b s)) 0 = (ds, all)" by fastforce
  have "evbufToSocketBurst b n s = (if ?m \<noteq> all then None else Some (?m, handed_out b ?m ds s))"
    using False unfolding evbufToSocketBurst_def blocked_def handed_out_def Let_def l by (simp only: if_False prod.case)
  with assms have m: "?m = all" "m = all" "handed_out b all ds s = s'" by (auto split: if_splits)
  from m(3) have s': "s' = handed_out b m ds s" unfolding m(2) by (rule sym)
  note l' = burst_loop_sends [OF l, unfolded m(1)]
  show ?thesis
  proof (rule sent [OF False _ s'])
    show "m = ?m" unfolding m(1) by (rule m(2))
    show "concat ds = take m (stream_buf b s)" using l' m(2) by (simp add: vslice_def)
    show "ds = chunks 1456 (take m (stream_buf b s))" if "m < 2 ^ 31"
    proof -
      have "length (take ?m (stream_buf b s)) = ?m" by simp
      then have "burst_loop (?m div 1456 + 1) (take ?m (stream_buf b s)) 0 =
          (chunks 1456 (drop 0 (take ?m (stream_buf b s))), length (take ?m (stream_buf b s)))"
        using that m(1,2) by (intro burst_loop_chunks) simp_all
      then show ?thesis using l m(1,2) by simp
    qed
  qed (use l' m(2) in auto)
next
  case True
  then have "evbufToSocketBurst b n s = Some (0, s)"
    unfolding evbufToSocketBurst_def blocked_def Let_def by (rule if_P)
  then show ?thesis using assms True by (intro blocked) simp_all
qed

lemma burst_total:
  assumes "min n (length (stream_buf b s)) < 2 ^ 31"
  shows "\<exists>r. evbufToSocketBurst b n s = Some r"
proof -
  let ?m = "min n (length (stream_buf b s) div 4 * 4)"
  have floored: "length (stream_buf b s) div 4 * 4 \<le> length (stream_buf b s)" by simp
  then have m: "?m \<le> length (stream_buf b s)" "?m < 2 ^ 31" using assms by linarith+
  then have "length (take ?m (stream_buf b s)) = ?m" by simp
  with m(2) have "snd (burst_loop (?m div 1456 + 1) (take ?m (stream_buf b s)) 0) = ?m"
    using burst_loop_chunks [of "take ?m (stream_buf b s)" 0 "?m div 1456 + 1"] by simp
  then show ?thesis by (simp add: evbufToSocketBurst_def Let_def split_beta)
qed


section \<open>What a run does\<close>

text \<open>What only bursts, writers and \<open>updateSendingFlag\<close> touch, and the numbers of the 8k mode.\<close>

definition kept :: "flush \<Rightarrow> u8 list \<times> u8 list \<times> (stream \<times> u8 list) list \<times> u8 list list \<times> u8 list list \<times> int \<times> int \<times> u32" where
  "kept s = (normal s, low s, wire s, put_normal s, put_low s, sending_to s, max_packet_burst s, last_fill_level s)"

definition early_numbers :: "flush \<Rightarrow> bool \<times> u32 \<times> u32" where
  "early_numbers s = (valid_8k s, early_frame_8k s, early_target_8k s)"

text \<open>The target has the reported delay above it, once there is one: the subtraction in the rate does not wrap.\<close>

definition early_ok :: "flush \<Rightarrow> bool" where
  "early_ok s \<longleftrightarrow> early_frame_8k s = 0 \<or> sint (early_target_8k s - early_frame_8k s) > 0"

lemma pet_8k_frame:
  "pet_8k_mode now s = (j, s') \<Longrightarrow> kept s' = kept s"
  "pet_8k_mode now s = (j, s') \<Longrightarrow> early_ok s \<Longrightarrow> early_ok s'"
  by (auto simp: pet_8k_mode_def kept_def early_ok_def Let_def split: if_splits)

lemma pet_early_report_frame:
  "kept (pet_early_report L s) = kept s" "valid_8k (pet_early_report L s) = valid_8k s"
  "early_ok s \<Longrightarrow> early_ok (pet_early_report L s)"
  by (auto simp: pet_early_report_def kept_def early_ok_def Let_def)

lemma pet_allowed_frame:
  "pet_allowed L now j h f s = (a, s') \<Longrightarrow> kept s' = kept s \<and> early_numbers s' = early_numbers s"
  by (auto simp: pet_allowed_def kept_def early_numbers_def Let_def split: if_splits)

lemma pet_pause_frame:
  assumes "pet_pause s = (p, s')"
  shows "kept s' = kept s \<and> early_numbers s' = early_numbers s"
    "\<not> p \<Longrightarrow> valid_8k s \<or> last_fill_level s \<le> 1024 * 5"
  using assms
  by (auto simp: pet_pause_def kept_def early_numbers_def Let_def word_less_nat_alt word_le_nat_alt split: if_splits)

lemma early_ok_numbers: "early_numbers s' = early_numbers s \<Longrightarrow> early_ok s' = early_ok s"
  by (simp add: early_numbers_def early_ok_def)

text \<open>A run moves some bytes from the front of the user data to the wire, and nothing else.\<close>

definition user_data_sent :: "flush \<Rightarrow> flush \<Rightarrow> u8 list list \<Rightarrow> bool" where
  "user_data_sent s s' ds \<longleftrightarrow> normal s = concat ds @ normal s' \<and>
     kept s' = kept (s\<lparr>normal := normal s', wire := wire s @ map (Pair Normal) ds\<rparr>) \<and>
     (\<forall>d \<in> set ds. d \<noteq> [] \<and> length d \<le> 1456)"

lemma user_data_burst:
  assumes "evbufToSocketBurst Normal (k * 1456) s = Some (m, s')" "k \<le> 8"
  obtains ds where "user_data_sent s s' ds" "m = length (concat ds)" "length ds \<le> k" "early_numbers s' = early_numbers s"
  using assms(1)
proof (cases rule: burst_cases)
  case blocked
  then show ?thesis by (intro that [of "[]"]) (simp_all add: user_data_sent_def kept_def)
next
  case (sent ds)
  have m: "length (take m (stream_buf Normal s)) = m" "m \<le> k * 1456" using sent(2) by simp_all
  have "m < 2 ^ 31" using m(2) assms(2) by simp
  then have "length ds = m div 1456 + (if m mod 1456 = 0 then 0 else 1)"
    using sent(6) m(1) length_chunks [of 1456 "take m (stream_buf Normal s)"] by simp
  moreover have "1456 * (m div 1456) + m mod 1456 = m" by simp
  ultimately have "length ds \<le> k" using m(2) by (simp split: if_splits; linarith)
  moreover have "length (concat ds) = m" unfolding sent(4) by (rule m(1))
  moreover have "normal s = concat ds @ normal s'" using sent(4) by (simp add: sent(3) handed_out_def evbuffer_drain_def stream_buf_def)
  ultimately show ?thesis using sent(3,5)
    by (intro that [of ds]) (simp_all add: user_data_sent_def kept_def early_numbers_def handed_out_def evbuffer_drain_def)
qed

lemma nat_packets: "w \<le> 8 \<Longrightarrow> 0 < w \<Longrightarrow> nat (w * 1456) = nat w * 1456 \<and> nat w \<le> 8" for w :: int
  by (simp add: nat_mult_distrib)

lemma nothing_sent: "kept s' = kept s \<Longrightarrow> user_data_sent s s' []"
  by (auto simp: user_data_sent_def kept_def)

lemma pet2_effect:
  assumes "petSendToHiggs2 L now s = Some (r, s')" "max_packet_burst s \<le> 8"
  obtains ds where "user_data_sent s s' ds" "length ds \<le> 8" "r = (if ds = [] then 0 else 1)"
    "ds \<noteq> [] \<Longrightarrow> valid_8k s' \<or> last_fill_level s \<le> 1024 * 5" "early_ok s \<Longrightarrow> early_ok s'"
proof -
  obtain j s1 where s1: "pet_8k_mode now s = (j, s1)" by fastforce
  define holdover where "holdover = (if early_frame_8k_applied s1 \<and> sint (early_frame_8k s1) > 100 then 0 else 1024 * 2 * 4 :: int)"
  define fudge where "fudge = (if packets_after_early_8k s1 \<ge> 3 then 30 + 14 else 0 :: int)"
  obtain a s3 where s3: "pet_allowed L now j holdover fudge (pet_early_report L s1) = (a, s3)" by fastforce
  obtain p s4 where s4: "pet_pause s3 = (p, s4)" by fastforce
  define w where "w = min (max_packet_burst s4) ((a - 1) sdiv 1456)"
  note frames = pet_8k_frame [OF s1] pet_early_report_frame [where L = L and s = s1] pet_allowed_frame [OF s3] pet_pause_frame [OF s4]
  have kept: "kept s4 = kept s" using frames by simp
  have ok: "early_ok s4" if "early_ok s" using that frames early_ok_numbers [of s4 s3] early_ok_numbers [of s3] by simp
  have full: "petSendToHiggs2 L now s =
     (if p then Some (0, s4)
      else if w > 0
      then case evbufToSocketBurst Normal (nat (w * 1456)) s4 of
             None \<Rightarrow> None
           | Some (did_send, s5) \<Rightarrow>
               let s6 = (if valid_8k s5 then s5\<lparr>words_8k_sent := words_8k_sent s5 + of_nat (did_send div 4)\<rparr> else s5)
               in Some (if did_send > 0 then (1, s6\<lparr>time_prev_sent_pet_higgs := now\<rparr>) else (0, s6))
      else Some (0, s4))"
    unfolding petSendToHiggs2_def s1 Let_def prod.case holdover_def [symmetric] fudge_def [symmetric] s3 s4 w_def ..
  show ?thesis
  proof (cases "\<not> p \<and> w > 0")
    case False
    then have "r = 0" "s' = s4" using assms(1) unfolding full by (auto split: if_splits)
    then show ?thesis using nothing_sent [OF kept] ok by (intro that [of "[]"]) simp_all
  next
    case True
    have "max_packet_burst s4 = max_packet_burst s" using kept by (simp add: kept_def)
    then have "w \<le> 8" using assms(2) unfolding w_def by linarith
    note n = nat_packets [OF this True [THEN conjunct2]]
    obtain m s5 where s5: "evbufToSocketBurst Normal (nat w * 1456) s4 = Some (m, s5)"
      using assms(1) True n unfolding full by (auto split: option.splits)
    then have res: "r = (if m > 0 then 1 else 0)" "kept s' = kept s5" "early_numbers s' = early_numbers s5"
      using assms(1) True n unfolding full by (auto simp: Let_def kept_def early_numbers_def split: if_splits)
    from user_data_burst [OF s5 n [THEN conjunct2]] obtain ds where
      ds: "user_data_sent s4 s5 ds" "m = length (concat ds)" "length ds \<le> nat w" "early_numbers s5 = early_numbers s4" by blast
    have "user_data_sent s s' ds" using ds(1) res(2) kept by (auto simp: user_data_sent_def kept_def)
    moreover have "r = (if ds = [] then 0 else 1)"
      using res(1) ds(1,2) by (cases ds) (auto simp: user_data_sent_def)
    moreover have "valid_8k s' \<or> last_fill_level s \<le> 1024 * 5"
    proof -
      have "valid_8k s' = valid_8k s3" using res(3) ds(4) frames(7) by (simp add: early_numbers_def)
      moreover have "last_fill_level s3 = last_fill_level s" using frames(1,3,6) by (simp add: kept_def)
      ultimately show ?thesis using frames(8) True by simp
    qed
    moreover have "early_ok s'" if "early_ok s"
      using ok [OF that] res(3) ds(4) early_ok_numbers [of s' s4] by simp
    moreover have "length ds \<le> 8" using ds(3) n by linarith
    ultimately show ?thesis by (intro that [of ds])
  qed
qed

lemma pet2_total: "max_packet_burst s \<le> 8 \<Longrightarrow> \<exists>r s'. petSendToHiggs2 L now s = Some (r, s')"
proof -
  assume b: "max_packet_burst s \<le> 8"
  obtain j s1 where s1: "pet_8k_mode now s = (j, s1)" by fastforce
  define holdover where "holdover = (if early_frame_8k_applied s1 \<and> sint (early_frame_8k s1) > 100 then 0 else 1024 * 2 * 4 :: int)"
  define fudge where "fudge = (if packets_after_early_8k s1 \<ge> 3 then 30 + 14 else 0 :: int)"
  obtain a s3 where s3: "pet_allowed L now j holdover fudge (pet_early_report L s1) = (a, s3)" by fastforce
  obtain p s4 where s4: "pet_pause s3 = (p, s4)" by fastforce
  define w where "w = min (max_packet_burst s4) ((a - 1) sdiv 1456)"
  have "kept s4 = kept s" using pet_8k_frame(1) [OF s1] pet_early_report_frame(1) [where L = L and s = s1]
      pet_allowed_frame [OF s3] pet_pause_frame(1) [OF s4] by simp
  then have "w \<le> 8" using b by (simp add: kept_def w_def)
  then have "nat (w * 1456) < 2 ^ 31" by simp
  then have "min (nat (w * 1456)) (length (stream_buf Normal s4)) < 2 ^ 31" by (simp add: min_less_iff_disj)
  from burst_total [OF this] obtain m s5 where "evbufToSocketBurst Normal (nat (w * 1456)) s4 = Some (m, s5)" by fastforce
  then show ?thesis
    unfolding petSendToHiggs2_def s1 Let_def prod.case holdover_def [symmetric] fudge_def [symmetric] s3 s4 w_def [symmetric]
    by simp
qed

section \<open>Two streams on one wire\<close>

definition sent_on :: "stream \<Rightarrow> (stream \<times> u8 list) list \<Rightarrow> u8 list" where
  "sent_on b w = concat (map snd (filter (\<lambda>d. fst d = b) w))"

text \<open>\<open>bs\<close> is made of whole writes: of the first ones for user data, of any in their order at low priority.\<close>

definition whole_writes :: "stream \<Rightarrow> flush \<Rightarrow> u8 list \<Rightarrow> bool" where
  "whole_writes b s bs = (case b of Normal \<Rightarrow> \<exists>k. bs = concat (take k (put_normal s))
                                  | Low \<Rightarrow> \<exists>ws. subseq ws (put_low s) \<and> bs = concat ws)"

text \<open>Wherever the wire changes from one stream to the other, the first one has stopped between two writes.\<close>

definition uncut :: "(stream \<Rightarrow> u8 list \<Rightarrow> bool) \<Rightarrow> (stream \<times> u8 list) list \<Rightarrow> bool" where
  "uncut P w \<longleftrightarrow> (\<forall>a x y b. w = a @ x # y # b \<longrightarrow> fst x \<noteq> fst y \<longrightarrow> P (fst x) (sent_on (fst x) (a @ [x])))"

definition low_ok :: "flush \<Rightarrow> bool" where
  "low_ok s \<longleftrightarrow> (\<forall>p \<in> set (put_low s). length p mod 4 = 0) \<and>
     (\<exists>k ws. low s = concat (drop k (put_low s)) \<and> subseq ws (take k (put_low s)) \<and> sent_on Low (wire s) = concat ws)"

definition flush_ok :: "flush \<Rightarrow> bool" where
  "flush_ok s \<longleftrightarrow> sent_on Normal (wire s) @ normal s = concat (put_normal s) \<and> low_ok s \<and>
     (sending_to s = SENDING_NORMAL \<or> whole_writes Normal s (sent_on Normal (wire s))) \<and> uncut (\<lambda>b. whole_writes b s) (wire s)"

lemma sent_on_append [simp]: "sent_on b (v @ w) = sent_on b v @ sent_on b w"
  by (simp add: sent_on_def)

lemma sent_on_burst [simp]: "sent_on b (map (Pair c) ds) = (if b = c then concat ds else [])"
  by (induction ds) (auto simp: sent_on_def)

lemma sent_on_Nil [simp]: "sent_on b [] = []"
  by (simp add: sent_on_def)

lemma uncut_mono: "uncut P w \<Longrightarrow> (\<And>b bs. P b bs \<Longrightarrow> Q b bs) \<Longrightarrow> uncut Q w"
  unfolding uncut_def by blast

lemma uncut_snoc:
  assumes "uncut P w" "\<forall>b. b \<noteq> fst z \<longrightarrow> P b (sent_on b w)"
  shows "uncut P (w @ [z])"
  unfolding uncut_def
proof (intro allI impI)
  fix a x y b
  assume w: "w @ [z] = a @ x # y # b" and differ: "fst x \<noteq> fst y"
  show "P (fst x) (sent_on (fst x) (a @ [x]))"
  proof (cases b rule: rev_cases)
    case Nil
    then have "w = a @ [x]" "z = y" using w by (simp_all add: append_eq_append_conv2 flip: append_Cons append_assoc)
    then show ?thesis using assms(2) differ by blast
  next
    case (snoc b' z')
    then have "w = a @ x # y # b'" using w by (metis append_Cons append_assoc butlast_snoc)
    then show ?thesis using assms(1) differ unfolding uncut_def by blast
  qed
qed

lemma uncut_burst:
  assumes "uncut P w" "\<forall>b. b \<noteq> c \<longrightarrow> P b (sent_on b w)"
  shows "uncut P (w @ map (Pair c) ds)"
proof (induction ds rule: rev_induct)
  case (snoc d ds)
  have "uncut P ((w @ map (Pair c) ds) @ [(c, d)])" using snoc assms(2) by (intro uncut_snoc) auto
  then show ?case by simp
qed (simp add: assms)

lemma low_whole: "low_ok s \<Longrightarrow> whole_writes Low s (sent_on Low (wire s))"
  unfolding low_ok_def whole_writes_def stream.case
  by (metis append_take_drop_id list_emb_append2 subseq_order.order_trans sublist_imp_subseq sublist_take)

lemma whole_Normal_all: "sent_on Normal (wire s) @ normal s = concat (put_normal s) \<Longrightarrow> normal s = [] \<Longrightarrow>
    whole_writes Normal s (sent_on Normal (wire s))"
  unfolding whole_writes_def stream.case by (rule exI [of _ "length (put_normal s)"]) simp

text \<open>More writes and other fields do no harm.\<close>

lemma whole_more:
  "whole_writes b s bs \<Longrightarrow> put_normal s' = put_normal s @ ps \<Longrightarrow> put_low s' = put_low s @ qs \<Longrightarrow> whole_writes b s' bs"
proof (cases b)
  case Normal
  assume w: "whole_writes b s bs" and put: "put_normal s' = put_normal s @ ps"
  then obtain k where "bs = concat (take k (put_normal s))" using Normal by (auto simp: whole_writes_def)
  then have "bs = concat (take (min k (length (put_normal s))) (put_normal s'))" using put by (auto simp: min_def)
  then show ?thesis unfolding whole_writes_def Normal stream.case by blast
qed (auto simp: whole_writes_def intro: list_emb_append2 subseq_order.order_trans [OF _ list_emb_prefix]
      dest: subseq_order.order_trans)

lemma flush_ok_same:
  assumes "normal s' = normal s" "low s' = low s" "wire s' = wire s" "put_normal s' = put_normal s" "put_low s' = put_low s"
    "sending_to s' = sending_to s"
  shows "flush_ok s' = flush_ok s"
proof -
  have "whole_writes b s' = whole_writes b s" for b using assms(4,5) by (simp add: fun_eq_iff whole_writes_def split: stream.splits)
  then show ?thesis using assms by (simp add: flush_ok_def low_ok_def)
qed

lemma flush_ok_kept: "kept s' = kept s \<Longrightarrow> flush_ok s' = flush_ok s"
  by (rule flush_ok_same) (simp_all add: kept_def)

lemma uncut_more:
  "uncut (\<lambda>b. whole_writes b s) w \<Longrightarrow> put_normal s' = put_normal s @ ps \<Longrightarrow> put_low s' = put_low s @ qs \<Longrightarrow>
    uncut (\<lambda>b. whole_writes b s') w"
  by (erule uncut_mono) (rule whole_more)

lemma low_put:
  assumes "low_ok s" "length bs mod 4 = 0"
  shows "low_ok (s\<lparr>low := low s @ bs, put_low := put_low s @ [bs]\<rparr>)"
proof -
  obtain k ws where k: "low s = concat (drop k (put_low s))" "subseq ws (take k (put_low s))" "sent_on Low (wire s) = concat ws"
    using assms(1) by (auto simp: low_ok_def)
  let ?k = "min k (length (put_low s))"
  have "low s @ bs = concat (drop ?k (put_low s @ [bs]))" "take ?k (put_low s @ [bs]) = take k (put_low s)"
    using k(1) by (auto simp: min_def)
  then show ?thesis using assms k(2,3) by (fastforce simp: low_ok_def)
qed

lemma low_dump:
  assumes "low_ok s"
  shows "low_ok (s\<lparr>low := []\<rparr>)"
proof -
  obtain k ws where k: "subseq ws (take k (put_low s))" "sent_on Low (wire s) = concat ws" using assms by (auto simp: low_ok_def)
  have "subseq (take k (put_low s)) (put_low s)" by (simp add: sublist_imp_subseq sublist_take)
  with k(1) have "subseq ws (put_low s)" using subseq_order.order_trans by blast
  then have "\<exists>k' ws'. [] = concat (drop k' (put_low s)) \<and> subseq ws' (take k' (put_low s)) \<and> concat ws = concat ws'"
    by (intro exI [of _ "length (put_low s)"] exI [of _ ws]) simp
  then show ?thesis using assms k(2) by (simp add: low_ok_def)
qed

lemma flush_ok_put:
  assumes "flush_ok s" "low_ok s'" "normal s' = normal s @ concat ps" "wire s' = wire s" "sending_to s' = sending_to s"
    "put_normal s' = put_normal s @ ps" "put_low s' = put_low s @ qs"
  shows "flush_ok s'"
  unfolding flush_ok_def
proof (intro conjI)
  have ok: "sent_on Normal (wire s) @ normal s = concat (put_normal s)"
    "sending_to s = SENDING_NORMAL \<or> whole_writes Normal s (sent_on Normal (wire s))" "uncut (\<lambda>b. whole_writes b s) (wire s)"
    using assms(1) unfolding flush_ok_def by blast+
  show "sent_on Normal (wire s') @ normal s' = concat (put_normal s')"
    unfolding assms(3,4,6) concat_append ok(1) [symmetric] by (rule append_assoc [symmetric])
  show "low_ok s'" by (rule assms(2))
  show "sending_to s' = SENDING_NORMAL \<or> whole_writes Normal s' (sent_on Normal (wire s'))"
    unfolding assms(4,5) using ok(2) whole_more [OF _ assms(6,7)] by blast
  show "uncut (\<lambda>b. whole_writes b s') (wire s')"
    unfolding assms(4) using ok(3) assms(6,7) by (rule uncut_more)
qed

lemma flush_do_same:
  "(\<forall>bs. c \<noteq> ToNormal bs \<and> c \<noteq> ToLow bs) \<Longrightarrow> c \<noteq> DumpLow \<Longrightarrow> flush_ok (flush_do c s) = flush_ok s"
  by (rule flush_ok_same; cases c) (simp_all add: exitSendingLowMode_def consumeUserdataLatencyEarly_def
      consumeRingbusFill_def eraseDataHistory_def)

lemma flush_ok_do:
  assumes "flush_ok s" "of_words c"
  shows "flush_ok (flush_do c s)"
proof -
  have ok: "low_ok s" using assms(1) unfolding flush_ok_def by blast
  consider bs where "c = ToNormal bs" | bs where "c = ToLow bs" | "c = DumpLow"
    | "\<forall>bs. c \<noteq> ToNormal bs \<and> c \<noteq> ToLow bs" "c \<noteq> DumpLow" by blast
  then show ?thesis
  proof cases
    case (1 bs)
    have "low_ok (sendToHiggs bs s)" using ok by (simp add: low_ok_def sendToHiggs_def)
    then show ?thesis unfolding 1 flush_do.simps
      by (rule flush_ok_put [OF assms(1), of _ "[bs]" "[]"]) (simp_all add: sendToHiggs_def)
  next
    case (2 bs)
    have "low_ok (sendToHiggsLowPriority bs s)" using low_put [OF ok] assms(2) 2 by (simp add: sendToHiggsLowPriority_def)
    then show ?thesis unfolding 2 flush_do.simps
      by (rule flush_ok_put [OF assms(1), of _ "[]" "[bs]"]) (simp_all add: sendToHiggsLowPriority_def)
  next
    case 3
    have "low_ok (dumpLow s)" using low_dump [OF ok] by (simp add: dumpLow_def)
    then show ?thesis unfolding 3 flush_do.simps
      by (rule flush_ok_put [OF assms(1), of _ "[]" "[]"]) (simp_all add: dumpLow_def)
  qed (use assms(1) flush_do_same in blast)
qed

lemma flush_ok_update:
  assumes "flush_ok s"
  shows "flush_ok (updateSendingFlag s)"
proof -
  let ?s = "updateSendingFlag s"
  have same: "normal ?s = normal s" "low ?s = low s" "wire ?s = wire s" "put_normal ?s = put_normal s" "put_low ?s = put_low s"
    by (simp_all add: updateSendingFlag_def Let_def)
  have w: "whole_writes b ?s = whole_writes b s" for b using same by (simp add: fun_eq_iff whole_writes_def split: stream.splits)
  have leaves: "sending_to ?s = SENDING_NORMAL" if "sending_to s = SENDING_NORMAL" "normal s \<noteq> []"
    using that by (simp add: updateSendingFlag_def Let_def)
  have "sending_to ?s = SENDING_NORMAL \<or> whole_writes Normal s (sent_on Normal (wire s))"
    using assms leaves whole_Normal_all unfolding flush_ok_def by blast
  moreover have "low_ok ?s" using assms same by (simp add: flush_ok_def low_ok_def)
  ultimately show ?thesis using assms unfolding flush_ok_def same w by blast
qed

lemma flush_ok_user:
  assumes "flush_ok s" "user_data_sent s s' ds" "sending_to s = SENDING_NORMAL"
  shows "flush_ok s'"
proof -
  have s': "normal s = concat ds @ normal s'" "wire s' = wire s @ map (Pair Normal) ds" "low s' = low s"
    "put_normal s' = put_normal s" "put_low s' = put_low s" "sending_to s' = SENDING_NORMAL"
    using assms(2,3) by (simp_all add: user_data_sent_def kept_def)
  have ok: "sent_on Normal (wire s) @ normal s = concat (put_normal s)" "low_ok s" "uncut (\<lambda>b. whole_writes b s) (wire s)"
    using assms(1) unfolding flush_ok_def by blast+
  have w: "whole_writes b s' = whole_writes b s" for b using s' by (simp add: fun_eq_iff whole_writes_def split: stream.splits)
  have "uncut (\<lambda>b. whole_writes b s) (wire s')" unfolding s'(2)
  proof (rule uncut_burst [OF ok(3)], intro allI impI)
    fix b :: stream
    assume "b \<noteq> Normal"
    then show "whole_writes b s (sent_on b (wire s))" using low_whole [OF ok(2)] by (cases b) simp_all
  qed
  moreover have "low_ok s'" using ok(2) s' by (simp add: low_ok_def)
  ultimately show ?thesis unfolding flush_ok_def w using ok(1) s' by simp
qed

lemma whole_words: "\<forall>p \<in> set ps. length p mod 4 = 0 \<Longrightarrow> length (concat ps) div 4 * 4 = length (concat ps)"
  by (induction ps) auto

lemma flush_ok_low_burst:
  assumes "flush_ok s" "evbufToSocketBurst Low (length (low s)) s = Some (m, s')" "sending_to s \<noteq> SENDING_NORMAL"
  shows "flush_ok s'"
  using assms(2)
proof (cases rule: burst_cases)
  case blocked
  then show ?thesis using assms(1) by simp
next
  case (sent ds)
  have ok: "sent_on Normal (wire s) @ normal s = concat (put_normal s)" "low_ok s" "uncut (\<lambda>b. whole_writes b s) (wire s)"
    "whole_writes Normal s (sent_on Normal (wire s))" using assms(1,3) unfolding flush_ok_def by blast+
  obtain k ws where k: "low s = concat (drop k (put_low s))" "subseq ws (take k (put_low s))" "sent_on Low (wire s) = concat ws"
    and words: "\<forall>p \<in> set (put_low s). length p mod 4 = 0" using ok(2) by (auto simp: low_ok_def)
  have "\<forall>p \<in> set (drop k (put_low s)). length p mod 4 = 0" using words by (meson in_set_dropD)
  from whole_words [OF this] have m: "m = length (low s)" using sent(2) k(1) by (simp add: stream_buf_def)
  then have s': "wire s' = wire s @ map (Pair Low) ds" "low s' = []" "concat ds = low s" "normal s' = normal s"
    "put_normal s' = put_normal s" "put_low s' = put_low s" "sending_to s' = sending_to s"
    using sent(3,4) by (simp_all add: handed_out_def evbuffer_drain_def stream_buf_def)
  have w: "whole_writes b s' = whole_writes b s" for b using s' by (simp add: fun_eq_iff whole_writes_def split: stream.splits)
  have "subseq (ws @ drop k (put_low s)) (take k (put_low s) @ drop k (put_low s))"
    using k(2) by (rule list_emb_append_mono) simp
  then have "subseq (ws @ drop k (put_low s)) (take (length (put_low s)) (put_low s))" by simp
  moreover have "sent_on Low (wire s') = concat (ws @ drop k (put_low s))" using s' k(1,3) by simp
  moreover have "low s' = concat (drop (length (put_low s)) (put_low s))" using s'(2) by simp
  ultimately have "low_ok s'" using words unfolding low_ok_def s'(6) by blast
  moreover have "uncut (\<lambda>b. whole_writes b s) (wire s')" unfolding s'(1)
  proof (rule uncut_burst [OF ok(3)], intro allI impI)
    fix b :: stream
    assume "b \<noteq> Low"
    then show "whole_writes b s (sent_on b (wire s))" using ok(4) by (cases b) simp_all
  qed
  ultimately show ?thesis unfolding flush_ok_def w using ok(1,4) s' by simp
qed

lemma flush_ok_dump: "flush_ok s \<Longrightarrow> flush_ok (evbuffer_drain Low (length (low s)) s)"
  using flush_ok_do [of s DumpLow] by (simp add: evbuffer_drain_def dumpLow_def)

lemma flush_ok_inspect:
  assumes "flush_ok s" "inspectLowPri L s = Some s'" "sending_to s \<noteq> SENDING_NORMAL"
  shows "flush_ok s'"
proof (cases "snd (word_length L (bytes_vec (low s) @ beyond L))")
  case True
  then have "s' = evbuffer_drain Low (length (low s)) s" using assms(2) by (simp add: inspectLowPri_def split_beta)
  then show ?thesis using flush_ok_dump [OF assms(1)] by simp
next
  case False
  then obtain m where "evbufToSocketBurst Low (length (low s)) s = Some (m, s')"
    using assms(2) by (auto simp: inspectLowPri_def split_beta)
  then show ?thesis using flush_ok_low_burst assms(1,3) by blast
qed

lemma flush_ok_zmq:
  assumes "flush_ok s" "sendZmqHiggsNow L s = Some s'"
  shows "flush_ok s'"
proof -
  define s1 where "s1 = (if dump_low_pri_buf s then evbuffer_drain Low (length (low s)) s else s)"
  have ok: "flush_ok (updateSendingFlag s1)" using flush_ok_update flush_ok_dump assms(1) by (simp add: s1_def)
  have "sendZmqHiggsNow L s =
    (if length (low s1) = 0 then Some (updateSendingFlag s1)
     else if sending_to (updateSendingFlag s1) = SENDING_LOW then inspectLowPri L (updateSendingFlag s1) else Some (updateSendingFlag s1))"
    unfolding sendZmqHiggsNow_def Let_def s1_def ..
  then show ?thesis using assms(2) ok flush_ok_inspect [OF ok] by (auto split: if_splits)
qed

lemma sending_to_do: "sending_to (flush_do c s) = sending_to s"
  by (cases c) (simp_all add: sendToHiggs_def sendToHiggsLowPriority_def exitSendingLowMode_def
      consumeUserdataLatencyEarly_def consumeRingbusFill_def eraseDataHistory_def dumpLow_def)

lemma burst_limit_do: "max_packet_burst (flush_do c s) = max_packet_burst s"
  by (cases c) (simp_all add: sendToHiggs_def sendToHiggsLowPriority_def exitSendingLowMode_def
      consumeUserdataLatencyEarly_def consumeRingbusFill_def eraseDataHistory_def dumpLow_def)

lemma fold_do:
  assumes "list_all of_words cs"
  shows "flush_ok s \<Longrightarrow> flush_ok (fold flush_do cs s)"
    and "sending_to (fold flush_do cs s) = sending_to s" and "max_packet_burst (fold flush_do cs s) = max_packet_burst s"
  using assms by (induction cs arbitrary: s) (simp_all add: flush_ok_do sending_to_do burst_limit_do)

section \<open>Types\<close>

definition flush_typed :: "flush \<Rightarrow> bool" where
  "flush_typed s \<longleftrightarrow> sending_to s \<in> {SENDING_IDLE, SENDING_NORMAL, SENDING_LOW} \<and> max_packet_burst s = 8 \<and>
     unat (last_fill_level s) < 2 ^ 24 \<and> early_ok s"

lemma masked_fill: "unat (w AND 0x00ffffff) < 2 ^ 24" for w :: u32
proof -
  have "(0x00ffffff :: u32) = mask 24" by (simp add: mask_eq_exp_minus_1)
  then show ?thesis unfolding \<open>(0x00ffffff :: u32) = mask 24\<close> unat_and_mask by simp
qed

lemma typed_do: "flush_typed s \<Longrightarrow> flush_typed (flush_do c s)"
  using masked_fill
  by (cases c) (simp_all add: flush_typed_def early_ok_def sendToHiggs_def sendToHiggsLowPriority_def exitSendingLowMode_def
      consumeUserdataLatencyEarly_def consumeRingbusFill_def eraseDataHistory_def dumpLow_def)

lemma typed_same:
  "flush_typed s \<Longrightarrow> sending_to s' = sending_to s \<Longrightarrow> max_packet_burst s' = max_packet_burst s \<Longrightarrow>
    last_fill_level s' = last_fill_level s \<Longrightarrow> early_numbers s' = early_numbers s \<Longrightarrow> flush_typed s'"
  using early_ok_numbers [of s' s] by (simp add: flush_typed_def)

lemma if_in: "a \<in> A \<Longrightarrow> b \<in> A \<Longrightarrow> (if c then a else b) \<in> A"
  by simp

lemma update_shape:
  obtains x where "x \<in> {SENDING_IDLE, SENDING_NORMAL, SENDING_LOW}" and "updateSendingFlag s =
    (if requestExitSendingLow s
     then s\<lparr>requestExitSendingLow := False, sending_to := (if sending_to s = SENDING_LOW then SENDING_IDLE else sending_to s)\<rparr>
     else s)\<lparr>sending_to := x\<rparr>"
  by (rule that [OF _ updateSendingFlag_def [unfolded Let_def]]) (intro if_in; simp)

lemma typed_update:
  assumes "flush_typed s"
  shows "flush_typed (updateSendingFlag s)"
proof -
  obtain x where x: "x \<in> {SENDING_IDLE, SENDING_NORMAL, SENDING_LOW}" and u: "updateSendingFlag s =
    (if requestExitSendingLow s
     then s\<lparr>requestExitSendingLow := False, sending_to := (if sending_to s = SENDING_LOW then SENDING_IDLE else sending_to s)\<rparr>
     else s)\<lparr>sending_to := x\<rparr>" by (rule update_shape)
  show ?thesis unfolding u using assms x by (simp add: flush_typed_def early_ok_def)
qed

lemma typed_handed_out: "flush_typed s \<Longrightarrow> flush_typed (handed_out b n ds s)"
  by (rule typed_same [where s = s]; cases b) (simp_all add: handed_out_def evbuffer_drain_def early_numbers_def)

lemma typed_burst:
  assumes "flush_typed s" "evbufToSocketBurst b n s = Some (m, s')"
  shows "flush_typed s'"
  using assms(2) by (cases rule: burst_cases) (use assms(1) typed_handed_out in blast)+

lemma typed_drain: "flush_typed s \<Longrightarrow> flush_typed (evbuffer_drain b n s)"
  by (erule typed_same) (simp_all add: evbuffer_drain_def early_numbers_def split: stream.splits)

lemma typed_inspect:
  assumes "flush_typed s" "inspectLowPri L s = Some s'"
  shows "flush_typed s'"
proof (cases "snd (word_length L (bytes_vec (low s) @ beyond L))")
  case True
  then have "s' = evbuffer_drain Low (length (low s)) s" using assms(2) by (simp add: inspectLowPri_def split_beta)
  then show ?thesis using typed_drain [OF assms(1)] by simp
next
  case False
  then obtain m where "evbufToSocketBurst Low (length (low s)) s = Some (m, s')"
    using assms(2) by (auto simp: inspectLowPri_def split_beta)
  then show ?thesis by (rule typed_burst [OF assms(1)])
qed

lemma typed_zmq:
  assumes "flush_typed s" "sendZmqHiggsNow L s = Some s'"
  shows "flush_typed s'"
proof -
  define s1 where "s1 = (if dump_low_pri_buf s then evbuffer_drain Low (length (low s)) s else s)"
  have ok: "flush_typed (updateSendingFlag s1)" using typed_update typed_drain assms(1) by (simp add: s1_def)
  have "sendZmqHiggsNow L s =
    (if length (low s1) = 0 then Some (updateSendingFlag s1)
     else if sending_to (updateSendingFlag s1) = SENDING_LOW then inspectLowPri L (updateSendingFlag s1) else Some (updateSendingFlag s1))"
    unfolding sendZmqHiggsNow_def Let_def s1_def ..
  then show ?thesis using assms(2) ok typed_inspect [OF ok] by (auto split: if_splits)
qed

lemma typed_pet2:
  assumes "flush_typed s" "petSendToHiggs2 L now s = Some (r, s')"
  shows "flush_typed s'"
proof -
  have "max_packet_burst s \<le> 8" using assms(1) by (simp add: flush_typed_def)
  then obtain ds where "user_data_sent s s' ds" "early_ok s \<longrightarrow> early_ok s'"
    by (rule pet2_effect [OF assms(2)]) blast
  then show ?thesis using assms(1) by (simp add: flush_typed_def user_data_sent_def kept_def)
qed

lemma typed_fold: "flush_typed s \<Longrightarrow> flush_typed (fold flush_do cs s)"
  by (induction cs arbitrary: s) (simp_all add: typed_do)

lemma typed_runs: "flush_typed s \<Longrightarrow> pet_runs L k moments v s = Some (v', s') \<Longrightarrow> flush_typed s'"
proof (induction k arbitrary: s v)
  case (Suc k)
  from Suc.prems(2) obtain v1 s1 where
    "petSendToHiggs2 L (snd (moments k)) (fold flush_do (fst (moments k)) s) = Some (v1, s1)" "pet_runs L k moments v1 s1 = Some (v', s')"
    by (auto split: option.splits)
  then show ?case using Suc.IH typed_pet2 [OF typed_fold [OF Suc.prems(1)]] by blast
qed simp

lemma rate_keeps:
  "kept (updateDrainRate schema allocation s) = kept (s\<lparr>max_packet_burst := max_packet_burst (updateDrainRate schema allocation s)\<rparr>)"
  "early_numbers (updateDrainRate schema allocation s) = early_numbers s"
  "max_packet_burst s = 8 \<Longrightarrow> max_packet_burst (updateDrainRate schema allocation s) = 8"
  by (simp_all add: updateDrainRate_def Let_def kept_def early_numbers_def)

section \<open>Every history\<close>

lemma ok_runs:
  assumes "\<forall>k. list_all of_words (fst (moments k))"
  shows "flush_ok s \<Longrightarrow> flush_typed s \<Longrightarrow> sending_to s = SENDING_NORMAL \<Longrightarrow> pet_runs L k moments v s = Some (v', s') \<Longrightarrow> flush_ok s'"
proof (induction k arbitrary: s v)
  case (Suc k)
  let ?s = "fold flush_do (fst (moments k)) s"
  note words = fold_do [OF assms [rule_format, of k], where s = s]
  obtain v1 s1 where run: "petSendToHiggs2 L (snd (moments k)) ?s = Some (v1, s1)" "pet_runs L k moments v1 s1 = Some (v', s')"
    using Suc.prems(4) by (auto split: option.splits)
  have typed: "flush_typed ?s" using Suc.prems(2) by (rule typed_fold)
  then have "max_packet_burst ?s \<le> 8" by (simp add: flush_typed_def)
  then obtain ds where ds: "user_data_sent ?s s1 ds" by (rule pet2_effect [OF run(1)]) blast
  have normal: "sending_to ?s = SENDING_NORMAL" using words(2) Suc.prems(3) by simp
  have "flush_ok s1" using words(1) [OF Suc.prems(1)] ds normal by (rule flush_ok_user)
  moreover have "sending_to s1 = SENDING_NORMAL" using ds normal by (simp add: user_data_sent_def kept_def)
  ultimately show ?case using Suc.IH typed_pet2 [OF typed run(1)] run(2) by blast
qed simp

lemma step_ok:
  assumes "flush_step L s s'" "flush_ok s" "flush_typed s"
  shows "flush_ok s' \<and> flush_typed s'"
  using assms(1)
proof cases
  case (other c)
  then show ?thesis using flush_ok_do typed_do assms(2,3) by blast
next
  case (tick schema allocation moments)
  let ?s = "updateSendingFlag (updateDrainRate schema allocation s)"
  note rate = rate_keeps [where schema = schema and allocation = allocation and s = s]
  have same: "sending_to (updateDrainRate schema allocation s) = sending_to s"
    "last_fill_level (updateDrainRate schema allocation s) = last_fill_level s"
    "max_packet_burst (updateDrainRate schema allocation s) = max_packet_burst s"
    using rate assms(3) by (simp_all add: kept_def flush_typed_def)
  have "flush_ok (updateDrainRate schema allocation s)"
    using assms(2) rate(1) by (subst flush_ok_same [of _ s]) (simp_all add: kept_def)
  then have ok: "flush_ok ?s" by (rule flush_ok_update)
  have typed: "flush_typed ?s" using typed_same [OF assms(3) same(1,3,2) rate(2)] by (rule typed_update)
  from tick(1) obtain v where v: "petSendToHiggs L moments (updateDrainRate schema allocation s) = Some (v, s')"
    by (auto simp: handle_sendto_higgs_timer_def)
  show ?thesis
  proof (cases "sending_to ?s = SENDING_NORMAL")
    case True
    then have "pet_runs L (1 + 80000) moments 0 ?s = Some (v, s')"
      using v unfolding petSendToHiggs_def Let_def by (simp only: refl not_True_eq_False if_False)
    then show ?thesis using ok_runs [OF tick(2) ok typed True] typed_runs [OF typed] by blast
  next
    case False
    then have "map_option (Pair 0) (if sending_to ?s = SENDING_LOW \<and> allow_zmq_higgs ?s then sendZmqHiggsNow L ?s else Some ?s) = Some (v, s')"
      using v unfolding petSendToHiggs_def Let_def by (simp only: if_True simp_thms)
    then show ?thesis using ok typed flush_ok_zmq [OF ok] typed_zmq [OF typed] by (auto split: if_splits)
  qed
qed

lemma boot_ok: "flush_ok (FlushHiggs now later) \<and> flush_typed (FlushHiggs now later)"
proof -
  have "whole_writes Normal s []" for s unfolding whole_writes_def stream.case by (rule exI [of _ 0]) simp
  moreover have "\<exists>ws. subseq ws ([] :: u8 list list) \<and> (\<forall>xs \<in> set ws. xs = [])" by (rule exI [of _ "[]"]) simp
  ultimately show ?thesis by (simp add: FlushHiggs_def flush_ok_def low_ok_def uncut_def flush_typed_def early_ok_def)
qed

lemma reachable_ok: "flush_reachable L s \<Longrightarrow> flush_ok s \<and> flush_typed s"
  by (induction rule: flush_reachable.induct) (use boot_ok step_ok in blast)+

section \<open>Waiting and pausing\<close>

text \<open>
  A low priority buffer of more than 32768 bytes is never sent: the check in \<open>evbufToSocketBurst\<close>
  waits for the 8k mode, which only user data enter, and user data wait until the low priority
  buffer is empty. The same happens when less than a word is left over from a message that does
  not consist of words.
\<close>

definition stuck :: "flush \<Rightarrow> bool" where
  "stuck s \<longleftrightarrow> sending_to s = SENDING_LOW \<and> \<not> requestExitSendingLow s \<and> \<not> dump_low_pri_buf s \<and>
     (length (low s) > 1024 * 8 * 4 \<and> \<not> valid_8k s \<or> 0 < length (low s) \<and> length (low s) < 4)"

lemma low_priority_jams:
  assumes "stuck s" "allow_zmq_higgs s" "\<not> snd (word_length L (bytes_vec (low s) @ beyond L))"
  shows "\<exists>s'. petSendToHiggs L moments s = Some (0, s') \<and> kept s' = kept s \<and> stuck s'"
proof -
  have u: "updateSendingFlag s = s" using assms(1) by (auto simp: updateSendingFlag_def stuck_def Let_def)
  obtain m s' where s': "evbufToSocketBurst Low (length (low s)) s = Some (m, s')" "kept s' = kept s" "stuck s'"
  proof (cases "blocked Low s")
    case True
    then have "evbufToSocketBurst Low (length (low s)) s = Some (0, s)"
      unfolding evbufToSocketBurst_def blocked_def Let_def by (rule if_P)
    then show ?thesis using that assms(1) by blast
  next
    case False
    then have short: "length (low s) < 4" using assms(1) by (auto simp: stuck_def blocked_def stream_buf_def)
    then obtain m s' where e: "evbufToSocketBurst Low (length (low s)) s = Some (m, s')"
      using burst_total [of "length (low s)" Low s] by (fastforce simp: stream_buf_def)
    then show ?thesis
    proof (cases rule: burst_cases)
      case (sent ds)
      have "m = 0" using sent(2) short by (simp add: stream_buf_def)
      then have "ds = []" using sent(4,5) by (cases ds) auto
      then have "kept s' = kept s" "stuck s'" using sent(3) \<open>m = 0\<close> assms(1)
        by (simp_all add: handed_out_def evbuffer_drain_def kept_def stuck_def)
      then show ?thesis using e that by blast
    qed (use e that assms(1) in blast)
  qed
  have "sendZmqHiggsNow L s = Some s'"
    using s'(1) assms by (auto simp: sendZmqHiggsNow_def inspectLowPri_def u stuck_def split_beta)
  then have "petSendToHiggs L moments s = Some (0, s')"
    using assms(1,2) by (simp add: petSendToHiggs_def u stuck_def)
  then show ?thesis using s'(2,3) by blast
qed

text \<open>
  Between 3072 and 5120 words, once the fill level has been above 5120, the two thresholds undo each
  other: a pause follows every run that is not one.
\<close>

lemma pause_alternates:
  assumes "1024 * 3 < last_fill_level s" "last_fill_level s \<le> 1024 * 5" "should_use_new_level s" "\<not> valid_8k s"
  shows "fst (pet_pause s) \<longleftrightarrow> \<not> should_pause_p s"
    and "should_pause_p (snd (pet_pause s)) \<longleftrightarrow> \<not> should_pause_p s" and "should_use_new_level (snd (pet_pause s))"
  using assms by (auto simp: pet_pause_def Let_def word_less_nat_alt word_le_nat_alt)

section \<open>An example\<close>

definition example_flush_lib :: flush_lib where
  "example_flush_lib = \<lparr>word_length = (\<lambda>v. (1, False)), beyond = [], parse_delta = (\<lambda>w. 0), drained_in = (\<lambda>r us. 2000),
     before_early = (\<lambda>age frames fudge. False), drained_since_early = (\<lambda>r age frames fudge sent. 0)\<rparr>"

lemma runs_fixed:
  "petSendToHiggs2 L now s = Some (0, s) \<Longrightarrow> pet_runs L k (\<lambda>_. ([], now)) 0 s = Some (0, s)"
  by (induction k) simp_all

lemma burst_small:
  assumes "length (stream_buf b s) mod 4 = 0" "length (stream_buf b s) \<le> 1456" "length (stream_buf b s) \<le> n"
  shows "evbufToSocketBurst b n s = Some (length (stream_buf b s),
    handed_out b (length (stream_buf b s)) (if stream_buf b s = [] then [] else [stream_buf b s]) s)"
proof -
  have "min n (length (stream_buf b s)) < 2 ^ 31" using assms(2) by (simp add: min_less_iff_disj)
  from burst_total [OF this] obtain m s' where e: "evbufToSocketBurst b n s = Some (m, s')" by fastforce
  then show ?thesis
  proof (cases rule: burst_cases)
    case blocked
    then show ?thesis using assms(2) by (simp add: blocked_def)
  next
    case (sent ds)
    have "length (stream_buf b s) div 4 * 4 = length (stream_buf b s)" using assms(1) by presburger
    then have m: "m = length (stream_buf b s)" using sent(2) assms(3) by simp
    then have "ds = (if stream_buf b s = [] then [] else [stream_buf b s])"
      using sent(6) assms(2) by (simp add: chunks_short)
    then show ?thesis using e sent(3) m by simp
  qed
qed

definition example_write :: "flush \<Rightarrow> flush" where
  "example_write later = updateSendingFlag (updateDrainRate FEEDBACK_MAPMOV_QPSK MAPMOV_SUBCARRIER_128
     (sendToHiggs [1, 2, 3, 4] (FlushHiggs 0 later)))"

lemmas example_evaluation = petSendToHiggs2_def pet_8k_mode_def pet_early_report_def pet_allowed_def pet_pause_def
  FlushHiggs_def sendToHiggs_def updateDrainRate_def updateSendingFlag_def example_flush_lib_def burst_small
  stream_buf_def handed_out_def evbuffer_drain_def Let_def

lemma example_first_run:
  "\<exists>s'. petSendToHiggs2 example_flush_lib 0 (example_write later) = Some (1, s') \<and>
    petSendToHiggs2 example_flush_lib 0 s' = Some (0, s') \<and> wire s' = [(Normal, [1, 2, 3, 4])] \<and> normal s' = [] \<and> low s' = [] \<and>
    sending_to s' = SENDING_NORMAL \<and> \<not> requestExitSendingLow s' \<and> \<not> dump_low_pri_buf s' \<and> put_normal s' = [[1, 2, 3, 4]]"
  unfolding example_write_def by (simp add: example_evaluation)

lemma example_flush:
  "\<exists>s. flush_reachable example_flush_lib s \<and> wire s = [(Normal, [1, 2, 3, 4]), (Low, [5, 0, 0, 0])] \<and> normal s = [] \<and>
    put_normal s = [[1, 2, 3, 4]]"
proof -
  let ?L = example_flush_lib
  let ?boot = "FlushHiggs 0 undefined :: flush"
  let ?go = "handle_sendto_higgs_timer ?L FEEDBACK_MAPMOV_QPSK MAPMOV_SUBCARRIER_128 (\<lambda>_. ([], 0))"
  obtain s1 where s1: "petSendToHiggs2 ?L 0 (example_write undefined) = Some (1, s1)" "petSendToHiggs2 ?L 0 s1 = Some (0, s1)"
    "wire s1 = [(Normal, [1, 2, 3, 4])]" "normal s1 = []" "low s1 = []" "sending_to s1 = SENDING_NORMAL"
    "\<not> requestExitSendingLow s1" "\<not> dump_low_pri_buf s1" "put_normal s1 = [[1, 2, 3, 4]]"
    using example_first_run by blast
  have runs: "pet_runs ?L (1 + 80000) (\<lambda>_. ([], 0)) 0 (example_write undefined) = Some (0, s1)"
  proof -
    have "pet_runs ?L (Suc k) (\<lambda>_. ([], 0)) 0 (example_write undefined) = Some (0, s1)" if "0 < k" for k
      using that s1(1,2) by (cases k) (simp_all add: runs_fixed)
    then show ?thesis by (metis plus_1_eq_Suc zero_less_numeral)
  qed
  have "sending_to (example_write undefined) = SENDING_NORMAL"
    by (simp add: example_write_def FlushHiggs_def sendToHiggs_def updateDrainRate_def updateSendingFlag_def Let_def)
  then have first: "?go (flush_do (ToNormal [1, 2, 3, 4]) ?boot) = Some s1"
    using runs unfolding handle_sendto_higgs_timer_def petSendToHiggs_def flush_do.simps example_write_def Let_def by simp
  let ?s2 = "flush_do (AllowZmq True) (flush_do (ToLow [5, 0, 0, 0]) s1)"
  have second: "\<exists>s3. ?go ?s2 = Some s3 \<and> wire s3 = wire s1 @ [(Low, [5, 0, 0, 0])] \<and> normal s3 = [] \<and> put_normal s3 = put_normal s1"
    using s1(4-8)
    by (simp add: handle_sendto_higgs_timer_def petSendToHiggs_def sendToHiggsLowPriority_def updateDrainRate_def
        updateSendingFlag_def sendZmqHiggsNow_def inspectLowPri_def example_flush_lib_def burst_small stream_buf_def
        handed_out_def evbuffer_drain_def Let_def)
  then obtain s3 where s3: "?go ?s2 = Some s3" "wire s3 = wire s1 @ [(Low, [5, 0, 0, 0])]" "normal s3 = []" "put_normal s3 = put_normal s1"
    by blast
  have "flush_reachable ?L s1"
    by (rule step [OF step [OF boot other] tick [OF first]]) simp_all
  then have "flush_reachable ?L ?s2" by (rule step [OF step [OF _ other] other]) simp_all
  then have "flush_reachable ?L s3" by (rule step [OF _ tick [OF s3(1)]]) simp
  then show ?thesis using s1(3,9) s3(2-4) by auto
qed

section \<open>Properties\<close>

text \<open>
  C3. No message is cut by the other stream. Whatever the other threads write and request and
  however the clock runs, when the wire changes from user data to low priority the user data
  on it so far are the first writes, each whole; when it changes back, the low priority data on it
  are whole writes in their order.
\<close>
theorem streams_not_cut:
  assumes "flush_reachable L s" "wire s = a @ x # y # b" "fst x \<noteq> fst y"
  shows "whole_writes (fst x) s (sent_on (fst x) (a @ [x]))"
  using assms(2,3) reachable_ok [OF assms(1)] unfolding flush_ok_def uncut_def by blast

theorem streams_not_cut_witness:
  "\<exists>s. flush_reachable example_flush_lib s \<and> wire s = [] @ (Normal, [1, 2, 3, 4]) # (Low, [5, 0, 0, 0]) # [] \<and>
    whole_writes Normal s (sent_on Normal ([] @ [(Normal, [1, 2, 3, 4])]))"
proof -
  obtain s where s: "flush_reachable example_flush_lib s" "wire s = [] @ (Normal, [1, 2, 3, 4]) # (Low, [5, 0, 0, 0]) # []"
    using example_flush by auto
  then show ?thesis using streams_not_cut [OF s] by auto
qed

text \<open>
  C31. User data are neither lost nor reordered nor duplicated: what is on the wire followed by
  what is in the buffer is what was written.
\<close>
theorem user_data_in_order:
  assumes "flush_reachable L s"
  shows "sent_on Normal (wire s) @ normal s = concat (put_normal s)"
  using reachable_ok [OF assms] unfolding flush_ok_def by blast

theorem user_data_in_order_witness:
  "\<exists>s. flush_reachable example_flush_lib s \<and> put_normal s = [[1, 2, 3, 4]] \<and>
    sent_on Normal (wire s) @ normal s = concat (put_normal s)"
  using example_flush user_data_in_order by blast

text \<open>
  C32. The state stays well-formed: the stream that may send is one of the three, so the branch for an
  illegal one is dead; bursts are limited to eight datagrams; the fill level has 24 bits; and the
  frames the clock has to wait in the 8k mode do not wrap below zero.
\<close>
theorem flush_state_typed:
  assumes "flush_reachable L s"
  shows "sending_to s \<in> {SENDING_IDLE, SENDING_NORMAL, SENDING_LOW} \<and> max_packet_burst s = 8 \<and>
     unat (last_fill_level s) < 2 ^ 24 \<and> (early_frame_8k s = 0 \<or> sint (early_target_8k s - early_frame_8k s) > 0)"
  using reachable_ok [OF assms] unfolding flush_typed_def early_ok_def by blast

theorem flush_state_typed_witness:
  "\<exists>s. flush_reachable example_flush_lib s \<and> wire s = [(Normal, [1, 2, 3, 4]), (Low, [5, 0, 0, 0])] \<and>
    sending_to s \<in> {SENDING_IDLE, SENDING_NORMAL, SENDING_LOW} \<and> max_packet_burst s = 8"
  using example_flush flush_state_typed by blast

text \<open>
  C33. Flow control. A run never fails; it puts at most eight datagrams of at most 1456 bytes on the
  wire, from the front of the user data, and none while the board reports more than 5120 words,
  unless the clock alone decides; and it returns whether it sent anything.
\<close>
theorem flow_controlled:
  assumes "flush_reachable L s"
  shows "\<exists>r s' ds. petSendToHiggs2 L now s = Some (r, s') \<and> normal s = concat ds @ normal s' \<and>
    wire s' = wire s @ map (Pair Normal) ds \<and> length ds \<le> 8 \<and> (\<forall>d \<in> set ds. d \<noteq> [] \<and> length d \<le> 1456) \<and>
    (valid_8k s' \<or> last_fill_level s \<le> 1024 * 5 \<or> ds = []) \<and> r = (if ds = [] then 0 else 1)"
proof -
  have b: "max_packet_burst s \<le> 8" using reachable_ok [OF assms] by (simp add: flush_typed_def)
  obtain r s' where run: "petSendToHiggs2 L now s = Some (r, s')" using pet2_total [OF b] by blast
  obtain ds where "user_data_sent s s' ds" "length ds \<le> 8" "r = (if ds = [] then 0 else 1)"
    "valid_8k s' \<or> last_fill_level s \<le> 1024 * 5 \<or> ds = []"
    by (rule pet2_effect [OF run b]) blast
  then show ?thesis using run unfolding user_data_sent_def kept_def by auto
qed

theorem flow_controlled_witness:
  "\<exists>s r s' ds. flush_reachable example_flush_lib s \<and> petSendToHiggs2 example_flush_lib 0 s = Some (r, s') \<and>
    wire s' = wire s @ map (Pair Normal) ds \<and> length ds \<le> 8"
proof -
  obtain s where s: "flush_reachable example_flush_lib s" using example_flush by blast
  from flow_controlled [OF this, of 0] show ?thesis using s by blast
qed

end
