(* ===== verification/Null_Split.thy ===== *)
theory Null_Split
  imports Modem_Prelude
begin

text \<open>
  \<open>NullBufferSplit\<close> (common/NullBufferSplit.cpp) cuts a byte stream, the messages of the dashboard
  and of the simulator, at its null bytes. Its state is the vector of bytes not yet cut off; what the
  lambda \<open>cap\<close> is called with is the list that \<open>dispatch\<close> returns.
\<close>

section \<open>The code\<close>

record null_split = ns_vec :: "u8 list"

definition NullBufferSplit :: null_split where
  "NullBufferSplit = \<lparr>ns_vec = []\<rparr>"

text \<open>
  The loop over the vector from \<open>i\<close> on: the bytes left to visit, the start of the current slice, the
  largest slice found.
\<close>

fun dispatch_loop :: "u8 list \<Rightarrow> u8 list \<Rightarrow> nat \<Rightarrow> nat \<Rightarrow> nat option \<Rightarrow> u8 list list \<times> nat option" where
  "dispatch_loop vec [] i prev_slice largest_slice = ([], largest_slice)"
| "dispatch_loop vec (b # bs) i prev_slice largest_slice =
     (if b = 0
      then let pass = (if prev_slice \<noteq> i then [vslice prev_slice (i - prev_slice) vec] else []);
               (rest, largest) = dispatch_loop vec bs (i + 1) (i + 1) (Some i)
           in (pass @ rest, largest)
      else dispatch_loop vec bs (i + 1) prev_slice largest_slice)"

definition ns_dispatch :: "null_split \<Rightarrow> u8 list list \<times> null_split" where
  "ns_dispatch s =
     (let (caps, largest) = dispatch_loop (ns_vec s) (ns_vec s) 0 0 None
      in (caps, case largest of None \<Rightarrow> s | Some largest_slice \<Rightarrow> s\<lparr>ns_vec := drop largest_slice (ns_vec s)\<rparr>))"

definition ns_addData :: "u8 list \<Rightarrow> null_split \<Rightarrow> u8 list list \<times> null_split" where
  "ns_addData d s = ns_dispatch (s\<lparr>ns_vec := fold (\<lambda>b v. v @ [b]) d (ns_vec s)\<rparr>)"

text \<open>A history of calls, with everything the lambda got.\<close>

fun ns_run :: "u8 list list \<Rightarrow> null_split \<Rightarrow> u8 list list \<times> null_split" where
  "ns_run [] s = ([], s)"
| "ns_run (d # ds) s = (let (caps, s') = ns_addData d s; (later, s'') = ns_run ds s' in (caps @ later, s''))"

section \<open>The reference: cutting the whole stream\<close>

text \<open>The complete pieces of a stream, with what has been read of the current one in front, and the rest.\<close>

fun null_pieces :: "u8 list \<Rightarrow> u8 list \<Rightarrow> u8 list list \<times> u8 list" where
  "null_pieces current [] = ([], current)"
| "null_pieces current (b # bs) =
     (if b = 0 then let (ps, r) = null_pieces [] bs in ((if current = [] then ps else current # ps), r)
      else null_pieces (current @ [b]) bs)"

lemma null_pieces_append:
  "null_pieces c (xs @ ys) =
    (let (ps, r) = null_pieces c xs; (qs, r') = null_pieces r ys in (ps @ qs, r'))"
  by (induction c xs rule: null_pieces.induct) (auto simp: Let_def split: prod.splits)

lemma null_pieces_plain: "0 \<notin> set xs \<Longrightarrow> null_pieces c xs = ([], c @ xs)"
  by (induction xs arbitrary: c) auto

lemma null_rest_plain: "0 \<notin> set c \<Longrightarrow> 0 \<notin> set (snd (null_pieces c xs))"
  by (induction c xs rule: null_pieces.induct) (auto simp: Let_def split: prod.splits)

lemma dispatch_loop_pieces:
  assumes "vec = pre @ bs" "i = length pre" "prev \<le> i"
  shows "fst (dispatch_loop vec bs i prev largest) = fst (null_pieces (drop prev pre) bs)"
  using assms
proof (induction bs arbitrary: pre i prev largest)
  case (Cons b bs)
  have next_byte: "vec = (pre @ [b]) @ bs" "i + 1 = length (pre @ [b])" "prev \<le> i + 1" using Cons.prems by simp_all
  have slice: "vslice prev (i - prev) vec = drop prev pre" using Cons.prems by (simp add: vslice_def)
  show ?case
  proof (cases "b = 0")
    case True
    have "fst (dispatch_loop vec bs (i + 1) (i + 1) (Some i)) = fst (null_pieces [] bs)"
      using Cons.IH [OF next_byte(1,2), of "i + 1" "Some i"] next_byte(2) by simp
    moreover have "drop prev pre = [] \<longleftrightarrow> prev = i" using Cons.prems by auto
    ultimately show ?thesis using True slice by (simp add: split_beta Let_def)
  next
    case False
    then show ?thesis using Cons.IH [OF next_byte, of largest] Cons.prems by simp
  qed
qed simp

text \<open>The vector is cut at the last null byte, which stays.\<close>

lemma dispatch_loop_last:
  "snd (dispatch_loop vec bs i prev largest) =
    (if 0 \<in> set bs then Some (i + length bs - Suc (length (takeWhile (\<lambda>b. b \<noteq> 0) (rev bs)))) else largest)"
proof (induction bs arbitrary: i prev largest)
  case (Cons b bs)
  show ?case
  proof (cases "0 \<in> set bs")
    case True
    then have "takeWhile (\<lambda>b. b \<noteq> 0) (rev bs @ [b]) = takeWhile (\<lambda>b. b \<noteq> 0) (rev bs)" by (intro takeWhile_append1 [of 0]) auto
    then show ?thesis using Cons True by (simp add: split_beta Let_def)
  next
    case False
    then have "takeWhile (\<lambda>b. b \<noteq> 0) (rev bs @ [b]) = rev bs @ takeWhile (\<lambda>b. b \<noteq> 0) [b]"
      by (intro takeWhile_append2) auto
    then show ?thesis using Cons False by (auto simp: split_beta Let_def)
  qed
qed simp

lemma after_last_null:
  assumes "0 \<in> set v"
  shows "\<exists>pre post. v = pre @ 0 # post \<and> 0 \<notin> set post \<and>
    drop (length v - Suc (length (takeWhile (\<lambda>b. b \<noteq> 0) (rev v)))) v = (0 :: u8) # post"
proof -
  obtain pre post where v: "v = pre @ 0 # post" "0 \<notin> set post" using split_list_last [OF assms] by blast
  then have "takeWhile (\<lambda>b. b \<noteq> 0) (rev v) = rev post @ takeWhile (\<lambda>b. b \<noteq> 0) (0 # rev pre)"
    by (simp del: takeWhile.simps) (intro takeWhile_append2, auto)
  then show ?thesis using v by auto
qed

section \<open>Chunks do not matter\<close>

text \<open>The vector between calls: what is left of the stream, with at most a null byte in front.\<close>

definition ns_holds :: "null_split \<Rightarrow> u8 list \<Rightarrow> bool" where
  "ns_holds s r \<longleftrightarrow> 0 \<notin> set r \<and> (ns_vec s = r \<or> ns_vec s = 0 # r)"

lemma addData_pieces:
  assumes "ns_holds s r"
  shows "fst (ns_addData d s) = fst (null_pieces r d)" "ns_holds (snd (ns_addData d s)) (snd (null_pieces r d))"
proof -
  let ?v = "ns_vec s @ d"
  have push: "fold (\<lambda>b v. v @ [b]) d v = v @ d" for v by (induction d arbitrary: v) simp_all
  have "null_pieces [] ?v = null_pieces [] (r @ d)" using assms by (auto simp: ns_holds_def)
  also have "\<dots> = null_pieces r d" using null_pieces_plain [of r "[]"] assms by (simp add: null_pieces_append ns_holds_def)
  finally have ref: "null_pieces [] ?v = null_pieces r d" .
  have caps: "fst (dispatch_loop ?v ?v 0 0 None) = fst (null_pieces r d)"
    using dispatch_loop_pieces [of ?v "[]" ?v 0 0 None] ref by simp
  then show "fst (ns_addData d s) = fst (null_pieces r d)" by (simp add: ns_addData_def ns_dispatch_def push split_beta)
  show "ns_holds (snd (ns_addData d s)) (snd (null_pieces r d))"
  proof (cases "0 \<in> set ?v")
    case True
    from after_last_null [OF this] obtain pre post where p: "?v = pre @ 0 # post" "0 \<notin> set post"
      "drop (length ?v - Suc (length (takeWhile (\<lambda>b. b \<noteq> 0) (rev ?v)))) ?v = 0 # post" by blast
    have "snd (null_pieces [] ?v) = post"
      unfolding p(1) null_pieces_append using null_pieces_plain [OF p(2)] by (simp add: split_beta Let_def)
    moreover have "ns_vec (snd (ns_addData d s)) = 0 # post"
      using dispatch_loop_last [of ?v ?v 0 0 None] True p(3) by (simp add: ns_addData_def ns_dispatch_def push split_beta)
    ultimately show ?thesis using ref p(2) by (simp add: ns_holds_def)
  next
    case False
    then have "snd (null_pieces [] ?v) = ?v" "ns_vec (snd (ns_addData d s)) = ?v"
      using dispatch_loop_last [of ?v ?v 0 0 None] null_pieces_plain [OF False, of "[]"]
      by (simp_all add: ns_addData_def ns_dispatch_def push split_beta)
    then show ?thesis using ref False by (simp add: ns_holds_def)
  qed
qed

lemma run_pieces:
  "ns_holds s r \<Longrightarrow> fst (ns_run ds s) = fst (null_pieces r (concat ds)) \<and> ns_holds (snd (ns_run ds s)) (snd (null_pieces r (concat ds)))"
proof (induction ds arbitrary: s r)
  case (Cons d ds)
  note one = addData_pieces [OF Cons.prems, of d]
  from Cons.IH [OF one(2)] one(1) show ?case by (simp add: null_pieces_append split_beta Let_def)
qed simp

text \<open>
  However the bytes arrive, in whatever pieces and at whatever cuts, the lambda is called with
  exactly the non-empty pieces between the null bytes of the whole stream, each once and in order,
  and the bytes behind the last null byte stay until their null byte comes.
\<close>
lemma null_split_chunks:
  "fst (ns_run ds NullBufferSplit) = fst (null_pieces [] (concat ds)) \<and>
   (let r = snd (null_pieces [] (concat ds)); v = ns_vec (snd (ns_run ds NullBufferSplit)) in v = r \<or> v = 0 # r)"
  using run_pieces [of NullBufferSplit "[]" ds] by (simp add: NullBufferSplit_def ns_holds_def Let_def)

end
