(* ===== verification/Ring_Bus.thy ===== *)
theory Ring_Bus
  imports Std_Map "HOL-Library.Multiset"
begin

text \<open>
  The ring bus, over which the host commands the processors of the board and hears from them, a word
  of eight bits type and 24 bits data at a time.

  \<^item> \<open>op\<close> and \<open>DispatchGeneric\<close> (common/GenericOperator.cpp): remote variables, read and written
    in two words of sixteen bits each.
  \<^item> \<open>hashReadback\<close> (common/ReadbackHash.cpp) and the ledger of \<open>HiggsRing\<close> (driver/HiggsRing.cpp):
    every word sent is expected back as a hash within a second. The hash function \<open>xorshift32\<close>, the
    type \<open>READBACK_HASH_PCCMD\<close> of a reply and the number of processors \<open>RING_BUS_LENGTH\<close> are in another
    repository: they are fields of \<open>ring_lib\<close>.

  Sockets, sleeping and prints are left out; what a call sends is part of its result.
\<close>

section \<open>Generic operators\<close>

definition op_code :: "string \<Rightarrow> u32" where
  "op_code operation =
     (if operation = ''zero'' then 0 else if operation = ''add'' then 1 else if operation = ''sub'' then 2
      else if operation = ''set'' then 3 else if operation = ''get'' then 4 else 4)"

definition op_words :: "string \<Rightarrow> u32 \<Rightarrow> u32 \<Rightarrow> u32 \<Rightarrow> u32 list" where
  "op_words operation sel_arg val_arg rb_type =
     (let val_low = val_arg AND 0xffff;
          val_high = drop_bit 16 val_arg AND 0xffff;
          sel = sel_arg AND 0xf;
          op_sel = push_bit 16 (op_code operation OR push_bit 4 sel);
          op_sel_high = op_sel OR 0x80000
      in [op_sel OR val_low OR rb_type, op_sel_high OR val_high OR rb_type])"

record dispatch_generic =
  dg_cb :: bool
  dg_mask :: u32
  schedule_epoc_storage :: u32
  schedule_epoc_storage_op :: u32

definition DispatchGeneric :: dispatch_generic where
  "DispatchGeneric = \<lparr>dg_cb = False, dg_mask = 0, schedule_epoc_storage = 0, schedule_epoc_storage_op = - 1\<rparr>"

definition dg_setCallback :: "u32 \<Rightarrow> dispatch_generic \<Rightarrow> dispatch_generic" where
  "dg_setCallback mask_arg s = s\<lparr>dg_cb := True, dg_mask := mask_arg\<rparr>"

text \<open>The calls of the callback: the variable and its value.\<close>

definition gotMatchingWord :: "u32 \<Rightarrow> dispatch_generic \<Rightarrow> (u32 \<times> u32) list \<times> dispatch_generic" where
  "gotMatchingWord data s =
     (let dmode = drop_bit 16 data AND 0xff;
          data_16 = data AND 0xffff;
          opc = dmode AND 0x7;
          high = drop_bit 3 (dmode AND 0x8);
          sel = drop_bit 4 (dmode AND 0xf0);
          op_sel = dmode AND (0x7 OR 0xf0)
      in if high = 0 then ([], s\<lparr>schedule_epoc_storage := data_16, schedule_epoc_storage_op := op_sel\<rparr>)
         else if schedule_epoc_storage_op s \<noteq> op_sel then ([], s\<lparr>schedule_epoc_storage_op := - 1\<rparr>)
         else if opc \<noteq> 4 then ([], s\<lparr>schedule_epoc_storage_op := - 1\<rparr>)
         else ([(sel, (push_bit 16 data_16 AND 0xffff0000) OR schedule_epoc_storage s)], s))"

definition gotWord :: "u32 \<Rightarrow> dispatch_generic \<Rightarrow> (u32 \<times> u32) list \<times> dispatch_generic" where
  "gotWord w s =
     (if \<not> dg_cb s then ([], s)
      else let type0 = w AND 0xff000000
           in if type0 = dg_mask s then gotMatchingWord w s else ([], s))"

fun got_words :: "u32 list \<Rightarrow> dispatch_generic \<Rightarrow> (u32 \<times> u32) list \<times> dispatch_generic" where
  "got_words [] s = ([], s)"
| "got_words (w # ws) s = (let (calls, s') = gotWord w s; (later, s'') = got_words ws s' in (calls @ later, s''))"

subsection \<open>The fields of a word\<close>

lemma ring_masks:
  "(0xff :: u32) = mask 8" "(0xffff :: u32) = mask 16" "(0xf :: u32) = mask 4" "(0x7 :: u32) = mask 3"
  "(0xff000000 :: u32) = push_bit 24 (mask 8)" "(0x00ffffff :: u32) = mask 24" "(0x8 :: u32) = push_bit 3 (mask 1)"
  "(0xf0 :: u32) = push_bit 4 (mask 4)" "(0x80000 :: u32) = push_bit 19 (mask 1)" "(0xffff0000 :: u32) = push_bit 16 (mask 16)"
  by (simp_all add: mask_eq_exp_minus_1 push_bit_eq_mult)

lemma ring_bits:
  "bit (0xff :: u32) n \<longleftrightarrow> n < 8" "bit (0xffff :: u32) n \<longleftrightarrow> n < 16" "bit (0xf :: u32) n \<longleftrightarrow> n < 4"
  "bit (0x7 :: u32) n \<longleftrightarrow> n < 3" "bit (0xff000000 :: u32) n \<longleftrightarrow> 24 \<le> n \<and> n < 32" "bit (0x00ffffff :: u32) n \<longleftrightarrow> n < 24"
  "bit (0x8 :: u32) n \<longleftrightarrow> n = 3" "bit (0xf0 :: u32) n \<longleftrightarrow> 4 \<le> n \<and> n < 8" "bit (0x80000 :: u32) n \<longleftrightarrow> n = 19"
  "bit (0xffff0000 :: u32) n \<longleftrightarrow> 16 \<le> n \<and> n < 32"
  unfolding ring_masks by (auto simp only: bit_push_word bit_mask_iff) auto

lemma op_code_bits: "\<forall>n. bit (op_code operation) n \<longrightarrow> n < 3"
proof -
  have "op_code operation = op_code operation AND 0x7" by (simp add: op_code_def)
  then show ?thesis by (metis bit_and_iff ring_bits(4))
qed

lemma type_bits: "ty AND 0x00ffffff = 0 \<Longrightarrow> bit ty n \<Longrightarrow> 24 \<le> n" for ty :: u32
proof -
  assume "ty AND 0x00ffffff = 0" and b: "bit ty n"
  then have "\<not> bit (ty AND 0x00ffffff) n" by simp
  then show "24 \<le> n" using b unfolding bit_and_iff ring_bits by simp
qed

lemma op_fields:
  fixes c sel val ty :: u32
  assumes c: "\<forall>n. bit c n \<longrightarrow> n < 3" and ty: "ty AND 0x00ffffff = 0"
  defines "w0 \<equiv> push_bit 16 (c OR push_bit 4 (sel AND 0xf)) OR (val AND 0xffff) OR ty"
    and "w1 \<equiv> (push_bit 16 (c OR push_bit 4 (sel AND 0xf)) OR 0x80000) OR (drop_bit 16 val AND 0xffff) OR ty"
  shows "w0 AND 0xff000000 = ty" "w1 AND 0xff000000 = ty"
    "drop_bit 16 w0 AND 0xff = c OR push_bit 4 (sel AND 0xf)"
    "drop_bit 16 w1 AND 0xff = (c OR push_bit 4 (sel AND 0xf)) OR 0x8"
    "w0 AND 0xffff = val AND 0xffff" "w1 AND 0xffff = drop_bit 16 val AND 0xffff"
  unfolding w0_def w1_def
  by (rule bit_word_eqI; unfold bit_rules ring_bits; auto dest: c [rule_format] type_bits [OF ty])+

lemma mode_fields:
  fixes c sel :: u32
  assumes c: "\<forall>n. bit c n \<longrightarrow> n < 3"
  defines "m \<equiv> c OR push_bit 4 (sel AND 0xf)"
  shows "m AND 0x7 = c" "(m OR 0x8) AND 0x7 = c" "drop_bit 3 (m AND 0x8) = 0" "drop_bit 3 ((m OR 0x8) AND 0x8) = 1"
    "drop_bit 4 ((m OR 0x8) AND 0xf0) = sel AND 0xf" "m AND (0x7 OR 0xf0) = m" "(m OR 0x8) AND (0x7 OR 0xf0) = m"
  unfolding m_def
  by (rule bit_word_eqI; unfold bit_rules ring_bits bit_1_iff bit_0_eq bot_apply bot_bool_def; auto dest: c [rule_format])+

lemma value_halves: "(push_bit 16 (drop_bit 16 val AND 0xffff) AND 0xffff0000) OR (val AND 0xffff) = val" for val :: u32
  by (rule bit_word_eqI; unfold bit_rules ring_bits; auto)

subsection \<open>A reply read back\<close>

lemma skip_others:
  "list_all (\<lambda>w. w AND 0xff000000 \<noteq> dg_mask s) ws \<Longrightarrow> got_words (ws @ us) s = got_words us s"
  by (induction ws) (simp_all add: gotWord_def Let_def)

lemma got_words_append:
  "got_words (ws @ us) s = (let (a, s1) = got_words ws s; (b, s2) = got_words us s1 in (a @ b, s2))"
  by (induction ws s rule: got_words.induct) (auto simp: Let_def split: prod.splits)

lemma op_words_fields:
  assumes "ty AND 0x00ffffff = 0"
  obtains w0 w1 where "op_words operation sel val ty = [w0, w1]" "w0 AND 0xff000000 = ty" "w1 AND 0xff000000 = ty"
    "drop_bit 16 w0 AND 0xff = op_code operation OR push_bit 4 (sel AND 0xf)"
    "drop_bit 16 w1 AND 0xff = (op_code operation OR push_bit 4 (sel AND 0xf)) OR 0x8"
    "w0 AND 0xffff = val AND 0xffff" "w1 AND 0xffff = drop_bit 16 val AND 0xffff"
proof (rule that)
  show "op_words operation sel val ty =
    [push_bit 16 (op_code operation OR push_bit 4 (sel AND 0xf)) OR (val AND 0xffff) OR ty,
     (push_bit 16 (op_code operation OR push_bit 4 (sel AND 0xf)) OR 0x80000) OR (drop_bit 16 val AND 0xffff) OR ty]"
    unfolding op_words_def Let_def ..
qed (rule op_fields [OF op_code_bits assms])+

lemma low_word_kept:
  assumes "dg_cb s" "w AND 0xff000000 = dg_mask s" "drop_bit 16 w AND 0xff = op_code operation OR push_bit 4 (sel AND 0xf)"
  shows "gotWord w s = ([], s\<lparr>schedule_epoc_storage := w AND 0xffff,
     schedule_epoc_storage_op := op_code operation OR push_bit 4 (sel AND 0xf)\<rparr>)"
  unfolding gotWord_def gotMatchingWord_def Let_def assms(2,3) mode_fields [OF op_code_bits]
  using assms(1) by simp

lemma high_word_answers:
  assumes "dg_cb s" "w AND 0xff000000 = dg_mask s" "drop_bit 16 w AND 0xff = (op_code operation OR push_bit 4 (sel AND 0xf)) OR 0x8"
    "schedule_epoc_storage_op s = op_code operation OR push_bit 4 (sel AND 0xf)"
  shows "gotWord w s =
    (if op_code operation = 4 then ([(sel AND 0xf, (push_bit 16 (w AND 0xffff) AND 0xffff0000) OR schedule_epoc_storage s)], s)
     else ([], s\<lparr>schedule_epoc_storage_op := - 1\<rparr>))"
  unfolding gotWord_def gotMatchingWord_def Let_def assms(2,3,4) mode_fields [OF op_code_bits]
  using assms(1) by simp

section \<open>The ledger of sent words\<close>

record ring_lib =
  xorshift32 :: "u32 \<Rightarrow> u32 list \<Rightarrow> u32"
  READBACK_HASH_PCCMD :: u32
  RING_BUS_LENGTH :: u32

definition hashReadback :: "ring_lib \<Rightarrow> u32 \<Rightarrow> u32 \<Rightarrow> u32" where
  "hashReadback L us word =
     (let hash = xorshift32 L 1 [us];
          hash = xorshift32 L hash [word]
      in READBACK_HASH_PCCMD L OR push_bit 20 (us AND 0xf) OR (hash AND 0xfffff))"

type_synonym expected = "u64 \<times> u32 \<times> u32 \<times> u32"

record higgs_ring =
  last_send :: time_point
  init_timepoint :: time_point
  hash_expected :: "expected list"
  check_hashes :: bool
  check_hash_print :: bool

definition HiggsRing :: "time_point \<Rightarrow> higgs_ring" where
  "HiggsRing now = \<lparr>last_send = 0, init_timepoint = now, hash_expected = [], check_hashes = False, check_hash_print = True\<rparr>"

definition injectFlags :: "bool \<Rightarrow> bool \<Rightarrow> higgs_ring \<Rightarrow> higgs_ring" where
  "injectFlags f0 f1 s = s\<lparr>check_hashes := f0, check_hash_print := f1\<rparr>"

text \<open>\<open>ttl + 1\<close> wraps at 32 bits; a length of zero is a division by zero.\<close>

definition ring_ttl :: "ring_lib \<Rightarrow> u32 \<Rightarrow> u32" where
  "ring_ttl L ttl = ((ttl + 1) + (RING_BUS_LENGTH L * 2)) mod RING_BUS_LENGTH L"

definition saveIdealHash :: "ring_lib \<Rightarrow> time_point \<Rightarrow> u32 \<Rightarrow> u32 \<Rightarrow> higgs_ring \<Rightarrow> higgs_ring" where
  "saveIdealHash L now ttl data s =
     s\<lparr>hash_expected := hash_expected s @
         [(word_of_int (us_between now (init_timepoint s)), hashReadback L (ring_ttl L ttl) data, ttl, data)]\<rparr>"

text \<open>
  The datagram, the microseconds slept before it, and the object. The clock is read before the pause,
  after sending, and for the ledger.
\<close>

definition ring_send ::
    "ring_lib \<Rightarrow> time_point \<Rightarrow> time_point \<Rightarrow> time_point \<Rightarrow> u32 \<Rightarrow> u32 \<Rightarrow> higgs_ring \<Rightarrow> (u32 \<times> u32) \<times> int \<times> higgs_ring" where
  "ring_send L now sent_at saved_at ttl data s =
     (let since_last_send = us_between now (last_send s);
          sleep_for = (if since_last_send \<ge> 0 \<and> since_last_send < 1200 then 1200 - since_last_send else 0);
          s1 = s\<lparr>last_send := sent_at\<rparr>
      in ((ttl, data), sleep_for, if check_hashes s1 then saveIdealHash L saved_at ttl data s1 else s1))"

definition expired :: "u64 \<Rightarrow> expected \<Rightarrow> bool" where
  "expired now_age e \<longleftrightarrow> now_age - fst e > 1000000"

text \<open>One turn of the search: the first expired entry, which is reported, and the list without it.\<close>

fun erase_expired :: "u64 \<Rightarrow> expected list \<Rightarrow> (expected \<times> expected list) option" where
  "erase_expired now_age [] = None"
| "erase_expired now_age (e # es) =
     (if expired now_age e then Some (e, es)
      else case erase_expired now_age es of None \<Rightarrow> None | Some (e', es') \<Rightarrow> Some (e', e # es'))"

lemma erase_expired_shorter: "erase_expired now_age es = Some (e, es') \<Longrightarrow> length es' < length es"
  by (induction es arbitrary: es') (auto split: if_splits option.splits)

text \<open>The entries reported and those kept.\<close>

function prune_expired :: "u64 \<Rightarrow> expected list \<Rightarrow> expected list \<times> expected list" where
  "prune_expired now_age es =
     (case erase_expired now_age es of None \<Rightarrow> ([], es)
      | Some (e, es') \<Rightarrow> let (lost, kept) = prune_expired now_age es' in (e # lost, kept))"
  by pat_completeness auto
termination
  by (relation "measure (\<lambda>(now_age, es). length es)") (auto dest: erase_expired_shorter)

declare prune_expired.simps [simp del]

fun erase_hash :: "u32 \<Rightarrow> expected list \<Rightarrow> (expected \<times> expected list) option" where
  "erase_hash word [] = None"
| "erase_hash word ((age, ideal_hash, ideal_ttl, ideal_data) # es) =
     (if word = ideal_hash then Some ((age, ideal_hash, ideal_ttl, ideal_data), es)
      else case erase_hash word es of None \<Rightarrow> None
           | Some (e, es') \<Rightarrow> Some (e, (age, ideal_hash, ideal_ttl, ideal_data) # es'))"

text \<open>The entries reported as lost, the entry the reply is for, and the ledger. The first two are
  printed.\<close>

definition hashCompare :: "time_point \<Rightarrow> u32 \<Rightarrow> higgs_ring \<Rightarrow> expected list \<times> expected option \<times> higgs_ring" where
  "hashCompare now word s =
     (let now_age = word_of_int (us_between now (init_timepoint s));
          (lost, pruned) = prune_expired now_age (hash_expected s)
      in case erase_hash word pruned of
           None \<Rightarrow> (lost, None, s\<lparr>hash_expected := pruned\<rparr>)
         | Some (e, es) \<Rightarrow> (lost, Some e, s\<lparr>hash_expected := es\<rparr>))"

definition handleHashReply :: "time_point \<Rightarrow> u32 \<Rightarrow> higgs_ring \<Rightarrow> expected list \<times> expected option \<times> higgs_ring" where
  "handleHashReply now word s = (if check_hashes s then hashCompare now word s else ([], None, s))"

lemma erase_expired_none: "erase_expired now_age es = None \<Longrightarrow> \<forall>e \<in> set es. \<not> expired now_age e"
  by (induction es) (auto split: if_splits option.splits)

lemma erase_expired_some:
  "erase_expired now_age es = Some (e, es') \<Longrightarrow> expired now_age e \<and>
    filter (expired now_age) es = e # filter (expired now_age) es' \<and>
    filter (\<lambda>e. \<not> expired now_age e) es' = filter (\<lambda>e. \<not> expired now_age e) es"
  by (induction es arbitrary: es') (auto split: if_splits option.splits)

lemma prune_is_filter:
  "prune_expired now_age es = (filter (expired now_age) es, filter (\<lambda>e. \<not> expired now_age e) es)"
proof (induction now_age es rule: prune_expired.induct)
  case (1 now_age es)
  show ?case
  proof (cases "erase_expired now_age es")
    case None
    then show ?thesis using erase_expired_none [OF None] by (simp add: prune_expired.simps [of now_age es])
  next
    case (Some p)
    then obtain e es' where p: "erase_expired now_age es = Some (e, es')" by (cases p) simp
    then show ?thesis
      using 1 [OF p refl] erase_expired_some [OF p] by (simp add: prune_expired.simps [of now_age es])
  qed
qed

abbreviation ideal_hash :: "expected \<Rightarrow> u32" where "ideal_hash e \<equiv> fst (snd e)"

lemma erase_hash_iff: "erase_hash word es = None \<longleftrightarrow> word \<notin> ideal_hash ` set es"
  by (induction word es rule: erase_hash.induct) (auto split: option.splits)

lemma erase_hash_mset:
  "erase_hash word es = Some (e, es') \<Longrightarrow> mset es = add_mset e (mset es') \<and> ideal_hash e = word"
  by (induction word es arbitrary: es' rule: erase_hash.induct) (auto split: if_splits option.splits)

text \<open>
  The clock is read before the lock is taken. An entry of a word sent in between is younger than the
  reading, the difference wraps, and the entry counts as expired.
\<close>

lemma younger_entry_expires:
  assumes "now_age < age" "age - now_age < 2 ^ 63"
  shows "expired now_age (age, e)"
proof -
  obtain a b where ab: "uint now_age = a" "uint age = b" by blast
  have "a < b" using assms(1) ab by (simp add: word_less_def)
  moreover have "b - a < 2 ^ 63" using assms(2) \<open>a < b\<close> ab by (simp add: word_less_def uint_sub_if')
  ultimately show ?thesis using ab by (simp add: expired_def word_less_def uint_sub_if')
qed

section \<open>Properties\<close>

text \<open>
  C34. A variable read back. The two words of a reply in the format of \<open>op\<close>, with any words of other
  types before, between and behind them, make exactly one call of the callback, with the variable
  and its 32 bits; words of any operation but \<open>get\<close> make none.
\<close>
theorem generic_value_read_back:
  assumes "dg_cb s" "dg_mask s AND 0x00ffffff = 0" "op_words operation sel val (dg_mask s) = [w0, w1]"
    and "list_all (\<lambda>w. w AND 0xff000000 \<noteq> dg_mask s) (others1 @ others2 @ others3)"
  shows "fst (got_words (others1 @ [w0] @ others2 @ [w1] @ others3) s) =
    (if op_code operation = 4 then [(sel AND 0xf, val)] else [])"
proof -
  obtain v0 v1 where v: "op_words operation sel val (dg_mask s) = [v0, v1]" "v0 AND 0xff000000 = dg_mask s" "v1 AND 0xff000000 = dg_mask s"
    "drop_bit 16 v0 AND 0xff = op_code operation OR push_bit 4 (sel AND 0xf)"
    "drop_bit 16 v1 AND 0xff = (op_code operation OR push_bit 4 (sel AND 0xf)) OR 0x8"
    "v0 AND 0xffff = val AND 0xffff" "v1 AND 0xffff = drop_bit 16 val AND 0xffff"
    by (rule op_words_fields [OF assms(2)])
  have w: "w0 = v0" "w1 = v1" using v(1) assms(3) by simp_all
  let ?s1 = "s\<lparr>schedule_epoc_storage := val AND 0xffff, schedule_epoc_storage_op := op_code operation OR push_bit 4 (sel AND 0xf)\<rparr>"
  have low: "gotWord w0 s = ([], ?s1)" unfolding w using low_word_kept [OF assms(1) v(2,4)] v(6) by simp
  define calls where "calls = (if op_code operation = 4 then [(sel AND 0xf, val)] else [])"
  obtain s2 where high: "gotWord w1 ?s1 = (calls, s2)" "dg_mask s2 = dg_mask s"
  proof (rule that)
    have "gotWord v1 ?s1 = (if op_code operation = 4
      then ([(sel AND 0xf, (push_bit 16 (v1 AND 0xffff) AND 0xffff0000) OR schedule_epoc_storage ?s1)], ?s1)
      else ([], ?s1\<lparr>schedule_epoc_storage_op := - 1\<rparr>))"
      using assms(1) v(3,5) by (intro high_word_answers) simp_all
    also have "\<dots> = (calls, if op_code operation = 4 then ?s1 else ?s1\<lparr>schedule_epoc_storage_op := - 1\<rparr>)"
      unfolding v(7) calls_def using value_halves [of val] by simp
    finally show "gotWord w1 ?s1 = (calls, if op_code operation = 4 then ?s1 else ?s1\<lparr>schedule_epoc_storage_op := - 1\<rparr>)"
      unfolding w .
  qed simp
  have skip: "got_words (others3 @ []) s2 = got_words [] s2"
    using assms(4) high(2) by (intro skip_others) simp
  have "got_words (others2 @ [w1] @ others3) ?s1 = got_words ([w1] @ others3) ?s1"
    using assms(4) by (intro skip_others) simp
  also have "\<dots> = (calls, s2)" using high(1) skip by simp
  finally have "got_words ([w0] @ others2 @ [w1] @ others3) s = (calls, s2)" using low by simp
  moreover have "got_words (others1 @ [w0] @ others2 @ [w1] @ others3) s = got_words ([w0] @ others2 @ [w1] @ others3) s"
    using assms(4) by (intro skip_others) simp
  ultimately show ?thesis by (simp add: calls_def)
qed

theorem generic_value_read_back_witness:
  "\<exists>w0 w1. op_words ''get'' 5 0xDEADBEEF 0x12000000 = [w0, w1] \<and>
    fst (got_words ([0x34000001] @ [w0] @ [0] @ [w1] @ []) (dg_setCallback 0x12000000 DispatchGeneric)) = [(5, 0xDEADBEEF)]"
proof -
  let ?s = "dg_setCallback 0x12000000 DispatchGeneric"
  obtain w0 w1 where w: "op_words ''get'' 5 0xDEADBEEF 0x12000000 = [w0, w1]" by (simp add: op_words_def Let_def)
  have s: "dg_cb ?s" "dg_mask ?s = 0x12000000" by (simp_all add: dg_setCallback_def)
  have "fst (got_words ([0x34000001] @ [w0] @ [0] @ [w1] @ []) ?s) = (if op_code ''get'' = 4 then [(5 AND 0xf, 0xDEADBEEF)] else [])"
    using s w by (intro generic_value_read_back) simp_all
  then show ?thesis using w by (auto simp: op_code_def)
qed

text \<open>Words sent and replies received, with the clock readings that matter.\<close>

fun sends :: "ring_lib \<Rightarrow> (time_point \<times> u32 \<times> u32) list \<Rightarrow> higgs_ring \<Rightarrow> higgs_ring" where
  "sends L [] s = s"
| "sends L ((t, ttl, data) # cs) s = sends L cs (snd (snd (ring_send L t t t ttl data s)))"

text \<open>What the replies report as lost and when, which entry each reply settles, and the object.\<close>

fun replies :: "(time_point \<times> u32) list \<Rightarrow> higgs_ring \<Rightarrow> (time_point \<times> expected) list \<times> (u32 \<times> expected) list \<times> higgs_ring" where
  "replies [] s = ([], [], s)"
| "replies ((t, word) # rs) s =
     (let (lost, found, s1) = handleHashReply t word s; (losts, founds, s2) = replies rs s1
      in (map (Pair t) lost @ losts, (case found of None \<Rightarrow> [] | Some e \<Rightarrow> [(word, e)]) @ founds, s2))"

text \<open>The entry of a word sent.\<close>

definition ring_entry :: "ring_lib \<Rightarrow> higgs_ring \<Rightarrow> time_point \<times> u32 \<times> u32 \<Rightarrow> expected" where
  "ring_entry L s c = (case c of (t, ttl, data) \<Rightarrow>
     (word_of_int (us_between t (init_timepoint s)), hashReadback L (ring_ttl L ttl) data, ttl, data))"

lemma sends_ledger:
  "check_hashes s \<Longrightarrow> hash_expected (sends L cs s) = hash_expected s @ map (ring_entry L s) cs \<and>
   check_hashes (sends L cs s) \<and> init_timepoint (sends L cs s) = init_timepoint s"
  by (induction L cs s rule: sends.induct) (auto simp: ring_send_def saveIdealHash_def ring_entry_def Let_def)

text \<open>A clock reading of the object, in microseconds since its construction.\<close>

abbreviation ring_age :: "higgs_ring \<Rightarrow> time_point \<Rightarrow> int" where
  "ring_age s t \<equiv> us_between t (init_timepoint s)"

definition entries_before :: "higgs_ring \<Rightarrow> time_point \<Rightarrow> bool" where
  "entries_before s t \<longleftrightarrow> ring_age s t < 2 ^ 63 \<and> (\<forall>e \<in> set (hash_expected s). uint (fst e) \<le> ring_age s t)"

lemma expired_iff:
  assumes "uint (fst e) \<le> b" "b < 2 ^ 63"
  shows "expired (word_of_int b) e \<longleftrightarrow> uint (fst e) + 1000000 < b"
proof -
  have "0 \<le> uint (fst e)" by simp
  then have "0 \<le> b" using assms(1) by linarith
  then have "uint (word_of_int b :: u64) = b" using assms by (simp add: uint_word_of_int take_bit_eq_mod)
  then show ?thesis using assms by (auto simp: expired_def word_less_def uint_sub_if')
qed

text \<open>One reply: what it reports, what it settles, what it leaves.\<close>

lemma reply_accounts:
  assumes "check_hashes s" "entries_before s t" "handleHashReply t word s = (lost, found, s')"
  shows "mset (hash_expected s) = mset lost + mset (map snd (case found of None \<Rightarrow> [] | Some e \<Rightarrow> [(word, e)])) + mset (hash_expected s')"
    "\<forall>e \<in> set lost. uint (fst e) + 1000000 < ring_age s t"
    "\<forall>e \<in> set (hash_expected s'). ring_age s t \<le> uint (fst e) + 1000000"
    "\<forall>e. found = Some e \<longrightarrow> ideal_hash e = word" "check_hashes s'" "init_timepoint s' = init_timepoint s"
    "found = None \<longleftrightarrow> word \<notin> ideal_hash ` (set (hash_expected s) - set lost)"
proof -
  let ?a = "word_of_int (ring_age s t) :: u64" and ?es = "hash_expected s"
  define kept where "kept = filter (\<lambda>e. \<not> expired ?a e) ?es"
  have all: "mset ?es = mset (filter (expired ?a) ?es) + mset kept" by (simp add: kept_def)
  have e: "expired ?a e \<longleftrightarrow> uint (fst e) + 1000000 < ring_age s t" if "e \<in> set ?es" for e
    using that assms(2) by (intro expired_iff) (simp_all add: entries_before_def)
  have "handleHashReply t word s = (case erase_hash word kept of None \<Rightarrow> (filter (expired ?a) ?es, None, s\<lparr>hash_expected := kept\<rparr>)
      | Some (e, es) \<Rightarrow> (filter (expired ?a) ?es, Some e, s\<lparr>hash_expected := es\<rparr>))"
    unfolding kept_def handleHashReply_def hashCompare_def prune_is_filter Let_def prod.case using assms(1) by simp
  note c = this [unfolded assms(3)]
  then have lost: "lost = filter (expired ?a) ?es" by (auto split: option.splits)
  show "\<forall>e \<in> set lost. uint (fst e) + 1000000 < ring_age s t" unfolding lost set_filter using e by blast
  have kept: "\<forall>e \<in> set kept. ring_age s t \<le> uint (fst e) + 1000000"
    unfolding kept_def set_filter using e leI by blast
  have "set kept = set ?es - set lost" by (auto simp: kept_def lost)
  moreover have "found = None \<longleftrightarrow> erase_hash word kept = None" using c by (auto split: option.splits)
  ultimately show "found = None \<longleftrightarrow> word \<notin> ideal_hash ` (set ?es - set lost)" by (simp add: erase_hash_iff)
  have "mset kept = mset (map snd (case found of None \<Rightarrow> [] | Some e \<Rightarrow> [(word, e)])) + mset (hash_expected s') \<and>
    (\<forall>e. found = Some e \<longrightarrow> ideal_hash e = word) \<and> check_hashes s' \<and> init_timepoint s' = init_timepoint s"
    using c assms(1) erase_hash_mset [of word kept] by (auto split: option.splits)
  moreover from this have "set (hash_expected s') \<subseteq> set kept" by (metis mset_subset_eq_add_right set_mset_mono set_mset_mset)
  ultimately show "mset ?es = mset lost + mset (map snd (case found of None \<Rightarrow> [] | Some e \<Rightarrow> [(word, e)])) + mset (hash_expected s')"
    "\<forall>e \<in> set (hash_expected s'). ring_age s t \<le> uint (fst e) + 1000000"
    "\<forall>e. found = Some e \<longrightarrow> ideal_hash e = word" "check_hashes s'" "init_timepoint s' = init_timepoint s"
    using all kept lost by (auto simp: add.assoc)
qed

lemma replies_account:
  assumes "check_hashes s" "\<forall>(t, word) \<in> set rs. entries_before s t" "replies rs s = (lost, found, s')"
  shows "mset (hash_expected s) = mset (map snd lost) + mset (map snd found) + mset (hash_expected s') \<and>
    (\<forall>(t, e) \<in> set lost. uint (fst e) + 1000000 < ring_age s t) \<and>
    (\<forall>(word, e) \<in> set found. ideal_hash e = word) \<and>
    (rs \<noteq> [] \<longrightarrow> (\<forall>e \<in> set (hash_expected s'). ring_age s (fst (last rs)) \<le> uint (fst e) + 1000000))"
  using assms
proof (induction rs arbitrary: s lost found)
  case (Cons r rs)
  obtain t word where r: "r = (t, word)" by fastforce
  obtain l f s1 where one: "handleHashReply t word s = (l, f, s1)" by (metis surj_pair)
  obtain ls fs where rest: "replies rs s1 = (ls, fs, s')" "lost = map (Pair t) l @ ls"
    "found = (case f of None \<Rightarrow> [] | Some e \<Rightarrow> [(word, e)]) @ fs"
    using Cons.prems(3) r one by (auto simp: Let_def split: prod.splits)
  have "entries_before s t" using Cons.prems(2) r by simp
  note acc = reply_accounts [OF Cons.prems(1) this one]
  have "set (hash_expected s1) \<subseteq> set (hash_expected s)" using acc(1) by (metis mset_subset_eq_add_right set_mset_mono set_mset_mset)
  then have "\<forall>(t, word) \<in> set rs. entries_before s1 t" using Cons.prems(2) acc(6) by (fastforce simp: entries_before_def)
  from Cons.IH [OF acc(5) this rest(1)] acc have IH:
    "mset (hash_expected s1) = mset (map snd ls) + mset (map snd fs) + mset (hash_expected s')"
    "\<forall>(t, e) \<in> set ls. uint (fst e) + 1000000 < ring_age s t" "\<forall>(word, e) \<in> set fs. ideal_hash e = word"
    "rs \<noteq> [] \<longrightarrow> (\<forall>e \<in> set (hash_expected s'). ring_age s (fst (last rs)) \<le> uint (fst e) + 1000000)" by simp_all
  have "ring_age s (fst (last (r # rs))) \<le> uint (fst e) + 1000000" if "e \<in> set (hash_expected s')" for e
  proof (cases "rs = []")
    case True
    then show ?thesis using rest(1) acc(3) that r by simp
  qed (use IH(4) that in simp)
  moreover have "mset (hash_expected s) = mset (map snd lost) + mset (map snd found) + mset (hash_expected s')"
    unfolding rest(2,3) using acc(1) IH(1) by (simp add: comp_def)
  moreover have "\<forall>(t, e) \<in> set lost. uint (fst e) + 1000000 < ring_age s t" unfolding rest(2) using acc(2) IH(2) by auto
  moreover have "\<forall>(word, e) \<in> set found. ideal_hash e = word"
    unfolding rest(3) using acc(4) IH(3) by (auto split: option.splits)
  ultimately show ?case by blast
qed simp

lemma replies_settle:
  assumes "check_hashes s" "\<forall>(t, word) \<in> set rs. entries_before s t"
    and "\<forall>(t, word) \<in> set rs. \<forall>e \<in> set (hash_expected s). ring_age s t \<le> uint (fst e) + 1000000"
    and "mset (map snd rs) = mset (map ideal_hash (hash_expected s))" and "replies rs s = (lost, found, s')"
  shows "lost = [] \<and> hash_expected s' = []"
  using assms
proof (induction rs arbitrary: s lost found)
  case (Cons r rs)
  obtain t word where r: "r = (t, word)" by fastforce
  obtain l f s1 where one: "handleHashReply t word s = (l, f, s1)" by (metis surj_pair)
  obtain ls fs where rest: "replies rs s1 = (ls, fs, s')" "lost = map (Pair t) l @ ls"
    using Cons.prems(5) r one by (auto simp: Let_def split: prod.splits)
  have before: "entries_before s t" using Cons.prems(2) r by simp
  note acc = reply_accounts [OF Cons.prems(1) before one]
  have "set l \<subseteq> set (hash_expected s)"
    using arg_cong [OF acc(1), of set_mset] by auto
  then have l: "l = []" using acc(2) Cons.prems(3) r by (cases l) fastforce+
  have "word \<in># mset (map ideal_hash (hash_expected s))" using Cons.prems(4) [symmetric] r by simp
  then have "word \<in> ideal_hash ` set (hash_expected s)" by simp
  then obtain e where e: "f = Some e" "ideal_hash e = word" using acc(4,7) l by (cases f) auto
  then have m: "mset (hash_expected s) = add_mset e (mset (hash_expected s1))" using acc(1) l by simp
  then have sub: "set (hash_expected s1) \<subseteq> set (hash_expected s)" by (metis set_mset_mset subset_insertI set_mset_add_mset_insert)
  have "mset (map ideal_hash (hash_expected s)) = add_mset word (mset (map ideal_hash (hash_expected s1)))"
    using m e(2) by simp
  then have left: "mset (map snd rs) = mset (map ideal_hash (hash_expected s1))" using Cons.prems(4) r by simp
  have "\<forall>(t, word) \<in> set rs. entries_before s1 t" "\<forall>(t, word) \<in> set rs. \<forall>e \<in> set (hash_expected s1). ring_age s1 t \<le> uint (fst e) + 1000000"
    using Cons.prems(2,3) sub acc(6) by (fastforce simp: entries_before_def)+
  from Cons.IH [OF acc(5) this left rest(1)] l rest(2) show ?case by simp
qed simp

text \<open>
  C35. Every word sent is accounted for, and reported lost only for a reason. When hashes are checked,
  after any batch of words and any later replies, in any order and with any words that were never
  sent, each word sent is exactly one of: settled by a reply with its hash, reported lost, or still
  expected. A word is reported lost only when it is more than a second old at that reply, and after a
  reply no expected word is older than a second. So when the replies to the batch all come within a
  second, nothing is reported lost and nothing is still expected. Ages are in whole microseconds, as
  in the code; a reading of the clock is below $2^{63}$ microseconds.
\<close>
theorem ring_replies_settle:
  assumes "check_hashes s" "hash_expected s = []"
    and "\<forall>(u, ttl, data) \<in> set cs. init_timepoint s \<le> u \<and> (\<forall>(t, word) \<in> set rs. u \<le> t)"
    and "\<forall>(t, word) \<in> set rs. ring_age s t < 2 ^ 63"
    and "replies rs (sends L cs s) = (lost, found, s')"
  shows "mset (map (ring_entry L s) cs) = mset (map snd lost) + mset (map snd found) + mset (hash_expected s') \<and>
    (\<forall>(word, e) \<in> set found. ideal_hash e = word) \<and>
    (\<forall>(t, e) \<in> set lost. uint (fst e) + 1000000 < ring_age s t) \<and>
    (rs \<noteq> [] \<longrightarrow> (\<forall>e \<in> set (hash_expected s'). ring_age s (fst (last rs)) \<le> uint (fst e) + 1000000)) \<and>
    (mset (map snd rs) = mset (map (ideal_hash \<circ> ring_entry L s) cs) \<and>
      (\<forall>(t, word) \<in> set rs. \<forall>(u, ttl, data) \<in> set cs. t - u \<le> 1000000000) \<longrightarrow> lost = [] \<and> hash_expected s' = [])"
proof -
  let ?s = "sends L cs s" and ?i = "init_timepoint s"
  note after = sends_ledger [OF assms(1), of L cs, unfolded assms(2)]
  have age: "uint (fst (ring_entry L s (u, ttl, data))) = ring_age s u \<and> ring_age s u \<le> ring_age s t \<and>
      (t - u \<le> 1000000000 \<longrightarrow> ring_age s t \<le> ring_age s u + 1000000)"
    if "(u, ttl, data) \<in> set cs" "(t, word) \<in> set rs" for u ttl data t word
  proof -
    have o: "?i \<le> u" "u \<le> t" using assms(3) that by auto
    then have us: "ring_age s u = (u - ?i) div 1000" "ring_age s t = (t - ?i) div 1000" by (simp_all add: us_between_forward)
    have "(u - ?i) div 1000 < 2 ^ 63" using assms(4) that(2) us(2) o by fastforce
    moreover have "0 \<le> (u - ?i) div 1000" using o by simp
    ultimately have "uint (word_of_int (ring_age s u) :: u64) = ring_age s u"
      unfolding us by (simp add: uint_word_of_int take_bit_eq_mod)
    then show ?thesis using o us by (auto simp: ring_entry_def)
  qed
  have before: "\<forall>(t, word) \<in> set rs. entries_before ?s t"
    using after assms(4) age by (fastforce simp: entries_before_def)
  have "check_hashes ?s" using after by simp
  note acc = replies_account [OF this before assms(5)] and settle = replies_settle [OF this before _ _ assms(5)]
  have "lost = [] \<and> hash_expected s' = []"
    if "mset (map snd rs) = mset (map (ideal_hash \<circ> ring_entry L s) cs)"
      "\<forall>(t, word) \<in> set rs. \<forall>(u, ttl, data) \<in> set cs. t - u \<le> 1000000000"
  proof (rule settle)
    show "\<forall>(t, word) \<in> set rs. \<forall>e \<in> set (hash_expected ?s). ring_age ?s t \<le> uint (fst e) + 1000000"
    proof clarify
      fix t word e
      assume t: "(t, word) \<in> set rs" and "e \<in> set (hash_expected ?s)"
      then obtain u ttl data where e: "(u, ttl, data) \<in> set cs" "e = ring_entry L s (u, ttl, data)" using after by auto
      have "t - u \<le> 1000000000" using that(2) t e(1) by blast
      then show "ring_age ?s t \<le> uint (fst e) + 1000000" using age [OF e(1) t] e(2) after by simp
    qed
    show "mset (map snd rs) = mset (map ideal_hash (hash_expected ?s))" using after that(1) by (simp add: comp_def)
  qed
  then show ?thesis using acc after by simp
qed

theorem ring_replies_settle_witness:
  "let L = \<lparr>xorshift32 = (\<lambda>h ws. h * 33 + hd ws), READBACK_HASH_PCCMD = 0x45000000, RING_BUS_LENGTH = 16\<rparr>;
       s = injectFlags True False (HiggsRing 1000); h = hashReadback L;
       (lost, found, s') = replies [(900000, h 3 8), (950000, h 2 7)] (sends L [(2000, 1, 7), (4000, 2, 8)] s)
   in lost = [] \<and> hash_expected s' = []"
proof -
  let ?L = "\<lparr>xorshift32 = (\<lambda>h ws. h * 33 + hd ws), READBACK_HASH_PCCMD = 0x45000000, RING_BUS_LENGTH = 16\<rparr>"
  let ?s = "injectFlags True False (HiggsRing 1000)" and ?h = "hashReadback ?L"
  let ?rs = "[(900000, ?h 3 8), (950000, ?h 2 7)]" and ?cs = "[(2000, 1, 7), (4000, 2, 8)]"
  obtain lost found s' where run: "replies ?rs (sends ?L ?cs ?s) = (lost, found, s')" by (metis surj_pair)
  have hashes: "mset (map snd ?rs) = mset (map (ideal_hash \<circ> ring_entry ?L ?s) ?cs)"
    by (simp add: ring_entry_def ring_ttl_def)
  have "lost = [] \<and> hash_expected s' = []"
    using ring_replies_settle [OF _ _ _ _ run] hashes by (simp add: injectFlags_def HiggsRing_def us_between_forward)
  then show ?thesis using run by (simp add: Let_def)
qed

end
