(* ===== verification/Status_Code.thy ===== *)
theory Status_Code
  imports Complex_Main Std_Map "HOL-Library.List_Lexorder" "HOL-Library.Char_ord"
begin

text \<open>
  \<open>StatusCode\<close> (driver/StatusCode.cpp): the health of the parts of the modem, kept under path names. A
  status grows stale when its timeout passes; this is noticed when it is read. \<open>ScheduleData\<close>
  (driver/ScheduleData.cpp): the numbers of the transmit schedule that other threads may set.

  Paths are a type of their own, ordered as \<open>std::string\<close> is. Timeouts are seconds in double
  precision in the code and rational numbers here; the seconds that have passed are whole
  microseconds divided by a million. Every reading of the clock is an argument.
\<close>

section \<open>Paths\<close>

datatype path = Path (path_chars: string)

instantiation path :: linorder
begin

definition less_eq_path :: "path \<Rightarrow> path \<Rightarrow> bool" where
  "less_eq_path p q \<longleftrightarrow> path_chars p \<le> path_chars q"

definition less_path :: "path \<Rightarrow> path \<Rightarrow> bool" where
  "less_path p q \<longleftrightarrow> path_chars p < path_chars q"

instance
  by standard (auto simp: less_eq_path_def less_path_def path.expand)

end

section \<open>State\<close>

definition STATUS_OK :: u32 where "STATUS_OK = 0"
definition STATUS_WARN :: u32 where "STATUS_WARN = 1"
definition STATUS_ERROR :: u32 where "STATUS_ERROR = 2"
definition STATUS_STALE :: u32 where "STATUS_STALE = 3"

type_synonym status_code_t = "u32 \<times> string \<times> time_point \<times> bool \<times> bool"

record status_code =
  default_error_timestamp :: time_point
  sc_timeout :: "(path, rat) std_map"
  sc_status :: "(path, status_code_t) std_map"

definition StatusCode :: "time_point \<Rightarrow> status_code" where
  "StatusCode now = \<lparr>default_error_timestamp = now, sc_timeout = [], sc_status = []\<rparr>"

section \<open>Operations\<close>

definition sc_create :: "path \<Rightarrow> u32 \<Rightarrow> rat \<Rightarrow> bool \<Rightarrow> time_point \<Rightarrow> status_code \<Rightarrow> status_code" where
  "sc_create p status timeout print_warnings now s =
     s\<lparr>sc_status := sm_insert p (status, '''', now, False, print_warnings) (sc_status s),
       sc_timeout := sm_insert p timeout (sc_timeout s)\<rparr>"

definition sc_create_stale :: "path \<Rightarrow> rat \<Rightarrow> bool \<Rightarrow> time_point \<Rightarrow> status_code \<Rightarrow> status_code" where
  "sc_create_stale p timeout print_warnings = sc_create p STATUS_STALE timeout print_warnings"

definition sc_set :: "path \<Rightarrow> u32 \<Rightarrow> string \<Rightarrow> time_point \<Rightarrow> status_code \<Rightarrow> status_code" where
  "sc_set p status message now s =
     (case sm_find p (sc_status s) of
        Some _ \<Rightarrow> s\<lparr>sc_status := sm_assign p (status, message, now, False, True) (sc_status s)\<rparr>
      | None \<Rightarrow> sc_create p status 0 True now s)"

definition delta_t :: "time_point \<Rightarrow> time_point \<Rightarrow> rat" where
  "delta_t now t = of_int (us_between now t) / 1000000"

definition sc_updateTimeout :: "path \<Rightarrow> time_point \<Rightarrow> status_code \<Rightarrow> status_code" where
  "sc_updateTimeout p now s =
     (case (sm_find p (sc_status s), sm_find p (sc_timeout s)) of
        (Some (status, message, t, remote, auto_print), Some timeout) \<Rightarrow>
          if timeout \<noteq> 0 \<and> delta_t now t > timeout \<and> status \<noteq> STATUS_STALE
          then s\<lparr>sc_status := sm_assign p (STATUS_STALE, message, now, remote, auto_print) (sc_status s)\<rparr>
          else s
      | _ \<Rightarrow> s)"

text \<open>The status, whether it was not found, and the object.\<close>

definition sc_get :: "path \<Rightarrow> time_point \<Rightarrow> status_code \<Rightarrow> status_code_t \<times> bool \<times> status_code" where
  "sc_get p now s =
     (let s1 = sc_updateTimeout p now s
      in case sm_find p (sc_status s1) of
           None \<Rightarrow> ((STATUS_STALE, '''', default_error_timestamp s1, False, True), True, s1)
         | Some v \<Rightarrow> (v, False, s1))"

definition sc_getCode :: "path \<Rightarrow> time_point \<Rightarrow> status_code \<Rightarrow> u32 \<times> bool \<times> status_code" where
  "sc_getCode p now s = (let (v, error, s1) = sc_get p now s in (fst v, error, s1))"

definition getEnumText :: "u32 \<Rightarrow> bool \<Rightarrow> string" where
  "getEnumText st shortt =
     (if shortt
      then if st = STATUS_OK then ''OK'' else if st = STATUS_WARN then ''WARN'' else if st = STATUS_ERROR then ''ERROR''
           else if st = STATUS_STALE then ''STALE'' else ''?''
      else if st = STATUS_OK then ''STATUS_OK'' else if st = STATUS_WARN then ''STATUS_WARN'' else if st = STATUS_ERROR then ''STATUS_ERROR''
           else if st = STATUS_STALE then ''STATUS_STALE'' else ''?'')"

abbreviation endl :: string where "endl \<equiv> [CHR 0x0A]"

definition sc_getNiceText :: "path \<Rightarrow> time_point \<Rightarrow> status_code \<Rightarrow> string \<times> status_code" where
  "sc_getNiceText p now s =
     (let ((status, message, t, remote, auto_print), error, s1) = sc_get p now s
      in (if error then path_chars p @ '' not found''
          else ''Path: '' @ path_chars p @ endl @ ''  Status: '' @ getEnumText status True @ endl @
               ''  Message: '' @ message @ endl @ ''  Remote: '' @ (if remote then ''yes'' else ''no'') @ endl, s1))"

text \<open>The paths left to visit; \<open>get\<close> changes no keys, so the loop visits those it started with.\<close>

fun periodic_loop :: "path list \<Rightarrow> (nat \<Rightarrow> time_point) \<Rightarrow> nat \<Rightarrow> status_code \<Rightarrow> string \<times> status_code" where
  "periodic_loop [] clock i s = ('''', s)"
| "periodic_loop (p # ps) clock i s =
     (let ((error_status, message, t, remote, auto_print), error, s1) = sc_get p (clock i) s;
          (text, s2) = (if \<not> error \<and> auto_print \<and> error_status \<ge> STATUS_WARN
                        then let (nice, s') = sc_getNiceText p (clock (i + 1)) s1 in (nice @ endl, s') else ('''', s1));
          (rest, s3) = periodic_loop ps clock (i + 2) s2
      in (text @ rest, s3))"

definition sc_getPeriodicPrint :: "(nat \<Rightarrow> time_point) \<Rightarrow> status_code \<Rightarrow> string \<times> status_code" where
  "sc_getPeriodicPrint clock s = periodic_loop (map fst (sc_status s)) clock 0 s"

section \<open>Histories\<close>

datatype status_call =
    Create path u32 rat bool time_point
  | SetStatus path u32 string time_point
  | GetStatus path time_point

fun status_do :: "status_call \<Rightarrow> status_code \<Rightarrow> status_code" where
  "status_do (Create p st timeout pw now) s = sc_create p st timeout pw now s"
| "status_do (SetStatus p st message now) s = sc_set p st message now s"
| "status_do (GetStatus p now) s = snd (snd (sc_get p now s))"

fun call_time :: "status_call \<Rightarrow> time_point" where
  "call_time (Create p st timeout pw now) = now"
| "call_time (SetStatus p st message now) = now"
| "call_time (GetStatus p now) = now"

fun sets_path :: "path \<Rightarrow> status_call \<Rightarrow> bool" where
  "sets_path p (SetStatus q st message now) \<longleftrightarrow> p = q"
| "sets_path p _ \<longleftrightarrow> False"

definition status_ok :: "status_code \<Rightarrow> bool" where
  "status_ok s \<longleftrightarrow> sm_ok (sc_status s) \<and> sm_ok (sc_timeout s) \<and> fst ` set (sc_status s) = fst ` set (sc_timeout s)"

definition timed_out :: "rat \<Rightarrow> time_point \<Rightarrow> time_point \<Rightarrow> bool" where
  "timed_out timeout now t \<longleftrightarrow> timeout \<noteq> 0 \<and> delta_t now t > timeout"

lemma timed_out_later: "timed_out timeout now t \<Longrightarrow> now \<le> later \<Longrightarrow> t \<le> now \<Longrightarrow> timed_out timeout later t"
proof -
  assume a: "timed_out timeout now t" "now \<le> later" "t \<le> now"
  then have "us_between now t \<le> us_between later t" by (simp add: us_between_forward zdiv_mono1)
  then have "delta_t now t \<le> delta_t later t" by (simp add: delta_t_def divide_right_mono)
  then show ?thesis using a(1) by (simp add: timed_out_def)
qed

lemma status_ok_updateTimeout: "status_ok s \<Longrightarrow> status_ok (sc_updateTimeout p now s)"
proof -
  assume ok: "status_ok s"
  have "fst ` set (sm_assign p v (sc_status s)) = fst ` set (sc_status s)" if "sm_find p (sc_status s) = Some u" for u v
    using sm_find_in [OF that] by force
  then show ?thesis using ok by (auto simp: status_ok_def sc_updateTimeout_def sm_ok_assign split: option.splits)
qed

lemma status_ok_do: "status_ok s \<Longrightarrow> status_ok (status_do c s)"
proof (cases c)
  case (Create p st timeout pw now)
  assume "status_ok s"
  then show ?thesis using Create by (auto simp: status_ok_def sc_create_def sm_ok_insert)
next
  case (SetStatus p st message now)
  assume ok: "status_ok s"
  show ?thesis
  proof (cases "sm_find p (sc_status s)")
    case None
    then show ?thesis using ok SetStatus by (auto simp: status_ok_def sc_set_def sc_create_def sm_ok_insert)
  next
    case (Some v)
    then have "p \<in> fst ` set (sc_status s)" by (force dest: sm_find_in)
    then show ?thesis using ok SetStatus Some by (auto simp: status_ok_def sc_set_def sm_ok_assign)
  qed
next
  case (GetStatus p now)
  assume "status_ok s"
  then show ?thesis using GetStatus status_ok_updateTimeout by (auto simp: sc_get_def Let_def split: option.splits)
qed

text \<open>What holds of a path between two \<open>set\<close>: the status that was set, or stale and rightly so.\<close>

definition holds_status :: "path \<Rightarrow> u32 \<Rightarrow> rat \<Rightarrow> time_point \<Rightarrow> time_point \<Rightarrow> status_code \<Rightarrow> bool" where
  "holds_status p st timeout t0 now s \<longleftrightarrow> status_ok s \<and> sm_find p (sc_timeout s) = Some timeout \<and>
     (\<exists>c m t r a. sm_find p (sc_status s) = Some (c, m, t, r, a) \<and>
        (c = st \<and> t = t0 \<or> c = STATUS_STALE \<and> timed_out timeout now t0))"

lemma holds_updateTimeout:
  assumes "holds_status p st timeout t0 now s" "t0 \<le> now'" "now' \<le> now"
  shows "holds_status p st timeout t0 now (sc_updateTimeout q now' s)"
proof (cases "q = p")
  case False
  have ok: "status_ok (sc_updateTimeout q now' s)" using assms(1) status_ok_updateTimeout by (simp add: holds_status_def)
  have "sm_ok (sc_status s)" using assms(1) by (simp add: holds_status_def status_ok_def)
  then have "sm_find p (sc_status (sc_updateTimeout q now' s)) = sm_find p (sc_status s)"
    "sc_timeout (sc_updateTimeout q now' s) = sc_timeout s"
    using False by (auto simp: sc_updateTimeout_def sm_find_assign split: option.splits)
  then show ?thesis using assms(1) ok by (simp add: holds_status_def)
next
  case True
  have ok: "status_ok (sc_updateTimeout q now' s)" using assms(1) status_ok_updateTimeout by (simp add: holds_status_def)
  obtain c m t r a where f: "sm_find p (sc_status s) = Some (c, m, t, r, a)" "sm_find p (sc_timeout s) = Some timeout"
    "c = st \<and> t = t0 \<or> c = STATUS_STALE \<and> timed_out timeout now t0" "sm_ok (sc_status s)"
    using assms(1) by (auto simp: holds_status_def status_ok_def)
  show ?thesis
  proof (cases "timed_out timeout now' t \<and> c \<noteq> STATUS_STALE")
    case stale: True
    then have "timed_out timeout now t0" using f(3) timed_out_later assms(2,3) by blast
    then show ?thesis using True f stale ok
      by (simp add: holds_status_def sc_updateTimeout_def timed_out_def sm_find_assign)
  next
    case fresh: False
    then have "sc_updateTimeout q now' s = s" using True f by (auto simp: sc_updateTimeout_def timed_out_def)
    then show ?thesis using assms(1) by simp
  qed
qed

lemma holds_do:
  assumes "holds_status p st timeout t0 now s" "t0 \<le> call_time c" "call_time c \<le> now" "\<not> sets_path p c"
  shows "holds_status p st timeout t0 now (status_do c s)"
proof -
  have sm: "sm_ok (sc_status s)" "sm_ok (sc_timeout s)" and ok: "status_ok (status_do c s)"
    using assms(1) status_ok_do by (auto simp: holds_status_def status_ok_def)
  show ?thesis
  proof (cases c)
    case (Create q st' timeout' pw now')
    have "sm_find p (sc_status (status_do c s)) = sm_find p (sc_status s)" "sm_find p (sc_timeout (status_do c s)) = sm_find p (sc_timeout s)"
      using assms(1) Create sm by (auto simp: sc_create_def sm_find_insert holds_status_def)
    then show ?thesis using assms(1) ok by (simp add: holds_status_def)
  next
    case (SetStatus q st' message now')
    then have "q \<noteq> p" using assms(4) by auto
    then have "sm_find p (sc_status (status_do c s)) = sm_find p (sc_status s)" "sm_find p (sc_timeout (status_do c s)) = sm_find p (sc_timeout s)"
      using SetStatus sm by (auto simp: sc_set_def sc_create_def sm_find_assign sm_find_insert split: option.splits)
    then show ?thesis using assms(1) ok by (simp add: holds_status_def)
  next
    case (GetStatus q now')
    have "status_do c s = sc_updateTimeout q now' s" using GetStatus by (auto simp: sc_get_def Let_def split: option.splits)
    then show ?thesis using holds_updateTimeout [OF assms(1)] assms(2,3) GetStatus by simp
  qed
qed

lemma holds_fold:
  "holds_status p st timeout t0 now s \<Longrightarrow> list_all (\<lambda>c. t0 \<le> call_time c \<and> call_time c \<le> now \<and> \<not> sets_path p c) cs \<Longrightarrow>
    holds_status p st timeout t0 now (fold status_do cs s)"
  by (induction cs arbitrary: s) (simp_all add: holds_do)

text \<open>
  The first \<open>set\<close> of a path nobody created drops its message; every later one switches printing on,
  also where the path was created without it.
\<close>

lemma first_set_loses_message:
  "status_ok s \<Longrightarrow> sm_find p (sc_status s) = None \<Longrightarrow> sm_find p (sc_status (sc_set p st message now s)) = Some (st, '''', now, False, True)"
  by (simp add: sc_set_def sc_create_def sm_find_insert status_ok_def)

lemma set_switches_print_on:
  "status_ok s \<Longrightarrow> sm_find p (sc_status s) = Some v \<Longrightarrow> sm_find p (sc_status (sc_set p st message now s)) = Some (st, message, now, False, True)"
  by (simp add: sc_set_def sm_find_assign status_ok_def)

text \<open>
  A status lives as long as its timeout. Once a path exists, and whatever is created, read or set
  on other paths meanwhile, reading it gives what was set last until the timeout has passed since,
  and stale from then on, whether or not it was read in between; without a timeout it never grows
  stale.
\<close>
lemma status_lives_its_timeout:
  assumes "status_ok s" "sm_find p (sc_status s) = Some v" "sm_find p (sc_timeout s) = Some timeout"
    and "list_all (\<lambda>c. t0 \<le> call_time c \<and> call_time c \<le> now \<and> \<not> sets_path p c) cs" "t0 \<le> now"
  shows "fst (sc_getCode p now (fold status_do cs (sc_set p st message t0 s))) =
    (if timeout \<noteq> 0 \<and> delta_t now t0 > timeout then STATUS_STALE else st)"
proof -
  have "status_ok (sc_set p st message t0 s)" using status_ok_do [OF assms(1), of "SetStatus p st message t0"] by simp
  moreover have "sc_timeout (sc_set p st message t0 s) = sc_timeout s" using assms(2) by (simp add: sc_set_def)
  ultimately have "holds_status p st timeout t0 now (sc_set p st message t0 s)"
    using set_switches_print_on [OF assms(1,2)] assms(3) by (simp add: holds_status_def) blast
  from holds_fold [OF this assms(4)] obtain c m t r a where
    f: "sm_find p (sc_status (fold status_do cs (sc_set p st message t0 s))) = Some (c, m, t, r, a)"
       "sm_find p (sc_timeout (fold status_do cs (sc_set p st message t0 s))) = Some timeout"
       "c = st \<and> t = t0 \<or> c = STATUS_STALE \<and> timed_out timeout now t0"
       "sm_ok (sc_status (fold status_do cs (sc_set p st message t0 s)))"
    by (auto simp: holds_status_def status_ok_def)
  then show ?thesis by (auto simp: sc_getCode_def sc_get_def sc_updateTimeout_def timed_out_def sm_find_assign Let_def)
qed

theorem status_lives_its_timeout_witness:
  "let p = Path ''radio''; s = sc_create p STATUS_STALE 2 True 0 (StatusCode 0);
       cs = [GetStatus p 1500000000, SetStatus (Path ''tun'') STATUS_OK ''up'' 1600000000]
   in fst (sc_getCode p 1900000000 (fold status_do cs (sc_set p STATUS_OK ''fine'' 1000000000 s))) = STATUS_OK \<and>
      fst (sc_getCode p 3900000000 (fold status_do cs (sc_set p STATUS_OK ''fine'' 1000000000 s))) = STATUS_STALE"
proof -
  let ?p = "Path ''radio''"
  let ?s = "sc_create ?p STATUS_STALE 2 True 0 (StatusCode 0)"
  have s: "status_ok ?s" "sm_find ?p (sc_status ?s) = Some (STATUS_STALE, '''', 0, False, True)" "sm_find ?p (sc_timeout ?s) = Some 2"
    by (simp_all add: sc_create_def StatusCode_def status_ok_def sm_ok_def sm_find_def)
  let ?s1 = "fold status_do [GetStatus ?p 1500000000, SetStatus (Path ''tun'') STATUS_OK ''up'' 1600000000]
    (sc_set ?p STATUS_OK ''fine'' 1000000000 ?s)"
  have "fst (sc_getCode ?p now ?s1) = (if 2 \<noteq> (0 :: rat) \<and> delta_t now 1000000000 > 2 then STATUS_STALE else STATUS_OK)"
    if "now = 1900000000 \<or> now = 3900000000" for now
    using that by (intro status_lives_its_timeout [OF s]) auto
  from this [of 1900000000] this [of 3900000000] show ?thesis by (simp add: delta_t_def us_between_forward)
qed

section \<open>Schedule\<close>

record schedule_data =
  sd_early :: int
  timeslot :: "u32 list"
  sd_sleep :: rat
  timeslot_index :: int
  max_frames :: int

definition ScheduleData :: schedule_data where
  "ScheduleData = \<lparr>sd_early = 3000, timeslot = [12, 22, 32, 42], sd_sleep = 5 / 1000, timeslot_index = 0, max_frames = 4 * 512\<rparr>"

text \<open>An empty vector of timeslots is read out of range.\<close>

definition pickTimeslot :: "schedule_data \<Rightarrow> (int \<times> schedule_data) option" where
  "pickTimeslot s =
     (let i = timeslot_index s + 1;
          i = (if uint (word_of_int i :: u32) \<ge> int (length (timeslot s)) then 0 else i)
      in map_option (\<lambda>v. (sint v, s\<lparr>timeslot_index := i\<rparr>)) (vec_get (timeslot s) (nat i)))"

definition pickSecondSleep :: "schedule_data \<Rightarrow> rat" where "pickSecondSleep s = sd_sleep s"

text \<open>\<open>int\<close> times \<open>uint32_t\<close>.\<close>

definition pickPacketSize :: "u32 \<Rightarrow> schedule_data \<Rightarrow> u32" where
  "pickPacketSize words_per_frame s = word_of_int (max_frames s) * words_per_frame"

definition pickEarlyFrames :: "schedule_data \<Rightarrow> int" where "pickEarlyFrames s = sd_early s"
definition setEarlyFrames :: "int \<Rightarrow> schedule_data \<Rightarrow> schedule_data" where "setEarlyFrames v s = s\<lparr>sd_early := v\<rparr>"
definition setPacketSize :: "u32 \<Rightarrow> schedule_data \<Rightarrow> schedule_data" where "setPacketSize v s = s\<lparr>max_frames := sint v\<rparr>"
definition setSecondSleep :: "rat \<Rightarrow> schedule_data \<Rightarrow> schedule_data" where "setSecondSleep v s = s\<lparr>sd_sleep := v\<rparr>"
definition setTimeslot :: "u32 list \<Rightarrow> schedule_data \<Rightarrow> schedule_data" where "setTimeslot v s = s\<lparr>timeslot := v\<rparr>"

fun pick_slots :: "nat \<Rightarrow> schedule_data \<Rightarrow> int list option" where
  "pick_slots 0 s = Some []"
| "pick_slots (Suc n) s = (case pickTimeslot s of None \<Rightarrow> None | Some (v, s') \<Rightarrow> map_option ((#) v) (pick_slots n s'))"

text \<open>The slots are taken in turn, from the one behind the last on.\<close>

lemma pickTimeslot_next:
  assumes "timeslot s \<noteq> []" "0 \<le> timeslot_index s" "timeslot_index s < int (length (timeslot s))" "length (timeslot s) < 2 ^ 31"
  shows "pickTimeslot s = Some (sint (timeslot s ! ((nat (timeslot_index s) + 1) mod length (timeslot s))),
    s\<lparr>timeslot_index := int ((nat (timeslot_index s) + 1) mod length (timeslot s))\<rparr>)"
proof -
  obtain k where k: "timeslot_index s = int k" using assms(2) nonneg_int_cases by blast
  then have less: "k < length (timeslot s)" using assms(3) by simp
  have "unat (of_nat (k + 1) :: u32) = k + 1" using less assms(4) by (intro unat_of_nat_u32) simp
  then have "uint (of_nat (k + 1) :: u32) = int (k + 1)" by (simp only: uint_nat)
  then have u: "uint (word_of_nat k + 1 :: u32) = int k + 1" by (simp add: add.commute)
  show ?thesis
  proof (cases "k + 1 = length (timeslot s)")
    case True
    then show ?thesis using k u assms(1) by (simp add: pickTimeslot_def vec_get_def)
  next
    case False
    then have "(k + 1) mod length (timeslot s) = k + 1" "nat (int k + 1) = k + 1" using less by simp_all
    then show ?thesis using k u False less by (simp add: pickTimeslot_def vec_get_def)
  qed
qed

lemma pick_slots_in_turn:
  assumes "timeslot s \<noteq> []" "0 \<le> timeslot_index s" "timeslot_index s < int (length (timeslot s))" "length (timeslot s) < 2 ^ 31"
  shows "pick_slots n s = Some (map (\<lambda>i. sint (timeslot s ! ((nat (timeslot_index s) + 1 + i) mod length (timeslot s)))) [0..<n])"
  using assms
proof (induction n arbitrary: s)
  case (Suc n)
  let ?l = "length (timeslot s)"
  let ?k = "nat (timeslot_index s)"
  let ?s = "s\<lparr>timeslot_index := int ((?k + 1) mod ?l)\<rparr>"
  have l: "0 < ?l" using Suc.prems(1) by simp
  have ih: "pick_slots n ?s = Some (map (\<lambda>i. sint (timeslot ?s ! ((nat (timeslot_index ?s) + 1 + i) mod length (timeslot ?s)))) [0..<n])"
    using Suc.prems l by (intro Suc.IH) simp_all
  have m: "((?k + 1) mod ?l + 1 + i) mod ?l = (?k + 1 + Suc i) mod ?l" for i
    by (metis add.assoc mod_add_left_eq plus_1_eq_Suc)
  have r: "map f [0..<Suc n] = f 0 # map (\<lambda>i. f (Suc i)) [0..<n]" for f :: "nat \<Rightarrow> int"
    by (simp add: upt_conv_Cons map_Suc_upt [symmetric] comp_def del: upt_Suc)
  show ?case unfolding r pick_slots.simps pickTimeslot_next [OF Suc.prems] using ih m by simp
qed simp

end
