(* ===== verification/Peer_Network.thy ===== *)
theory Peer_Network
  imports Modem_Prelude
begin

text \<open>
  Messages between the computers of the network (driver/HiggsZmq.cpp, driver/HiggsPartner.cpp, the
  first part of driver/EventDsp.cpp). A message is published under a tag; a node gets the messages
  whose tag starts with something it has subscribed to, and hands them on: words for the ring bus to
  the radio, packets for the radio to its low priority buffer, packets for the computer through a
  libevent buffer, with their length in front, to the event thread, which takes the buffer apart.

  The socket is modelled by the messages given to it and the subscriptions; \<open>zmq_delivers\<close> is the
  documented matching of ZeroMQ, by prefix. What a call gives to the radio or to the low priority
  buffer (\<open>Ring_Bus\<close>, \<open>Flush_Higgs\<close>) is a field of the node. The function that builds a packet,
  \<open>feedback_vector_packet\<close>, is library code and an argument \<open>pk\<close>; the locale \<open>peer_bus\<close> states its
  layout, and the packets of the simulator (js/mock/fbparse.js) have it.

  A handler is \<open>None\<close> when it reads outside the message.
\<close>

section \<open>Packets\<close>

definition FEEDBACK_TYPE_VECTOR :: u32 where "FEEDBACK_TYPE_VECTOR = 2"
definition FEEDBACK_PEER_SELF :: u32 where "FEEDBACK_PEER_SELF = 1"
definition FEEDBACK_DST_PC :: u32 where "FEEDBACK_DST_PC = 0x40000000"
definition FEEDBACK_VEC_TRANSPORT_RB :: u32 where "FEEDBACK_VEC_TRANSPORT_RB = 9"
definition FEEDBACK_VEC_INVOKE_USER_DATA :: u32 where "FEEDBACK_VEC_INVOKE_USER_DATA = 10"
abbreviation FEEDBACK_HEADER_WORDS :: nat where "FEEDBACK_HEADER_WORDS \<equiv> 16"

definition feedback_peer_to_mask :: "nat \<Rightarrow> u32" where
  "feedback_peer_to_mask peer_id = push_bit ((peer_id + 1) mod 32) 1"

text \<open>The simulator's constructor of a packet, with its length set and its body behind.\<close>

definition FeedbackVector :: "u32 \<Rightarrow> u32 list \<Rightarrow> u32 \<Rightarrow> u32 \<Rightarrow> u32 list" where
  "FeedbackVector vtype body d0 d1 =
     (replicate 16 0)[0 := FEEDBACK_TYPE_VECTOR, 1 := of_nat (FEEDBACK_HEADER_WORDS + length body), 2 := d0, 3 := d1, 4 := vtype]
       @ body"

abbreviation h_type :: "u32 list \<Rightarrow> u32" where "h_type ws \<equiv> ws ! 0"
abbreviation h_destination0 :: "u32 list \<Rightarrow> u32" where "h_destination0 ws \<equiv> ws ! 2"
abbreviation h_destination1 :: "u32 list \<Rightarrow> u32" where "h_destination1 ws \<equiv> ws ! 3"
abbreviation h_vtype :: "u32 list \<Rightarrow> u32" where "h_vtype ws \<equiv> ws ! 4"

locale peer_bus =
  fixes pk :: "u32 \<Rightarrow> u32 list \<Rightarrow> u32 \<Rightarrow> u32 \<Rightarrow> u32 list"
  assumes pk_body: "drop FEEDBACK_HEADER_WORDS (pk vtype body d0 d1) = body"
    and pk_length: "length (pk vtype body d0 d1) = FEEDBACK_HEADER_WORDS + length body"
    and pk_type: "h_type (pk vtype body d0 d1) = FEEDBACK_TYPE_VECTOR"
    and pk_d0: "h_destination0 (pk vtype body d0 d1) = d0"
    and pk_d1: "h_destination1 (pk vtype body d0 d1) = d1"
    and pk_vtype: "h_vtype (pk vtype body d0 d1) = vtype"
begin

lemmas pk_layout = pk_length pk_type pk_d0 pk_d1 pk_vtype pk_body

lemma pk_inject: "pk vtype body d0 d1 = pk vtype' body' d0' d1' \<longleftrightarrow> vtype = vtype' \<and> body = body' \<and> d0 = d0' \<and> d1 = d1'"
  by (metis pk_layout)

end

interpretation js_bus: peer_bus FeedbackVector
  by unfold_locales (simp_all add: FeedbackVector_def nth_append)

section \<open>Tags\<close>

definition ZMQ_TAG_RING :: string where "ZMQ_TAG_RING = ''?''"
definition ZMQ_TAG_ALL :: string where "ZMQ_TAG_ALL = ''@''"
definition ZMQ_TAG_PEER_START :: nat where "ZMQ_TAG_PEER_START = 65"

definition zmqGetPeerTag :: "nat \<Rightarrow> string" where
  "zmqGetPeerTag peer = [char_of (ZMQ_TAG_PEER_START + peer)]"

definition zmqRbPeerTag :: "nat \<Rightarrow> string" where
  "zmqRbPeerTag peer = ZMQ_TAG_RING @ [char_of (ZMQ_TAG_PEER_START + peer)]"

text \<open>A string passed on as \<open>c_str\<close> ends at its first null.\<close>

definition c_str :: "string \<Rightarrow> string" where
  "c_str s = takeWhile (\<lambda>c. c \<noteq> CHR 0x00) s"

definition zmqSubcribes :: "nat \<Rightarrow> string list" where
  "zmqSubcribes i =
     (let node_char = char_of (ZMQ_TAG_PEER_START + i);
          rb_tag = ZMQ_TAG_RING @ [node_char];
          peer_tag = ZMQ_TAG_ALL @ [char_of i]
      in [rb_tag, take (length peer_tag) (zmqGetPeerTag i @ [CHR 0x00]), ZMQ_TAG_ALL, [node_char]])"

definition zmq_delivers :: "string list \<Rightarrow> string \<Rightarrow> bool" where
  "zmq_delivers subscriptions tag \<longleftrightarrow> list_ex (\<lambda>s. take (length s) tag = s) subscriptions"

section \<open>A node\<close>

type_synonym zmq_message = "string \<times> u8 list"

record node =
  node_id :: nat
  internal_zmq :: "zmq_message list"
  accept_remote_feedback_bus_higgs :: bool
  drop_period :: int
  pub :: "zmq_message list"
  fb_pc_in :: "u8 list"
  higgs_low :: "u8 list list"
  ring_out :: "(u32 \<times> u32) list"

subsection \<open>Publishing\<close>

definition zmqPublish :: "string \<Rightarrow> u8 list \<Rightarrow> 'a node_scheme \<Rightarrow> 'a node_scheme" where
  "zmqPublish header message n = n\<lparr>pub := pub n @ [(header, message)]\<rparr>"

definition zmqPublish_words :: "string \<Rightarrow> u32 list \<Rightarrow> 'a node_scheme \<Rightarrow> 'a node_scheme" where
  "zmqPublish_words header vec = zmqPublish header (vec_bytes vec)"

definition zmqPublishInternal :: "string \<Rightarrow> u32 list \<Rightarrow> 'a node_scheme \<Rightarrow> 'a node_scheme" where
  "zmqPublishInternal header vec n = n\<lparr>internal_zmq := internal_zmq n @ [(header, vec_bytes vec)]\<rparr>"

definition zmqPublishOrInternal :: "nat \<Rightarrow> u32 list \<Rightarrow> 'a node_scheme \<Rightarrow> 'a node_scheme" where
  "zmqPublishOrInternal peer vec n =
     (if peer = node_id n then zmqPublishInternal ZMQ_TAG_ALL vec n
      else zmqPublish_words (c_str (zmqGetPeerTag peer)) vec n)"

definition zmqRingbusPeer :: "nat \<Rightarrow> u32 \<times> u32 \<Rightarrow> 'a node_scheme \<Rightarrow> 'a node_scheme" where
  "zmqRingbusPeer peer rb = zmqPublish (zmqRbPeerTag peer) (vec_bytes [fst rb, snd rb])"

subsection \<open>Handling\<close>

definition zmqSendFeedbackBusForPcBevOffThread :: "u8 list \<Rightarrow> 'a node_scheme \<Rightarrow> 'a node_scheme" where
  "zmqSendFeedbackBusForPcBevOffThread data n =
     n\<lparr>fb_pc_in := fb_pc_in n @ word_bytes (of_nat (length data)) @ data\<rparr>"

definition zmqAcceptRemoteFeedbackBus :: "u8 list \<Rightarrow> 'a node_scheme \<Rightarrow> 'a node_scheme" where
  "zmqAcceptRemoteFeedbackBus data n =
     (let header = bytes_vec data
      in if h_destination1 header AND FEEDBACK_DST_PC \<noteq> 0 then zmqSendFeedbackBusForPcBevOffThread data n
         else if h_vtype header = FEEDBACK_VEC_INVOKE_USER_DATA then n
         else if accept_remote_feedback_bus_higgs n then n\<lparr>higgs_low := higgs_low n @ [data]\<rparr>
         else n)"

text \<open>The fields read are those up to the type of the vector, five words.\<close>

definition zmqHandleRemoteFeedbackBus :: "u8 list \<Rightarrow> 'a node_scheme \<Rightarrow> 'a node_scheme option" where
  "zmqHandleRemoteFeedbackBus data n =
     (if length data < 20 then None
      else if h_destination0 (bytes_vec data) AND feedback_peer_to_mask (node_id n) \<noteq> 0
      then Some (zmqAcceptRemoteFeedbackBus data n)
      else Some n)"

definition zmqHandleMessage :: "zmq_message \<Rightarrow> 'a node_scheme \<Rightarrow> 'a node_scheme option" where
  "zmqHandleMessage m n =
     (let (tag, data) = m
      in if take 1 tag = take 1 ZMQ_TAG_RING
         then if length data < 8 then None
              else Some (n\<lparr>ring_out := ring_out n @ [(bytes_vec data ! 0, bytes_vec data ! 1)]\<rparr>)
         else if tag = ZMQ_TAG_ALL \<or> tag = c_str (zmqGetPeerTag (node_id n)) then zmqHandleRemoteFeedbackBus data n
         else Some n)"

text \<open>
  One round of \<open>zmqRxThread\<close>: a message of two parts from the socket, if there is one and the thread
  has not just started, then one from the internal queue. Clock readings are in nanoseconds.
\<close>

definition zmq_internal :: "'a node_scheme \<Rightarrow> 'a node_scheme option" where
  "zmq_internal n =
     (case internal_zmq n of [] \<Rightarrow> Some n | m # ms \<Rightarrow> zmqHandleMessage m (n\<lparr>internal_zmq := ms\<rparr>))"

definition zmq_round :: "int \<Rightarrow> zmq_message option \<Rightarrow> 'a node_scheme \<Rightarrow> 'a node_scheme option" where
  "zmq_round now received n =
     Option.bind (case received of None \<Rightarrow> Some n | Some m \<Rightarrow> if now - drop_period n \<le> 200000000 then Some n else zmqHandleMessage m n)
       zmq_internal"

section \<open>The event thread\<close>

text \<open>
  The frames handed to \<open>handleParsedFrameForPc\<close> and the bytes that stay in the buffer. \<open>None\<close> is a
  pull beyond the buffer's end.
\<close>

function handleInboundFeedbackBusCallback :: "u8 list \<Rightarrow> (u32 list list \<times> u8 list) option" where
  "handleInboundFeedbackBusCallback buf =
     (if length buf < 8 then Some ([], buf)
      else let byte_count = hd (bytes_vec (take 4 buf))
           in if length buf < unat byte_count then Some ([], buf)
              else let bytes_consumed = unat (4 + byte_count)
                   in if bytes_consumed < 4 \<or> length buf < bytes_consumed then None
                      else let frame = drop 1 (bytes_vec (take bytes_consumed buf)); rest = drop bytes_consumed buf
                           in if length rest \<ge> 8
                              then map_option (\<lambda>(frames, left). (frame # frames, left)) (handleInboundFeedbackBusCallback rest)
                              else Some ([frame], rest))"
  by pat_completeness auto
termination
  by (relation "measure length") auto

declare handleInboundFeedbackBusCallback.simps [simp del]

text \<open>Which frames reach \<open>handlePcPcVectorType\<close>.\<close>

definition handleParsedFrameForPc :: "u32 list \<Rightarrow> bool option" where
  "handleParsedFrameForPc full_frame =
     (if length full_frame < 4 then None
      else if h_destination0 full_frame AND FEEDBACK_PEER_SELF \<noteq> 0 then Some False
      else Some (h_destination1 full_frame AND FEEDBACK_DST_PC \<noteq> 0 \<and> h_type full_frame = FEEDBACK_TYPE_VECTOR))"

section \<open>What nodes send\<close>

definition sendVectorTypeToPartnerPC where
  "sendVectorTypeToPartnerPC pk peer vtype args n =
     zmqPublishOrInternal peer (pk vtype args (feedback_peer_to_mask peer) FEEDBACK_DST_PC) n"
  for pk :: "u32 \<Rightarrow> u32 list \<Rightarrow> u32 \<Rightarrow> u32 \<Rightarrow> u32 list" and n :: "'a node_scheme"

definition sendVectorTypeToMultiPC where
  "sendVectorTypeToMultiPC pk peers vtype args n =
     (let bitfield = fold (\<lambda>peer b. b OR feedback_peer_to_mask peer) peers 0;
          for_us = node_id n \<in> set peers;
          packet = pk vtype args bitfield FEEDBACK_DST_PC;
          n1 = (if length peers = 1 then zmqPublish_words (c_str (zmqGetPeerTag (peers ! 0))) packet n
                else zmqPublish_words ZMQ_TAG_ALL packet n)
      in if for_us then zmqPublishInternal ZMQ_TAG_ALL packet n1 else n1)"
  for pk :: "u32 \<Rightarrow> u32 list \<Rightarrow> u32 \<Rightarrow> u32 \<Rightarrow> u32 list" and n :: "'a node_scheme"

definition transportRingToPartner where
  "transportRingToPartner pk peer s n =
     zmqPublish_words ZMQ_TAG_ALL (pk FEEDBACK_VEC_TRANSPORT_RB s (feedback_peer_to_mask peer) FEEDBACK_DST_PC) n"
  for pk :: "u32 \<Rightarrow> u32 list \<Rightarrow> u32 \<Rightarrow> u32 \<Rightarrow> u32 list" and n :: "'a node_scheme"

text \<open>To the radio of a peer: equalizer words, and the packets that reset it or ask for a reply.\<close>

definition FEEDBACK_DST_HIGGS :: u32 where "FEEDBACK_DST_HIGGS = 0x80000000"
definition FEEDBACK_VEC_TX_EQ :: u32 where "FEEDBACK_VEC_TX_EQ = 2"
definition FEEDBACK_VEC_STATUS_REPLY :: u32 where "FEEDBACK_VEC_STATUS_REPLY = 7"
definition FEEDBACK_VEC_TX_EQ_1 :: u32 where "FEEDBACK_VEC_TX_EQ_1 = 28"

definition setPartnerEqCore where
  "setPartnerEqCore pk peer s vtype n =
     zmqPublishOrInternal peer (pk vtype s (feedback_peer_to_mask peer) FEEDBACK_DST_HIGGS) n"
  for pk :: "u32 \<Rightarrow> u32 list \<Rightarrow> u32 \<Rightarrow> u32 \<Rightarrow> u32 list" and n :: "'a node_scheme"

definition setPartnerEq where "setPartnerEq pk peer s n = setPartnerEqCore pk peer s FEEDBACK_VEC_TX_EQ n"
  for n :: "'a node_scheme"
definition setPartnerEqOne where "setPartnerEqOne pk peer s n = setPartnerEqCore pk peer s FEEDBACK_VEC_TX_EQ_1 n"
  for n :: "'a node_scheme"

definition pingPartnerFbBus where
  "pingPartnerFbBus pk peer n =
     zmqPublishOrInternal peer (pk FEEDBACK_VEC_STATUS_REPLY (replicate 16 0) (feedback_peer_to_mask peer) FEEDBACK_DST_HIGGS) n"
  for pk :: "u32 \<Rightarrow> u32 list \<Rightarrow> u32 \<Rightarrow> u32 \<Rightarrow> u32 list" and n :: "'a node_scheme"

definition zeroPartnerEq where
  "zeroPartnerEq pk peer n =
     zmqPublishOrInternal peer (pk FEEDBACK_VEC_TX_EQ (replicate 1024 0) (feedback_peer_to_mask peer) FEEDBACK_DST_HIGGS) n"
  for pk :: "u32 \<Rightarrow> u32 list \<Rightarrow> u32 \<Rightarrow> u32 \<Rightarrow> u32 list" and n :: "'a node_scheme"

datatype peer_send =
    ToPartner nat u32 "u32 list" | ToMulti "nat list" u32 "u32 list" | TransportRing nat "u32 list"
  | PartnerEq nat "u32 list" | PartnerEqOne nat "u32 list" | PingPartner nat | ZeroPartnerEq nat
  | RingWord nat "u32 \<times> u32"

fun peer_send_do :: "(u32 \<Rightarrow> u32 list \<Rightarrow> u32 \<Rightarrow> u32 \<Rightarrow> u32 list) \<Rightarrow> peer_send \<Rightarrow> 'a node_scheme \<Rightarrow> 'a node_scheme" where
  "peer_send_do pk (ToPartner peer vtype args) n = sendVectorTypeToPartnerPC pk peer vtype args n"
| "peer_send_do pk (ToMulti peers vtype args) n = sendVectorTypeToMultiPC pk peers vtype args n"
| "peer_send_do pk (TransportRing peer s) n = transportRingToPartner pk peer s n"
| "peer_send_do pk (PartnerEq peer s) n = setPartnerEq pk peer s n"
| "peer_send_do pk (PartnerEqOne peer s) n = setPartnerEqOne pk peer s n"
| "peer_send_do pk (PingPartner peer) n = pingPartnerFbBus pk peer n"
| "peer_send_do pk (ZeroPartnerEq peer) n = zeroPartnerEq pk peer n"
| "peer_send_do pk (RingWord peer rb) n = zmqRingbusPeer peer rb n"

section \<open>Specification\<close>

text \<open>What a send means for node \<open>i\<close>: frames for its computer, for its radio, words for its ring bus.\<close>

fun frames_for :: "(u32 \<Rightarrow> u32 list \<Rightarrow> u32 \<Rightarrow> u32 \<Rightarrow> u32 list) \<Rightarrow> nat \<Rightarrow> peer_send \<Rightarrow> u32 list list" where
  "frames_for pk i (ToPartner p vtype args) = (if p = i then [pk vtype args (feedback_peer_to_mask p) FEEDBACK_DST_PC] else [])"
| "frames_for pk i (ToMulti ps vtype args) =
     (if i \<in> set ps then [pk vtype args (fold (\<lambda>p b. b OR feedback_peer_to_mask p) ps 0) FEEDBACK_DST_PC] else [])"
| "frames_for pk i (TransportRing p s) =
     (if p = i then [pk FEEDBACK_VEC_TRANSPORT_RB s (feedback_peer_to_mask p) FEEDBACK_DST_PC] else [])"
| "frames_for pk i _ = []"

fun radio_for :: "(u32 \<Rightarrow> u32 list \<Rightarrow> u32 \<Rightarrow> u32 \<Rightarrow> u32 list) \<Rightarrow> nat \<Rightarrow> peer_send \<Rightarrow> u32 list list" where
  "radio_for pk i (PartnerEq p s) = (if p = i then [pk FEEDBACK_VEC_TX_EQ s (feedback_peer_to_mask p) FEEDBACK_DST_HIGGS] else [])"
| "radio_for pk i (PartnerEqOne p s) = (if p = i then [pk FEEDBACK_VEC_TX_EQ_1 s (feedback_peer_to_mask p) FEEDBACK_DST_HIGGS] else [])"
| "radio_for pk i (PingPartner p) =
     (if p = i then [pk FEEDBACK_VEC_STATUS_REPLY (replicate 16 0) (feedback_peer_to_mask p) FEEDBACK_DST_HIGGS] else [])"
| "radio_for pk i (ZeroPartnerEq p) =
     (if p = i then [pk FEEDBACK_VEC_TX_EQ (replicate 1024 0) (feedback_peer_to_mask p) FEEDBACK_DST_HIGGS] else [])"
| "radio_for pk i _ = []"

fun ring_for :: "nat \<Rightarrow> peer_send \<Rightarrow> (u32 \<times> u32) list" where
  "ring_for i (RingWord p rb) = (if p = i then [rb] else [])"
| "ring_for i _ = []"

fun sent_to :: "peer_send \<Rightarrow> nat list" where
  "sent_to (ToPartner p _ _) = [p]"
| "sent_to (ToMulti ps _ _) = ps"
| "sent_to (TransportRing p _) = [p]"
| "sent_to (PartnerEq p _) = [p]"
| "sent_to (PartnerEqOne p _) = [p]"
| "sent_to (PingPartner p) = [p]"
| "sent_to (ZeroPartnerEq p) = [p]"
| "sent_to (RingWord p _) = [p]"

fun sent_body :: "peer_send \<Rightarrow> u32 list" where
  "sent_body (ToPartner _ _ args) = args"
| "sent_body (ToMulti _ _ args) = args"
| "sent_body (TransportRing _ s) = s"
| "sent_body (PartnerEq _ s) = s"
| "sent_body (PartnerEqOne _ s) = s"
| "sent_body _ = []"

definition send_ok :: "peer_send \<Rightarrow> bool" where
  "send_ok s \<longleftrightarrow> list_all (\<lambda>p. p \<le> 28) (sent_to s) \<and> length (sent_body s) < 2 ^ 29"

text \<open>What a send of node \<open>j\<close> publishes, and a node that takes what is published.\<close>

definition fresh_node :: "nat \<Rightarrow> node" where
  "fresh_node i = \<lparr>node_id = i, internal_zmq = [], accept_remote_feedback_bus_higgs = True, drop_period = 0, pub = [],
     fb_pc_in = [], higgs_low = [], ring_out = []\<rparr>"

definition published :: "(u32 \<Rightarrow> u32 list \<Rightarrow> u32 \<Rightarrow> u32 \<Rightarrow> u32 list) \<Rightarrow> nat \<Rightarrow> peer_send \<Rightarrow> zmq_message list" where
  "published pk j s = pub (peer_send_do pk s (fresh_node j))"

definition zmq_take :: "zmq_message \<Rightarrow> 'a node_scheme \<Rightarrow> 'a node_scheme option" where
  "zmq_take m n = (if zmq_delivers (zmqSubcribes (node_id n)) (fst m) then zmqHandleMessage m n else Some n)"

lemma peer_send_pub: "pub (peer_send_do pk s n) = pub n @ published pk (node_id n) s"
  by (cases s) (simp_all add: published_def fresh_node_def sendVectorTypeToPartnerPC_def sendVectorTypeToMultiPC_def
      transportRingToPartner_def setPartnerEq_def setPartnerEqOne_def setPartnerEqCore_def pingPartnerFbBus_def
      zeroPartnerEq_def zmqRingbusPeer_def zmqPublishOrInternal_def zmqPublish_words_def zmqPublish_def
      zmqPublishInternal_def Let_def)

section \<open>Tags and masks\<close>

lemma peer_char:
  assumes "p \<le> 28"
  shows "char_of (ZMQ_TAG_PEER_START + p) \<noteq> CHR ''?''" "char_of (ZMQ_TAG_PEER_START + p) \<noteq> CHR ''@''"
    "char_of (ZMQ_TAG_PEER_START + p) \<noteq> CHR 0x00"
    "i \<le> 28 \<Longrightarrow> char_of (ZMQ_TAG_PEER_START + p) = (char_of (ZMQ_TAG_PEER_START + i) :: char) \<longleftrightarrow> p = i"
proof -
  have of: "of_char (char_of (ZMQ_TAG_PEER_START + q) :: char) = 65 + q" if "q \<le> 28" for q
    using that by (simp add: ZMQ_TAG_PEER_START_def of_char_of)
  have ne: "char_of (ZMQ_TAG_PEER_START + p) \<noteq> c" if "of_char c \<noteq> 65 + p" for c :: char
    using of [OF assms] that by metis
  show "char_of (ZMQ_TAG_PEER_START + p) \<noteq> CHR ''?''" "char_of (ZMQ_TAG_PEER_START + p) \<noteq> CHR ''@''"
    "char_of (ZMQ_TAG_PEER_START + p) \<noteq> CHR 0x00" by (rule ne; simp)+
  show "char_of (ZMQ_TAG_PEER_START + p) = (char_of (ZMQ_TAG_PEER_START + i) :: char) \<longleftrightarrow> p = i" if "i \<le> 28"
    using of [OF assms] of [OF that] by (metis add_left_cancel)
qed

lemma peer_tag: "p \<le> 28 \<Longrightarrow> c_str (zmqGetPeerTag p) = [char_of (ZMQ_TAG_PEER_START + p)]"
  using peer_char(3) by (simp add: c_str_def zmqGetPeerTag_def)

lemma bit_mask: "p \<le> 28 \<Longrightarrow> bit (feedback_peer_to_mask p) k \<longleftrightarrow> k = p + 1"
  unfolding feedback_peer_to_mask_def bit_push_word by (auto simp: bit_1_iff)

lemma bit_masks:
  "list_all (\<lambda>p. p \<le> 28) ps \<Longrightarrow> bit (fold (\<lambda>p b. b OR feedback_peer_to_mask p) ps b0) k \<longleftrightarrow> bit b0 k \<or> (\<exists>p \<in> set ps. k = p + 1)"
  by (induction ps arbitrary: b0) (auto simp: bit_rules bit_mask)

lemma word_and_0: "a AND b = 0 \<longleftrightarrow> (\<forall>k. \<not> (bit a k \<and> bit b k))" for a b :: u32
proof
  assume "a AND b = 0"
  then have "\<not> bit (a AND b) k" for k by simp
  then show "\<forall>k. \<not> (bit a k \<and> bit b k)" by (simp add: bit_and_iff)
qed (auto intro!: bit_eqI simp: bit_and_iff)

lemma mask_addressed:
  assumes "i \<le> 28" "list_all (\<lambda>p. p \<le> 28) ps"
  shows "fold (\<lambda>p b. b OR feedback_peer_to_mask p) ps 0 AND feedback_peer_to_mask i = 0 \<longleftrightarrow> i \<notin> set ps"
    "fold (\<lambda>p b. b OR feedback_peer_to_mask p) ps 0 AND FEEDBACK_PEER_SELF = 0"
  using assms by (auto simp: word_and_0 bit_masks bit_mask FEEDBACK_PEER_SELF_def bit_1_iff)

lemma masks_one:
  assumes "i \<le> 28" "p \<le> 28"
  shows "feedback_peer_to_mask p AND feedback_peer_to_mask i = 0 \<longleftrightarrow> p \<noteq> i" "feedback_peer_to_mask p AND FEEDBACK_PEER_SELF = 0"
  using mask_addressed [OF assms(1), of "[p]"] assms(2) by auto

section \<open>Framing\<close>

definition framed :: "u32 list \<Rightarrow> u8 list" where
  "framed p = word_bytes (of_nat (4 * length p)) @ vec_bytes p"

definition message_ok :: "u32 list \<Rightarrow> bool" where
  "message_ok p \<longleftrightarrow> 0 < length p \<and> length p < 2 ^ 30 - 1"

lemma pull_one:
  assumes "message_ok p"
  shows "handleInboundFeedbackBusCallback (framed p @ rest) =
    (if length rest \<ge> 8 then map_option (\<lambda>(frames, left). (p # frames, left)) (handleInboundFeedbackBusCallback rest)
     else Some ([p], rest))"
proof -
  have n: "4 * length p < 4294967292" "0 < length p" using assms by (simp_all add: message_ok_def)
  let ?n = "of_nat (4 * length p) :: u32"
  have u: "unat ?n = 4 * length p" using n by (intro unat_of_nat_u32) simp
  have "4 + ?n = of_nat (4 + 4 * length p)" by simp
  then have u4: "unat (4 + ?n) = 4 + 4 * length p" using n by (simp del: of_nat_add of_nat_mult)
  have f: "framed p = vec_bytes (?n # p)" by (simp add: framed_def vec_bytes_Cons)
  have t: "take (4 + 4 * length p) (framed p @ rest) = vec_bytes (?n # p)" unfolding f by (simp add: vec_bytes_Cons)
  have d: "drop (4 + 4 * length p) (framed p @ rest) = rest" unfolding f by (simp add: vec_bytes_Cons)
  have h: "hd (bytes_vec (take 4 (framed p @ rest))) = ?n"
    using bytes_vec_of_bytes [of "[?n]"] unfolding framed_def by (simp add: vec_bytes_Cons)
  have l: "length (framed p @ rest) = 4 + 4 * length p + length rest" by (simp add: framed_def)
  show ?thesis
    unfolding handleInboundFeedbackBusCallback.simps [of "framed p @ rest"] h Let_def u u4 t d l bytes_vec_of_bytes
    using n by (cases p) simp_all
qed

lemma pull_all:
  "list_all message_ok ps \<Longrightarrow> length rest < 8 \<Longrightarrow>
    handleInboundFeedbackBusCallback (concat (map framed ps) @ rest) = Some (ps, rest)"
proof (induction ps)
  case Nil
  then show ?case by (simp add: handleInboundFeedbackBusCallback.simps)
next
  case (Cons p ps)
  show ?case
  proof (cases ps)
    case Nil
    then show ?thesis using Cons.prems by (simp add: pull_one)
  next
    case (Cons q qs)
    have "8 \<le> length (framed q)" using Cons.prems(1) Cons by (cases q) (simp_all add: framed_def message_ok_def)
    then have "8 \<le> length (concat (map framed ps) @ rest)" using Cons by simp
    then show ?thesis using Cons.prems Cons.IH by (simp add: pull_one)
  qed
qed

section \<open>Delivery\<close>

lemma delivers_tags:
  assumes "p \<le> 28" "i \<le> 28"
  shows "zmq_delivers (zmqSubcribes i) (c_str (zmqGetPeerTag p)) \<longleftrightarrow> p = i"
    "zmq_delivers (zmqSubcribes i) (zmqRbPeerTag p) \<longleftrightarrow> p = i"
    "zmq_delivers (zmqSubcribes i) ZMQ_TAG_ALL"
  using peer_char [OF assms(2)] peer_char(1,2) [OF assms(1)] peer_char(4) [OF assms(2,1)]
  unfolding peer_tag [OF assms(1)]
  by (auto simp: zmq_delivers_def zmqSubcribes_def zmqGetPeerTag_def zmqRbPeerTag_def ZMQ_TAG_ALL_def ZMQ_TAG_RING_def Let_def)

text \<open>What a node has after it took what a send published.\<close>

definition given :: "(u32 \<Rightarrow> u32 list \<Rightarrow> u32 \<Rightarrow> u32 \<Rightarrow> u32 list) \<Rightarrow> nat \<Rightarrow> peer_send \<Rightarrow> 'a node_scheme \<Rightarrow> 'a node_scheme" where
  "given pk i s n = n\<lparr>fb_pc_in := fb_pc_in n @ concat (map framed (frames_for pk i s)),
     higgs_low := higgs_low n @ (if accept_remote_feedback_bus_higgs n then map vec_bytes (radio_for pk i s) else []),
     ring_out := ring_out n @ ring_for i s\<rparr>"

context peer_bus
begin

lemma take_packet:
  assumes "i = node_id n" "i \<le> 28" "tag = ZMQ_TAG_ALL \<or> tag = c_str (zmqGetPeerTag i)"
  shows "zmq_take (tag, vec_bytes (pk vtype body d0 d1)) n = Some (if d0 AND feedback_peer_to_mask i = 0 then n else
    zmqAcceptRemoteFeedbackBus (vec_bytes (pk vtype body d0 d1)) n)"
proof -
  have d: "zmq_delivers (zmqSubcribes i) tag" using delivers_tags [OF assms(2,2)] assms(3) by auto
  have t: "take 1 tag \<noteq> take 1 ZMQ_TAG_RING" using peer_char(1) [OF assms(2)] assms(3) unfolding peer_tag [OF assms(2)]
    by (auto simp: ZMQ_TAG_RING_def ZMQ_TAG_ALL_def)
  then show ?thesis using assms d
    by (simp add: zmq_take_def zmqHandleMessage_def zmqHandleRemoteFeedbackBus_def pk_layout)
qed

lemma take_other:
  assumes "i = node_id n" "i \<le> 28" "p \<le> 28" "p \<noteq> i" "tag = c_str (zmqGetPeerTag p) \<or> tag = zmqRbPeerTag p"
  shows "zmq_take (tag, data) n = Some n"
  using delivers_tags [OF assms(3,2)] assms by (auto simp: zmq_take_def)

lemma take_ring:
  assumes "i = node_id n" "i \<le> 28"
  shows "zmq_take (zmqRbPeerTag i, vec_bytes [a, b]) n = Some (n\<lparr>ring_out := ring_out n @ [(a, b)]\<rparr>)"
proof -
  have "take 1 (zmqRbPeerTag i) = take 1 ZMQ_TAG_RING" by (simp add: zmqRbPeerTag_def ZMQ_TAG_RING_def)
  then show ?thesis using delivers_tags(2) [OF assms(2,2)] assms(1)
    unfolding zmq_take_def zmqHandleMessage_def by simp
qed

lemma accept_pc:
  "zmqAcceptRemoteFeedbackBus (vec_bytes (pk vtype body d0 FEEDBACK_DST_PC)) n =
    n\<lparr>fb_pc_in := fb_pc_in n @ framed (pk vtype body d0 FEEDBACK_DST_PC)\<rparr>"
  by (simp add: zmqAcceptRemoteFeedbackBus_def pk_layout zmqSendFeedbackBusForPcBevOffThread_def framed_def FEEDBACK_DST_PC_def)

lemma accept_radio:
  "vtype \<noteq> FEEDBACK_VEC_INVOKE_USER_DATA \<Longrightarrow> zmqAcceptRemoteFeedbackBus (vec_bytes (pk vtype body d0 FEEDBACK_DST_HIGGS)) n =
    n\<lparr>higgs_low := higgs_low n @ (if accept_remote_feedback_bus_higgs n then [vec_bytes (pk vtype body d0 FEEDBACK_DST_HIGGS)] else [])\<rparr>"
  by (simp add: zmqAcceptRemoteFeedbackBus_def pk_layout FEEDBACK_DST_PC_def FEEDBACK_DST_HIGGS_def)

lemmas vec_types = FEEDBACK_VEC_TX_EQ_def FEEDBACK_VEC_TX_EQ_1_def FEEDBACK_VEC_STATUS_REPLY_def FEEDBACK_VEC_INVOKE_USER_DATA_def

lemma take_one_packet:
  assumes "i = node_id n" "i \<le> 28" "p \<le> 28"
  shows "zmq_take (c_str (zmqGetPeerTag p), vec_bytes (pk vtype body (feedback_peer_to_mask p) d1)) n =
    Some (if p = i then zmqAcceptRemoteFeedbackBus (vec_bytes (pk vtype body (feedback_peer_to_mask p) d1)) n else n)"
  using take_packet [OF assms(1,2)] take_other [OF assms] masks_one [OF assms(2,3)] by auto

lemma take_sent:
  assumes "i = node_id n" "i \<le> 28" "send_ok s" "j \<noteq> i"
  shows "fold_option zmq_take (published pk j s) n = Some (given pk i s n)"
proof (cases s)
  case (ToPartner p vtype args)
  then show ?thesis using assms take_one_packet [OF assms(1,2), of p] take_packet [OF assms(1,2)] masks_one [OF assms(2), of p]
    by (auto simp: send_ok_def published_def fresh_node_def sendVectorTypeToPartnerPC_def zmqPublishOrInternal_def
        zmqPublish_words_def zmqPublish_def zmqPublishInternal_def given_def accept_pc)
next
  case (ToMulti ps vtype args)
  show ?thesis
  proof (cases "length ps = 1")
    case True
    then obtain p where p: "ps = [p]" by (cases ps) auto
    show ?thesis using ToMulti p assms take_one_packet [OF assms(1,2), of p]
      by (auto simp: send_ok_def published_def fresh_node_def sendVectorTypeToMultiPC_def zmqPublish_words_def zmqPublish_def
          zmqPublishInternal_def given_def accept_pc Let_def)
  next
    case False
    then show ?thesis using ToMulti assms take_packet [OF assms(1,2)] mask_addressed(1) [OF assms(2), of ps]
      by (auto simp: send_ok_def published_def fresh_node_def sendVectorTypeToMultiPC_def zmqPublish_words_def zmqPublish_def
          zmqPublishInternal_def given_def accept_pc Let_def)
  qed
next
  case (TransportRing p ws)
  then show ?thesis using assms take_packet [OF assms(1,2)] masks_one [OF assms(2), of p]
    by (auto simp: send_ok_def published_def fresh_node_def transportRingToPartner_def zmqPublish_words_def zmqPublish_def
        given_def accept_pc)
next
  case (RingWord p rb)
  then show ?thesis using assms take_ring [OF assms(1,2)] take_other [OF assms(1,2), of p]
    by (auto simp: send_ok_def published_def fresh_node_def zmqRingbusPeer_def zmqPublish_def given_def)
qed (use assms take_one_packet [OF assms(1,2)] in \<open>auto simp: send_ok_def published_def fresh_node_def setPartnerEq_def
  setPartnerEqOne_def setPartnerEqCore_def pingPartnerFbBus_def zeroPartnerEq_def zmqPublishOrInternal_def zmqPublish_words_def
  zmqPublish_def zmqPublishInternal_def given_def accept_radio vec_types\<close>)

lemma take_all:
  "i = node_id n \<Longrightarrow> i \<le> 28 \<Longrightarrow> list_all (\<lambda>(j, s). j \<noteq> i \<and> send_ok s) hs \<Longrightarrow>
    fold_option zmq_take (concat (map (\<lambda>(j, s). published pk j s) hs)) n = Some (fold (\<lambda>(j, s). given pk i s) hs n)"
proof (induction hs arbitrary: n)
  case (Cons h hs)
  obtain j s where h: "h = (j, s)" by force
  have "fold_option zmq_take (concat (map (\<lambda>(j, s). published pk j s) hs)) (given pk i s n) =
      Some (fold (\<lambda>(j, s). given pk i s) hs (given pk i s n))"
    using Cons.prems by (intro Cons.IH) (simp_all add: given_def)
  moreover have "fold_option zmq_take (published pk j s) n = Some (given pk i s n)"
    using Cons.prems h by (intro take_sent) simp_all
  ultimately show ?case using h by (simp add: fold_option_append)
qed simp

lemma messages_ok:
  assumes "i \<le> 28" "send_ok s"
  shows "list_all message_ok (frames_for pk i s)" "list_all (\<lambda>f. handleParsedFrameForPc f = Some True) (frames_for pk i s)"
  using assms mask_addressed(2) [OF assms(1)] masks_one(2) [OF assms(1)]
  by (cases s; auto simp: message_ok_def pk_layout send_ok_def handleParsedFrameForPc_def FEEDBACK_DST_PC_def)+

lemma own_message:
  assumes "i = node_id n" "i \<le> 28" "send_ok s" "i \<in> set (sent_to s)" "internal_zmq n = []"
    and "case s of RingWord _ _ \<Rightarrow> False | TransportRing _ _ \<Rightarrow> False | _ \<Rightarrow> True"
  shows "zmq_internal (peer_send_do pk s n) = Some (given pk i s (n\<lparr>pub := pub n @ published pk i s\<rparr>))"
proof -
  have all: "zmqHandleMessage (ZMQ_TAG_ALL, vec_bytes (pk vtype body d0 d1)) m = Some (if d0 AND feedback_peer_to_mask i = 0 then m else
    zmqAcceptRemoteFeedbackBus (vec_bytes (pk vtype body d0 d1)) m)" if "node_id m = i" for vtype body d0 d1 and m :: "'a node_scheme"
    using take_packet [of i m ZMQ_TAG_ALL vtype body d0 d1] delivers_tags(3) [OF assms(2,2)] assms(2) that by (simp add: zmq_take_def)
  show ?thesis
    using assms masks_one(1) [OF assms(2,2)] mask_addressed(1) [OF assms(2)]
    by (cases s) (auto simp: zmq_internal_def all accept_pc accept_radio vec_types send_ok_def published_def fresh_node_def
        sendVectorTypeToPartnerPC_def sendVectorTypeToMultiPC_def setPartnerEq_def setPartnerEqOne_def setPartnerEqCore_def
        pingPartnerFbBus_def zeroPartnerEq_def zmqPublishOrInternal_def zmqPublish_words_def zmqPublish_def
        zmqPublishInternal_def given_def Let_def)
qed

end

lemma given_all:
  "fb_pc_in (fold (\<lambda>(j, s). given pk i s) hs n) = fb_pc_in n @ concat (map framed (concat (map (\<lambda>(j, s). frames_for pk i s) hs)))"
  "higgs_low (fold (\<lambda>(j, s). given pk i s) hs n) = higgs_low n @
    (if accept_remote_feedback_bus_higgs n then map vec_bytes (concat (map (\<lambda>(j, s). radio_for pk i s) hs)) else [])"
  "ring_out (fold (\<lambda>(j, s). given pk i s) hs n) = ring_out n @ concat (map (\<lambda>(j, s). ring_for i s) hs)"
  "pub (fold (\<lambda>(j, s). given pk i s) hs n) = pub n"
  by (induction hs arbitrary: n) (auto simp: given_def)

section \<open>Two threads and a buffer\<close>

text \<open>
  \<open>zmqSendFeedbackBusForPcBevOffThread\<close> writes the length and the packet one after the other, and the
  callback may run at any time: messages not yet written, whether the length of the first of them is
  written, the buffer, the frames handled.
\<close>

inductive bev_reaches :: "u32 list list \<Rightarrow> u32 list list \<times> bool \<times> u8 list \<times> u32 list list \<Rightarrow> bool" for ps where
  Start: "bev_reaches ps (ps, False, [], [])"
| WriteLength: "bev_reaches ps (p # todo, False, buf, handled) \<Longrightarrow>
    bev_reaches ps (p # todo, True, buf @ word_bytes (of_nat (4 * length p)), handled)"
| WriteData: "bev_reaches ps (p # todo, True, buf, handled) \<Longrightarrow> bev_reaches ps (todo, False, buf @ vec_bytes p, handled)"
| Callback: "bev_reaches ps (todo, half, buf, handled) \<Longrightarrow> handleInboundFeedbackBusCallback buf = Some (frames, rest) \<Longrightarrow>
    bev_reaches ps (todo, half, rest, handled @ frames)"

lemma bev_invariant:
  "bev_reaches ps st \<Longrightarrow> list_all message_ok ps \<Longrightarrow> case st of (todo, half, buf, handled) \<Rightarrow>
    \<exists>waiting. handled @ waiting @ todo = ps \<and> (half \<longrightarrow> todo \<noteq> []) \<and>
      buf = concat (map framed waiting) @ (if half then word_bytes (of_nat (4 * length (hd todo))) else [])"
proof (induction rule: bev_reaches.induct)
  case (WriteLength p todo buf handled)
  then show ?case by auto
next
  case (WriteData p todo buf handled)
  then obtain waiting where w: "handled @ waiting @ p # todo = ps"
    "buf = concat (map framed waiting) @ word_bytes (of_nat (4 * length p))" by auto
  then have "handled @ (waiting @ [p]) @ todo = ps \<and> buf @ vec_bytes p = concat (map framed (waiting @ [p]))"
    by (simp add: framed_def)
  then show ?case unfolding case_prod_conv by (intro exI [of _ "waiting @ [p]"]) simp
next
  case (Callback todo half buf handled frames rest)
  then obtain waiting where w: "handled @ waiting @ todo = ps" "half \<longrightarrow> todo \<noteq> []"
    "buf = concat (map framed waiting) @ (if half then word_bytes (of_nat (4 * length (hd todo))) else [])" by auto
  have "list_all message_ok waiting" using Callback.prems unfolding w(1) [symmetric] by simp
  from pull_all [OF this, of "if half then word_bytes (of_nat (4 * length (hd todo))) else []"]
  have "frames = waiting" "rest = (if half then word_bytes (of_nat (4 * length (hd todo))) else [])"
    using Callback.hyps w(3) by (simp_all split: if_splits)
  then show ?case using w by (intro case_prodI exI [of _ "[]"]) simp_all
qed simp

section \<open>Properties\<close>

text \<open>
  C9. Messages reach those they are for. Whatever the other nodes send, to one peer or to several, and
  in whatever order it arrives, a node's event thread gets exactly the packets for its computer, each
  once, unchanged and in order, and accepts each; its low priority buffer gets those for its radio,
  if it takes them, and its ring bus the words for it.
\<close>
theorem peer_messages_delivered:
  assumes "peer_bus pk" "node_id n = i" "i \<le> 28" "fb_pc_in n = []" "list_all (\<lambda>(j, s). j \<noteq> i \<and> send_ok s) hs"
  shows "\<exists>n'. fold_option zmq_take (concat (map (\<lambda>(j, s). published pk j s) hs)) n = Some n' \<and>
    handleInboundFeedbackBusCallback (fb_pc_in n') = Some (concat (map (\<lambda>(j, s). frames_for pk i s) hs), []) \<and>
    list_all (\<lambda>f. handleParsedFrameForPc f = Some True) (concat (map (\<lambda>(j, s). frames_for pk i s) hs)) \<and>
    higgs_low n' = higgs_low n @
      (if accept_remote_feedback_bus_higgs n then map vec_bytes (concat (map (\<lambda>(j, s). radio_for pk i s) hs)) else []) \<and>
    ring_out n' = ring_out n @ concat (map (\<lambda>(j, s). ring_for i s) hs)"
proof -
  have ok: "list_all message_ok (concat (map (\<lambda>(j, s). frames_for pk i s) hs)) \<and>
      list_all (\<lambda>f. handleParsedFrameForPc f = Some True) (concat (map (\<lambda>(j, s). frames_for pk i s) hs))"
    using assms(5) peer_bus.messages_ok [OF assms(1,3)] by (induction hs) auto
  show ?thesis
    using peer_bus.take_all [OF assms(1) assms(2) [symmetric] assms(3,5)] ok pull_all [of _ "[]"] assms(4)
    by (simp add: given_all)
qed

theorem peer_messages_delivered_witness:
  "\<exists>n'. fold_option zmq_take (concat (map (\<lambda>(j, s). published FeedbackVector j s)
      [(0, ToPartner 2 15 [7]), (1, ToMulti [0, 2] 22 [8, 9]), (1, ToPartner 3 15 [1]), (0, RingWord 2 (3, 4))])) (fresh_node 2) = Some n' \<and>
    map (drop 16) (fst (the (handleInboundFeedbackBusCallback (fb_pc_in n')))) = [[7], [8, 9]] \<and> ring_out n' = [(3, 4)]"
proof -
  let ?hs = "[(0, ToPartner 2 15 [7]), (1, ToMulti [0, 2] 22 [8, 9]), (1, ToPartner 3 15 [1]), (0, RingWord 2 (3, 4))] :: (nat \<times> peer_send) list"
  have "\<exists>n'. fold_option zmq_take (concat (map (\<lambda>(j, s). published FeedbackVector j s) ?hs)) (fresh_node 2) = Some n' \<and>
    handleInboundFeedbackBusCallback (fb_pc_in n') = Some (concat (map (\<lambda>(j, s). frames_for FeedbackVector 2 s) ?hs), []) \<and>
    list_all (\<lambda>f. handleParsedFrameForPc f = Some True) (concat (map (\<lambda>(j, s). frames_for FeedbackVector 2 s) ?hs)) \<and>
    higgs_low n' = higgs_low (fresh_node 2) @ (if accept_remote_feedback_bus_higgs (fresh_node 2)
      then map vec_bytes (concat (map (\<lambda>(j, s). radio_for FeedbackVector 2 s) ?hs)) else []) \<and>
    ring_out n' = ring_out (fresh_node 2) @ concat (map (\<lambda>(j, s). ring_for 2 s) ?hs)"
    by (rule peer_messages_delivered [where i = 2 and hs = ?hs and n = "fresh_node 2", OF js_bus.peer_bus_axioms])
      (simp_all add: fresh_node_def send_ok_def)
  then obtain n' where n: "fold_option zmq_take (concat (map (\<lambda>(j, s). published FeedbackVector j s) ?hs)) (fresh_node 2) = Some n'"
    "handleInboundFeedbackBusCallback (fb_pc_in n') = Some (concat (map (\<lambda>(j, s). frames_for FeedbackVector 2 s) ?hs), [])"
    "ring_out n' = ring_out (fresh_node 2) @ concat (map (\<lambda>(j, s). ring_for 2 s) ?hs)" by blast
  have "map (drop 16) (concat (map (\<lambda>(j, s). frames_for FeedbackVector 2 s) ?hs)) = [[7], [8, 9]]"
    by (simp add: js_bus.pk_body)
  then show ?thesis using n by (intro exI [of _ n']) (simp add: fresh_node_def)
qed

text \<open>
  C36. The threads stay in step. However the two writes of each message and the runs of the callback
  interleave, a callback never pulls beyond the buffer, and takes exactly the messages that are
  complete and not yet handled; a length written ahead stays for its message.
\<close>
theorem bev_stays_in_step:
  assumes "bev_reaches ps (todo, half, buf, handled)" "list_all message_ok ps"
  shows "\<exists>frames. handleInboundFeedbackBusCallback buf =
      Some (frames, if half then word_bytes (of_nat (4 * length (hd todo))) else []) \<and> handled @ frames @ todo = ps"
proof -
  from bev_invariant [OF assms] obtain waiting where w: "handled @ waiting @ todo = ps"
    "buf = concat (map framed waiting) @ (if half then word_bytes (of_nat (4 * length (hd todo))) else [])" by auto
  have "list_all message_ok waiting" using assms(2) unfolding w(1) [symmetric] by simp
  from pull_all [OF this, of "if half then word_bytes (of_nat (4 * length (hd todo))) else []"] show ?thesis
    using w by (simp split: if_splits)
qed

theorem bev_stays_in_step_witness:
  "\<exists>frames. handleInboundFeedbackBusCallback (word_bytes (of_nat (4 * length [1, 2 :: u32])) @ vec_bytes [1, 2] @ word_bytes 4) =
    Some (frames, word_bytes 4) \<and> frames @ [[9]] = [[1, 2], [9]]"
proof -
  note r = bev_reaches.WriteLength [OF bev_reaches.WriteData [OF bev_reaches.WriteLength [OF bev_reaches.Start [of "[[1, 2], [9]]"]]]]
  from bev_stays_in_step [OF r] show ?thesis by (simp add: message_ok_def)
qed

end
