(* ===== verification/Peer_Handlers.thy ===== *)
theory Peer_Handlers
  imports Peer_Network Retransmission Tx_Schedule
begin

text \<open>
  What the event thread does with a packet from another computer
  (\<open>EventDsp::handlePcPcVectorType\<close>, driver/EventDsp.cpp), the fetching of values from a peer
  (driver/EventDspFetch.cpp), and the wait for the peers (\<open>allPeersConnected\<close>,
  driver/EventDspFsm.cpp). A handler works on \<open>pc\<close>, the node with the parts its messages go to.

  The readings of the clock, the prediction of the schedule and \<open>SCHEDULE_SLOTS\<close> are \<open>pc_env\<close>. A
  \<open>double\<close> is its 64 bits. A callback is a number its caller chose; a call of it is a value in
  \<open>fetched\<close>.
\<close>

section \<open>State\<close>

definition FEEDBACK_VEC_DELIVER_FSM_EVENT :: u32 where "FEEDBACK_VEC_DELIVER_FSM_EVENT = 11"
definition FEEDBACK_VEC_UPLINK :: u32 where "FEEDBACK_VEC_UPLINK = 12"
definition FEEDBACK_VEC_PACKET_HASH :: u32 where "FEEDBACK_VEC_PACKET_HASH = 15"
definition FEEDBACK_VEC_REQ_RETRANSMIT :: u32 where "FEEDBACK_VEC_REQ_RETRANSMIT = 16"
definition FEEDBACK_VEC_REQUEST_ID :: u32 where "FEEDBACK_VEC_REQUEST_ID = 17"
definition FEEDBACK_VEC_REPLY_ID :: u32 where "FEEDBACK_VEC_REPLY_ID = 18"
definition FEEDBACK_VEC_FETCH_REQUEST :: u32 where "FEEDBACK_VEC_FETCH_REQUEST = 20"
definition FEEDBACK_VEC_FETCH_REPLY :: u32 where "FEEDBACK_VEC_FETCH_REPLY = 21"
definition FEEDBACK_VEC_JOINT_TRANSMIT :: u32 where "FEEDBACK_VEC_JOINT_TRANSMIT = 22"
definition FEEDBACK_VEC_JOINT_ACK :: u32 where "FEEDBACK_VEC_JOINT_ACK = 23"

named_theorems packet_types

declare FEEDBACK_VEC_TRANSPORT_RB_def [packet_types] FEEDBACK_VEC_DELIVER_FSM_EVENT_def [packet_types]
  FEEDBACK_VEC_UPLINK_def [packet_types] FEEDBACK_VEC_PACKET_HASH_def [packet_types] FEEDBACK_VEC_REQ_RETRANSMIT_def [packet_types]
  FEEDBACK_VEC_REQUEST_ID_def [packet_types] FEEDBACK_VEC_REPLY_ID_def [packet_types] FEEDBACK_VEC_FETCH_REQUEST_def [packet_types]
  FEEDBACK_VEC_FETCH_REPLY_def [packet_types] FEEDBACK_VEC_JOINT_TRANSMIT_def [packet_types] FEEDBACK_VEC_JOINT_ACK_def [packet_types]

type_synonym packet_fn = "u32 \<Rightarrow> u32 list \<Rightarrow> u32 \<Rightarrow> u32 \<Rightarrow> u32 list"
type_synonym pending_fetch = "u32 \<times> u64 \<times> nat"

datatype fetch_value = Fetched_double u64 | Fetched_uint32 u32 | Fetched_pair u32 u32

record pc = node +
  radios_rb :: "(u32 \<times> u32 list) list"
  events_bev :: "(u32 \<times> u32) list"
  rx2tun :: packets
  hash_tx :: verify_hash
  arb_buffer :: retransmit_buffer
  sched :: tx_sched
  role_arb :: bool
  peer_state_got :: "nat list"
  zmq_callback :: bool
  zmqCallbackVTypes :: "u32 list"
  zmq_called :: "u32 list list"
  times_tried_attached_feedback_bus :: u32
  fetch_seq :: u32
  pending_fetch_double :: "pending_fetch list"
  pending_fetch_uint32_t :: "pending_fetch list"
  pending_fetch_pair_uint32_t_uint32_t :: "pending_fetch list"
  fetched :: "(nat \<times> fetch_value) list"

record pc_env =
  env_now :: time_point
  env_later :: time_point
  env_est :: "u32 \<times> u32"
  env_slots :: u32
  env_attached :: bool

section \<open>Fetching\<close>

definition test0 :: u64 where "test0 = 0x404535c28f5c28f6"

definition fetch_header :: "pc \<Rightarrow> u32 \<Rightarrow> u32 \<Rightarrow> u32 \<Rightarrow> u32 list" where
  "fetch_header n ftype index seq = [of_nat (node_id n), ftype, index, seq]"

definition zmqFetchReply_double :: "packet_fn \<Rightarrow> u64 \<Rightarrow> u32 \<Rightarrow> u32 \<Rightarrow> u32 \<Rightarrow> u32 \<Rightarrow> pc \<Rightarrow> pc" where
  "zmqFetchReply_double pk v asker ftype index seq n =
     sendVectorTypeToPartnerPC pk (unat asker) FEEDBACK_VEC_FETCH_REPLY
       (fetch_header n ftype index seq @ [ucast v, ucast (drop_bit 32 v)]) n"

definition zmqFetchReply_uint32_t :: "packet_fn \<Rightarrow> u32 \<Rightarrow> u32 \<Rightarrow> u32 \<Rightarrow> u32 \<Rightarrow> u32 \<Rightarrow> pc \<Rightarrow> pc" where
  "zmqFetchReply_uint32_t pk v asker ftype index seq n =
     sendVectorTypeToPartnerPC pk (unat asker) FEEDBACK_VEC_FETCH_REPLY (fetch_header n ftype index seq @ [v]) n"

definition zmqFetchReply_pair_uint32_t_uint32_t ::
    "packet_fn \<Rightarrow> u32 \<times> u32 \<Rightarrow> u32 \<Rightarrow> u32 \<Rightarrow> u32 \<Rightarrow> u32 \<Rightarrow> pc \<Rightarrow> pc" where
  "zmqFetchReply_pair_uint32_t_uint32_t pk v asker ftype index seq n =
     sendVectorTypeToPartnerPC pk (unat asker) FEEDBACK_VEC_FETCH_REPLY (fetch_header n ftype index seq @ [fst v, snd v]) n"

text \<open>The value behind an index, with its type as the constructor.\<close>

definition fetch_source :: "pc_env \<Rightarrow> pc \<Rightarrow> u32 \<Rightarrow> fetch_value option" where
  "fetch_source env n index =
     (if index = 0 then Some (Fetched_double test0)
      else if index = 1 then Some (Fetched_uint32 (times_tried_attached_feedback_bus n))
      else if index = 2 then Some (Fetched_uint32 (of_nat (node_id n)))
      else if index = 3 \<and> env_attached env then Some (Fetched_pair (fst (env_est env)) (snd (env_est env)))
      else None)"

fun fetch_type :: "fetch_value \<Rightarrow> u32" where
  "fetch_type (Fetched_double _) = 1"
| "fetch_type (Fetched_uint32 _) = 2"
| "fetch_type (Fetched_pair _ _) = 3"

definition zmqFetch :: "packet_fn \<Rightarrow> pc_env \<Rightarrow> u32 list \<Rightarrow> pc \<Rightarrow> pc" where
  "zmqFetch pk env data_vec n =
     (if length data_vec < 4 then n
      else let asker = data_vec ! 0; ftype = data_vec ! 1; index = data_vec ! 2; seq = data_vec ! 3
           in case fetch_source env n index of
                None \<Rightarrow> n
              | Some v \<Rightarrow>
                  if fetch_type v \<noteq> ftype then n
                  else case v of
                         Fetched_double d \<Rightarrow> zmqFetchReply_double pk d asker ftype index seq n
                       | Fetched_uint32 w \<Rightarrow> zmqFetchReply_uint32_t pk w asker ftype index seq n
                       | Fetched_pair a b \<Rightarrow> zmqFetchReply_pair_uint32_t_uint32_t pk (a, b) asker ftype index seq n)"

definition zmqFetchFromPartner_shared :: "u64 \<Rightarrow> u32 \<Rightarrow> u32 \<Rightarrow> pc \<Rightarrow> (u32 \<times> u64 \<times> u32 list) \<times> pc" where
  "zmqFetchFromPartner_shared elapsed_us index ftype n =
     ((fetch_seq n, elapsed_us, fetch_header n ftype index (fetch_seq n)), n\<lparr>fetch_seq := fetch_seq n + 1\<rparr>)"

definition zmqFetchFromPartner_double :: "packet_fn \<Rightarrow> u64 \<Rightarrow> nat \<Rightarrow> u32 \<Rightarrow> nat \<Rightarrow> pc \<Rightarrow> pc" where
  "zmqFetchFromPartner_double pk elapsed peer index cb n =
     (let ((seq, elapsed_us, payload), n1) = zmqFetchFromPartner_shared elapsed index 1 n
      in sendVectorTypeToPartnerPC pk peer FEEDBACK_VEC_FETCH_REQUEST payload
           (n1\<lparr>pending_fetch_double := pending_fetch_double n1 @ [(seq, elapsed_us, cb)]\<rparr>))"

definition zmqFetchFromPartner_uint32_t :: "packet_fn \<Rightarrow> u64 \<Rightarrow> nat \<Rightarrow> u32 \<Rightarrow> nat \<Rightarrow> pc \<Rightarrow> pc" where
  "zmqFetchFromPartner_uint32_t pk elapsed peer index cb n =
     (let ((seq, elapsed_us, payload), n1) = zmqFetchFromPartner_shared elapsed index 2 n
      in sendVectorTypeToPartnerPC pk peer FEEDBACK_VEC_FETCH_REQUEST payload
           (n1\<lparr>pending_fetch_uint32_t := pending_fetch_uint32_t n1 @ [(seq, elapsed_us, cb)]\<rparr>))"

definition zmqFetchFromPartner_pair_uint32_t_uint32_t :: "packet_fn \<Rightarrow> u64 \<Rightarrow> nat \<Rightarrow> u32 \<Rightarrow> nat \<Rightarrow> pc \<Rightarrow> pc" where
  "zmqFetchFromPartner_pair_uint32_t_uint32_t pk elapsed peer index cb n =
     (let ((seq, elapsed_us, payload), n1) = zmqFetchFromPartner_shared elapsed index 3 n
      in sendVectorTypeToPartnerPC pk peer FEEDBACK_VEC_FETCH_REQUEST payload
           (n1\<lparr>pending_fetch_pair_uint32_t_uint32_t := pending_fetch_pair_uint32_t_uint32_t n1 @ [(seq, elapsed_us, cb)]\<rparr>))"

text \<open>The first entry with the sequence number is erased, its callback called.\<close>

fun fetch_dispatch :: "u32 \<Rightarrow> pending_fetch list \<Rightarrow> nat option \<times> pending_fetch list" where
  "fetch_dispatch seq [] = (None, [])"
| "fetch_dispatch seq ((vec_seq, vec_elapsed_us, vec_cb) # es) =
     (if vec_seq = seq then (Some vec_cb, es)
      else let (cb, es') = fetch_dispatch seq es in (cb, (vec_seq, vec_elapsed_us, vec_cb) # es'))"

definition call_back :: "nat option \<Rightarrow> fetch_value \<Rightarrow> pc \<Rightarrow> pc" where
  "call_back cb v n = (case cb of None \<Rightarrow> n | Some c \<Rightarrow> n\<lparr>fetched := fetched n @ [(c, v)]\<rparr>)"

definition zmqFetchDispatchReply :: "u32 list \<Rightarrow> pc \<Rightarrow> pc" where
  "zmqFetchDispatchReply data_vec n =
     (if length data_vec < 4 then n
      else let ftype = data_vec ! 1; seq = data_vec ! 3
           in if ftype = 1
              then if length data_vec < 6 then n
                   else let (cb, es) = fetch_dispatch seq (pending_fetch_double n)
                        in call_back cb (Fetched_double (push_bit 32 (ucast (data_vec ! 5)) OR ucast (data_vec ! 4)))
                             (n\<lparr>pending_fetch_double := es\<rparr>)
              else if ftype = 2
              then if length data_vec < 5 then n
                   else let (cb, es) = fetch_dispatch seq (pending_fetch_uint32_t n)
                        in call_back cb (Fetched_uint32 (data_vec ! 4)) (n\<lparr>pending_fetch_uint32_t := es\<rparr>)
              else if ftype = 3
              then if length data_vec < 6 then n
                   else let (cb, es) = fetch_dispatch seq (pending_fetch_pair_uint32_t_uint32_t n)
                        in call_back cb (Fetched_pair (data_vec ! 4) (data_vec ! 5)) (n\<lparr>pending_fetch_pair_uint32_t_uint32_t := es\<rparr>)
              else n)"

section \<open>Handlers\<close>

definition custom_event_to_vector :: "u32 \<times> u32 \<Rightarrow> u32 list" where
  "custom_event_to_vector e = [fst e, snd e]"

definition vector_to_custom_event :: "u32 list \<Rightarrow> (u32 \<times> u32) option" where
  "vector_to_custom_event vec = (if length vec = 2 then Some (vec ! 0, vec ! 1) else None)"

definition sendCustomEventToPartner :: "packet_fn \<Rightarrow> nat \<Rightarrow> u32 \<times> u32 \<Rightarrow> 'a node_scheme \<Rightarrow> 'a node_scheme" where
  "sendCustomEventToPartner pk peer e n =
     zmqPublishOrInternal peer
       (pk FEEDBACK_VEC_DELIVER_FSM_EVENT (custom_event_to_vector e) (feedback_peer_to_mask peer) FEEDBACK_DST_PC) n"

definition sendEvent :: "u32 \<times> u32 \<Rightarrow> pc \<Rightarrow> pc" where
  "sendEvent e n = n\<lparr>events_bev := events_bev n @ [e]\<rparr>"

definition peerConnectedReply :: "u32 \<Rightarrow> pc \<Rightarrow> pc" where
  "peerConnectedReply i n =
     (let got = (if peer_state_got n = [] then replicate 32 0 else peer_state_got n)
      in if unat i \<ge> length got then n\<lparr>peer_state_got := got\<rparr>
         else n\<lparr>peer_state_got := got[unat i := got ! unat i + 1]\<rparr>)"

text \<open>The last radio with the peer's id gets the words.\<close>

fun ring_to_radio :: "u32 \<Rightarrow> u32 list \<Rightarrow> (u32 \<times> u32 list) list \<Rightarrow> (u32 \<times> u32 list) list option" where
  "ring_to_radio peer ws [] = None"
| "ring_to_radio peer ws ((q, buf) # rs) =
     (case ring_to_radio peer ws rs of
        Some rs' \<Rightarrow> Some ((q, buf) # rs')
      | None \<Rightarrow> if q = peer then Some ((q, buf @ ws) # rs) else None)"

fun sendJointAck :: "packet_fn \<Rightarrow> joint_ack \<Rightarrow> pc \<Rightarrow> pc" where
  "sendJointAck pk (JointAck peer packet_epoc packet_ts seq rx_epoc rx_ts dropped) n =
     sendVectorTypeToPartnerPC pk (unat peer) FEEDBACK_VEC_JOINT_ACK
       [of_nat (node_id n), packet_epoc, packet_ts, ucast seq, rx_epoc, rx_ts, if dropped then 1 else 0] n"
| "sendJointAck pk (JointAckLifetime peer packet_lifetime seq now_lifetime dropped) n =
     sendVectorTypeToPartnerPC pk (unat peer) FEEDBACK_VEC_JOINT_ACK
       [of_nat (node_id n), 0, packet_lifetime, ucast seq, 0, now_lifetime, if dropped then 1 else 0] n"

definition pc_joint :: "packet_fn \<Rightarrow> pc_env \<Rightarrow> u32 list \<Rightarrow> pc \<Rightarrow> pc option" where
  "pc_joint pk env data_vec n =
     map_option (\<lambda>(acks, s). fold (sendJointAck pk) acks (n\<lparr>sched := s\<rparr>))
       (handleJointTransmit (env_slots env) (env_est env) data_vec (sched n))"

definition pc_vector :: "packet_fn \<Rightarrow> pc_env \<Rightarrow> u32 \<Rightarrow> u32 list \<Rightarrow> pc \<Rightarrow> pc option" where
  "pc_vector pk env vtype data_vec n =
     (if vtype = FEEDBACK_VEC_TRANSPORT_RB
      then if data_vec = [] then None
           else Some (case ring_to_radio (data_vec ! 0) (drop 1 data_vec) (radios_rb n) of None \<Rightarrow> n | Some rs \<Rightarrow> n\<lparr>radios_rb := rs\<rparr>)
      else if vtype = FEEDBACK_VEC_DELIVER_FSM_EVENT
      then map_option (\<lambda>e. sendEvent e n) (vector_to_custom_event data_vec)
      else if vtype = FEEDBACK_VEC_UPLINK then Some (n\<lparr>rx2tun := enqueue (rx2tun n) data_vec\<rparr>)
      else if vtype = FEEDBACK_VEC_PACKET_HASH
      then map_option (\<lambda>vh. n\<lparr>hash_tx := vh\<rparr>) (handle_packet_hash (env_now env) (env_later env) data_vec (hash_tx n))
      else if vtype = FEEDBACK_VEC_REQ_RETRANSMIT
      then Some (if role_arb n then n\<lparr>arb_buffer := handle_req_retransmit (env_now env) data_vec (arb_buffer n)\<rparr>
                 else n\<lparr>sched := (sched n)\<lparr>retransmitBuffer :=
                        handle_req_retransmit (env_now env) data_vec (retransmitBuffer (sched n))\<rparr>\<rparr>)
      else if vtype = FEEDBACK_VEC_REQUEST_ID
      then Some (if length data_vec < 1 \<or> data_vec ! 0 \<ge> 32 then n
                 else sendVectorTypeToPartnerPC pk (unat (data_vec ! 0)) FEEDBACK_VEC_REPLY_ID [of_nat (node_id n)] n)
      else if vtype = FEEDBACK_VEC_REPLY_ID
      then Some (if length data_vec < 1 \<or> data_vec ! 0 \<ge> 32 then n else peerConnectedReply (data_vec ! 0) n)
      else if vtype = FEEDBACK_VEC_FETCH_REQUEST then Some (zmqFetch pk env data_vec n)
      else if vtype = FEEDBACK_VEC_FETCH_REPLY then Some (zmqFetchDispatchReply data_vec n)
      else if vtype = FEEDBACK_VEC_JOINT_TRANSMIT then pc_joint pk env data_vec n
      else Some n)"

definition handlePcPcVectorType :: "packet_fn \<Rightarrow> pc_env \<Rightarrow> u32 list \<Rightarrow> pc \<Rightarrow> pc option" where
  "handlePcPcVectorType pk env full_frame n =
     (if length full_frame < FEEDBACK_HEADER_WORDS then None
      else map_option (\<lambda>n1. if zmq_callback n1 \<and> h_vtype full_frame \<in> set (zmqCallbackVTypes n1)
                            then n1\<lparr>zmq_called := zmq_called n1 @ [full_frame]\<rparr> else n1)
             (pc_vector pk env (h_vtype full_frame) (drop FEEDBACK_HEADER_WORDS full_frame) n))"

text \<open>A run of the callback: the frames in the buffer, each handled.\<close>

definition handle_frame :: "packet_fn \<Rightarrow> pc_env \<Rightarrow> u32 list \<Rightarrow> pc \<Rightarrow> pc option" where
  "handle_frame pk env full_frame n =
     (case handleParsedFrameForPc full_frame of
        None \<Rightarrow> None
      | Some handled \<Rightarrow> if handled then handlePcPcVectorType pk env full_frame n else Some n)"

definition pc_callback :: "packet_fn \<Rightarrow> pc_env \<Rightarrow> pc \<Rightarrow> pc option" where
  "pc_callback pk env n =
     (case handleInboundFeedbackBusCallback (fb_pc_in n) of
        None \<Rightarrow> None
      | Some (frames, rest) \<Rightarrow> fold_option (handle_frame pk env) frames (n\<lparr>fb_pc_in := rest\<rparr>))"

section \<open>Waiting for the peers\<close>

definition allPeersConnected :: "packet_fn \<Rightarrow> nat list \<Rightarrow> nat \<Rightarrow> pc \<Rightarrow> (bool \<times> pc) option" where
  "allPeersConnected pk peers wait n =
     (let got = (if peer_state_got n = [] then replicate 32 0 else peer_state_got n);
          n1 = n\<lparr>peer_state_got := got\<rparr>
      in if wait = 0 then Some (True, n1)
         else if list_ex (\<lambda>x. length got \<le> x) peers then None
         else Some (list_all (\<lambda>x. got ! x \<noteq> 0) peers,
                    fold (\<lambda>x. sendVectorTypeToPartnerPC pk x FEEDBACK_VEC_REQUEST_ID [of_nat (node_id n)]) peers n1))"

section \<open>Exchanges\<close>

text \<open>What a node has published since, and a node that takes messages and then runs its callback.\<close>

definition news :: "pc \<Rightarrow> pc \<Rightarrow> zmq_message list" where
  "news n n' = drop (length (pub n)) (pub n')"

definition deliver :: "packet_fn \<Rightarrow> pc_env \<Rightarrow> zmq_message list \<Rightarrow> pc \<Rightarrow> pc option" where
  "deliver pk env ms n = Option.bind (fold_option zmq_take ms n) (pc_callback pk env)"

definition sent_note :: "u32 list \<Rightarrow> pc \<Rightarrow> pc" where
  "sent_note f n = (if zmq_callback n \<and> h_vtype f \<in> set (zmqCallbackVTypes n) then n\<lparr>zmq_called := zmq_called n @ [f]\<rparr> else n)"

lemma sent_note_fields [simp]:
  "pub (sent_note f n) = pub n" "node_id (sent_note f n) = node_id n" "fetched (sent_note f n) = fetched n"
  "pending_fetch_double (sent_note f n) = pending_fetch_double n" "peer_state_got (sent_note f n) = peer_state_got n"
  "pending_fetch_uint32_t (sent_note f n) = pending_fetch_uint32_t n" "fb_pc_in (sent_note f n) = fb_pc_in n"
  "pending_fetch_pair_uint32_t_uint32_t (sent_note f n) = pending_fetch_pair_uint32_t_uint32_t n"
  by (simp_all add: sent_note_def)

lemma send_partner:
  "peer \<noteq> node_id n \<Longrightarrow> sendVectorTypeToPartnerPC pk peer vtype args n =
    n\<lparr>pub := pub n @ published pk (node_id n) (ToPartner peer vtype args)\<rparr>"
  by (simp add: sendVectorTypeToPartnerPC_def zmqPublishOrInternal_def zmqPublish_words_def zmqPublish_def published_def
      fresh_node_def)

lemma callback_frames:
  assumes "fb_pc_in n = concat (map framed fs)" "list_all message_ok fs" "list_all (\<lambda>f. handleParsedFrameForPc f = Some True) fs"
  shows "pc_callback pk env n = fold_option (handlePcPcVectorType pk env) fs (n\<lparr>fb_pc_in := []\<rparr>)"
proof -
  have "fold_option (handle_frame pk env) fs m = fold_option (handlePcPcVectorType pk env) fs m" for m
    using assms(3) by (induction fs arbitrary: m) (auto simp: handle_frame_def split: option.splits)
  then show ?thesis using pull_all [OF assms(2), of "[]"] assms(1) by (simp add: pc_callback_def)
qed

context peer_bus
begin

lemma deliver_sends:
  assumes "i = node_id n" "i \<le> 28" "fb_pc_in n = []" "list_all (\<lambda>(j, s). j \<noteq> i \<and> send_ok s \<and> radio_for pk i s = [] \<and> ring_for i s = []) hs"
  shows "deliver pk env (concat (map (\<lambda>(j, s). published pk j s) hs)) n =
    fold_option (handlePcPcVectorType pk env) (concat (map (\<lambda>(j, s). frames_for pk i s) hs)) n"
proof -
  let ?fs = "concat (map (\<lambda>(j, s). frames_for pk i s) hs)"
  have hs: "list_all (\<lambda>(j, s). j \<noteq> i \<and> send_ok s) hs" using assms(4) by (auto simp: list_all_iff)
  have ok: "list_all message_ok ?fs \<and> list_all (\<lambda>f. handleParsedFrameForPc f = Some True) ?fs"
    using hs messages_ok [OF assms(2)] by (induction hs) auto
  have same: "fold (\<lambda>(j, s). given pk i s) hs m = m\<lparr>fb_pc_in := fb_pc_in m @ concat (map framed ?fs)\<rparr>" for m :: pc
    using assms(4) by (induction hs arbitrary: m) (auto simp: given_def)
  have n: "n\<lparr>fb_pc_in := []\<rparr> = n" using assms(3) by (cases n) simp
  show ?thesis
    using take_all [OF assms(1,2) hs] callback_frames [of "n\<lparr>fb_pc_in := concat (map framed ?fs)\<rparr>" ?fs pk env] ok assms(3)
    by (simp add: deliver_def same) (simp only: n)
qed

lemma handle_packet:
  "handlePcPcVectorType pk env (pk vtype body d0 d1) n = map_option (sent_note (pk vtype body d0 d1)) (pc_vector pk env vtype body n)"
  by (simp add: handlePcPcVectorType_def pk_layout sent_note_def [abs_def])

lemma deliver_partner:
  assumes "i = node_id n" "i \<le> 28" "fb_pc_in n = []" "j \<noteq> i" "length args < 2 ^ 29"
  shows "deliver pk env (published pk j (ToPartner i vtype args)) n =
    map_option (sent_note (pk vtype args (feedback_peer_to_mask i) FEEDBACK_DST_PC)) (pc_vector pk env vtype args n)"
  using deliver_sends [OF assms(1-3), of "[(j, ToPartner i vtype args)]" env] assms
  by (simp add: send_ok_def handle_packet split: option.splits)

end

subsection \<open>Fetching\<close>

definition fetch_by :: "packet_fn \<Rightarrow> u32 \<Rightarrow> u64 \<Rightarrow> nat \<Rightarrow> u32 \<Rightarrow> nat \<Rightarrow> pc \<Rightarrow> pc" where
  "fetch_by pk ftype elapsed peer index cb n =
     (if ftype = 1 then zmqFetchFromPartner_double pk elapsed peer index cb n
      else if ftype = 2 then zmqFetchFromPartner_uint32_t pk elapsed peer index cb n
      else zmqFetchFromPartner_pair_uint32_t_uint32_t pk elapsed peer index cb n)"

definition all_pending :: "pc \<Rightarrow> pending_fetch list \<times> pending_fetch list \<times> pending_fetch list" where
  "all_pending n = (pending_fetch_double n, pending_fetch_uint32_t n, pending_fetch_pair_uint32_t_uint32_t n)"

definition pending_seqs :: "pc \<Rightarrow> u32 list" where
  "pending_seqs n = map fst (pending_fetch_double n @ pending_fetch_uint32_t n @ pending_fetch_pair_uint32_t_uint32_t n)"

lemma dispatch_new: "seq \<notin> fst ` set es \<Longrightarrow> fetch_dispatch seq (es @ [(seq, t, cb)]) = (Some cb, es)"
  by (induction es) auto

lemma join_halves: "push_bit 32 (ucast (ucast (drop_bit 32 v) :: u32)) OR ucast (ucast v :: u32) = v" for v :: u64
  by (rule bit_word_eqI) (auto simp: bit_simps)

fun fetch_words :: "fetch_value \<Rightarrow> u32 list" where
  "fetch_words (Fetched_double v) = [ucast v, ucast (drop_bit 32 v)]"
| "fetch_words (Fetched_uint32 w) = [w]"
| "fetch_words (Fetched_pair a b) = [a, b]"

lemma fetch_request:
  assumes "fetch_source env s index = Some v" "node_id s \<noteq> unat asker"
  shows "zmqFetch pk env [asker, fetch_type v, index, seq] s =
    s\<lparr>pub := pub s @ published pk (node_id s) (ToPartner (unat asker) FEEDBACK_VEC_FETCH_REPLY
      (fetch_header s (fetch_type v) index seq @ fetch_words v))\<rparr>"
  using assms by (cases v) (simp_all add: zmqFetch_def zmqFetchReply_double_def zmqFetchReply_uint32_t_def
      zmqFetchReply_pair_uint32_t_uint32_t_def send_partner)

lemma fetch_sent:
  assumes "peer \<noteq> node_id c"
  obtains c1 where "fetch_by pk (fetch_type v) elapsed peer index cb c =
      c1\<lparr>pub := pub c @ published pk (node_id c) (ToPartner peer FEEDBACK_VEC_FETCH_REQUEST (fetch_header c (fetch_type v) index (fetch_seq c)))\<rparr>"
    "node_id c1 = node_id c" "fb_pc_in c1 = fb_pc_in c" "fetched c1 = fetched c"
    "\<And>p. fetch_seq c \<notin> set (pending_seqs c) \<Longrightarrow> zmqFetchDispatchReply (fetch_header s (fetch_type v) index' (fetch_seq c) @ fetch_words v)
      (c1\<lparr>pub := p\<rparr>) = c1\<lparr>pub := p, pending_fetch_double := pending_fetch_double c, pending_fetch_uint32_t := pending_fetch_uint32_t c,
        pending_fetch_pair_uint32_t_uint32_t := pending_fetch_pair_uint32_t_uint32_t c, fetched := fetched c @ [(cb, v)]\<rparr>"
proof -
  let ?c = "c\<lparr>fetch_seq := fetch_seq c + 1\<rparr>"
  let ?new = "[(fetch_seq c, elapsed, cb)]"
  show ?thesis
  proof (cases v)
    case (Fetched_double d)
    show ?thesis
      by (rule that [of "?c\<lparr>pending_fetch_double := pending_fetch_double c @ ?new\<rparr>"])
        (use assms Fetched_double in \<open>simp_all add: fetch_by_def zmqFetchFromPartner_double_def zmqFetchFromPartner_shared_def
          send_partner fetch_header_def zmqFetchDispatchReply_def pending_seqs_def dispatch_new call_back_def join_halves\<close>)
  next
    case (Fetched_uint32 w)
    show ?thesis
      by (rule that [of "?c\<lparr>pending_fetch_uint32_t := pending_fetch_uint32_t c @ ?new\<rparr>"])
        (use assms Fetched_uint32 in \<open>simp_all add: fetch_by_def zmqFetchFromPartner_uint32_t_def zmqFetchFromPartner_shared_def
          send_partner fetch_header_def zmqFetchDispatchReply_def pending_seqs_def dispatch_new call_back_def\<close>)
  next
    case (Fetched_pair a b)
    show ?thesis
      by (rule that [of "?c\<lparr>pending_fetch_pair_uint32_t_uint32_t := pending_fetch_pair_uint32_t_uint32_t c @ ?new\<rparr>"])
        (use assms Fetched_pair in \<open>simp_all add: fetch_by_def zmqFetchFromPartner_pair_uint32_t_uint32_t_def
          zmqFetchFromPartner_shared_def send_partner fetch_header_def zmqFetchDispatchReply_def pending_seqs_def dispatch_new
          call_back_def\<close>)
  qed
qed

lemma vector_fetch:
  "pc_vector pk env FEEDBACK_VEC_FETCH_REQUEST args n = Some (zmqFetch pk env args n)"
  "pc_vector pk env FEEDBACK_VEC_FETCH_REPLY args n = Some (zmqFetchDispatchReply args n)"
  by (simp_all add: pc_vector_def packet_types)

lemma length_fetch: "length (fetch_header n ftype index seq @ fetch_words v) < 2 ^ 29" "length (fetch_header n ftype index seq) < 2 ^ 29"
  by (cases v; simp add: fetch_header_def)+

text \<open>
  C10. A fetched value arrives. When a node asks another for a value the other has, under the type it
  has, the request and the reply go over the network and the callback is called once, with exactly
  that value; the pending fetches are as before. Only the sequence number must not be in use, after
  \<open>2^32\<close> fetches.
\<close>
theorem fetch_answered:
  assumes "peer_bus pk" "node_id c \<le> 28" "node_id s \<le> 28" "node_id c \<noteq> node_id s" "fb_pc_in c = []" "fb_pc_in s = []"
    and "fetch_source env s index = Some v" "fetch_seq c \<notin> set (pending_seqs c)"
  shows "\<exists>s' c'. deliver pk env (news c (fetch_by pk (fetch_type v) elapsed (node_id s) index cb c)) s = Some s' \<and>
    deliver pk env' (news s s') (fetch_by pk (fetch_type v) elapsed (node_id s) index cb c) = Some c' \<and>
    fetched c' = fetched c @ [(cb, v)] \<and> all_pending c' = all_pending c"
proof -
  let ?req = "fetch_header c (fetch_type v) index (fetch_seq c)" and ?rep = "fetch_header s (fetch_type v) index (fetch_seq c) @ fetch_words v"
  obtain c1 where c1: "fetch_by pk (fetch_type v) elapsed (node_id s) index cb c =
      c1\<lparr>pub := pub c @ published pk (node_id c) (ToPartner (node_id s) FEEDBACK_VEC_FETCH_REQUEST ?req)\<rparr>"
    "node_id c1 = node_id c" "fb_pc_in c1 = fb_pc_in c" "fetched c1 = fetched c"
    "\<And>p. zmqFetchDispatchReply ?rep (c1\<lparr>pub := p\<rparr>) = c1\<lparr>pub := p, pending_fetch_double := pending_fetch_double c,
      pending_fetch_uint32_t := pending_fetch_uint32_t c,
      pending_fetch_pair_uint32_t_uint32_t := pending_fetch_pair_uint32_t_uint32_t c, fetched := fetched c @ [(cb, v)]\<rparr>"
    by (rule fetch_sent [OF assms(4) [symmetric], of pk v elapsed index cb s index]) (use assms(8) in blast)
  have u: "unat (of_nat (node_id c) :: u32) = node_id c" using assms(2) by (intro unat_of_nat_u32) simp
  have "zmqFetch pk env ?req s = s\<lparr>pub := pub s @ published pk (node_id s) (ToPartner (node_id c) FEEDBACK_VEC_FETCH_REPLY ?rep)\<rparr>"
    using fetch_request [OF assms(7), of "of_nat (node_id c)"] assms(4) by (simp add: fetch_header_def u)
  then have "deliver pk env (published pk (node_id c) (ToPartner (node_id s) FEEDBACK_VEC_FETCH_REQUEST ?req)) s =
      Some (sent_note (pk FEEDBACK_VEC_FETCH_REQUEST ?req (feedback_peer_to_mask (node_id s)) FEEDBACK_DST_PC)
        (s\<lparr>pub := pub s @ published pk (node_id s) (ToPartner (node_id c) FEEDBACK_VEC_FETCH_REPLY ?rep)\<rparr>))"
    using peer_bus.deliver_partner [OF assms(1) refl assms(3,6,4) length_fetch(2)] by (simp add: vector_fetch)
  moreover have "deliver pk env' (published pk (node_id s) (ToPartner (node_id c) FEEDBACK_VEC_FETCH_REPLY ?rep)) (c1\<lparr>pub := p\<rparr>) =
      Some (sent_note (pk FEEDBACK_VEC_FETCH_REPLY ?rep (feedback_peer_to_mask (node_id c)) FEEDBACK_DST_PC)
        (zmqFetchDispatchReply ?rep (c1\<lparr>pub := p\<rparr>)))" for p
    using peer_bus.deliver_partner [OF assms(1), of "node_id c" "c1\<lparr>pub := p\<rparr>" "node_id s", OF _ assms(2) _ assms(4) [symmetric]
        length_fetch(1)] c1(2,3) assms(5) by (simp add: vector_fetch)
  ultimately show ?thesis unfolding c1 by (simp add: news_def c1(5) all_pending_def)
qed

definition fresh_pc :: "nat \<Rightarrow> verify_hash \<Rightarrow> tx_sched \<Rightarrow> pc" where
  "fresh_pc i vh tx = node.extend (fresh_node i) \<lparr>radios_rb = [], events_bev = [], rx2tun = [], hash_tx = vh,
     arb_buffer = RetransmitBuffer, sched = tx, role_arb = False, peer_state_got = [], zmq_callback = False,
     zmqCallbackVTypes = [], zmq_called = [], times_tried_attached_feedback_bus = 7, fetch_seq = 0,
     pending_fetch_double = [], pending_fetch_uint32_t = [], pending_fetch_pair_uint32_t_uint32_t = [], fetched = []\<rparr>"

lemma fresh_pc_fields [simp]:
  "node_id (fresh_pc i vh tx) = i" "fb_pc_in (fresh_pc i vh tx) = []" "peer_state_got (fresh_pc i vh tx) = []"
  "times_tried_attached_feedback_bus (fresh_pc i vh tx) = 7" "pending_seqs (fresh_pc i vh tx) = []"
  "fetched (fresh_pc i vh tx) = []"
  by (simp_all add: fresh_pc_def fresh_node_def node.defs pending_seqs_def)

theorem fetch_answered_witness:
  "\<forall>vh tx. \<exists>s' c'. deliver FeedbackVector \<lparr>env_now = 0, env_later = 0, env_est = (3, 4), env_slots = 50, env_attached = True\<rparr>
      (news (fresh_pc 1 vh tx) (fetch_by FeedbackVector 2 1000 2 1 5 (fresh_pc 1 vh tx))) (fresh_pc 2 vh tx) = Some s' \<and>
    deliver FeedbackVector \<lparr>env_now = 0, env_later = 0, env_est = (3, 4), env_slots = 50, env_attached = True\<rparr>
      (news (fresh_pc 2 vh tx) s') (fetch_by FeedbackVector 2 1000 2 1 5 (fresh_pc 1 vh tx)) = Some c' \<and>
    fetched c' = [(5, Fetched_uint32 7)]"
proof (intro allI)
  fix vh tx
  let ?e = "\<lparr>env_now = 0, env_later = 0, env_est = (3, 4), env_slots = 50, env_attached = True\<rparr>"
  have v: "fetch_source ?e (fresh_pc 2 vh tx) 1 = Some (Fetched_uint32 7)" by (simp add: fetch_source_def)
  show "\<exists>s' c'. deliver FeedbackVector ?e (news (fresh_pc 1 vh tx) (fetch_by FeedbackVector 2 1000 2 1 5 (fresh_pc 1 vh tx))) (fresh_pc 2 vh tx) = Some s' \<and>
      deliver FeedbackVector ?e (news (fresh_pc 2 vh tx) s') (fetch_by FeedbackVector 2 1000 2 1 5 (fresh_pc 1 vh tx)) = Some c' \<and>
      fetched c' = [(5, Fetched_uint32 7)]"
    using fetch_answered [OF js_bus.peer_bus_axioms _ _ _ _ _ v, where c = "fresh_pc 1 vh tx" and elapsed = 1000 and cb = 5 and env' = ?e]
    by simp blast
qed

subsection \<open>Waiting for the peers\<close>

abbreviation id_request :: "nat \<Rightarrow> nat \<Rightarrow> peer_send" where
  "id_request j p \<equiv> ToPartner p FEEDBACK_VEC_REQUEST_ID [of_nat j]"

abbreviation id_reply :: "nat \<Rightarrow> nat \<Rightarrow> peer_send" where
  "id_reply p j \<equiv> ToPartner j FEEDBACK_VEC_REPLY_ID [of_nat p]"

lemma requests_sent:
  "j = node_id n \<Longrightarrow> list_all (\<lambda>p. p \<noteq> j) ps \<Longrightarrow> fold (\<lambda>x. sendVectorTypeToPartnerPC pk x FEEDBACK_VEC_REQUEST_ID [of_nat j]) ps n =
    n\<lparr>pub := pub n @ concat (map (\<lambda>p. published pk j (id_request j p)) ps)\<rparr>" for n :: pc
proof (induction ps arbitrary: n)
  case (Cons p ps)
  then have "node_id n = j" "p \<noteq> node_id n" by simp_all
  then show ?case using Cons.prems Cons.IH [of "n\<lparr>pub := pub n @ published pk j (id_request j p)\<rparr>"]
    by (simp add: send_partner)
qed simp

definition state_got :: "pc \<Rightarrow> nat list" where
  "state_got n = (if peer_state_got n = [] then replicate 32 0 else peer_state_got n)"

lemma asking:
  assumes "list_all (\<lambda>p. p \<le> 28 \<and> p \<noteq> node_id n) ps" "length (state_got n) = 32" "wait \<noteq> 0"
  shows "allPeersConnected pk ps wait n = Some (list_all (\<lambda>p. state_got n ! p \<noteq> 0) ps, n\<lparr>peer_state_got := state_got n,
    pub := pub n @ concat (map (\<lambda>p. published pk (node_id n) (id_request (node_id n) p)) ps)\<rparr>)"
proof -
  have "list_all (\<lambda>p. p \<noteq> node_id n) ps" "\<not> list_ex (\<lambda>x. 32 \<le> x) ps" using assms(1) by (auto simp: list_all_iff list_ex_iff)
  then show ?thesis using requests_sent [of "node_id n" "n\<lparr>peer_state_got := state_got n\<rparr>" ps pk] assms(2,3)
    by (simp add: allPeersConnected_def state_got_def [symmetric] Let_def)
qed

context peer_bus
begin

abbreviation id_frame :: "nat \<Rightarrow> nat \<Rightarrow> u32 list" where
  "id_frame p j \<equiv> pk FEEDBACK_VEC_REPLY_ID [of_nat p] (feedback_peer_to_mask j) FEEDBACK_DST_PC"

lemma answered:
  assumes "j \<le> 28" "node_id n \<noteq> j" "\<forall>f \<in> set fs. f = pk FEEDBACK_VEC_REQUEST_ID [of_nat j] d0 FEEDBACK_DST_PC"
  shows "\<exists>n'. fold_option (handlePcPcVectorType pk env) fs n = Some n' \<and>
    pub n' = pub n @ concat (map (\<lambda>_. published pk (node_id n) (id_reply (node_id n) j)) fs)"
  using assms(2,3)
proof (induction fs arbitrary: n)
  case (Cons f fs)
  have u: "unat (of_nat j :: u32) = j" "\<not> (32 :: u32) \<le> of_nat j" using assms(1)
    by (simp_all add: word_le_nat_alt unat_of_nat_u32)
  let ?n = "sent_note f (n\<lparr>pub := pub n @ published pk (node_id n) (id_reply (node_id n) j)\<rparr>)"
  have "handlePcPcVectorType pk env f n = Some ?n"
    using Cons.prems u by (simp add: handle_packet pc_vector_def packet_types send_partner)
  with Cons.IH [of ?n] Cons.prems show ?case by auto
qed simp

lemma replies_counted:
  assumes "list_all (\<lambda>p. p \<le> 28) qs" "length (state_got n) = 32"
  shows "\<exists>n'. fold_option (handlePcPcVectorType pk env) (map (\<lambda>p. id_frame p j) qs) n = Some n' \<and> node_id n' = node_id n \<and>
    length (state_got n') = 32 \<and> (\<forall>p \<in> set qs. 0 < state_got n' ! p) \<and> (\<forall>p < 32. state_got n ! p \<le> state_got n' ! p)"
  using assms
proof (induction qs arbitrary: n)
  case (Cons q qs)
  have u: "unat (of_nat q :: u32) = q" "\<not> (32 :: u32) \<le> of_nat q" using Cons.prems(1)
    by (simp_all add: word_le_nat_alt unat_of_nat_u32)
  let ?n = "sent_note (id_frame q j) (n\<lparr>peer_state_got := (state_got n)[q := Suc (state_got n ! q)]\<rparr>)"
  have q: "q < 32" using Cons.prems(1) by simp
  have "(state_got n)[q := Suc (state_got n ! q)] \<noteq> []" using Cons.prems(2) by auto
  then have g: "state_got ?n = (state_got n)[q := Suc (state_got n ! q)]" by (simp add: state_got_def)
  have h: "handlePcPcVectorType pk env (id_frame q j) n = Some ?n"
    using u q Cons.prems(2) by (simp add: handle_packet pc_vector_def packet_types peerConnectedReply_def state_got_def [symmetric] Let_def)
  from Cons.IH [of ?n] Cons.prems obtain n' where n': "fold_option (handlePcPcVectorType pk env) (map (\<lambda>p. id_frame p j) qs) ?n = Some n'"
    "node_id n' = node_id n" "length (state_got n') = 32" "\<forall>p \<in> set qs. 0 < state_got n' ! p"
    "\<forall>p < 32. state_got ?n ! p \<le> state_got n' ! p" using g by auto
  have "0 < state_got n' ! q" "\<forall>p < 32. state_got n ! p \<le> state_got n' ! p"
    using n'(5) q Cons.prems(2) unfolding g by (force simp: nth_list_update, metis le_SucE nth_list_update_eq nth_list_update_neq nat_le_linear Suc_leD)
  then show ?case using h n' by auto
qed simp

end

text \<open>
  C37. The peers find each other. A node that asks its peers who they are, gets their answers and asks
  again has them all connected, whatever else is in the peers' state and however often a peer is in
  the list.
\<close>
theorem peers_connect:
  assumes "peer_bus pk" "list_all (\<lambda>p. p \<le> 28 \<and> p \<noteq> node_id c \<and> node_id (ns p) = p \<and> fb_pc_in (ns p) = []) ps"
    and "node_id c \<le> 28" "fb_pc_in c = []" "peer_state_got c = [] \<or> length (peer_state_got c) = 32" "wait \<noteq> 0"
  shows "\<exists>b c1 answer c2 c3. allPeersConnected pk ps wait c = Some (b, c1) \<and>
    list_all (\<lambda>p. deliver pk env (news c c1) (ns p) = Some (answer p)) ps \<and>
    deliver pk env (concat (map (\<lambda>p. news (ns p) (answer p)) ps)) c1 = Some c2 \<and>
    allPeersConnected pk ps wait c2 = Some (True, c3)"
proof -
  let ?j = "node_id c"
  let ?hs = "map (\<lambda>p. (?j, id_request ?j p)) ps"
  let ?fs = "\<lambda>i. concat (map (\<lambda>(j, s). frames_for pk i s) ?hs)"
  have ps: "list_all (\<lambda>p. p \<le> 28 \<and> p \<noteq> ?j) ps" using assms(2) by (auto simp: list_all_iff)
  have got: "length (state_got c) = 32" using assms(5) by (auto simp: state_got_def)
  obtain b c1 where c1: "allPeersConnected pk ps wait c = Some (b, c1)" "node_id c1 = ?j" "fb_pc_in c1 = []" "length (state_got c1) = 32"
    "news c c1 = concat (map (\<lambda>(j, s). published pk j s) ?hs)"
    using asking [OF ps got assms(6)] got assms(4) by (auto simp: news_def state_got_def o_def)
  have "\<exists>r. deliver pk env (news c c1) (ns p) = Some r \<and>
      news (ns p) r = concat (map (\<lambda>_. published pk p (id_reply p ?j)) (?fs p))" if "p \<in> set ps" for p
  proof -
    have p: "p \<le> 28" "p \<noteq> ?j" "node_id (ns p) = p" "fb_pc_in (ns p) = []" using assms(2) that by (auto simp: list_all_iff)
    have "list_all (\<lambda>(j, s). j \<noteq> p \<and> send_ok s \<and> radio_for pk p s = [] \<and> ring_for p s = []) ?hs"
      using ps p(2) by (auto simp: list_all_iff send_ok_def)
    from peer_bus.deliver_sends [OF assms(1) p(3) [symmetric] p(1) p(4) this, of env]
    have d: "deliver pk env (news c c1) (ns p) = fold_option (handlePcPcVectorType pk env) (?fs p) (ns p)" by (simp add: c1(5))
    have "\<forall>f \<in> set (?fs p). f = pk FEEDBACK_VEC_REQUEST_ID [of_nat ?j] (feedback_peer_to_mask p) FEEDBACK_DST_PC"
      by (auto split: if_splits)
    from peer_bus.answered [OF assms(1,3) _ this, of "ns p" env] d p show ?thesis by (auto simp: news_def)
  qed
  then obtain answer where answer: "\<forall>p \<in> set ps. deliver pk env (news c c1) (ns p) = Some (answer p) \<and>
      news (ns p) (answer p) = concat (map (\<lambda>_. published pk p (id_reply p ?j)) (?fs p))" by metis
  let ?rs = "concat (map (\<lambda>p. map (\<lambda>_. (p, id_reply p ?j)) (?fs p)) ps)"
  let ?qs = "concat (map (\<lambda>p. map (\<lambda>_. p) (?fs p)) ps)"
  have m: "concat (map (\<lambda>p. news (ns p) (answer p)) ps) = concat (map (\<lambda>(j, s). published pk j s) ?rs)"
  proof -
    have "concat (map (\<lambda>p. concat (map (\<lambda>_. published pk p (id_reply p ?j)) (fs p))) xs) =
        concat (map (\<lambda>(j, s). published pk j s) (concat (map (\<lambda>p. map (\<lambda>_. (p, id_reply p ?j)) (fs p)) xs)))" for fs :: "nat \<Rightarrow> u32 list list" and xs
      by (induction xs) (simp_all add: o_def)
    note this [of ?fs ps, symmetric]
    also have "concat (map (\<lambda>p. concat (map (\<lambda>_. published pk p (id_reply p ?j)) (?fs p))) ps) = concat (map (\<lambda>p. news (ns p) (answer p)) ps)"
      using answer by (intro arg_cong [of _ _ concat] map_cong) simp_all
    finally show ?thesis by (rule sym)
  qed
  have f: "concat (map (\<lambda>(j, s). frames_for pk ?j s) ?rs) = map (\<lambda>p. peer_bus.id_frame pk p ?j) ?qs"
  proof -
    have "concat (map (\<lambda>(i, s). frames_for pk ?j s) (concat (map (\<lambda>p. map (\<lambda>_. (p, id_reply p ?j)) (fs p)) xs))) =
        map (\<lambda>p. peer_bus.id_frame pk p ?j) (concat (map (\<lambda>p. map (\<lambda>_. p) (fs p)) xs))" for fs :: "nat \<Rightarrow> u32 list list" and xs
      by (induction xs) (simp_all add: o_def)
    then show ?thesis .
  qed
  have qs: "set ?qs = set ps" by (auto split: if_splits)
  have "list_all (\<lambda>(i, s). i \<noteq> ?j \<and> send_ok s \<and> radio_for pk ?j s = [] \<and> ring_for ?j s = []) ?rs"
    using ps assms(3) by (auto simp: list_all_iff send_ok_def)
  from peer_bus.deliver_sends [OF assms(1) c1(2) [symmetric] assms(3) c1(3) this, of env]
  have d: "deliver pk env (concat (map (\<lambda>p. news (ns p) (answer p)) ps)) c1 =
      fold_option (handlePcPcVectorType pk env) (map (\<lambda>p. peer_bus.id_frame pk p ?j) ?qs) c1" unfolding m f .
  have "list_all (\<lambda>p. p \<le> 28) ?qs" using ps unfolding list_all_iff qs by blast
  from peer_bus.replies_counted [OF assms(1) this c1(4), of env ?j] obtain c2 where c2:
    "deliver pk env (concat (map (\<lambda>p. news (ns p) (answer p)) ps)) c1 = Some c2" "node_id c2 = ?j" "length (state_got c2) = 32"
    "\<forall>p \<in> set ps. 0 < state_got c2 ! p" unfolding d qs c1(2) by blast
  have "list_all (\<lambda>p. state_got c2 ! p \<noteq> 0) ps" using c2(4) by (auto simp: list_all_iff)
  then show ?thesis using c1(1) answer c2(1) asking [of c2 ps wait pk] ps c2(2,3) assms(6) by (auto simp: list_all_iff)
qed

theorem peers_connect_witness:
  "\<forall>vh tx. let env = \<lparr>env_now = 0, env_later = 0, env_est = (3, 4), env_slots = 50, env_attached = True\<rparr>; c = fresh_pc 1 vh tx
     in \<exists>b c1 answer c2 c3. allPeersConnected FeedbackVector [2, 3] 2 c = Some (b, c1) \<and>
       list_all (\<lambda>p. deliver FeedbackVector env (news c c1) (fresh_pc p vh tx) = Some (answer p)) [2, 3] \<and>
       deliver FeedbackVector env (concat (map (\<lambda>p. news (fresh_pc p vh tx) (answer p)) [2, 3])) c1 = Some c2 \<and>
       allPeersConnected FeedbackVector [2, 3] 2 c2 = Some (True, c3)"
  unfolding Let_def
  by (intro allI peers_connect [OF js_bus.peer_bus_axioms, where ns = "\<lambda>p. fresh_pc p vh tx" for vh tx]) simp_all

end
