(* ===== verification/Peer_Ring.thy ===== *)
theory Peer_Ring
  imports Peer_Network Ring_Bus Null_Split
begin

text \<open>
  Ring bus words to one's own radio and to those of the peers. \<open>EventDsp::zmqRingbusPeerLater\<close>
  (driver/EventDspFsm.cpp) puts a word into a queue and starts a timer; whenever a timer fires, the
  front of the queue is sent, or, for the own radio, up to 700 words at once. The commands of
  driver/HiggsPartner.cpp and \<open>sendToMock\<close> (driver/EventDsp.cpp) are lists of calls of
  \<open>zmqRingbusPeerLater\<close>: the peer, the word, the delay in microseconds. The numbers of the words and
  of the FPGAs are those of js/mock/hconst.js.

  Products in double precision are arguments: \<open>cfo_counts\<close> is \<open>abs(cfo * 131.072)\<close> as an integer,
  \<open>phase_counts\<close> the phase as a fraction of \<open>2^32 - 1\<close>.
\<close>

section \<open>The queue and its timers\<close>

type_synonym ring_word = "u32 \<times> u32"
type_synonym later_call = "nat \<times> ring_word \<times> int"

record later_node = node +
  pending_ring_data :: "(nat \<times> ring_word) list"
  pending_ring_events :: "int list"
  armed :: "int list"

definition zmqRingbusPeerLater :: "later_call \<Rightarrow> later_node \<Rightarrow> later_node" where
  "zmqRingbusPeerLater c n =
     (case c of (peer, rb, future_us) \<Rightarrow>
        n\<lparr>pending_ring_data := pending_ring_data n @ [(peer, rb)], pending_ring_events := pending_ring_events n @ [future_us],
          armed := armed n @ [future_us]\<rparr>)"

definition ringbusPeerLater_vec :: "nat \<Rightarrow> u32 list \<Rightarrow> int \<Rightarrow> later_node \<Rightarrow> later_node" where
  "ringbusPeerLater_vec peer rbv future_us n =
     (if length rbv \<noteq> 2 then n else zmqRingbusPeerLater (peer, (rbv ! 0, rbv ! 1), future_us) n)"

definition ringbusPeerLater :: "nat \<Rightarrow> u32 \<Rightarrow> u32 \<Rightarrow> int \<Rightarrow> later_node \<Rightarrow> later_node" where
  "ringbusPeerLater peer ttl data future_us = zmqRingbusPeerLater (peer, (ttl, data), future_us)"

abbreviation max_pull :: nat where "max_pull \<equiv> 700"

text \<open>How many entries the loop of \<open>handle_rb_later_multi\<close> takes: those of the first one's peer.\<close>

fun did_pull :: "nat \<Rightarrow> nat option \<Rightarrow> (nat \<times> ring_word) list \<Rightarrow> nat" where
  "did_pull 0 peer es = 0"
| "did_pull n peer [] = 0"
| "did_pull (Suc n) None ((p, rb) # es) = Suc (did_pull n (Some p) es)"
| "did_pull (Suc n) (Some peer) ((p, rb) # es) = (if p \<noteq> peer then 0 else Suc (did_pull n (Some peer) es))"

definition handle_rb_later_multi :: "later_node \<Rightarrow> later_node" where
  "handle_rb_later_multi n =
     (let k = did_pull (min max_pull (length (pending_ring_data n))) None (pending_ring_data n)
      in n\<lparr>ring_out := ring_out n @ map snd (take k (pending_ring_data n)),
           pending_ring_data := drop k (pending_ring_data n), pending_ring_events := drop k (pending_ring_events n)\<rparr>)"

definition handle_rb_later :: "bool \<Rightarrow> later_node \<Rightarrow> later_node" where
  "handle_rb_later aggregate_attached_rb n =
     (case pending_ring_data n of
        [] \<Rightarrow> n
      | (peer, rb) # rest \<Rightarrow>
          if peer = node_id n \<and> aggregate_attached_rb then handle_rb_later_multi n
          else let n1 = n\<lparr>pending_ring_data := rest, pending_ring_events := drop 1 (pending_ring_events n)\<rparr>
               in if peer = node_id n then n1\<lparr>ring_out := ring_out n1 @ [rb]\<rparr> else zmqRingbusPeer peer rb n1)"

text \<open>Any armed timer may fire next; another call may come at any time.\<close>

inductive later_reaches :: "later_node \<Rightarrow> later_call list \<Rightarrow> later_node \<Rightarrow> bool" for n0 where
  Start: "later_reaches n0 [] n0"
| Call: "later_reaches n0 cs n \<Longrightarrow> later_reaches n0 (cs @ [c]) (zmqRingbusPeerLater c n)"
| Fire: "later_reaches n0 cs n \<Longrightarrow> i < length (armed n) \<Longrightarrow>
    later_reaches n0 cs (handle_rb_later aggregate (n\<lparr>armed := take i (armed n) @ drop (Suc i) (armed n)\<rparr>))"

section \<open>Commands\<close>

definition RING_BUS_LENGTH_PC :: nat where "RING_BUS_LENGTH_PC = 11"

definition ring_addr :: "nat \<Rightarrow> u32" where
  "ring_addr ring_enum = of_nat ((ring_enum - 1 + RING_BUS_LENGTH_PC * 2) mod RING_BUS_LENGTH_PC)"

definition RING_ADDR_ETH :: u32 where "RING_ADDR_ETH = ring_addr 1"
definition RING_ADDR_TX_0 :: u32 where "RING_ADDR_TX_0 = ring_addr 2"
definition RING_ADDR_TX_1 :: u32 where "RING_ADDR_TX_1 = ring_addr 5"
definition RING_ADDR_RX_0 :: u32 where "RING_ADDR_RX_0 = ring_addr 8"
definition RING_ADDR_RX_1 :: u32 where "RING_ADDR_RX_1 = ring_addr 7"
abbreviation RING_ADDR_TX_PARSE :: u32 where "RING_ADDR_TX_PARSE \<equiv> RING_ADDR_TX_0"
abbreviation RING_ADDR_TX_EQ :: u32 where "RING_ADDR_TX_EQ \<equiv> RING_ADDR_TX_0"
abbreviation RING_ADDR_TX_FFT :: u32 where "RING_ADDR_TX_FFT \<equiv> RING_ADDR_TX_1"
abbreviation RING_ADDR_TX_TIME_DOMAIN :: u32 where "RING_ADDR_TX_TIME_DOMAIN \<equiv> RING_ADDR_TX_1"
abbreviation RING_ADDR_RX_FFT :: u32 where "RING_ADDR_RX_FFT \<equiv> RING_ADDR_RX_0"
abbreviation RING_ADDR_RX_FINE_SYNC :: u32 where "RING_ADDR_RX_FINE_SYNC \<equiv> RING_ADDR_RX_1"

abbreviation NODEJS_RPC_CMD :: u32 where "NODEJS_RPC_CMD \<equiv> 0x19000000"
abbreviation TX_CFO_LOWER_CMD :: u32 where "TX_CFO_LOWER_CMD \<equiv> 0x20000000"
abbreviation TX_CFO_UPPER_CMD :: u32 where "TX_CFO_UPPER_CMD \<equiv> 0x21000000"
abbreviation SFO_PERIODIC_ADJ_CMD :: u32 where "SFO_PERIODIC_ADJ_CMD \<equiv> 0x28000000"
abbreviation SFO_PERIODIC_SIGN_CMD :: u32 where "SFO_PERIODIC_SIGN_CMD \<equiv> 0x29000000"
abbreviation EQUALIZER_CMD :: u32 where "EQUALIZER_CMD \<equiv> 0x30000000"
abbreviation TDMA_CMD :: u32 where "TDMA_CMD \<equiv> 0x32000000"
abbreviation GENERIC_OPERATOR_CMD :: u32 where "GENERIC_OPERATOR_CMD \<equiv> 0x44000000"
abbreviation SET_TDMA_SC_CMD :: u32 where "SET_TDMA_SC_CMD \<equiv> 0x62000000"
abbreviation DEFAULT_APP_BARREL_SHIFT_CMD :: u32 where "DEFAULT_APP_BARREL_SHIFT_CMD \<equiv> 0x6c000000"
abbreviation ZERO_TX_CMD :: u32 where "ZERO_TX_CMD \<equiv> 0x6f000000"

definition resetPartnerEq :: "nat \<Rightarrow> later_call list" where
  "resetPartnerEq peer = [(peer, (RING_ADDR_TX_EQ, EQUALIZER_CMD OR 0), 0)]"

definition reset_bs_one :: "nat \<Rightarrow> string \<Rightarrow> int \<Rightarrow> later_call list" where
  "reset_bs_one peer w future =
     (if w = ''tx''
      then [(peer, (RING_ADDR_TX_EQ, DEFAULT_APP_BARREL_SHIFT_CMD OR 0), future),
            (peer, (RING_ADDR_TX_FFT, DEFAULT_APP_BARREL_SHIFT_CMD OR 0), future + 500)]
      else if w = ''rx''
      then [(peer, (RING_ADDR_RX_FFT, DEFAULT_APP_BARREL_SHIFT_CMD OR 0), future),
            (peer, (RING_ADDR_RX_FINE_SYNC, DEFAULT_APP_BARREL_SHIFT_CMD OR 0), future + 500)]
      else [])"

fun reset_bs_loop :: "nat \<Rightarrow> string list \<Rightarrow> int \<Rightarrow> later_call list" where
  "reset_bs_loop peer [] future = []"
| "reset_bs_loop peer (w # work) future =
     (let cs = reset_bs_one peer w future in cs @ reset_bs_loop peer work (future + 500 * int (length cs)))"

definition resetPartnerBs :: "nat \<Rightarrow> string \<Rightarrow> later_call list" where
  "resetPartnerBs peer which = reset_bs_loop peer (if which = '''' then [''tx'', ''rx''] else [which]) 0"

definition setPartnerTDMASubcarrier :: "nat \<Rightarrow> u32 \<Rightarrow> later_call list" where
  "setPartnerTDMASubcarrier peer sc = [(peer, (RING_ADDR_TX_PARSE, SET_TDMA_SC_CMD OR (sc AND 0x3ff)), 0)]"

definition setPartnerTDMA :: "nat \<Rightarrow> u32 \<Rightarrow> u32 \<Rightarrow> later_call list" where
  "setPartnerTDMA peer dmode v =
     [(peer, (RING_ADDR_TX_PARSE, TDMA_CMD OR (push_bit 16 (dmode AND 0xff) OR (v AND 0xffff))), 0)]"

text \<open>
  The words for the receive chain of the own radio are returned apart, they go to
  \<open>cs31CFOCorrection\<close> at once. \<open>None\<close> is the overflow of the \<open>int\<close> product.
\<close>

definition setPartnerCfo :: "nat \<Rightarrow> nat \<Rightarrow> bool \<Rightarrow> u32 \<Rightarrow> bool \<Rightarrow> (later_call list \<times> u32 list) option" where
  "setPartnerCfo our_id peer negative cfo_counts alsoRxChain =
     (if \<not> (- (2 ^ 31) \<le> sint cfo_counts * 1280 \<and> sint cfo_counts * 1280 < 2 ^ 31 \<and> sint cfo_counts * 1280 \<noteq> - (2 ^ 31)) then None
      else let cfo_abs_tx = cfo_counts;
               cfo_abs_rx = word_of_int \<bar>sint cfo_counts * 1280\<bar> :: u32;
               lowerTx = cfo_abs_tx AND 0xffff;
               upperTx = drop_bit 16 cfo_abs_tx AND 0xffff;
               lowerRx = cfo_abs_rx AND 0xffff;
               upperRx = drop_bit 16 cfo_abs_rx AND 0xffff;
               (upperTx', upperRx') = (if negative then (upperTx, upperRx OR 0x10000) else (upperTx OR 0x10000, upperRx));
               tx = [(peer, (RING_ADDR_TX_TIME_DOMAIN, TX_CFO_LOWER_CMD OR lowerTx), 0),
                     (peer, (RING_ADDR_TX_TIME_DOMAIN, TX_CFO_UPPER_CMD OR upperTx'), 100)]
           in if peer \<noteq> our_id
              then Some (if alsoRxChain
                         then (tx @ [(peer, (RING_ADDR_RX_FFT, TX_CFO_LOWER_CMD OR lowerRx), 200),
                                     (peer, (RING_ADDR_RX_FFT, TX_CFO_UPPER_CMD OR upperRx'), 300)], [])
                         else (tx, []))
              else Some (tx, if alsoRxChain then [TX_CFO_LOWER_CMD OR lowerRx, TX_CFO_UPPER_CMD OR upperRx'] else []))"

definition setPartnerPhase :: "nat \<Rightarrow> u32 \<Rightarrow> later_call list" where
  "setPartnerPhase peer phase_counts =
     (let lower = phase_counts AND 0xffff; upper = (drop_bit 16 phase_counts AND 0xffff) OR 0x020000
      in [(peer, (RING_ADDR_TX_TIME_DOMAIN, TX_CFO_LOWER_CMD OR lower), 0),
          (peer, (RING_ADDR_TX_TIME_DOMAIN, TX_CFO_UPPER_CMD OR upper), 100)])"

text \<open>The chunks of a large advance.\<close>

function sfo_chunks :: "nat \<Rightarrow> u32 \<Rightarrow> u32 \<Rightarrow> bool \<Rightarrow> u32 \<Rightarrow> later_call list" where
  "sfo_chunks peer amount direction alsoRxChain us_timer =
     (if amount = 0 then []
      else let amount_chunk = min 128 amount;
               tx = [(peer, (RING_ADDR_TX_TIME_DOMAIN, SFO_PERIODIC_ADJ_CMD OR amount_chunk), uint us_timer),
                     (peer, (RING_ADDR_TX_TIME_DOMAIN, SFO_PERIODIC_SIGN_CMD OR direction), uint (us_timer + 5000))];
               rx = (if alsoRxChain
                     then [(peer, (RING_ADDR_RX_FFT, SFO_PERIODIC_ADJ_CMD OR amount_chunk), uint (us_timer + 10000)),
                           (peer, (RING_ADDR_RX_FFT, SFO_PERIODIC_SIGN_CMD OR direction), uint (us_timer + 15000))]
                     else [])
           in tx @ rx @ sfo_chunks peer (amount - amount_chunk) direction alsoRxChain
                (us_timer + (if alsoRxChain then 20000 else 10000)))"
  by pat_completeness auto
termination
  by (relation "measure (\<lambda>(peer, amount, direction, rx, timer). unat amount)")
    (auto simp: min_def word_less_nat_alt unat_sub word_le_nat_alt unat_gt_0)

declare sfo_chunks.simps [simp del]

definition setPartnerSfoAdvance :: "nat \<Rightarrow> u32 \<Rightarrow> u32 \<Rightarrow> bool \<Rightarrow> later_call list" where
  "setPartnerSfoAdvance peer amount_arg direction_arg alsoRxChain =
     (let amount = amount_arg AND 0xffffff; direction = direction_arg AND 0xffffff
      in if direction = 4 \<or> direction = 3 then sfo_chunks peer amount direction alsoRxChain 0
         else let rb0 = SFO_PERIODIC_ADJ_CMD OR amount; rb1 = SFO_PERIODIC_SIGN_CMD OR direction
              in [(peer, (RING_ADDR_TX_TIME_DOMAIN, rb0), 0), (peer, (RING_ADDR_TX_TIME_DOMAIN, rb1), 1)] @
                 (if alsoRxChain then [(peer, (RING_ADDR_RX_FFT, rb0), 0), (peer, (RING_ADDR_RX_FFT, rb1), 1)] else []))"

text \<open>The overloads that take a \<open>RadioEstimate\<close> call it with the default of the last argument.\<close>

definition setPartnerSfoAdvance_radio :: "nat \<Rightarrow> u32 \<Rightarrow> u32 \<Rightarrow> bool \<Rightarrow> later_call list" where
  "setPartnerSfoAdvance_radio peer_id amount direction alsoRxChain = setPartnerSfoAdvance peer_id amount direction True"

definition sendPartnerNoop :: "nat \<Rightarrow> 'a node_scheme \<Rightarrow> 'a node_scheme" where
  "sendPartnerNoop peer = zmqRingbusPeer peer (0, 0)"

definition partnerOp :: "nat \<Rightarrow> u32 \<Rightarrow> string \<Rightarrow> u32 \<Rightarrow> u32 \<Rightarrow> later_call list" where
  "partnerOp peer fpga s sel v =
     (let pack = op_words s sel v GENERIC_OPERATOR_CMD in [(peer, (fpga, pack ! 0), 0), (peer, (fpga, pack ! 1), 1)])"

text \<open>\<open>EventDsp::op\<close>: the same for the own radio.\<close>

definition own_op :: "nat \<Rightarrow> u32 \<Rightarrow> string \<Rightarrow> u32 \<Rightarrow> u32 \<Rightarrow> later_call list" where
  "own_op our_id fpga s sel v = partnerOp our_id fpga s sel v"

definition forceZeros :: "nat \<Rightarrow> bool \<Rightarrow> later_call list" where
  "forceZeros peer force_zeros = [(peer, (RING_ADDR_TX_TIME_DOMAIN, ZERO_TX_CMD OR (if force_zeros then 1 else 0)), 0)]"

section \<open>Messages to the simulator\<close>

text \<open>Three characters to a word, the first one highest.\<close>

fun mock_loop :: "nat \<Rightarrow> u8 list \<Rightarrow> nat \<Rightarrow> u32 \<Rightarrow> later_call list" where
  "mock_loop peer [] i word = []"
| "mock_loop peer (c # cs) i word =
     (let word' = word OR (if i mod 3 = 0 then push_bit 16 (ucast c AND 0xff)
                           else if i mod 3 = 1 then push_bit 8 (ucast c AND 0xff) else ucast c AND 0xff)
      in if i mod 3 = 2 \<or> cs = []
         then (peer, (RING_ADDR_ETH, NODEJS_RPC_CMD OR word'), 0) # mock_loop peer cs (i + 1) 0
         else mock_loop peer cs (i + 1) word')"

definition sendToMock :: "nat \<Rightarrow> u8 list \<Rightarrow> later_call list" where
  "sendToMock peer str = mock_loop peer str 0 0 @ [(peer, (RING_ADDR_ETH, NODEJS_RPC_CMD OR 0), 0)]"

text \<open>The reader of such words that the simulator (js/mock/mockhiggs.js) sends.\<close>

definition mock_bytes :: "u32 \<Rightarrow> u8 list" where
  "mock_bytes w = [ucast (drop_bit 16 w AND 0xff), ucast (drop_bit 8 w AND 0xff), ucast (w AND 0xff)]"

definition gotFromMock :: "u32 \<Rightarrow> null_split \<Rightarrow> u8 list list \<times> null_split" where
  "gotFromMock word = ns_addData (mock_bytes word)"

text \<open>A run of words, with the messages it completes.\<close>

fun got_mock_all :: "u32 list \<Rightarrow> null_split \<Rightarrow> u8 list list \<times> null_split" where
  "got_mock_all [] s = ([], s)"
| "got_mock_all (w # ws) s = (let (ms, s1) = gotFromMock (w AND 0x00ffffff) s; (later, s2) = got_mock_all ws s1 in (ms @ later, s2))"

section \<open>The queue keeps the order\<close>

definition later_pair :: "later_call \<Rightarrow> nat \<times> ring_word" where
  "later_pair c = (fst c, fst (snd c))"

definition own_words :: "nat \<Rightarrow> (nat \<times> ring_word) list \<Rightarrow> ring_word list" where
  "own_words i es = map snd (filter (\<lambda>e. fst e = i) es)"

definition ring_messages :: "nat \<Rightarrow> (nat \<times> ring_word) list \<Rightarrow> zmq_message list" where
  "ring_messages i es = map (\<lambda>e. (zmqRbPeerTag (fst e), vec_bytes [fst (snd e), snd (snd e)])) (filter (\<lambda>e. fst e \<noteq> i) es)"

lemma own_words_append [simp]: "own_words i (a @ b) = own_words i a @ own_words i b"
  by (simp add: own_words_def)

lemma ring_messages_append [simp]: "ring_messages i (a @ b) = ring_messages i a @ ring_messages i b"
  by (simp add: ring_messages_def)

lemma pulled_same: "\<forall>e \<in> set (take (did_pull n (Some p) es) es). fst e = p"
proof (induction n "Some p" es rule: did_pull.induct)
  case (4 n q rb es)
  then show ?case by (cases "q = p") auto
qed simp_all

lemma pulled:
  assumes "n \<noteq> 0"
  shows "0 < did_pull n None ((p, rb) # es)" "\<forall>e \<in> set (take (did_pull n None ((p, rb) # es)) ((p, rb) # es)). fst e = p"
  using assms pulled_same by (cases n; auto)+

lemma all_own:
  "\<forall>e \<in> set es. fst e = i \<Longrightarrow> own_words i es = map snd es \<and> ring_messages i es = []"
  by (induction es) (auto simp: own_words_def ring_messages_def)

text \<open>What is sent, with what is queued, is what was called; a queued word has a timer.\<close>

definition later_inv :: "later_node \<Rightarrow> later_call list \<Rightarrow> later_node \<Rightarrow> bool" where
  "later_inv n0 cs n \<longleftrightarrow> node_id n = node_id n0 \<and> length (pending_ring_events n) = length (pending_ring_data n) \<and>
     length (pending_ring_data n) \<le> length (armed n) \<and>
     (\<exists>sent. sent @ pending_ring_data n = map later_pair cs \<and> ring_out n = ring_out n0 @ own_words (node_id n0) sent \<and>
        pub n = pub n0 @ ring_messages (node_id n0) sent)"

lemma later_inv_call: "later_inv n0 cs n \<Longrightarrow> later_inv n0 (cs @ [c]) (zmqRingbusPeerLater c n)"
  by (cases c) (auto simp: later_inv_def zmqRingbusPeerLater_def later_pair_def)

lemma later_inv_sent:
  assumes "later_inv n0 cs n" "pending_ring_data n = a @ b" "node_id m = node_id n" "pending_ring_data m = b"
    "pending_ring_events m = drop (length a) (pending_ring_events n)" "length b \<le> length (armed m)"
    "ring_out m = ring_out n @ own_words (node_id n) a" "pub m = pub n @ ring_messages (node_id n) a"
  shows "later_inv n0 cs m"
proof -
  obtain sent where s: "sent @ pending_ring_data n = map later_pair cs" "ring_out n = ring_out n0 @ own_words (node_id n0) sent"
    "pub n = pub n0 @ ring_messages (node_id n0) sent" using assms(1) by (auto simp: later_inv_def)
  then have "(sent @ a) @ pending_ring_data m = map later_pair cs" using assms by simp
  then show ?thesis using assms s unfolding later_inv_def
    by (intro conjI exI [of _ "sent @ a"]) (simp_all add: later_inv_def)
qed

lemma later_inv_fire:
  assumes "later_inv n0 cs n" "i < length (armed n)"
  shows "later_inv n0 cs (handle_rb_later aggregate (n\<lparr>armed := take i (armed n) @ drop (Suc i) (armed n)\<rparr>))"
proof -
  let ?n = "n\<lparr>armed := take i (armed n) @ drop (Suc i) (armed n)\<rparr>"
  have l: "length (armed ?n) = length (armed n) - 1" using assms(2) by simp
  have le: "length (pending_ring_data n) \<le> length (armed n)" using assms(1) by (simp add: later_inv_def)
  show ?thesis
  proof (cases "pending_ring_data n")
    case Nil
    then show ?thesis using assms(1) by (simp add: handle_rb_later_def later_inv_def)
  next
    case (Cons e rest)
    obtain p rb where e: "e = (p, rb)" by (rule prod.exhaust)
    show ?thesis
    proof (cases "p = node_id n \<and> aggregate")
      case True
      let ?k = "did_pull (min max_pull (length (pending_ring_data n))) None (pending_ring_data n)"
      have k: "0 < ?k" "\<forall>e \<in> set (take ?k (pending_ring_data n)). fst e = p"
        using pulled [of "min max_pull (length (pending_ring_data n))" p rb rest] Cons e by simp_all
      have h: "handle_rb_later aggregate ?n = ?n\<lparr>ring_out := ring_out n @ map snd (take ?k (pending_ring_data n)),
          pending_ring_data := drop ?k (pending_ring_data n), pending_ring_events := drop ?k (pending_ring_events n)\<rparr>"
        using True Cons e by (simp add: handle_rb_later_def handle_rb_later_multi_def)
      have ev: "drop ?k (pending_ring_events n) = drop (length (take ?k (pending_ring_data n))) (pending_ring_events n)"
        using assms(1) by (cases "?k \<le> length (pending_ring_data n)") (simp_all add: later_inv_def min_def)
      show ?thesis unfolding h
        by (rule later_inv_sent [OF assms(1), of "take ?k (pending_ring_data n)" "drop ?k (pending_ring_data n)"])
          (use all_own [OF k(2)] True k(1) le l ev Cons in \<open>simp_all\<close>)
    next
      case False
      let ?m = "handle_rb_later aggregate ?n"
      have m: "node_id ?m = node_id n" "pending_ring_data ?m = rest" "pending_ring_events ?m = drop 1 (pending_ring_events n)"
        "armed ?m = armed ?n" "ring_out ?m = ring_out n @ own_words (node_id n) [e]" "pub ?m = pub n @ ring_messages (node_id n) [e]"
        using False Cons e by (auto simp: handle_rb_later_def Let_def zmqRingbusPeer_def zmqPublish_def own_words_def ring_messages_def)
      show ?thesis
        by (rule later_inv_sent [OF assms(1), of "[e]" rest]) (use m Cons le l in \<open>simp_all\<close>)
    qed
  qed
qed

definition later_start :: "later_node \<Rightarrow> bool" where
  "later_start n \<longleftrightarrow> pending_ring_data n = [] \<and> pending_ring_events n = [] \<and> armed n = []"

lemma later_invariant: "later_reaches n0 cs n \<Longrightarrow> later_start n0 \<Longrightarrow> later_inv n0 cs n"
proof (induction rule: later_reaches.induct)
  case Start
  then show ?case by (simp add: later_inv_def later_start_def own_words_def ring_messages_def)
qed (simp_all add: later_inv_call later_inv_fire)

lemma ring_messages_published:
  "ring_messages j es = concat (map (\<lambda>(j, s). published FeedbackVector j s) (map (\<lambda>e. (j, RingWord (fst e) (snd e))) (filter (\<lambda>e. fst e \<noteq> j) es)))"
  by (induction es) (auto simp: ring_messages_def published_def fresh_node_def zmqRingbusPeer_def zmqPublish_def)

lemma ring_for_words:
  "i \<noteq> j \<Longrightarrow> concat (map (\<lambda>(j, s). ring_for i s) (map (\<lambda>e. (j, RingWord (fst e) (snd e))) (filter (\<lambda>e. fst e \<noteq> j) es))) = own_words i es"
  by (induction es) (auto simp: own_words_def)

subsection \<open>A delay belongs to no word\<close>

text \<open>A word to be sent in a second is sent at once when another follows it without delay.\<close>

definition later_example :: later_node where
  "later_example = node.extend (fresh_node 1) \<lparr>pending_ring_data = [], pending_ring_events = [], armed = []\<rparr>"

lemma delay_not_kept:
  "\<exists>n. later_reaches later_example [(1, (2, 7), 999999), (1, (2, 8), 0)] n \<and> armed n = [999999] \<and> ring_out n = [(2, 7)]"
proof -
  let ?n = "zmqRingbusPeerLater (1, (2, 8), 0) (zmqRingbusPeerLater (1, (2, 7), 999999) later_example)"
  have "later_reaches later_example [(1, (2, 7), 999999), (1, (2, 8), 0)] ?n"
    using later_reaches.Call [OF later_reaches.Call [OF later_reaches.Start]] by fastforce
  then have "later_reaches later_example [(1, (2, 7), 999999), (1, (2, 8), 0)]
      (handle_rb_later False (?n\<lparr>armed := take 1 (armed ?n) @ drop (Suc 1) (armed ?n)\<rparr>))"
    by (rule later_reaches.Fire) (simp add: zmqRingbusPeerLater_def later_example_def node.defs)
  then show ?thesis
    by (intro exI conjI, assumption)
      (simp_all add: handle_rb_later_def zmqRingbusPeerLater_def later_example_def fresh_node_def node.defs)
qed

section \<open>Chunks and characters\<close>

definition sfo_words :: "u32 \<Rightarrow> bool \<Rightarrow> u32 \<Rightarrow> ring_word list" where
  "sfo_words direction rx a =
     [(RING_ADDR_TX_TIME_DOMAIN, SFO_PERIODIC_ADJ_CMD OR a), (RING_ADDR_TX_TIME_DOMAIN, SFO_PERIODIC_SIGN_CMD OR direction)] @
     (if rx then [(RING_ADDR_RX_FFT, SFO_PERIODIC_ADJ_CMD OR a), (RING_ADDR_RX_FFT, SFO_PERIODIC_SIGN_CMD OR direction)] else [])"

lemma sfo_chunks_sum:
  "\<exists>as. map later_pair (sfo_chunks peer amount direction rx timer) = map (Pair peer) (concat (map (sfo_words direction rx) as)) \<and>
    sum_list (map unat as) = unat amount \<and> list_all (\<lambda>a. 0 < a \<and> a \<le> 128) as"
proof (induction peer amount direction rx timer rule: sfo_chunks.induct)
  case (1 peer amount direction rx timer)
  show ?case
  proof (cases "amount = 0")
    case True
    then show ?thesis by (intro exI [of _ "[]"]) (simp add: sfo_chunks.simps)
  next
    case False
    let ?a = "min 128 amount"
    from 1 [OF False refl] obtain as where as: "map later_pair (sfo_chunks peer (amount - ?a) direction rx
        (timer + (if rx then 20000 else 10000))) = map (Pair peer) (concat (map (sfo_words direction rx) as))"
      "sum_list (map unat as) = unat (amount - ?a)" "list_all (\<lambda>a. 0 < a \<and> a \<le> 128) as" by auto
    have "unat (amount - ?a) + unat ?a = unat amount" by (simp add: unat_sub min_def word_le_nat_alt)
    moreover have "0 < ?a" using False by (simp add: min_def word_gt_0)
    ultimately show ?thesis using as False
      by (intro exI [of _ "?a # as"], subst sfo_chunks.simps) (simp add: Let_def sfo_words_def later_pair_def)
  qed
qed

definition call_bytes :: "later_call list \<Rightarrow> u8 list list" where
  "call_bytes cs = map (\<lambda>c. mock_bytes (snd (fst (snd c)) AND 0x00ffffff)) cs"

lemma rpc_bits: "n < 24 \<Longrightarrow> \<not> bit NODEJS_RPC_CMD n"
  using type_bits [of NODEJS_RPC_CMD n] by force

lemma mock_word:
  "mock_bytes ((NODEJS_RPC_CMD OR (push_bit 16 (ucast a AND 0xff) OR push_bit 8 (ucast b AND 0xff) OR (ucast c AND 0xff))) AND 0x00ffffff) = [a, b, c]"
  for a b c :: u8
  unfolding mock_bytes_def list.inject
  by (intro conjI refl; rule bit_word_eqI; unfold bit_rules ring_bits; simp add: rpc_bits)

lemma mock_three:
  assumes "j mod 3 = 0"
  shows "mock_loop peer (a # b # c # ds) j 0 = (peer, (RING_ADDR_ETH, NODEJS_RPC_CMD OR
    (push_bit 16 (ucast a AND 0xff) OR push_bit 8 (ucast b AND 0xff) OR (ucast c AND 0xff))), 0) # mock_loop peer ds (j + 3) 0"
proof -
  have m: "Suc j mod 3 = 1" "Suc (Suc j) mod 3 = 2" using assms by presburger+
  have j: "j + 3 = Suc (Suc (Suc j))" by simp
  show ?thesis unfolding j using assms m by (simp add: or.assoc)
qed

lemma mock_loop_bytes:
  "cs \<noteq> [] \<Longrightarrow> \<exists>k. concat (call_bytes (mock_loop peer cs (3 * i) 0)) = cs @ replicate k 0"
proof (induction cs arbitrary: i rule: length_induct)
  case (1 cs)
  have z: "mock_bytes ((NODEJS_RPC_CMD OR push_bit 16 (ucast a AND 0xff)) AND 0x00ffffff) = [a, 0, 0]"
    "mock_bytes ((NODEJS_RPC_CMD OR (push_bit 16 (ucast a AND 0xff) OR push_bit 8 (ucast b AND 0xff))) AND 0x00ffffff) = [a, b, 0]"
    for a b :: u8
    using mock_word [of a 0 0] mock_word [of a b 0] by simp_all
  have i: "(3 * i) mod 3 = 0" "(3 * i + 1) mod 3 = 1" "(3 * i + 2) mod 3 = 2" by presburger+
  consider a where "cs = [a]" | a b where "cs = [a, b]" | a b c ds where "cs = a # b # c # ds"
    using 1(2) by (cases cs; cases "tl cs"; cases "tl (tl cs)") simp_all
  then show ?case
  proof cases
    case (1 a)
    then show ?thesis using z(1) [of a] by (intro exI [of _ 2]) (simp add: call_bytes_def numeral_2_eq_2)
  next
    case (2 a b)
    then show ?thesis using z(2) [of a b] i by (intro exI [of _ 1]) (simp add: call_bytes_def)
  next
    case (3 a b c ds)
    have s: "concat (call_bytes (mock_loop peer cs (3 * i) 0)) = [a, b, c] @ concat (call_bytes (mock_loop peer ds (3 * (i + 1)) 0))"
      using mock_word [of a b c] mock_three [OF i(1), of peer a b c ds] unfolding 3
      by (simp add: call_bytes_def add.commute del: mock_loop.simps)
    show ?thesis
    proof (cases "ds = []")
      case True
      then show ?thesis using s 3 by (intro exI [of _ 0]) (simp add: call_bytes_def)
    next
      case False
      then obtain k where "concat (call_bytes (mock_loop peer ds (3 * (i + 1)) 0)) = ds @ replicate k 0"
        using "1.IH" [rule_format, of ds "i + 1"] 3 by auto
      then show ?thesis using s 3 by (intro exI [of _ k]) simp
    qed
  qed
qed

lemma got_mock_run: "got_mock_all ws s = ns_run (map (\<lambda>w. mock_bytes (w AND 0x00ffffff)) ws) s"
  by (induction ws arbitrary: s) (simp_all add: gotFromMock_def)

lemma null_pieces_zeros: "null_pieces [] (replicate k 0 @ bs) = null_pieces [] bs"
  by (induction k) (simp_all add: split_beta)

lemma null_pieces_message:
  assumes "str \<noteq> []" "0 \<notin> set str" "0 < k"
  shows "fst (null_pieces [] (str @ replicate k 0 @ bs)) = str # fst (null_pieces [] bs)"
proof -
  obtain j where "k = Suc j" using assms(3) by (cases k) auto
  then show ?thesis
    using assms(1) null_pieces_plain [OF assms(2), of "[]"] null_pieces_zeros [of j bs]
    by (simp add: null_pieces_append [of "[]" str] split_beta Let_def)
qed

lemma sendToMock_bytes: "str \<noteq> [] \<Longrightarrow> \<exists>k. concat (call_bytes (sendToMock peer str)) = str @ replicate (Suc k) 0"
proof -
  assume "str \<noteq> []"
  then obtain k where k: "concat (call_bytes (mock_loop peer str 0 0)) = str @ replicate k 0" using mock_loop_bytes [of str peer 0] by auto
  have "mock_bytes (NODEJS_RPC_CMD AND 0x00ffffff) = replicate 3 0" by (simp add: mock_bytes_def numeral_3_eq_3)
  then have "concat (call_bytes (sendToMock peer str)) = str @ replicate k 0 @ replicate 3 0"
    using k by (simp add: sendToMock_def call_bytes_def)
  moreover have "k + 3 = Suc (k + 2)" by simp
  ultimately show ?thesis unfolding replicate_add [symmetric] by metis
qed

section \<open>Properties\<close>

text \<open>
  C11. Ring words arrive in order. Whatever words are scheduled for whichever nodes, with whatever
  delays, and in whatever order the timers fire and further calls come in between, once no timer is
  left the own radio has got exactly its words, each once and in the order of the calls, and every
  peer that takes what was published has given exactly its own to its radio, in that order.
\<close>
theorem ring_words_arrive:
  assumes "later_reaches n0 cs n" "later_start n0" "armed n = []" "pub n0 = []" "ring_out n0 = []" "list_all (\<lambda>c. fst c \<le> 28) cs"
    and "node_id m = i" "i \<le> 28" "i \<noteq> node_id n0"
  shows "ring_out n = own_words (node_id n0) (map later_pair cs) \<and>
    (\<exists>m'. fold_option zmq_take (pub n) m = Some m' \<and> ring_out m' = ring_out m @ own_words i (map later_pair cs))"
proof -
  let ?es = "map later_pair cs" and ?j = "node_id n0"
  have inv: "pending_ring_data n = []" "ring_out n = own_words ?j ?es" "pub n = ring_messages ?j ?es"
    using later_invariant [OF assms(1,2)] assms(3-5) by (auto simp: later_inv_def)
  let ?hs = "map (\<lambda>e. (?j, RingWord (fst e) (snd e))) (filter (\<lambda>e. fst e \<noteq> ?j) ?es)"
  have "list_all (\<lambda>(j, s). j \<noteq> i \<and> send_ok s) ?hs"
    using assms(6,9) by (auto simp: list_all_iff send_ok_def later_pair_def)
  from js_bus.take_all [OF assms(7) [symmetric] assms(8) this] show ?thesis
    using inv ring_messages_published [of ?j ?es] ring_for_words [OF assms(9), of ?es] by (simp add: given_all)
qed

theorem ring_words_arrive_witness:
  "\<exists>n m'. later_reaches later_example [(2, (5, 7), 100)] n \<and> fold_option zmq_take (pub n) (fresh_node 2) = Some m' \<and> ring_out m' = [(5, 7)]"
proof -
  let ?c = "zmqRingbusPeerLater (2, (5, 7), 100) later_example"
  have "later_reaches later_example [(2, (5, 7), 100)] ?c"
    using later_reaches.Call [OF later_reaches.Start] by fastforce
  from later_reaches.Fire [OF this, of 0 False] obtain n where n: "later_reaches later_example [(2, (5, 7), 100)] n" "armed n = []"
    by (auto simp: zmqRingbusPeerLater_def later_example_def node.defs handle_rb_later_def zmqRingbusPeer_def zmqPublish_def fresh_node_def)
  have e: "later_start later_example" "pub later_example = []" "ring_out later_example = []" "node_id later_example = 1"
    by (simp_all add: later_example_def later_start_def node.defs fresh_node_def)
  have f: "node_id (fresh_node 2) = 2" "ring_out (fresh_node 2) = []" by (simp_all add: fresh_node_def)
  show ?thesis
    using ring_words_arrive [OF n(1) e(1) n(2) e(2,3) _ f(1)] n(1) f(2) e(4) by (simp add: own_words_def later_pair_def) blast
qed

text \<open>
  C38. An advance is complete. A large advance goes to the peer in chunks of at most 128, none of them
  empty, which add up to the 24 bits of the amount; every chunk is followed by its direction, first for
  the transmit chain and then, if asked for, for the receive chain. The loop ends for every amount.
\<close>
theorem sfo_advance_complete:
  assumes "direction AND 0xffffff = 3 \<or> direction AND 0xffffff = 4"
  shows "\<exists>as. map later_pair (setPartnerSfoAdvance peer amount direction rx) =
      map (Pair peer) (concat (map (sfo_words (direction AND 0xffffff) rx) as)) \<and>
    sum_list (map unat as) = unat (amount AND 0xffffff) \<and> list_all (\<lambda>a. 0 < a \<and> a \<le> 128) as"
  using sfo_chunks_sum [of peer "amount AND 0xffffff" "direction AND 0xffffff" rx 0] assms
  by (auto simp: setPartnerSfoAdvance_def Let_def)

theorem sfo_advance_complete_witness:
  "\<exists>as. map later_pair (setPartnerSfoAdvance 2 300 4 False) = map (Pair 2) (concat (map (sfo_words 4 False) as)) \<and>
    sum_list (map unat as) = 300 \<and> list_all (\<lambda>a. 0 < a \<and> a \<le> 128) as"
  using sfo_advance_complete [of 4 2 300 False] by simp

text \<open>
  The words of \<open>sendToMock\<close> as a code: cut into bytes and split at null bytes they give the messages back,
  if none is empty and none holds a null byte. It is a fact about the words only. In the system they are
  read by a script, the simulator's \<open>ethGotRpcFromSmodem\<close>, which splits them in the same way but then takes
  the bytes for ASCII; the words \<open>gotFromMock\<close> reads come from that script, each twice
  (\<open>mock_words_doubled\<close> in \<open>Radio_Remote\<close>).
\<close>
lemma mock_words_decode:
  assumes "list_all (\<lambda>s. s \<noteq> [] \<and> 0 \<notin> set s) strs"
  shows "fst (got_mock_all (map (\<lambda>c. snd (fst (snd c))) (concat (map (sendToMock peer) strs))) NullBufferSplit) = strs"
proof -
  have "fst (null_pieces [] (concat (call_bytes (concat (map (sendToMock peer) strs))))) = strs"
    using assms
  proof (induction strs)
    case (Cons s strs)
    obtain k where k: "concat (call_bytes (sendToMock peer s)) = s @ replicate (Suc k) 0"
      using sendToMock_bytes [of s peer] Cons.prems by auto
    have "concat (call_bytes (concat (map (sendToMock peer) (s # strs)))) =
        s @ replicate (Suc k) 0 @ concat (call_bytes (concat (map (sendToMock peer) strs)))"
      using k by (simp add: call_bytes_def)
    then show ?case using null_pieces_message [of s "Suc k"] Cons by simp
  qed (simp add: call_bytes_def)
  then show ?thesis
    using run_pieces [of NullBufferSplit "[]"] by (simp add: got_mock_run NullBufferSplit_def ns_holds_def call_bytes_def o_def)
qed

end
