(* ===== verification/Radio_Remote.thy ===== *)
theory Radio_Remote
  imports Peer_Handlers Peer_Ring Ring_Bus
begin

text \<open>
  Words that radios report (driver/EventDspFsm.cpp, driver/AttachedEstimate.cpp, the remote part of
  driver/RadioEstimate.cpp). A computer gets the words of its own radio, keeps some, hands some to the
  objects of the attached radio and forwards some to the receiving computer, where they wait in the
  buffer of the peer's \<open>RadioEstimate\<close> until it looks at them: counters, the load of a processor, and
  the hashes by which the peer confirms the equalizers it was sent.

  The hash and the two parsers of library words are arguments, as is the clock. The load is kept as the
  sum of the cycles; the code divides it by 32 and by the budget of 40960 in double precision.
\<close>

section \<open>Words by type\<close>

abbreviation cmd_type :: "u32 \<Rightarrow> u32" where "cmd_type word \<equiv> word AND 0xff000000"
abbreviation cmd_data :: "u32 \<Rightarrow> u32" where "cmd_data word \<equiv> word AND 0x00ffffff"

abbreviation (input) GENERIC_PCCMD :: u32 where "GENERIC_PCCMD \<equiv> 0x00000000"
abbreviation COARSE_SYNC_PCCMD :: u32 where "COARSE_SYNC_PCCMD \<equiv> 0x01000000"
abbreviation COARSE_DEBUG_PCCMD :: u32 where "COARSE_DEBUG_PCCMD \<equiv> 0x02000000"
abbreviation COARSE_DEBUG_PROG_PCCMD :: u32 where "COARSE_DEBUG_PROG_PCCMD \<equiv> 0x07000000"
abbreviation FEEDBACK_ALIVE :: u32 where "FEEDBACK_ALIVE \<equiv> 0x20000000"
abbreviation RX_ERROR_PCCMD :: u32 where "RX_ERROR_PCCMD \<equiv> 0x21000000"
abbreviation NODEJS_RCP_PCCMD :: u32 where "NODEJS_RCP_PCCMD \<equiv> 0x23000000"
abbreviation TX_EPOC_REPORT_PCCMD :: u32 where "TX_EPOC_REPORT_PCCMD \<equiv> 0x24000000"
abbreviation TX_PROGRESS_REPORT_PCCMD :: u32 where "TX_PROGRESS_REPORT_PCCMD \<equiv> 0x25000000"
abbreviation CHECK_BOOTLOAD_PCCMD :: u32 where "CHECK_BOOTLOAD_PCCMD \<equiv> 0x27000000"
abbreviation TEST_STACK_RESULTS_PCCMD :: u32 where "TEST_STACK_RESULTS_PCCMD \<equiv> 0x28000000"
abbreviation FEEDBACK_HASH_PCCMD :: u32 where "FEEDBACK_HASH_PCCMD \<equiv> 0x29000000"
abbreviation PERF_ETH_PCCMD :: u32 where "PERF_ETH_PCCMD \<equiv> 0x30000000"
abbreviation PERF_02_PCCMD :: u32 where "PERF_02_PCCMD \<equiv> 0x31000000"
abbreviation PERF_12_PCCMD :: u32 where "PERF_12_PCCMD \<equiv> 0x32000000"
abbreviation PERF_00_PCCMD :: u32 where "PERF_00_PCCMD \<equiv> 0x33000000"
abbreviation PERF_01_PCCMD :: u32 where "PERF_01_PCCMD \<equiv> 0x34000000"
abbreviation PERF_11_PCCMD :: u32 where "PERF_11_PCCMD \<equiv> 0x35000000"
abbreviation PERF_21_PCCMD :: u32 where "PERF_21_PCCMD \<equiv> 0x36000000"
abbreviation PERF_31_PCCMD :: u32 where "PERF_31_PCCMD \<equiv> 0x37000000"
abbreviation PERF_30_PCCMD :: u32 where "PERF_30_PCCMD \<equiv> 0x38000000"
abbreviation TDMA_REPLY_PCCMD :: u32 where "TDMA_REPLY_PCCMD \<equiv> 0x42000000"
abbreviation TX_USERDATA_ERROR :: u32 where "TX_USERDATA_ERROR \<equiv> 0x44000000"
abbreviation FILL_REPLY_PCCMD :: u32 where "FILL_REPLY_PCCMD \<equiv> 0x47000000"
abbreviation TX_FB_REPORT_PCCMD :: u32 where "TX_FB_REPORT_PCCMD \<equiv> 0x48000000"
abbreviation TX_UD_LATENCY_PCCMD :: u32 where "TX_UD_LATENCY_PCCMD \<equiv> 0x49000000"
abbreviation TX_FB_REPORT2_PCCMD :: u32 where "TX_FB_REPORT2_PCCMD \<equiv> 0x4b000000"
abbreviation TX_REPORT_STATUS_PCCMD :: u32 where "TX_REPORT_STATUS_PCCMD \<equiv> 0x4c000000"
abbreviation TX_PARSE_GOT_VECTOR_PCCMD :: u32 where "TX_PARSE_GOT_VECTOR_PCCMD \<equiv> 0x4e000000"
abbreviation GENERIC_READBACK_PCCMD :: u32 where "GENERIC_READBACK_PCCMD \<equiv> 0x51000000"
abbreviation RX_FINE_SYNC_OVERFLOW_PCCMD :: u32 where "RX_FINE_SYNC_OVERFLOW_PCCMD \<equiv> 0x52000000"
abbreviation POWER_RESULT_PCCMD :: u32 where "POWER_RESULT_PCCMD \<equiv> 0x53000000"
abbreviation UART_READOUT_PCCMD :: u32 where "UART_READOUT_PCCMD \<equiv> 0x54000000"
abbreviation EXFIL_READOUT_PCCMD :: u32 where "EXFIL_READOUT_PCCMD \<equiv> 0x55000000"
abbreviation LAST_USERDATA_PCCMD :: u32 where "LAST_USERDATA_PCCMD \<equiv> 0x56000000"
abbreviation RX_COUNTER_SYNC_PCCMD :: u32 where "RX_COUNTER_SYNC_PCCMD \<equiv> 0x59000000"
abbreviation FINE_SYNC_RAW_PCCMD :: u32 where "FINE_SYNC_RAW_PCCMD \<equiv> 0x60000000"
abbreviation DEBUG_32_PCCMD :: u32 where "DEBUG_32_PCCMD \<equiv> 0x88000000"
abbreviation DEBUG_0_PCCMD :: u32 where "DEBUG_0_PCCMD \<equiv> 0xde000000"

record radio_lib =
  rl_xorshift32 :: "u32 \<Rightarrow> u32 list \<Rightarrow> u32"
  schedule_parse_delta_ringbus :: "u32 \<Rightarrow> int"
  feedback_parse_error :: "u32 \<Rightarrow> u32"

section \<open>The radio of a peer\<close>

record radio =
  est_remote_perf :: u32
  hold_perf :: "u32 list"
  cpu_load :: "nat option"
  alive_count :: u32
  eq_hash_state :: u32
  eq_hash_word :: u32
  eq_hash_expected :: "(u32 \<times> u64) list"
  est_init :: time_point

definition every_other :: "nat \<Rightarrow> u32 list \<Rightarrow> nat" where
  "every_other k ds = sum_list (map (\<lambda>i. if i mod 2 = k then unat (ds ! i) else 0) [0..<length ds])"

definition consumePerformance :: "u32 \<Rightarrow> radio \<Rightarrow> radio" where
  "consumePerformance word r =
     (let r1 = (if est_remote_perf r = 0 then if word = PERF_02_PCCMD then r\<lparr>est_remote_perf := 1\<rparr> else r
                else if est_remote_perf r = 1 then r\<lparr>est_remote_perf := if word = (PERF_02_PCCMD OR 8) then 2 else 0\<rparr>
                else if est_remote_perf r = 2 then r\<lparr>hold_perf := hold_perf r @ [cmd_data word]\<rparr>
                else r)
      in if length (hold_perf r1) = 64
         then r1\<lparr>cpu_load := Some (every_other 1 (hold_perf r1)), hold_perf := [], est_remote_perf := 0\<rparr>
         else r1)"

subsection \<open>Equalizer hashes\<close>

definition getEqHash :: "radio_lib \<Rightarrow> u32 list \<Rightarrow> u32" where
  "getEqHash L eq = rl_xorshift32 L 1 eq"

definition hash_age :: "time_point \<Rightarrow> radio \<Rightarrow> u64" where
  "hash_age t r = word_of_int (us_between (est_init r) t)"

definition saveIdealEqHash :: "radio_lib \<Rightarrow> time_point \<Rightarrow> u32 list \<Rightarrow> radio \<Rightarrow> radio" where
  "saveIdealEqHash L t eq r = r\<lparr>eq_hash_expected := eq_hash_expected r @ [(getEqHash L eq, hash_age t r)]\<rparr>"

definition hash_expired :: "u64 \<Rightarrow> u32 \<times> u64 \<Rightarrow> bool" where
  "hash_expired now_age e \<longleftrightarrow> now_age - snd e > 10000000"

text \<open>The first entry that satisfies the test is erased; the pruning starts again after each.\<close>

fun erase_first :: "('a \<Rightarrow> bool) \<Rightarrow> 'a list \<Rightarrow> 'a list option" where
  "erase_first P [] = None"
| "erase_first P (e # es) = (if P e then Some es else map_option ((#) e) (erase_first P es))"

lemma erase_first_length: "erase_first P es = Some es' \<Longrightarrow> length es = Suc (length es')"
  by (induction es arbitrary: es') (auto split: if_splits)

function eq_prune :: "u64 \<Rightarrow> (u32 \<times> u64) list \<Rightarrow> (u32 \<times> u64) list" where
  "eq_prune now_age es =
     (case erase_first (hash_expired now_age) es of None \<Rightarrow> es | Some es' \<Rightarrow> eq_prune now_age es')"
  by pat_completeness auto
termination
  by (relation "measure (\<lambda>(_, es). length es)") (auto dest: erase_first_length)

declare eq_prune.simps [simp del]

definition eqHashCompare :: "time_point \<Rightarrow> u32 \<Rightarrow> radio \<Rightarrow> radio" where
  "eqHashCompare t word r =
     (let pruned = eq_prune (hash_age t r) (eq_hash_expected r)
      in r\<lparr>eq_hash_expected := (case erase_first (\<lambda>e. word = fst e) pruned of None \<Rightarrow> pruned | Some es \<Rightarrow> es)\<rparr>)"

definition handleEqHashReply :: "time_point \<Rightarrow> u32 \<Rightarrow> radio \<Rightarrow> radio" where
  "handleEqHashReply t word r =
     (let upper = word AND 0xff0000; data = word AND 0xffff
      in if eq_hash_state r = 0
         then if upper = 0 then r\<lparr>eq_hash_word := data, eq_hash_state := 1\<rparr> else r
         else let r1 = (if upper = 0x10000
                        then eqHashCompare t (eq_hash_word r OR push_bit 16 data) r
                        else r)
              in r1\<lparr>eq_hash_state := 0, eq_hash_word := 0\<rparr>)"

definition dispatchRemoteRb :: "time_point \<Rightarrow> u32 \<Rightarrow> radio \<Rightarrow> radio" where
  "dispatchRemoteRb t word r =
     (if cmd_type word = PERF_02_PCCMD then consumePerformance word r
      else if cmd_type word = FEEDBACK_ALIVE then r\<lparr>alive_count := alive_count r + 1\<rparr>
      else if cmd_type word = FEEDBACK_HASH_PCCMD then handleEqHashReply t (cmd_data word) r
      else r)"

definition resetFeedbackBackDetectRemote :: "radio \<Rightarrow> radio" where
  "resetFeedbackBackDetectRemote r = r\<lparr>alive_count := 0\<rparr>"

text \<open>The buffer of words after the check, and the radio; the clock is read for every word.\<close>

fun remote_loop :: "(nat \<Rightarrow> time_point) \<Rightarrow> nat \<Rightarrow> u32 list \<Rightarrow> radio \<Rightarrow> radio" where
  "remote_loop clock i [] r = r"
| "remote_loop clock i (word # ws) r = remote_loop clock (i + 1) ws (dispatchRemoteRb (clock i) word r)"

definition idleCheckRemoteRing :: "(nat \<Rightarrow> time_point) \<Rightarrow> u32 list \<Rightarrow> radio \<Rightarrow> u32 list \<times> radio" where
  "idleCheckRemoteRing clock remote_rb_buffer r = ([], remote_loop clock 0 remote_rb_buffer r)"

section \<open>The attached radio\<close>

record attached_radio =
  att_alive_count :: u32
  dispatchOp :: dispatch_generic
  op_calls :: "(u32 \<times> u32) list"
  epoc_recent_reply_frames :: int
  epoc_recent_reply_frames_valid :: bool
  att_acks_received :: u32
  fine_sync_raw_lower :: u32
  att_epoc_timestamp :: time_point
  att_epoc_frame :: u32
  att_epoc :: u32
  att_epoc_valid :: bool
  req_pause :: nat
  zeros_ended :: nat
  zeros_started :: nat

definition handleFillLevelReplyDuplex :: "radio_lib \<Rightarrow> u32 \<Rightarrow> attached_radio \<Rightarrow> attached_radio" where
  "handleFillLevelReplyDuplex L word a =
     a\<lparr>epoc_recent_reply_frames := schedule_parse_delta_ringbus L word, epoc_recent_reply_frames_valid := True,
       att_acks_received := att_acks_received a + 1\<rparr>"

definition getEpocRecentReply :: "bool \<Rightarrow> attached_radio \<Rightarrow> bool \<times> int" where
  "getEpocRecentReply clear a =
     (let valid = epoc_recent_reply_frames_valid a
      in if valid then (\<not> clear, epoc_recent_reply_frames a) else (valid, epoc_recent_reply_frames a))"

definition consumeContinuousEpoc :: "time_point \<Rightarrow> u32 \<Rightarrow> attached_radio \<Rightarrow> attached_radio" where
  "consumeContinuousEpoc t word a =
     (let a1 = a\<lparr>att_epoc_timestamp := t\<rparr>
      in if cmd_type word = TX_PROGRESS_REPORT_PCCMD then a1\<lparr>att_epoc_frame := cmd_data word\<rparr>
         else if cmd_type word = TX_EPOC_REPORT_PCCMD
         then a1\<lparr>att_epoc_frame := 0, att_epoc := cmd_data word, att_epoc_valid := True\<rparr>
         else a1)"

definition attachedFineSyncRaw :: "string \<Rightarrow> u32 \<Rightarrow> attached_radio \<Rightarrow> attached_radio" where
  "attachedFineSyncRaw dsp_role word a =
     (if dsp_role \<noteq> ''tx'' then a
      else if word AND 0xff0000 = 0 then a\<lparr>fine_sync_raw_lower := word AND 0xffff\<rparr>
      else a)"

definition dispatchAttachedRb :: "radio_lib \<Rightarrow> string \<Rightarrow> u32 \<Rightarrow> attached_radio \<Rightarrow> attached_radio" where
  "dispatchAttachedRb L dsp_role word a =
     (if cmd_type word = TX_UD_LATENCY_PCCMD then handleFillLevelReplyDuplex L word a
      else if cmd_type word = TX_USERDATA_ERROR
      then let fbError = feedback_parse_error L word
           in if fbError = 3 then a\<lparr>req_pause := req_pause a + 1\<rparr>
              else if fbError = 2 then a\<lparr>zeros_ended := zeros_ended a + 1\<rparr>
              else if fbError = 1 then a\<lparr>zeros_started := zeros_started a + 1\<rparr>
              else a
      else if cmd_type word = FEEDBACK_ALIVE then a\<lparr>att_alive_count := att_alive_count a + 1\<rparr>
      else if cmd_type word = GENERIC_READBACK_PCCMD
      then let (calls, d) = gotWord word (dispatchOp a) in a\<lparr>dispatchOp := d, op_calls := op_calls a @ calls\<rparr>
      else if cmd_type word = FINE_SYNC_RAW_PCCMD then attachedFineSyncRaw dsp_role (cmd_data word) a
      else a)"

section \<open>The computer of a radio\<close>

record dsp = pc +
  rb_buf_coarse_sync :: "u32 list"
  splitRpc :: null_split
  rpc_messages :: "u8 list list"
  dsp_role :: string
  attached :: "attached_radio option"

definition checkGetCoarseRb :: "dsp \<Rightarrow> u32 option \<times> dsp" where
  "checkGetCoarseRb n =
     (case rb_buf_coarse_sync n of [] \<Rightarrow> (None, n) | w # ws \<Rightarrow> (Some w, n\<lparr>rb_buf_coarse_sync := ws\<rparr>))"

definition mock_got :: "u32 \<Rightarrow> dsp \<Rightarrow> dsp" where
  "mock_got word n =
     (let (messages, split) = gotFromMock word (splitRpc n)
      in n\<lparr>rpc_messages := rpc_messages n @ messages, splitRpc := split\<rparr>)"

definition dspDispatchAttachedRb_RX :: "u32 \<Rightarrow> dsp \<Rightarrow> bool \<times> dsp" where
  "dspDispatchAttachedRb_RX word n =
     (if cmd_type word = COARSE_SYNC_PCCMD then (True, n\<lparr>rb_buf_coarse_sync := rb_buf_coarse_sync n @ [cmd_data word]\<rparr>)
      else if cmd_type word = NODEJS_RCP_PCCMD then (True, mock_got (cmd_data word) n)
      else (cmd_type word \<in> {COARSE_DEBUG_PCCMD, DEBUG_32_PCCMD, GENERIC_PCCMD, DEBUG_0_PCCMD, COARSE_DEBUG_PROG_PCCMD,
              FILL_REPLY_PCCMD, UART_READOUT_PCCMD, POWER_RESULT_PCCMD, EXFIL_READOUT_PCCMD, RX_COUNTER_SYNC_PCCMD,
              RX_ERROR_PCCMD, RX_FINE_SYNC_OVERFLOW_PCCMD}, n))"

definition do_forward :: "u32 \<Rightarrow> bool" where
  "do_forward word \<longleftrightarrow> cmd_type word \<in> {FEEDBACK_ALIVE, GENERIC_READBACK_PCCMD, PERF_ETH_PCCMD, PERF_02_PCCMD,
     PERF_12_PCCMD, PERF_00_PCCMD, PERF_01_PCCMD, PERF_11_PCCMD, PERF_21_PCCMD, PERF_31_PCCMD, PERF_30_PCCMD,
     TDMA_REPLY_PCCMD, FEEDBACK_HASH_PCCMD}"

definition attached_consume :: "u32 \<Rightarrow> bool" where
  "attached_consume word \<longleftrightarrow> cmd_type word \<in> {TDMA_REPLY_PCCMD, TX_UD_LATENCY_PCCMD, FILL_REPLY_PCCMD, TX_USERDATA_ERROR,
     FEEDBACK_ALIVE, TEST_STACK_RESULTS_PCCMD, GENERIC_READBACK_PCCMD, LAST_USERDATA_PCCMD, TX_PARSE_GOT_VECTOR_PCCMD,
     TX_FB_REPORT_PCCMD, TX_FB_REPORT2_PCCMD, CHECK_BOOTLOAD_PCCMD, TX_REPORT_STATUS_PCCMD, FINE_SYNC_RAW_PCCMD}"

text \<open>\<open>peer_rx\<close> is the receiving computer of the settings.\<close>

definition dspDispatchAttachedRb_TX :: "packet_fn \<Rightarrow> radio_lib \<Rightarrow> nat \<Rightarrow> u32 \<Rightarrow> dsp \<Rightarrow> bool \<times> dsp" where
  "dspDispatchAttachedRb_TX pk L peer_rx word n =
     (let n1 = (if \<not> attached_consume word \<and> cmd_type word = NODEJS_RCP_PCCMD then mock_got (cmd_data word) n else n);
          n2 = (if do_forward word then transportRingToPartner pk peer_rx [of_nat (node_id n1), word] n1 else n1);
          n3 = (if attached_consume word
                then n2\<lparr>attached := map_option (dispatchAttachedRb L (dsp_role n2) word) (attached n2)\<rparr> else n2)
      in (attached_consume word \<or> do_forward word, n3))"

definition dspDispatchAttachedRb :: "packet_fn \<Rightarrow> radio_lib \<Rightarrow> nat \<Rightarrow> u32 \<Rightarrow> dsp \<Rightarrow> dsp" where
  "dspDispatchAttachedRb pk L peer_rx word n =
     snd (dspDispatchAttachedRb_TX pk L peer_rx word (snd (dspDispatchAttachedRb_RX word n)))"

section \<open>Specification\<close>

text \<open>The two words in which a radio reports the hash of an equalizer.\<close>

definition hash_words :: "u32 \<Rightarrow> u32 list" where
  "hash_words h = [FEEDBACK_HASH_PCCMD OR (h AND 0xffff), FEEDBACK_HASH_PCCMD OR 0x10000 OR drop_bit 16 h]"

abbreviation is_hash :: "u32 \<Rightarrow> bool" where "is_hash word \<equiv> cmd_type word = FEEDBACK_HASH_PCCMD"

section \<open>Erasing\<close>

lemma erase_first_None: "erase_first P es = None \<longleftrightarrow> (\<forall>e \<in> set es. \<not> P e)"
  by (induction es) auto

lemma erase_first_filter: "erase_first P es = Some es' \<Longrightarrow> filter (\<lambda>e. \<not> P e) es' = filter (\<lambda>e. \<not> P e) es"
  by (induction es arbitrary: es') (auto split: if_splits)

text \<open>Pruning one by one leaves what has not expired.\<close>

lemma eq_prune_filter: "eq_prune now_age es = filter (\<lambda>e. \<not> hash_expired now_age e) es"
proof (induction now_age es rule: eq_prune.induct)
  case (1 now_age es)
  show ?case
  proof (cases "erase_first (hash_expired now_age) es")
    case None
    then show ?thesis by (simp add: eq_prune.simps [of now_age es]) (simp add: erase_first_None)
  next
    case (Some es')
    then show ?thesis using 1 erase_first_filter [OF Some] by (simp add: eq_prune.simps [of now_age es])
  qed
qed

lemma erase_first_mset:
  "mset (map fst (case erase_first (\<lambda>e. word = fst e) es of None \<Rightarrow> es | Some es' \<Rightarrow> es')) = mset (map fst es) - {#word#}"
  for es :: "(u32 \<times> 'b) list"
proof (induction es)
  case (Cons e es)
  show ?case
  proof (cases "word = fst e")
    case False
    then show ?thesis using Cons by (cases "erase_first (\<lambda>e. word = fst e) es") auto
  qed simp
qed simp

lemma erase_first_subset: "erase_first P es = Some es' \<Longrightarrow> set es' \<subseteq> set es"
  by (induction es arbitrary: es') (auto split: if_splits)

section \<open>Hashes\<close>

definition all_fresh :: "(nat \<Rightarrow> time_point) \<Rightarrow> radio \<Rightarrow> bool" where
  "all_fresh clock r \<longleftrightarrow> (\<forall>i. \<forall>e \<in> set (eq_hash_expected r). \<not> hash_expired (hash_age (clock i) r) e)"

lemma compare_fresh:
  assumes "all_fresh clock r"
  shows "mset (map fst (eq_hash_expected (eqHashCompare (clock i) h r))) = mset (map fst (eq_hash_expected r)) - {#h#}"
    "all_fresh clock (eqHashCompare (clock i) h r)"
proof -
  have p: "eq_prune (hash_age (clock i) r) (eq_hash_expected r) = eq_hash_expected r"
    using assms by (simp add: eq_prune_filter all_fresh_def)
  show "mset (map fst (eq_hash_expected (eqHashCompare (clock i) h r))) = mset (map fst (eq_hash_expected r)) - {#h#}"
    by (simp add: eqHashCompare_def p Let_def erase_first_mset [where word = h and es = "eq_hash_expected r", simplified])
  show "all_fresh clock (eqHashCompare (clock i) h r)"
  proof -
    have "set (eq_hash_expected (eqHashCompare (clock i) h r)) \<subseteq> set (eq_hash_expected r)"
      by (simp add: eqHashCompare_def p Let_def split: option.split) (auto dest: erase_first_subset)
    moreover have "est_init (eqHashCompare (clock i) h r) = est_init r" by (simp add: eqHashCompare_def Let_def)
    ultimately show ?thesis using assms unfolding all_fresh_def hash_age_def by auto
  qed
qed

lemma upper_bits: "bit (0xff0000 :: u32) n \<longleftrightarrow> 16 \<le> n \<and> n < 24" "bit (0x10000 :: u32) n \<longleftrightarrow> n = 16"
proof -
  have "(0xff0000 :: u32) = push_bit 16 (mask 8)" "(0x10000 :: u32) = push_bit 16 (mask 1)"
    by (simp_all add: mask_eq_exp_minus_1 push_bit_eq_mult)
  then show "bit (0xff0000 :: u32) n \<longleftrightarrow> 16 \<le> n \<and> n < 24" "bit (0x10000 :: u32) n \<longleftrightarrow> n = 16"
    by (auto simp only: bit_push_word bit_mask_iff) auto
qed

lemma hash_fields:
  fixes ty h :: u32
  assumes ty: "ty AND 0x00ffffff = 0"
  shows "cmd_type (ty OR (h AND 0xffff)) = ty" "cmd_type (ty OR 0x10000 OR drop_bit 16 h) = ty"
    "cmd_data (ty OR (h AND 0xffff)) AND 0xff0000 = 0" "cmd_data (ty OR (h AND 0xffff)) AND 0xffff = h AND 0xffff"
    "cmd_data (ty OR 0x10000 OR drop_bit 16 h) AND 0xff0000 = 0x10000"
    "(h AND 0xffff) OR push_bit 16 (cmd_data (ty OR 0x10000 OR drop_bit 16 h) AND 0xffff) = h"
  by (rule bit_word_eqI; unfold bit_rules ring_bits upper_bits bit_0_eq bot_apply bot_bool_def; auto dest: type_bits [OF ty] bit_imp_le_length)+

lemma hash_word_fields:
  "cmd_type (FEEDBACK_HASH_PCCMD OR (h AND 0xffff)) = FEEDBACK_HASH_PCCMD"
  "cmd_type (FEEDBACK_HASH_PCCMD OR 0x10000 OR drop_bit 16 h) = FEEDBACK_HASH_PCCMD"
  "cmd_data (FEEDBACK_HASH_PCCMD OR (h AND 0xffff)) AND 0xff0000 = 0"
  "cmd_data (FEEDBACK_HASH_PCCMD OR (h AND 0xffff)) AND 0xffff = h AND 0xffff"
  "cmd_data (FEEDBACK_HASH_PCCMD OR 0x10000 OR drop_bit 16 h) AND 0xff0000 = 0x10000"
  "(h AND 0xffff) OR push_bit 16 (cmd_data (FEEDBACK_HASH_PCCMD OR 0x10000 OR drop_bit 16 h) AND 0xffff) = h"
  for h :: u32
  using hash_fields [of FEEDBACK_HASH_PCCMD h] by simp_all

lemma consume_keeps [simp]:
  "eq_hash_state (consumePerformance word r) = eq_hash_state r" "eq_hash_word (consumePerformance word r) = eq_hash_word r"
  "eq_hash_expected (consumePerformance word r) = eq_hash_expected r" "est_init (consumePerformance word r) = est_init r"
  by (simp_all add: consumePerformance_def Let_def)

text \<open>A word of another type leaves the state of the hashes alone.\<close>

lemma dispatch_other:
  assumes "\<not> is_hash word"
  shows "eq_hash_state (dispatchRemoteRb t word r) = eq_hash_state r" "eq_hash_word (dispatchRemoteRb t word r) = eq_hash_word r"
    "eq_hash_expected (dispatchRemoteRb t word r) = eq_hash_expected r" "est_init (dispatchRemoteRb t word r) = est_init r"
  using assms by (simp_all add: dispatchRemoteRb_def)

definition hash_awaited :: "u32 list \<Rightarrow> u32 list \<Rightarrow> radio \<Rightarrow> bool" where
  "hash_awaited ws hs r \<longleftrightarrow>
     (if eq_hash_state r = 0 then filter is_hash ws = concat (map hash_words hs)
      else hs \<noteq> [] \<and> eq_hash_word r = hd hs AND 0xffff \<and>
        filter is_hash ws = drop 1 (hash_words (hd hs)) @ concat (map hash_words (tl hs)))"

lemma hashes_confirmed:
  assumes "hash_awaited ws hs r" "all_fresh clock r"
  shows "mset (map fst (eq_hash_expected (remote_loop clock i ws r))) = mset (map fst (eq_hash_expected r)) - mset hs"
  using assms
proof (induction ws arbitrary: i hs r)
  case Nil
  then show ?case by (cases hs) (auto simp: hash_awaited_def hash_words_def split: if_splits)
next
  case (Cons w ws)
  let ?r = "dispatchRemoteRb (clock i) w r"
  show ?case
  proof (cases "is_hash w")
    case False
    then have f: "filter is_hash (w # ws) = filter is_hash ws" by simp
    have "hash_awaited ws hs ?r"
      using Cons.prems(1) unfolding hash_awaited_def dispatch_other [OF False] f .
    moreover have "all_fresh clock ?r"
      using Cons.prems(2) False by (simp add: dispatch_other all_fresh_def hash_age_def)
    ultimately have "hash_awaited ws hs ?r" "all_fresh clock ?r" .
    from Cons.IH [OF this, of "i + 1"] show ?thesis using False by (simp add: dispatch_other)
  next
    case True
    show ?thesis
    proof (cases "eq_hash_state r = 0")
      case zero: True
      then obtain h hs' where hs: "hs = h # hs'" "w = FEEDBACK_HASH_PCCMD OR (h AND 0xffff)"
        "filter is_hash ws = drop 1 (hash_words h) @ concat (map hash_words hs')"
        using Cons.prems(1) True by (cases hs) (auto simp: hash_awaited_def hash_words_def)
      have r: "?r = r\<lparr>eq_hash_word := h AND 0xffff, eq_hash_state := 1\<rparr>"
        using zero unfolding hs(2) dispatchRemoteRb_def hash_word_fields(1) by (simp add: handleEqHashReply_def hash_word_fields)
      have "hash_awaited ws hs ?r" "all_fresh clock ?r"
        using hs Cons.prems(2) unfolding r by (simp_all add: hash_awaited_def all_fresh_def hash_age_def)
      from Cons.IH [OF this, of "i + 1"] show ?thesis by (simp add: r)
    next
      case one: False
      then obtain h hs' where hs: "hs = h # hs'" "w = FEEDBACK_HASH_PCCMD OR 0x10000 OR drop_bit 16 h"
        "eq_hash_word r = h AND 0xffff" "filter is_hash ws = concat (map hash_words hs')"
        using Cons.prems(1) True by (cases hs) (auto simp: hash_awaited_def hash_words_def)
      have r: "?r = (eqHashCompare (clock i) h r)\<lparr>eq_hash_state := 0, eq_hash_word := 0\<rparr>"
        using one unfolding hs(2) dispatchRemoteRb_def handleEqHashReply_def Let_def hs(3) hash_word_fields by simp
      have "hash_awaited ws hs' ?r" "all_fresh clock ?r"
        using hs(4) compare_fresh(2) [OF Cons.prems(2), of i h] unfolding r by (simp_all add: hash_awaited_def all_fresh_def hash_age_def)
      from Cons.IH [OF this, of "i + 1"] show ?thesis
        using compare_fresh(1) [OF Cons.prems(2), of i h] by (simp add: r hs(1))
    qed
  qed
qed

section \<open>Forwarding\<close>

lemma mock_got_fields [simp]: "pub (mock_got w n) = pub n" "node_id (mock_got w n) = node_id n"
  by (simp_all add: mock_got_def split: prod.splits)

lemma dispatch_rx_fields [simp]:
  "pub (snd (dspDispatchAttachedRb_RX w n)) = pub n" "node_id (snd (dspDispatchAttachedRb_RX w n)) = node_id n"
  by (simp_all add: dspDispatchAttachedRb_RX_def)

lemma dispatch_pub:
  "pub (dspDispatchAttachedRb pk L peer_rx w n) = pub n @
     (if do_forward w then published pk (node_id n) (TransportRing peer_rx [of_nat (node_id n), w]) else [])"
  "node_id (dspDispatchAttachedRb pk L peer_rx w n) = node_id n"
  by (simp_all add: dspDispatchAttachedRb_def dspDispatchAttachedRb_TX_def Let_def transportRingToPartner_def
      zmqPublish_words_def zmqPublish_def published_def fresh_node_def)

lemma forwarded:
  "pub (fold (dspDispatchAttachedRb pk L peer_rx) ws n) = pub n @
     concat (map (\<lambda>(j, s). published pk j s)
       (map (\<lambda>w. (node_id n, TransportRing peer_rx [of_nat (node_id n), w])) (filter do_forward ws)))"
  by (induction ws arbitrary: n) (simp_all add: dispatch_pub)

lemma ring_to_last:
  "peer \<notin> fst ` set rs2 \<Longrightarrow> ring_to_radio peer ws (rs1 @ (peer, buf) # rs2) = Some (rs1 @ (peer, buf @ ws) # rs2)"
proof -
  assume "peer \<notin> fst ` set rs2"
  then have "ring_to_radio peer ws rs2 = None" by (induction rs2) auto
  then show ?thesis by (induction rs1) auto
qed

context peer_bus
begin

lemma forwarded_frames:
  assumes "radios_rb n = rs1 @ (peer, buf) # rs2" "peer \<notin> fst ` set rs2"
  shows "\<exists>n'. fold_option (handlePcPcVectorType pk env)
      (map (\<lambda>w. pk FEEDBACK_VEC_TRANSPORT_RB [peer, w] d0 d1) ws) n = Some n' \<and> radios_rb n' = rs1 @ (peer, buf @ ws) # rs2"
  using assms(1)
proof (induction ws arbitrary: n buf)
  case (Cons w ws)
  let ?f = "pk FEEDBACK_VEC_TRANSPORT_RB [peer, w] d0 d1"
  have "handlePcPcVectorType pk env ?f n = Some (sent_note ?f (n\<lparr>radios_rb := rs1 @ (peer, buf @ [w]) # rs2\<rparr>))"
    using Cons.prems by (simp add: handle_packet pc_vector_def ring_to_last [OF assms(2)])
  moreover have "radios_rb (sent_note ?f (n\<lparr>radios_rb := rs1 @ (peer, buf @ [w]) # rs2\<rparr>)) = rs1 @ (peer, buf @ [w]) # rs2"
    by (simp add: sent_note_def)
  from Cons.IH [OF this] show ?case using calculation by simp
qed simp

end

section \<open>The load of a processor\<close>

text \<open>Two marks and 64 numbers make a measurement; every second number is one of cycles.\<close>

lemma holding:
  assumes "est_remote_perf r = 2" "length (hold_perf r) + length ds < 64" "list_all (\<lambda>d. cmd_type d = PERF_02_PCCMD) ds"
  shows "remote_loop clock i ds r = r\<lparr>hold_perf := hold_perf r @ map (\<lambda>d. cmd_data d) ds\<rparr>"
  using assms
proof (induction ds arbitrary: i r)
  case (Cons d ds)
  have "dispatchRemoteRb (clock i) d r = r\<lparr>hold_perf := hold_perf r @ [cmd_data d]\<rparr>"
    using Cons.prems by (simp add: dispatchRemoteRb_def consumePerformance_def Let_def)
  then show ?case using Cons by simp
qed simp

lemma performance_measured:
  assumes "est_remote_perf r = 0" "hold_perf r = []" "length ds = 64" "list_all (\<lambda>d. cmd_type d = PERF_02_PCCMD) ds"
  shows "remote_loop clock i ([PERF_02_PCCMD, PERF_02_PCCMD OR 8] @ ds) r =
    r\<lparr>cpu_load := Some (every_other 1 (map (\<lambda>d. cmd_data d) ds))\<rparr>"
proof -
  have loop: "remote_loop clock i (xs @ ys) q = remote_loop clock (i + length xs) ys (remote_loop clock i xs q)" for i xs ys q
    by (induction xs arbitrary: i q) simp_all
  obtain ds' d where ds: "ds = ds' @ [d]" using assms(3) by (cases ds rule: rev_cases) auto
  have start: "remote_loop clock i [PERF_02_PCCMD, PERF_02_PCCMD OR 8] r = r\<lparr>est_remote_perf := 2\<rparr>"
    using assms(1,2) by (simp add: dispatchRemoteRb_def consumePerformance_def Let_def)
  have len: "length ds' = 63" and d: "cmd_type d = PERF_02_PCCMD" and ds': "list_all (\<lambda>d. cmd_type d = PERF_02_PCCMD) ds'"
    using assms(3,4) ds by simp_all
  have last: "dispatchRemoteRb t d (r\<lparr>est_remote_perf := 2, hold_perf := map (\<lambda>d. cmd_data d) ds'\<rparr>) =
      r\<lparr>cpu_load := Some (every_other 1 (map (\<lambda>d. cmd_data d) ds))\<rparr>" for t
    using assms(1,2) len d ds by (cases r) (simp add: dispatchRemoteRb_def consumePerformance_def Let_def)
  have "remote_loop clock (i + 2) ds (r\<lparr>est_remote_perf := 2\<rparr>) =
      remote_loop clock (i + 2 + length ds') [d] (r\<lparr>est_remote_perf := 2, hold_perf := map (\<lambda>d. cmd_data d) ds'\<rparr>)"
    using holding [of "r\<lparr>est_remote_perf := 2\<rparr>" ds' clock "i + 2"] assms(2) len ds' unfolding ds loop by simp
  then show ?thesis unfolding loop start by (simp add: last)
qed

section \<open>Words of the simulator\<close>

text \<open>Both dispatchers feed the words of the simulator to its splitter, so each is split twice.\<close>

lemma mock_word_twice:
  assumes "cmd_type w = NODEJS_RCP_PCCMD"
  shows "dspDispatchAttachedRb pk L peer_rx w n = mock_got (cmd_data w) (mock_got (cmd_data w) n)"
  using assms by (simp add: dspDispatchAttachedRb_def dspDispatchAttachedRb_TX_def dspDispatchAttachedRb_RX_def do_forward_def
      attached_consume_def Let_def)

lemma mock_words_doubled:
  assumes "list_all (\<lambda>w. cmd_type w = NODEJS_RCP_PCCMD) ws"
  shows "rpc_messages (fold (dspDispatchAttachedRb pk L peer_rx) ws n) =
    rpc_messages n @ fst (got_mock_all (concat (map (\<lambda>w. [w, w]) ws)) (splitRpc n))"
  using assms
  by (induction ws arbitrary: n) (simp_all add: mock_word_twice mock_got_def split_beta Let_def and.assoc)

lemma doubled_message:
  "fst (got_mock_all [0x23414243, 0x23440000] NullBufferSplit) = [[0x41, 0x42, 0x43, 0x44]]"
  "fst (got_mock_all (concat (map (\<lambda>w. [w, w]) [0x23414243, 0x23440000])) NullBufferSplit) =
    [[0x41, 0x42, 0x43, 0x41, 0x42, 0x43, 0x44], [0x44]]"
  by (simp_all add: gotFromMock_def mock_bytes_def ns_addData_def ns_dispatch_def NullBufferSplit_def vslice_def Let_def)

section \<open>Properties\<close>

text \<open>
  C13. Equalizers are confirmed. Whatever else the radio of a peer reports, what it forwards reaches the
  buffer of that peer's radio at the receiving computer, whole and in order; when that computer looks
  at it, while no hash it waits for has expired, the hashes of the equalizers it sent are struck off,
  each reported hash once, and all others stay.
\<close>
theorem equalizers_confirmed:
  assumes "peer_bus pk" "node_id s \<noteq> node_id c" "node_id c \<le> 28" "fb_pc_in c = []"
    and "radios_rb c = rs1 @ (of_nat (node_id s), []) # rs2" "of_nat (node_id s) \<notin> fst ` set rs2"
    and "filter is_hash ws = concat (map hash_words hs)" "eq_hash_state r = 0" "all_fresh clock r"
  shows "\<exists>c'. deliver pk env (drop (length (pub s)) (pub (fold (dspDispatchAttachedRb pk L (node_id c)) ws s))) c = Some c' \<and>
    radios_rb c' = rs1 @ (of_nat (node_id s), filter do_forward ws) # rs2 \<and>
    mset (map fst (eq_hash_expected (snd (idleCheckRemoteRing clock (filter do_forward ws) r)))) =
      mset (map fst (eq_hash_expected r)) - mset hs"
proof -
  let ?hs = "map (\<lambda>w. (node_id s, TransportRing (node_id c) [of_nat (node_id s), w])) (filter do_forward ws)"
  have "list_all (\<lambda>(j, t). j \<noteq> node_id c \<and> send_ok t \<and> radio_for pk (node_id c) t = [] \<and> ring_for (node_id c) t = []) ?hs"
    using assms(2,3) by (simp add: list_all_iff send_ok_def)
  from peer_bus.deliver_sends [OF assms(1) refl assms(3,4) this, of env]
  have d: "deliver pk env (drop (length (pub s)) (pub (fold (dspDispatchAttachedRb pk L (node_id c)) ws s))) c =
      fold_option (handlePcPcVectorType pk env) (map (\<lambda>w. pk FEEDBACK_VEC_TRANSPORT_RB [of_nat (node_id s), w]
        (feedback_peer_to_mask (node_id c)) FEEDBACK_DST_PC) (filter do_forward ws)) c"
    by (simp add: forwarded o_def)
  have "filter is_hash (filter do_forward ws) = filter is_hash ws"
    by (auto simp: do_forward_def intro!: filter_cong)
  then have "hash_awaited (filter do_forward ws) hs r"
    using assms(7,8) by (simp add: hash_awaited_def del: filter_filter)
  from hashes_confirmed [OF this assms(9), of 0] show ?thesis
    using peer_bus.forwarded_frames [OF assms(1,5,6), of env _ _ "filter do_forward ws"]
    unfolding d idleCheckRemoteRing_def by auto
qed

definition reporting_radio :: "verify_hash \<Rightarrow> tx_sched \<Rightarrow> dsp" where
  "reporting_radio vh tx = pc.extend (fresh_pc 2 vh tx)
     \<lparr>rb_buf_coarse_sync = [], splitRpc = NullBufferSplit, rpc_messages = [], dsp_role = ''tx'', attached = None\<rparr>"

definition waiting_radio :: "u32 list \<Rightarrow> radio" where
  "waiting_radio hs = \<lparr>est_remote_perf = 0, hold_perf = [], cpu_load = None, alive_count = 0, eq_hash_state = 0,
     eq_hash_word = 0, eq_hash_expected = map (\<lambda>h. (h, 0)) hs, est_init = 0\<rparr>"

theorem equalizers_confirmed_witness:
  "\<forall>vh tx L. \<exists>c'. deliver FeedbackVector \<lparr>env_now = 0, env_later = 0, env_est = (3, 4), env_slots = 50, env_attached = True\<rparr>
      (drop (length (pub (reporting_radio vh tx)))
        (pub (fold (dspDispatchAttachedRb FeedbackVector L 1) [FEEDBACK_ALIVE, 0x29005678, 0x29011234, 0x23414243] (reporting_radio vh tx))))
      ((fresh_pc 1 vh tx)\<lparr>radios_rb := [(2, [])]\<rparr>) = Some c' \<and>
    radios_rb c' = [(2, [FEEDBACK_ALIVE, 0x29005678, 0x29011234])] \<and>
    mset (map fst (eq_hash_expected (snd (idleCheckRemoteRing (\<lambda>_. 0) [FEEDBACK_ALIVE, 0x29005678, 0x29011234]
      (waiting_radio [5, 0x12345678]))))) = {#5#}"
proof (intro allI)
  fix vh tx L
  let ?s = "reporting_radio vh tx" and ?c = "(fresh_pc 1 vh tx)\<lparr>radios_rb := [(2, [])]\<rparr>"
  let ?ws = "[FEEDBACK_ALIVE, 0x29005678, 0x29011234, 0x23414243]"
  have s: "node_id ?s = 2" by (simp add: reporting_radio_def fresh_pc_def fresh_node_def node.defs pc.defs)
  have ws: "filter is_hash ?ws = concat (map hash_words [0x12345678])" "filter do_forward ?ws = [FEEDBACK_ALIVE, 0x29005678, 0x29011234]"
    by (simp_all add: hash_words_def do_forward_def)
  have "all_fresh (\<lambda>_. 0) (waiting_radio [5, 0x12345678])"
    by (simp add: all_fresh_def waiting_radio_def hash_expired_def hash_age_def us_between_def)
  from equalizers_confirmed [OF js_bus.peer_bus_axioms _ _ _ _ _ ws(1) _ this, of ?s ?c "[]" "[]"
      "\<lparr>env_now = 0, env_later = 0, env_est = (3, 4), env_slots = 50, env_attached = True\<rparr>" L]
  show "\<exists>c'. deliver FeedbackVector \<lparr>env_now = 0, env_later = 0, env_est = (3, 4), env_slots = 50, env_attached = True\<rparr>
      (drop (length (pub ?s)) (pub (fold (dspDispatchAttachedRb FeedbackVector L 1) ?ws ?s))) ?c = Some c' \<and>
    radios_rb c' = [(2, [FEEDBACK_ALIVE, 0x29005678, 0x29011234])] \<and>
    mset (map fst (eq_hash_expected (snd (idleCheckRemoteRing (\<lambda>_. 0) [FEEDBACK_ALIVE, 0x29005678, 0x29011234]
      (waiting_radio [5, 0x12345678]))))) = {#5#}"
    unfolding ws(2) by (simp add: s) (simp add: waiting_radio_def)
qed

end
