(* ===== verification/Demod_Tdma.thy ===== *)
theory Demod_Tdma
  imports Peer_Ring
begin

text \<open>
  \<open>RadioDemodTDMA\<close> (driver/RadioDemodTDMA.cpp) and \<open>HiggsTDMA\<close> (driver/HiggsTDMA.cpp): a tone on which
  a peer sends its counters. Samples, each with the number of its frame, are sliced into two bits and
  shifted together; a keyword sets the phase, from which on every sixteenth sample completes a word.
  Among the words a beacon of five carries the peer's lifetime and epoc, which are compared with the
  frame it arrived in; the difference goes back to the peer as an operation on its counter.

  A frame number is a word of 32 bits; the phase \<open>-1\<close> is no phase. The hash is an argument; it is
  calculated and printed, and nothing depends on it. What is only printed is left out.
\<close>

section \<open>HiggsTDMA\<close>

record higgs_tdma =
  found_dead :: bool
  sent_tdma :: bool
  lifetime_tx :: u32
  lifetime_rx :: u32
  fudge_rx :: u32
  needs_fudge :: bool
  epoc_tx :: u32

definition HiggsTDMA :: higgs_tdma where
  "HiggsTDMA = \<lparr>found_dead = False, sent_tdma = False, lifetime_tx = 0, lifetime_rx = 0, fudge_rx = 0,
     needs_fudge = False, epoc_tx = 0\<rparr>"

definition tdma_reset :: "higgs_tdma \<Rightarrow> higgs_tdma" where
  "tdma_reset td = td\<lparr>found_dead := False, sent_tdma := False, lifetime_tx := 0, lifetime_rx := 0, fudge_rx := 0,
     needs_fudge := False, epoc_tx := 0\<rparr>"

definition needsUpdate :: "higgs_tdma \<Rightarrow> bool" where
  "needsUpdate td \<longleftrightarrow> lifetime_tx td = 0 \<and> lifetime_rx td = 0"

section \<open>RadioDemodTDMA\<close>

type_synonym marked_word = "u32 \<times> u32"

record radio_demod =
  demod_peer :: nat
  data_tone_num :: nat
  data_subcarrier_index :: nat
  subcarrier_chunk :: nat
  demod_buf_accumulate :: "marked_word list list"
  tdma :: "higgs_tdma list"
  demod_words :: "marked_word list list"
  tdma_phase :: u32
  times_matched_tdma_6 :: nat
  times_eq_sent :: nat
  demod_enabled :: bool
  track_demod_against_rx_counter :: bool
  track_record_rx :: u32
  last_mode_sent :: u32
  last_mode_data_sent :: u32
  keep_demod_sc :: "nat list"
  history_tx_rx_deltas :: "marked_word list"

definition RadioDemodTDMA :: "nat \<Rightarrow> nat \<Rightarrow> nat \<Rightarrow> radio_demod" where
  "RadioDemodTDMA peer tones chunk = \<lparr>demod_peer = peer, data_tone_num = tones, data_subcarrier_index = 0,
     subcarrier_chunk = chunk, demod_buf_accumulate = replicate tones [], tdma = replicate tones HiggsTDMA,
     demod_words = replicate 32 [], tdma_phase = - 1, times_matched_tdma_6 = 0, times_eq_sent = 0,
     demod_enabled = True, track_demod_against_rx_counter = False, track_record_rx = 0, last_mode_sent = 0,
     last_mode_data_sent = 0, keep_demod_sc = [], history_tx_rx_deltas = []\<rparr>"

definition setIndex :: "nat \<Rightarrow> radio_demod \<Rightarrow> radio_demod" where
  "setIndex index d =
     (if index \<ge> data_tone_num d then d else d\<lparr>data_subcarrier_index := index, keep_demod_sc := [index]\<rparr>)"

definition resetDemodPhase :: "radio_demod \<Rightarrow> radio_demod" where
  "resetDemodPhase d = d\<lparr>tdma_phase := - 1\<rparr>"

definition upd_td :: "(higgs_tdma \<Rightarrow> higgs_tdma) \<Rightarrow> radio_demod \<Rightarrow> radio_demod" where
  "upd_td f d = d\<lparr>tdma := (tdma d)[data_subcarrier_index d := f (tdma d ! data_subcarrier_index d)]\<rparr>"

definition resetTdmaAndLifetime :: "radio_demod \<Rightarrow> radio_demod" where
  "resetTdmaAndLifetime d =
     upd_td (\<lambda>td. td\<lparr>sent_tdma := True, lifetime_rx := 0, lifetime_tx := 0\<rparr>) (d\<lparr>tdma_phase := - 1\<rparr>)"

definition resetTdmaIndexDefault :: "radio_demod \<Rightarrow> radio_demod" where
  "resetTdmaIndexDefault = upd_td tdma_reset"

definition getBuffSize :: "nat \<Rightarrow> radio_demod \<Rightarrow> nat" where
  "getBuffSize i d = (if i \<ge> length (demod_buf_accumulate d) then 0 else length (demod_buf_accumulate d ! i))"

definition setDemodEnabled :: "bool \<Rightarrow> radio_demod \<Rightarrow> radio_demod" where
  "setDemodEnabled v d = d\<lparr>demod_enabled := v\<rparr>"

definition dumpBuffers :: "radio_demod \<Rightarrow> radio_demod" where
  "dumpBuffers d = d\<lparr>demod_buf_accumulate := map (\<lambda>_. []) (demod_buf_accumulate d)\<rparr>"

definition erasePrevDeltas :: "radio_demod \<Rightarrow> radio_demod" where
  "erasePrevDeltas d = d\<lparr>history_tx_rx_deltas := []\<rparr>"

text \<open>A debugging slicer; the word is read as \<open>int32_t\<close>.\<close>

definition get_demod_2_bits :: "u32 \<Rightarrow> u32" where
  "get_demod_2_bits data = push_bit 1 (if sint (push_bit 16 data) > 0 then 1 else 0) OR (if sint data > 0 then 1 else 0)"

subsection \<open>Slicing\<close>

definition ishort_to_parts :: "u32 \<Rightarrow> int \<times> int" where
  "ishort_to_parts n = (sint (ucast (drop_bit 16 n AND 0xffff) :: 16 word), sint (ucast (n AND 0xffff) :: 16 word))"

definition qpsk_bits :: "u32 \<Rightarrow> u32" where
  "qpsk_bits n =
     (let (imag, real) = ishort_to_parts n
      in if real \<le> 0 \<and> imag \<le> 0 then 0 else if real \<le> 0 \<and> imag > 0 then 1 else if real > 0 \<and> imag \<le> 0 then 2 else 3)"

definition is_keyword :: "u32 \<Rightarrow> bool" where
  "is_keyword sr \<longleftrightarrow> sr = 0xdeadbeef \<or> sr = 0xbeefbeef"

fun tone_step :: "marked_word \<Rightarrow> u32 \<times> u32 \<times> marked_word list \<Rightarrow> u32 \<times> u32 \<times> marked_word list" where
  "tone_step (n, frame) (sr, phase, dout) =
     (let sr = drop_bit 2 sr OR push_bit 30 (qpsk_bits n);
          phase = (if is_keyword sr \<and> phase = - 1 then frame else phase)
      in if phase \<noteq> - 1 \<and> (frame - phase + 16 * 1024) mod 16 = 0 then (0, phase, dout @ [(sr, frame)])
         else (sr, phase, dout))"

text \<open>\<open>None\<close>: the index is outside the buffers.\<close>

definition alternateDemodTDMA :: "nat \<Rightarrow> bool \<Rightarrow> radio_demod \<Rightarrow> radio_demod option" where
  "alternateDemodTDMA i do_erase d =
     (if length (demod_buf_accumulate d) \<le> i \<or> length (demod_words d) \<le> i then None
      else let chunk = demod_buf_accumulate d ! i
           in if times_eq_sent d = 0 \<and> do_erase then Some (d\<lparr>demod_buf_accumulate := (demod_buf_accumulate d)[i := []]\<rparr>)
              else let (sr, phase, dout) = fold tone_step chunk (0, tdma_phase d, demod_words d ! i);
                       d1 = d\<lparr>tdma_phase := phase, demod_words := (demod_words d)[i := dout]\<rparr>
                   in Some (if do_erase
                            then let tail = length chunk mod 16
                                 in d1\<lparr>demod_buf_accumulate := (demod_buf_accumulate d)[i := drop (length chunk - tail) chunk]\<rparr>
                            else d1))"

subsection \<open>Beacons\<close>

text \<open>The words before the current one, with their frames; the last has index 0.\<close>

definition p_start :: "marked_word list" where
  "p_start = replicate 5 (- 1, - 1)"

definition beacon_found :: "u32 \<Rightarrow> u32 \<Rightarrow> u32 \<Rightarrow> nat \<Rightarrow> radio_demod \<Rightarrow> radio_demod" where
  "beacon_found found_tx_counter found_frame found_epoc i d =
     (let td = tdma d ! i;
          td1 = (if needsUpdate td then td\<lparr>lifetime_tx := found_tx_counter, lifetime_rx := found_frame, epoc_tx := found_epoc\<rparr> else td)
      in d\<lparr>times_matched_tdma_6 := times_matched_tdma_6 d + 1, tdma := (tdma d)[i := td1],
           history_tx_rx_deltas := (if track_demod_against_rx_counter d
             then history_tx_rx_deltas d @ [(found_frame, lifetime_tx td1 - lifetime_rx td1)] else history_tx_rx_deltas d)\<rparr>)"

definition parse_word :: "nat \<Rightarrow> marked_word \<Rightarrow> marked_word list \<times> radio_demod \<Rightarrow> marked_word list \<times> radio_demod" where
  "parse_word i ppair s =
     (let (ps, d) = s; (word, frame) = ppair;
          d1 = (if word = 0xdeadbeef
                then d\<lparr>track_record_rx := (if \<not> found_dead (tdma d ! i) \<and> track_demod_against_rx_counter d then frame
                                            else track_record_rx d),
                       tdma := (tdma d)[i := (tdma d ! i)\<lparr>found_dead := True\<rparr>]\<rparr>
                else d);
          d2 = (if word = 0xff000000 \<and> fst (ps ! 3) = 0xdeadbeef
                then beacon_found (fst (ps ! 2)) (snd (ps ! 2)) (fst (ps ! 1)) i d1 else d1)
      in (take 5 (ppair # ps), d2))"

definition parseDemodWords :: "nat \<Rightarrow> radio_demod \<Rightarrow> radio_demod option" where
  "parseDemodWords i d =
     (if length (demod_words d) \<le> i \<or> length (tdma d) \<le> i then None
      else Some (if length (demod_words d ! i) > 1000
                 then (snd (fold (parse_word i) (demod_words d ! i) (p_start, d)))\<lparr>demod_words := (demod_words d)[i := []]\<rparr>
                 else d))"

subsection \<open>A run\<close>

definition alternateDspRunDemod :: "radio_demod \<Rightarrow> radio_demod option" where
  "alternateDspRunDemod d =
     (let i = data_subcarrier_index d
      in if length (demod_buf_accumulate d) \<le> i then None
         else if length (demod_buf_accumulate d ! i) < subcarrier_chunk d then Some d
         else if demod_enabled d then Option.bind (alternateDemodTDMA i True d) (parseDemodWords i)
         else Some (dumpBuffers d))"

definition demod_run :: "nat \<Rightarrow> radio_demod \<Rightarrow> radio_demod option" where
  "demod_run eq d = alternateDspRunDemod (d\<lparr>times_eq_sent := eq\<rparr>)"

subsection \<open>Aligning the peer\<close>

text \<open>The ring words for the peer.\<close>

definition demod_partnerOp :: "string \<Rightarrow> u32 \<Rightarrow> u32 \<Rightarrow> radio_demod \<Rightarrow> (nat \<times> ring_word) list" where
  "demod_partnerOp s sel v d =
     (let pack = op_words s sel v GENERIC_OPERATOR_CMD
      in [(demod_peer d, (RING_ADDR_TX_PARSE, pack ! 0)), (demod_peer d, (RING_ADDR_TX_PARSE, pack ! 1))])"

definition alignSchedule4 :: "radio_demod \<Rightarrow> int \<times> (nat \<times> ring_word) list" where
  "alignSchedule4 d =
     (let td = tdma d ! data_subcarrier_index d
      in if needsUpdate td then (1, [])
         else if lifetime_tx td < lifetime_rx td then (0, demod_partnerOp ''add'' 0 (lifetime_rx td - lifetime_tx td) d)
         else if lifetime_tx td > lifetime_rx td then (0, demod_partnerOp ''sub'' 0 (lifetime_tx td - lifetime_rx td) d)
         else (0, []))"

abbreviation SCHEDULE_FRAMES :: u32 where "SCHEDULE_FRAMES \<equiv> 25600"

definition alignSchedule5 :: "radio_demod \<Rightarrow> int \<times> (nat \<times> ring_word) list" where
  "alignSchedule5 d =
     (let td = tdma d ! data_subcarrier_index d;
          calc_epoc = lifetime_rx td div SCHEDULE_FRAMES
      in if calc_epoc < epoc_tx td then (0, demod_partnerOp ''add'' 3 (epoc_tx td - calc_epoc) d)
         else if calc_epoc > epoc_tx td then (0, demod_partnerOp ''sub'' 3 (calc_epoc - epoc_tx td) d)
         else (0, []))"

section \<open>Words on a tone\<close>

definition shift_bits :: "marked_word \<Rightarrow> u32 \<Rightarrow> u32" where
  "shift_bits n sr = drop_bit 2 sr OR push_bit 30 (qpsk_bits (fst n))"

text \<open>Sixteen samples that carry a word, its low bits first; samples of consecutive frames.\<close>

definition carries :: "u32 \<Rightarrow> marked_word list \<Rightarrow> bool" where
  "carries w ns \<longleftrightarrow> length ns = 16 \<and> (\<forall>k < 16. qpsk_bits (fst (ns ! k)) = drop_bit (2 * k) w AND 3)"

definition frames_from :: "u32 \<Rightarrow> marked_word list \<Rightarrow> bool" where
  "frames_from f ns \<longleftrightarrow> map snd ns = map (\<lambda>k. f + of_nat k) [0..<length ns]"

text \<open>No keyword is completed by these samples.\<close>

fun keyword_free :: "u32 \<Rightarrow> marked_word list \<Rightarrow> bool" where
  "keyword_free sr [] \<longleftrightarrow> True"
| "keyword_free sr (n # ns) \<longleftrightarrow> \<not> is_keyword (shift_bits n sr) \<and> keyword_free (shift_bits n sr) ns"

lemma frames_append [simp]:
  "frames_from f (xs @ ys) \<longleftrightarrow> frames_from f xs \<and> frames_from (f + of_nat (length xs)) ys"
proof -
  have "map (\<lambda>k. f + of_nat k) [0..<length xs + length ys] =
      map (\<lambda>k. f + of_nat k) [0..<length xs] @ map (\<lambda>k. f + of_nat (length xs) + of_nat k) [0..<length ys]" for f :: u32
    by (rule nth_equalityI) (auto simp: nth_append)
  then show ?thesis by (simp add: frames_from_def)
qed

lemma frames_Cons [simp]: "frames_from f (n # ns) \<longleftrightarrow> snd n = f \<and> frames_from (f + 1) ns"
  using frames_append [of f "[n]" ns] by (simp add: frames_from_def)

lemma frames_Nil [simp]: "frames_from f []"
  by (simp add: frames_from_def)

lemma three_bits: "bit (3 :: u32) n \<longleftrightarrow> n < 2"
proof -
  have "(3 :: u32) = mask 2" by (simp add: mask_eq_exp_minus_1)
  then show ?thesis by (auto simp only: bit_mask_iff) auto
qed

lemma shifted:
  assumes "carries w ns" "j \<le> 16"
  shows "bit (fold shift_bits (take j ns) sr) m \<longleftrightarrow> (if 32 \<le> m + 2 * j then m < 32 \<and> bit w (m + 2 * j - 32) else bit sr (m + 2 * j))"
  using assms(2)
proof (induction j arbitrary: m)
  case 0
  then show ?case by (auto dest: bit_imp_le_length)
next
  case (Suc j)
  then have j: "j < 16" "take (Suc j) ns = take j ns @ [ns ! j]" "qpsk_bits (fst (ns ! j)) = drop_bit (2 * j) w AND 3"
    using assms(1) by (simp_all add: carries_def take_Suc_conv_app_nth)
  have "bit (fold shift_bits (take (Suc j) ns) sr) m \<longleftrightarrow>
      bit (fold shift_bits (take j ns) sr) (2 + m) \<or> 30 \<le> m \<and> m < 32 \<and> bit w (2 * j + (m - 30)) \<and> m - 30 < 2"
    unfolding j(2)
    by (simp only: fold_append fold.simps comp_apply id_apply shift_bits_def j(3) bit_or_iff bit_push_word bit_drop_word
        bit_and_iff three_bits len_of_numeral_defs) auto
  also have "\<dots> \<longleftrightarrow> (if 32 \<le> m + 2 * Suc j then m < 32 \<and> bit w (m + 2 * Suc j - 32) else bit sr (m + 2 * Suc j))"
  proof (cases "m < 30")
    case True
    then show ?thesis using Suc.IH [of "2 + m"] j(1) by (simp add: add.commute add.left_commute)
  next
    case False
    then have "30 \<le> m \<Longrightarrow> m < 32 \<Longrightarrow> 2 * j + (m - 30) = m + 2 * Suc j - 32" by simp
    then show ?thesis using Suc.IH [of "2 + m"] j(1) False by (auto split: if_splits)
  qed
  finally show ?case .
qed

lemma carried: "carries w ns \<Longrightarrow> fold shift_bits ns sr = w"
  using shifted [of w ns 16 sr] by (intro bit_word_eqI) (simp add: carries_def)

subsection \<open>The phase\<close>

lemma phase_hit: "(x + of_nat k :: u32) mod 16 = 0 \<longleftrightarrow> (unat x + k) mod 16 = 0"
proof -
  have "unat (x + of_nat k) mod 16 = (unat x + k) mod 16"
    by (simp add: unat_word_ariths unat_of_nat mod_mod_cancel mod_add_right_eq)
  moreover have "(x + of_nat k) mod 16 = 0 \<longleftrightarrow> unat ((x + of_nat k) mod 16) = 0" by (simp add: unat_eq_zero)
  ultimately show ?thesis by (simp add: unat_mod)
qed

definition hit :: "u32 \<Rightarrow> u32 \<Rightarrow> bool" where
  "hit phase frame \<longleftrightarrow> (frame - phase + 16 * 1024) mod 16 = 0"

lemma hit_after: "hit phase (phase + 1 + of_nat j * 16 + of_nat k) \<longleftrightarrow> (k + 1) mod 16 = 0"
proof -
  have "phase + 1 + of_nat j * 16 + of_nat k - phase + 16 * 1024 = (1 :: u32) + of_nat (16 * j + k + 16384)" by simp
  then have "hit phase (phase + 1 + of_nat j * 16 + of_nat k) \<longleftrightarrow> (1 + (16 * j + k + 16384)) mod 16 = 0"
    unfolding hit_def using phase_hit [of 1 "16 * j + k + 16384"] by (simp only: unat_1)
  then show ?thesis by presburger
qed

lemma slice_hit:
  "tone_step n (sr, phase, dout) =
     (let sr = shift_bits n sr; phase = (if is_keyword sr \<and> phase = - 1 then snd n else phase)
      in if phase \<noteq> - 1 \<and> hit phase (snd n) then (0, phase, dout @ [(sr, snd n)]) else (sr, phase, dout))"
  by (cases n) (simp add: shift_bits_def hit_def Let_def)

lemma slice_free: "keyword_free sr ns \<Longrightarrow> fold tone_step ns (sr, - 1, dout) = (fold shift_bits ns sr, - 1, dout)"
  by (induction ns arbitrary: sr) (simp_all add: slice_hit Let_def)

lemma slice_between:
  assumes "phase \<noteq> - 1" "\<forall>n \<in> set ns. \<not> hit phase (snd n)"
  shows "fold tone_step ns (sr, phase, dout) = (fold shift_bits ns sr, phase, dout)"
  using assms by (induction ns arbitrary: sr) (simp_all add: slice_hit Let_def)

lemma frames_snd: "frames_from f ns \<Longrightarrow> k < length ns \<Longrightarrow> snd (ns ! k) = f + of_nat k"
  by (metis (no_types, lifting) frames_from_def length_map map_nth nth_map nth_upt add.left_neutral)

text \<open>With the phase set, sixteen samples behind a boundary are one word.\<close>

lemma tone_word:
  assumes "phase \<noteq> - 1" "carries w ns" "frames_from (phase + 1 + of_nat j * 16) ns"
  shows "fold tone_step ns (sr, phase, dout) = (0, phase, dout @ [(w, phase + of_nat (Suc j) * 16)])"
proof -
  have len: "length ns = 16" using assms(2) by (simp add: carries_def)
  then obtain ms n where ns: "ns = ms @ [n]" "length ms = 15" by (cases ns rule: rev_cases) auto
  have "\<not> hit phase (snd m)" if m: "m \<in> set ms" for m
  proof -
    from m obtain k where k: "k < 15" "m = ms ! k" using ns(2) by (auto simp: in_set_conv_nth)
    then have "snd m = phase + 1 + of_nat j * 16 + of_nat k"
      using frames_snd [OF assms(3), of k] ns by (simp add: nth_append)
    then show ?thesis using k(1) by (simp add: hit_after)
  qed
  then have ms: "fold tone_step ms (sr, phase, dout) = (fold shift_bits ms sr, phase, dout)"
    using slice_between [OF assms(1)] by blast
  have n: "snd n = phase + 1 + of_nat j * 16 + of_nat 15"
    using frames_snd [OF assms(3), of 15] ns by (simp add: nth_append)
  have "hit phase (snd n)" unfolding n hit_after by simp
  moreover have "fold shift_bits ns sr = w" by (rule carried [OF assms(2)])
  ultimately show ?thesis
    using assms(1) ms by (simp add: ns(1) slice_hit Let_def) (simp add: n algebra_simps)
qed

lemma tone_words:
  assumes "phase \<noteq> - 1" "list_all2 carries ws nss" "frames_from (phase + 1 + of_nat j * 16) (concat nss)"
  shows "fold tone_step (concat nss) (0, phase, dout) =
    (0, phase, dout @ map (\<lambda>k. (ws ! k, phase + of_nat (Suc (j + k)) * 16)) [0..<length ws])"
  using assms(2,3)
proof (induction ws nss arbitrary: j dout rule: list_all2_induct)
  case (Cons w ws ns nss)
  have f: "frames_from (phase + 1 + of_nat j * 16) ns" "frames_from (phase + 1 + of_nat (Suc j) * 16) (concat nss)"
    using Cons.prems Cons.hyps(1) by (simp_all add: carries_def algebra_simps)
  have up: "[0..<length (w # ws)] = 0 # map Suc [0..<length ws]" by (simp add: upt_conv_Cons map_Suc_upt del: upt_Suc)
  show ?case
    using tone_word [OF assms(1) Cons.hyps(1) f(1)] Cons.IH [OF f(2)] unfolding up by (simp add: o_def)
qed simp

subsection \<open>Locking\<close>

lemma keyword_free_append [simp]:
  "keyword_free sr (xs @ ys) \<longleftrightarrow> keyword_free sr xs \<and> keyword_free (fold shift_bits xs sr) ys"
  by (induction xs arbitrary: sr) simp_all

text \<open>The first keyword sets the phase, and every word behind it is read whole.\<close>

lemma slice_locks:
  assumes "carries kw key" "is_keyword kw" "keyword_free 0 (idle @ take 15 key)" "list_all2 carries ws nss"
    and "frames_from f (idle @ key @ concat nss @ tail)" "length tail < 16" "F = f + of_nat (length idle + 15)" "F \<noteq> - 1"
  shows "\<exists>sr. fold tone_step (idle @ key @ concat nss @ tail) (0, - 1, dout) =
    (sr, F, dout @ (kw, F) # map (\<lambda>k. (ws ! k, F + of_nat (Suc k) * 16)) [0..<length ws])"
proof -
  have len: "length key = 16" using assms(1) by (simp add: carries_def)
  then obtain ms n where key: "key = ms @ [n]" "length ms = 15" by (cases key rule: rev_cases) auto
  have free: "keyword_free 0 (idle @ ms)" using assms(3) key by simp
  have kw: "shift_bits n (fold shift_bits (idle @ ms) 0) = kw"
    using carried [OF assms(1), of "fold shift_bits idle 0"] by (simp add: key(1))
  have F: "snd n = F" using assms(5,7) key len by (simp add: algebra_simps)
  have lock: "fold tone_step (idle @ key) (0, - 1, dout) = (0, F, dout @ [(kw, F)])"
    using slice_free [OF free, of dout] assms(2,8) kw by (simp add: key(1) slice_hit Let_def F) (simp add: hit_def)
  have "frames_from (F + 1 + of_nat 0 * 16) (concat nss)"
    using assms(5,7) len by (simp add: algebra_simps)
  from tone_words [OF assms(8,4) this, of "dout @ [(kw, F)]"]
  have words: "fold tone_step (concat nss) (0, F, dout @ [(kw, F)]) =
      (0, F, (dout @ [(kw, F)]) @ map (\<lambda>k. (ws ! k, F + of_nat (Suc k) * 16)) [0..<length ws])" by simp
  have nss: "length (concat nss) = 16 * length ws"
    using assms(4) by (induction rule: list_all2_induct) (simp_all add: carries_def)
  have "\<not> hit F (snd m)" if m: "m \<in> set tail" for m
  proof -
    from m obtain k where k: "k < length tail" "m = tail ! k" by (auto simp: in_set_conv_nth)
    have t: "frames_from (F + 1 + of_nat (length ws) * 16) tail"
      using assms(5,7) len nss by (simp add: algebra_simps)
    have "snd m = F + 1 + of_nat (length ws) * 16 + of_nat k"
      using frames_snd [OF t k(1)] k(2) by simp
    then show ?thesis using k(1) assms(6) by (simp add: hit_after)
  qed
  then have "fold tone_step tail (0, F, dout') = (fold shift_bits tail 0, F, dout')" for dout'
    using slice_between [OF assms(8)] by blast
  then show ?thesis using lock words by simp
qed

section \<open>Beacons among the words\<close>

text \<open>The beacons of a run of words: the counter, the frame it arrived in, the epoc.\<close>

definition beacons :: "marked_word list \<Rightarrow> (u32 \<times> u32 \<times> u32) list" where
  "beacons xs = concat (map (\<lambda>k. if fst (xs ! k) = 0xdeadbeef \<and> fst (xs ! (k + 4)) = 0xff000000
     then [(fst (xs ! (k + 1)), snd (xs ! (k + 1)), fst (xs ! (k + 2)))] else []) [0..<length xs - 4])"

definition take_beacon :: "u32 \<times> u32 \<times> u32 \<Rightarrow> higgs_tdma \<Rightarrow> higgs_tdma" where
  "take_beacon b td = (if needsUpdate td then td\<lparr>lifetime_tx := fst b, lifetime_rx := fst (snd b), epoc_tx := snd (snd b)\<rparr> else td)"

lemma beacons_snoc:
  "beacons (xs @ [x]) = beacons xs @
    (if 4 \<le> length xs \<and> fst (xs ! (length xs - 4)) = 0xdeadbeef \<and> fst x = 0xff000000
     then [(fst (xs ! (length xs - 3)), snd (xs ! (length xs - 3)), fst (xs ! (length xs - 2)))] else [])"
proof (cases "4 \<le> length xs")
  case True
  let ?b = "\<lambda>ys k. if fst (ys ! k) = 0xdeadbeef \<and> fst (ys ! (k + 4)) = 0xff000000
    then [(fst (ys ! (k + 1)), snd (ys ! (k + 1)), fst (ys ! (k + 2)))] else ([] :: (u32 \<times> u32 \<times> u32) list)"
  have m: "map (?b (xs @ [x])) [0..<length xs - 4] = map (?b xs) [0..<length xs - 4]"
    by (intro map_cong refl) (auto simp: nth_append)
  have "length (xs @ [x]) - 4 = Suc (length xs - 4)" using True by simp
  then have u: "[0..<length (xs @ [x]) - 4] = [0..<length xs - 4] @ [length xs - 4]" by (simp only: upt_Suc zero_le if_True)
  have l: "?b (xs @ [x]) (length xs - 4) = (if fst (xs ! (length xs - 4)) = 0xdeadbeef \<and> fst x = 0xff000000
      then [(fst (xs ! (length xs - 3)), snd (xs ! (length xs - 3)), fst (xs ! (length xs - 2)))] else [])"
  proof -
    obtain n where n: "length xs = n + 4" using True by (metis add.commute le_Suc_ex)
    have "n + 4 - 3 = Suc n" "n + 4 - 2 = Suc (Suc n)" by simp_all
    then show ?thesis by (simp add: nth_append n)
  qed
  show ?thesis unfolding beacons_def u map_append m list.map l concat_append using True by simp
next
  case False
  then show ?thesis by (simp add: beacons_def)
qed

definition p_window :: "marked_word list \<Rightarrow> marked_word list" where
  "p_window xs = take 5 (rev xs @ p_start)"

lemma p_window_snoc: "x # take 4 (p_window xs) = p_window (xs @ [x])"
  by (auto simp: p_window_def min_def)

lemma p_window_nth: "k < 5 \<Longrightarrow> p_window xs ! k = (if k < length xs then xs ! (length xs - Suc k) else (- 1, - 1))"
  by (auto simp: p_window_def nth_append rev_nth p_start_def)

lemma take_beacon_dead: "take_beacon b (td\<lparr>found_dead := v\<rparr>) = (take_beacon b td)\<lparr>found_dead := v\<rparr>"
  by (simp add: take_beacon_def needsUpdate_def)

lemma parse_run:
  assumes "i < length (tdma d)"
  shows "\<exists>d'. fold (parse_word i) xs (p_start, d) = (p_window xs, d') \<and> length (tdma d') = length (tdma d) \<and>
    tdma d' ! i = (fold take_beacon (beacons xs) (tdma d ! i))
      \<lparr>found_dead := found_dead (tdma d ! i) \<or> 0xdeadbeef \<in> fst ` set xs\<rparr> \<and>
    (\<forall>j. j \<noteq> i \<longrightarrow> tdma d' ! j = tdma d ! j) \<and> times_matched_tdma_6 d' = times_matched_tdma_6 d + length (beacons xs) \<and>
    data_subcarrier_index d' = data_subcarrier_index d \<and> demod_peer d' = demod_peer d \<and> tdma_phase d' = tdma_phase d \<and>
    demod_words d' = demod_words d"
proof (induction xs rule: rev_induct)
  case Nil
  then show ?case by (simp add: p_window_def p_start_def beacons_def)
next
  case (snoc x xs)
  then obtain d' where d': "fold (parse_word i) xs (p_start, d) = (p_window xs, d')" "length (tdma d') = length (tdma d)"
    "tdma d' ! i = (fold take_beacon (beacons xs) (tdma d ! i))\<lparr>found_dead := found_dead (tdma d ! i) \<or> 0xdeadbeef \<in> fst ` set xs\<rparr>"
    "\<forall>j. j \<noteq> i \<longrightarrow> tdma d' ! j = tdma d ! j" "times_matched_tdma_6 d' = times_matched_tdma_6 d + length (beacons xs)"
    "data_subcarrier_index d' = data_subcarrier_index d" "demod_peer d' = demod_peer d" "tdma_phase d' = tdma_phase d"
    "demod_words d' = demod_words d" by blast
  have w: "(fst x = 0xff000000 \<and> fst (p_window xs ! 3) = 0xdeadbeef) \<longleftrightarrow>
      (4 \<le> length xs \<and> fst (xs ! (length xs - 4)) = 0xdeadbeef \<and> fst x = 0xff000000)"
    by (auto simp: p_window_nth Suc_le_eq)
  have f: "4 \<le> length xs \<Longrightarrow> p_window xs ! 2 = xs ! (length xs - 3) \<and> p_window xs ! 1 = xs ! (length xs - 2)"
    by (auto simp: p_window_nth Suc_le_eq eval_nat_numeral)
  show ?case
  proof (cases "fst x = 0xff000000 \<and> fst (p_window xs ! 3) = 0xdeadbeef")
    case True
    then have b: "beacons (xs @ [x]) = beacons xs @ [(fst (p_window xs ! 2), snd (p_window xs ! 2), fst (p_window xs ! 1))]"
      using w f by (simp add: beacons_snoc)
    let ?d = "beacon_found (fst (p_window xs ! 2)) (snd (p_window xs ! 2)) (fst (p_window xs ! 1)) i d'"
    have "fold (parse_word i) (xs @ [x]) (p_start, d) = (p_window (xs @ [x]), ?d)"
      using True d'(1) by (simp add: parse_word_def split_beta Let_def p_window_snoc)
    moreover have "tdma ?d ! i = (take_beacon (fst (p_window xs ! 2), snd (p_window xs ! 2), fst (p_window xs ! 1)) (tdma d' ! i))"
      using d'(2) assms by (simp add: beacon_found_def take_beacon_def Let_def)
    ultimately show ?thesis
      using True d' assms by (intro exI [of _ ?d]) (simp add: b take_beacon_dead, simp add: beacon_found_def Let_def)
  next
    case False
    then have b: "beacons (xs @ [x]) = beacons xs" using w by (simp add: beacons_snoc)
    let ?d = "if fst x = 0xdeadbeef
      then d'\<lparr>track_record_rx := (if \<not> found_dead (tdma d' ! i) \<and> track_demod_against_rx_counter d' then snd x else track_record_rx d'),
        tdma := (tdma d')[i := (tdma d' ! i)\<lparr>found_dead := True\<rparr>]\<rparr> else d'"
    have "fold (parse_word i) (xs @ [x]) (p_start, d) = (p_window (xs @ [x]), ?d)"
      using False d'(1) by (auto simp: parse_word_def split_beta Let_def p_window_snoc)
    then show ?thesis using d' assms by (intro exI [of _ ?d]) (simp add: b)
  qed
qed

lemma beacons_first:
  assumes "length xs \<ge> 5" "fst (xs ! 0) = 0xdeadbeef" "fst (xs ! 4) = 0xff000000"
  shows "\<exists>bs. beacons xs = (fst (xs ! 1), snd (xs ! 1), fst (xs ! 2)) # bs"
proof -
  have "[0..<length xs - 4] = 0 # [1..<length xs - 4]" using assms(1) by (simp add: upt_conv_Cons)
  then show ?thesis using assms(2,3) by (simp add: beacons_def eval_nat_numeral)
qed

lemma take_beacon_keeps: "\<not> needsUpdate td \<Longrightarrow> fold take_beacon bs td = td"
  by (induction bs) (simp_all add: take_beacon_def)

subsection \<open>A word cut by the end of a buffer\<close>

text \<open>
  A run starts with an empty shift register. When it starts inside a word, what was shifted in by the
  run before is missing: the low bits of the word are zero.
\<close>

lemma cut_word:
  assumes "phase \<noteq> - 1" "carries w ns" "frames_from (phase + 1 + of_nat j * 16) ns" "k < 16"
  shows "fold tone_step (drop k ns) (0, phase, dout) =
    (0, phase, dout @ [(push_bit (2 * k) (drop_bit (2 * k) w), phase + of_nat (Suc j) * 16)])"
proof -
  let ?z = "map (\<lambda>n. (0, snd n)) (take k ns) :: marked_word list" and ?w = "push_bit (2 * k) (drop_bit (2 * k) w)"
  have len: "length ns = 16" and bits: "\<forall>m < 16. qpsk_bits (fst (ns ! m)) = drop_bit (2 * m) w AND 3"
    using assms(2) by (simp_all add: carries_def)
  have z0: "qpsk_bits 0 = 0" by (simp add: qpsk_bits_def ishort_to_parts_def)
  have "carries ?w (?z @ drop k ns)"
    unfolding carries_def
  proof (intro conjI allI impI)
    show "length (?z @ drop k ns) = 16" using len assms(4) by simp
    fix m :: nat
    assume m: "m < 16"
    show "qpsk_bits (fst ((?z @ drop k ns) ! m)) = drop_bit (2 * m) ?w AND 3"
    proof (cases "m < k")
      case True
      have "drop_bit (2 * m) ?w AND 3 = 0"
        by (rule bit_word_eqI) (use True in \<open>auto simp: bit_and_iff bit_drop_word bit_push_word three_bits\<close>)
      then show ?thesis using True len assms(4) by (simp add: nth_append z0)
    next
      case False
      have "drop_bit (2 * m) ?w AND 3 = drop_bit (2 * m) w AND 3"
        by (rule bit_word_eqI) (use False in \<open>auto simp: bit_and_iff bit_drop_word bit_push_word three_bits dest: bit_imp_le_length\<close>)
      then show ?thesis using False m len assms(4) bits by (simp add: nth_append)
    qed
  qed
  moreover have "frames_from (phase + 1 + of_nat j * 16) (?z @ drop k ns)"
  proof -
    have "map snd (?z @ drop k ns) = map snd (take k ns @ drop k ns)" by (simp only: map_append map_map) (simp add: o_def)
    then show ?thesis using assms(3,4) len unfolding frames_from_def append_take_drop_id by simp
  qed
  ultimately have "fold tone_step (?z @ drop k ns) (0, phase, dout) = (0, phase, dout @ [(?w, phase + of_nat (Suc j) * 16)])"
    by (rule tone_word [OF assms(1)])
  moreover have "fold tone_step ?z (0, phase, dout) = (0, phase, dout)"
  proof -
    have "\<not> hit phase (snd n)" if "n \<in> set ?z" for n
    proof -
      from that obtain m where m: "m < k" "n = (0, snd (ns ! m))" using len assms(4) by (auto simp: in_set_conv_nth)
      have "snd n = phase + 1 + of_nat j * 16 + of_nat m"
        using frames_snd [OF assms(3), of m] m len assms(4) by simp
      then show ?thesis using m(1) assms(4) by (simp add: hit_after)
    qed
    moreover have "fold shift_bits (map (\<lambda>n. (0, snd n)) xs) 0 = 0" for xs :: "marked_word list"
      by (induction xs) (simp_all add: shift_bits_def z0)
    ultimately show ?thesis using slice_between [OF assms(1), of ?z 0 dout] by simp
  qed
  ultimately show ?thesis by simp
qed

section \<open>Alignment\<close>

text \<open>What an operation makes of the counter it is applied to.\<close>

definition counter_after :: "string \<Rightarrow> u32 \<Rightarrow> u32 \<Rightarrow> u32" where
  "counter_after op adj c = (if op = ''add'' then c + adj else if op = ''sub'' then c - adj else c)"

lemma align_counter:
  assumes "tdma d ! data_subcarrier_index d = td" "\<not> needsUpdate td"
  shows "\<exists>op adj. counter_after op adj (lifetime_tx td) = lifetime_rx td \<and>
    alignSchedule4 d = (0, if lifetime_tx td = lifetime_rx td then [] else demod_partnerOp op 0 adj d)"
proof -
  consider "lifetime_tx td < lifetime_rx td" | "lifetime_rx td < lifetime_tx td" | "lifetime_tx td = lifetime_rx td"
    by (meson linorder_neqE)
  then show ?thesis
  proof cases
    case 1
    then show ?thesis using assms
      by (intro exI [of _ "''add''"] exI [of _ "lifetime_rx td - lifetime_tx td"])
        (auto simp: alignSchedule4_def counter_after_def)
  next
    case 2
    then show ?thesis using assms
      by (intro exI [of _ "''sub''"] exI [of _ "lifetime_tx td - lifetime_rx td"])
        (auto simp: alignSchedule4_def counter_after_def)
  next
    case 3
    then show ?thesis using assms
      by (intro exI [of _ "[]"] exI) (simp add: alignSchedule4_def counter_after_def)
  qed
qed

text \<open>
  A peer is aligned. When the samples of a tone, of consecutive frames, carry a beacon behind
  anything that completes no keyword, and enough words behind it, one run reads every word whole, takes
  the peer's counter with the frame in which its word ended, and the operation then sent to the peer
  makes the counter that frame, or is none when it is. The words need not start where the buffer does.
\<close>
lemma beacon_aligns:
  assumes "demod_buf_accumulate d ! i = idle @ key @ concat nss @ tail" "i = data_subcarrier_index d" "demod_enabled d"
    and "i < length (demod_buf_accumulate d)" "i < length (demod_words d)" "i < length (tdma d)"
    and "subcarrier_chunk d \<le> length (idle @ key @ concat nss @ tail)" "eq \<noteq> 0"
    and "tdma_phase d = - 1" "demod_words d ! i = []" "needsUpdate (tdma d ! i)"
    and "carries 0xdeadbeef key" "keyword_free 0 (idle @ take 15 key)" "list_all2 carries (c # e # h # 0xff000000 # ws) nss"
    and "frames_from f (idle @ key @ concat nss @ tail)" "length tail < 16" "F = f + of_nat (length idle + 15)" "F \<noteq> - 1"
    and "length ws > 995" "c \<noteq> 0 \<or> F + 16 \<noteq> 0"
  shows "\<exists>d' op adj. demod_run eq d = Some d' \<and> tdma_phase d' = F \<and> epoc_tx (tdma d' ! i) = e \<and>
    counter_after op adj c = F + 16 \<and> alignSchedule4 d' = (0, if c = F + 16 then [] else demod_partnerOp op 0 adj d')"
proof -
  let ?chunk = "idle @ key @ concat nss @ tail" and ?ws = "c # e # h # 0xff000000 # ws"
  define words where "words = (0xdeadbeef, F) # map (\<lambda>k. (?ws ! k, F + of_nat (Suc k) * 16)) [0..<length ?ws]"
  obtain sr where sr: "fold tone_step ?chunk (0, - 1, []) = (sr, F, words)"
    using slice_locks [OF assms(12) _ assms(13-18), of "[]"] unfolding words_def append_Nil by (auto simp only: is_keyword_def)
  define d1 where "d1 = (d\<lparr>times_eq_sent := eq, tdma_phase := F, demod_words := (demod_words d)[i := words]\<rparr>)
    \<lparr>demod_buf_accumulate := (demod_buf_accumulate d)[i := drop (length ?chunk - length ?chunk mod 16) ?chunk]\<rparr>"
  have slice: "alternateDemodTDMA i True (d\<lparr>times_eq_sent := eq\<rparr>) = Some d1"
    using assms(1,4,5,8,9,10) sr by (simp add: alternateDemodTDMA_def Let_def d1_def del: append_assoc length_append)
  have d1: "tdma d1 = tdma d" "demod_words d1 = (demod_words d)[i := words]" "tdma_phase d1 = F"
    "data_subcarrier_index d1 = i" by (simp_all add: d1_def assms(2))
  obtain d2 where d2: "fold (parse_word i) words (p_start, d1) = (p_window words, d2)"
    "tdma d2 ! i = (fold take_beacon (beacons words) (tdma d ! i))\<lparr>found_dead := found_dead (tdma d ! i) \<or> 0xdeadbeef \<in> fst ` set words\<rparr>"
    "data_subcarrier_index d2 = i" "tdma_phase d2 = F"
    using parse_run [of i d1 words] assms(6) d1 by auto
  have len: "length words = length ws + 5" by (simp add: words_def)
  have w: "words ! 0 = (0xdeadbeef, F)" "words ! 1 = (c, F + 16)" "fst (words ! 2) = e" "fst (words ! 4) = 0xff000000"
    by (simp_all add: words_def nth_append del: upt_Suc)
  obtain bs where b: "beacons words = (c, F + 16, e) # bs"
    using beacons_first [of words] len w by auto
  let ?td = "(tdma d ! i)\<lparr>lifetime_tx := c, lifetime_rx := F + 16, epoc_tx := e\<rparr>"
  have td: "\<not> needsUpdate ?td" using assms(20) by (auto simp: needsUpdate_def)
  have t: "tdma d2 ! i = ?td\<lparr>found_dead := found_dead (tdma d ! i) \<or> 0xdeadbeef \<in> fst ` set words\<rparr>"
    using take_beacon_keeps [OF td] assms(11) unfolding d2(2) b by (simp add: take_beacon_def)
  define d' where "d' = d2\<lparr>demod_words := (demod_words d1)[i := []]\<rparr>"
  have "parseDemodWords i d1 = Some d'"
    using d1 assms(5,6,19) len d2(1) by (simp add: parseDemodWords_def d'_def)
  then have run: "demod_run eq d = Some d'"
    using slice assms(1-4,7) by (simp add: demod_run_def alternateDspRunDemod_def Let_def)
  have d': "tdma d' ! data_subcarrier_index d' = tdma d2 ! i" "tdma d' ! i = tdma d2 ! i" "tdma_phase d' = F"
    using d2(3,4) by (simp_all add: d'_def)
  then have "\<exists>op adj. counter_after op adj c = F + 16 \<and>
      alignSchedule4 d' = (0, if c = F + 16 then [] else demod_partnerOp op 0 adj d')"
    using align_counter [of d' "tdma d2 ! i"] t td by (simp add: needsUpdate_def)
  then show ?thesis using run d'(2,3) t by simp
qed

text \<open>Samples that carry given words.\<close>

definition bits_sample :: "u32 \<Rightarrow> u32" where
  "bits_sample b = (if bit b 0 then 0x00010000 else 0) OR (if bit b 1 then 1 else 0)"

definition word_samples :: "u32 \<Rightarrow> u32 \<Rightarrow> marked_word list" where
  "word_samples f w = map (\<lambda>k. (bits_sample (drop_bit (2 * k) w AND 3), f + of_nat k)) [0..<16]"

fun tone_samples :: "u32 \<Rightarrow> u32 list \<Rightarrow> marked_word list list" where
  "tone_samples f [] = []"
| "tone_samples f (w # ws) = word_samples f w # tone_samples (f + 16) ws"

lemma word_samples_carry: "carries w (word_samples f w)"
proof -
  have "qpsk_bits (bits_sample (b AND 3)) = b AND 3" for b
  proof -
    have "b AND 3 = (if bit b 0 then 1 else 0) OR (if bit b 1 then 2 else 0)"
      by (rule bit_word_eqI) (auto simp: bit_and_iff bit_or_iff three_bits bit_1_iff bit_2_iff less_2_cases_iff intro!: gr0I)
    then show ?thesis
      by (auto simp: bits_sample_def bit_and_iff bit_or_iff three_bits qpsk_bits_def ishort_to_parts_def bit_2_iff bit_1_iff)
  qed
  then show ?thesis by (simp add: carries_def word_samples_def)
qed

lemma tone_samples_carry: "list_all2 carries ws (tone_samples f ws)" "frames_from f (concat (tone_samples f ws))"
proof -
  show "list_all2 carries ws (tone_samples f ws)"
    by (induction ws arbitrary: f) (simp_all add: word_samples_carry)
  have "frames_from f (word_samples f w)" for f w
    by (simp add: frames_from_def word_samples_def)
  moreover have "length (word_samples f w) = 16" for f w by (simp add: word_samples_def)
  ultimately show "frames_from f (concat (tone_samples f ws))"
    by (induction ws arbitrary: f) simp_all
qed

lemma key_free: "carries w key \<Longrightarrow> bit kw 0 \<Longrightarrow> j < 16 \<Longrightarrow> fold shift_bits (take j key) 0 \<noteq> kw"
  using shifted [of w key j 0 0] by auto

lemma key_keyword_free:
  assumes "carries w key" "j < 16"
  shows "keyword_free 0 (take j key)"
  using assms(2)
proof (induction j)
  case (Suc j)
  have len: "j < length key" using assms(1) Suc.prems by (simp add: carries_def)
  have "fold shift_bits (take (Suc j) key) 0 \<noteq> 0xdeadbeef" "fold shift_bits (take (Suc j) key) 0 \<noteq> 0xbeefbeef"
    by (rule key_free [OF assms(1) _ Suc.prems]; simp)+
  then show ?case using Suc len by (simp add: take_Suc_conv_app_nth is_keyword_def)
qed simp

end
