(* ===== verification/Radio_Fsm.thy ===== *)
theory Radio_Fsm
  imports Demod_Tdma
begin

text \<open>
  The state machine of a radio (driver/RadioEstimate.cpp): it waits to be asked for the fine
  synchronisation, goes through the adjustments of sample rate, timing and carrier, reports that it
  tracks in the background, and, when it waits for events, aligns the schedule of its peer over the
  tone of \<open>RadioDemodTDMA\<close>.

  A tick is a function of the state and of what it reads: the settings, the counters of the
  estimates, and of the estimates in floating point only whether they are beyond their thresholds, the
  sign of the timing estimate and its adjustment as a word (\<open>getStoAdjustmentForEstimated\<close>). It gives
  the time to the next tick in microseconds and what it sent. The updates of sample rate and carrier,
  calculated in floating point, are outputs without arguments.
\<close>

section \<open>The tones of the schedule\<close>

definition getAllDemodTDMA :: "nat list" where "getAllDemodTDMA = [31, 30]"
definition getAllTransmitTDMA :: "nat list" where "getAllTransmitTDMA = [17, 19]"

definition getIndexForDemodTDMA :: "nat \<Rightarrow> nat" where
  "getIndexForDemodTDMA array_index = (if array_index \<ge> length getAllDemodTDMA then 0 else getAllDemodTDMA ! array_index)"

definition getScForTransmitTDMA :: "nat \<Rightarrow> nat" where
  "getScForTransmitTDMA array_index = (if array_index \<ge> length getAllTransmitTDMA then 0 else getAllTransmitTDMA ! array_index)"

definition subcarrierForBufferIndex :: "nat \<Rightarrow> nat" where
  "subcarrierForBufferIndex i = 945 + i * 2"

text \<open>The two lists are parallel: what a radio sends on one tone comes in on its mirror.\<close>

lemma tones_parallel:
  "array_index < 2 \<Longrightarrow> subcarrierForBufferIndex (getIndexForDemodTDMA array_index) + getScForTransmitTDMA array_index = 1024"
  by (auto simp: less_2_cases_iff subcarrierForBufferIndex_def getIndexForDemodTDMA_def getAllDemodTDMA_def
      getScForTransmitTDMA_def getAllTransmitTDMA_def)

section \<open>States\<close>

datatype re_state =
    DID_BOOT | PRE_SFO_STATE_0 | SFO_STATE_0 | STO_0 | STO_EQ_0 | CFO_0 | BACKGROUND_SYNC | RE_FINESYNC | RE_WAIT_EVENTS
  | GOT_TDMA_REQUEST | TDMA_STATE_0_0 | TDMA_STATE_0_1 | TDMA_STATE_2_DOT_5 | TDMA_STATE_2_DOT_6 | TDMA_STATE_2_DOT_7
  | TDMA_STATE_3 | TDMA_STATE_4 | TDMA_STATE_5 | RECHECK_TDMA_0 | RECHECK_TDMA_1 | RE_DEBUG_STALL

abbreviation (input) NOOP_EV :: u32 where "NOOP_EV \<equiv> 0"
abbreviation (input) REQUEST_FINE_SYNC_EV :: u32 where "REQUEST_FINE_SYNC_EV \<equiv> 1"
abbreviation (input) RADIO_ENTERED_BG_EV :: u32 where "RADIO_ENTERED_BG_EV \<equiv> 2"
abbreviation (input) REQUEST_TDMA_EV :: u32 where "REQUEST_TDMA_EV \<equiv> 3"
abbreviation (input) FINISHED_TDMA_EV :: u32 where "FINISHED_TDMA_EV \<equiv> 4"
abbreviation (input) CHECK_TDMA_EV :: u32 where "CHECK_TDMA_EV \<equiv> 10"

record re_fsm =
  array_index :: u32
  re_peer :: nat
  radio_state :: re_state
  radio_state_pending :: re_state
  fsm_event_pending :: u32
  re_event :: "u32 \<times> u32"
  prev_sfo_est :: u64
  prev_sto_est :: u64
  prev_cfo_est :: u64
  demod :: radio_demod
  should_mask_data_tone_tx_eq :: bool
  save_tdma_mode :: u32
  save_mask :: bool

record re_env =
  fsm_js :: bool
  sto_skip :: bool
  sfo_wait :: u64
  sto_margin :: int
  sto_disable_positive :: bool
  times_sfo :: u64
  times_sto :: u64
  times_cfo :: u64
  sfo_beyond :: "bool option"
  cfo_beyond :: "bool option"
  sto_sign :: int
  sto_adj :: u32

datatype re_out =
    Sent_event u32 u32 | Sent_later later_call | Sent_ring "nat \<times> ring_word" | Update_cfo | Update_sfo | Start_background

text \<open>The next state: none chosen, after a time, at once.\<close>

datatype re_next = Stay | After re_state nat | Now re_state

section \<open>Adjustments\<close>

text \<open>An estimate that is not a number is neither beyond its threshold nor within.\<close>

definition sfoState :: "re_env \<Rightarrow> nat \<times> re_out list" where
  "sfoState env = (case sfo_beyond env of Some True \<Rightarrow> (2, [Update_cfo, Update_sfo]) | Some False \<Rightarrow> (0, []) | None \<Rightarrow> (1, []))"

definition cfoState :: "re_env \<Rightarrow> nat \<times> re_out list" where
  "cfoState env = (case cfo_beyond env of Some True \<Rightarrow> (1, [Update_cfo, Update_sfo]) | Some False \<Rightarrow> (0, []) | None \<Rightarrow> (2, []))"

definition updatePartnerSto :: "re_env \<Rightarrow> nat \<Rightarrow> u32 \<Rightarrow> later_call list" where
  "updatePartnerSto env peer sto_adjustment =
     (if sto_sign env < 0 \<and> sto_adjustment > 0 then setPartnerSfoAdvance peer sto_adjustment 3 True
      else if sto_sign env > 0 \<and> sto_adjustment > 0 then setPartnerSfoAdvance peer sto_adjustment 4 True
      else [])"

definition stoState :: "re_env \<Rightarrow> nat \<Rightarrow> nat \<times> later_call list" where
  "stoState env peer =
     (let sto_adjustment = sto_adj env; margin = word_of_int (sto_margin env)
      in if sto_adjustment > 128 then (1, [])
         else if sto_sign env < 0
         then if sto_adjustment \<ge> margin then (0, updatePartnerSto env peer (sto_adjustment - margin))
              else (0, setPartnerSfoAdvance peer (margin - sto_adjustment) 4 True)
         else if sto_sign env > 0
         then let value = (128 - sto_adjustment) + (128 - margin)
              in (0, if sto_disable_positive env then [] else setPartnerSfoAdvance peer value 3 True)
         else (0, []))"

section \<open>Events\<close>

definition re_handleCustomEvent :: "u32 \<times> u32 \<Rightarrow> re_fsm \<Rightarrow> re_fsm" where
  "re_handleCustomEvent e s =
     (if fst e \<in> {REQUEST_FINE_SYNC_EV, CHECK_TDMA_EV, REQUEST_TDMA_EV} \<and> snd e = array_index s then s\<lparr>re_event := e\<rparr> else s)"

definition clearRecentEvent :: "re_fsm \<Rightarrow> re_fsm" where
  "clearRecentEvent s = s\<lparr>re_event := (NOOP_EV, snd (re_event s))\<rparr>"

definition re_setPartnerTDMA :: "u32 \<Rightarrow> u32 \<Rightarrow> re_fsm \<Rightarrow> re_out list \<times> re_fsm" where
  "re_setPartnerTDMA dmode v s =
     (map Sent_later (setPartnerTDMA (re_peer s) dmode v),
      s\<lparr>demod := (demod s)\<lparr>last_mode_sent := dmode, last_mode_data_sent := v\<rparr>\<rparr>)"

definition re_partnerOp :: "string \<Rightarrow> u32 \<Rightarrow> u32 \<Rightarrow> re_fsm \<Rightarrow> re_out list" where
  "re_partnerOp op sel v s = map Sent_later (partnerOp (re_peer s) RING_ADDR_TX_PARSE op sel v)"

definition re_td :: "re_fsm \<Rightarrow> higgs_tdma" where
  "re_td s = tdma (demod s) ! data_subcarrier_index (demod s)"

definition reset_tracking :: "re_fsm \<Rightarrow> re_fsm" where
  "reset_tracking s = s\<lparr>demod := resetTdmaAndLifetime (resetDemodPhase (resetTdmaIndexDefault (demod s)))\<rparr>"

section \<open>A tick\<close>

definition re_DID_BOOT :: "re_env \<Rightarrow> re_fsm \<Rightarrow> re_next \<times> re_out list \<times> re_fsm" where
  "re_DID_BOOT env s =
     (if fsm_js env then (Now RE_DEBUG_STALL, [], s)
      else (After PRE_SFO_STATE_0 1000, [], s\<lparr>fsm_event_pending := REQUEST_FINE_SYNC_EV\<rparr>))"

definition re_SFO_STATE_0 :: "re_env \<Rightarrow> re_fsm \<Rightarrow> re_next \<times> re_out list \<times> re_fsm" where
  "re_SFO_STATE_0 env s =
     (if times_sfo env - prev_sfo_est s = sfo_wait env
      then let (failure, outs) = sfoState env
           in if failure = 0 then (After STO_0 1000, outs, s\<lparr>prev_sto_est := times_sto env, prev_sfo_est := times_sfo env\<rparr>)
              else (After SFO_STATE_0 1000, outs, s\<lparr>prev_sfo_est := times_sfo env\<rparr>)
      else (Stay, [], s))"

definition re_STO_0 :: "re_env \<Rightarrow> re_fsm \<Rightarrow> re_next \<times> re_out list \<times> re_fsm" where
  "re_STO_0 env s =
     (if sto_skip env then (Now RE_WAIT_EVENTS, [Sent_event RADIO_ENTERED_BG_EV (array_index s)], s)
      else if times_sto env - prev_sto_est s = 2
      then let (failure, calls) = stoState env (re_peer s)
           in if failure = 0 then (After STO_EQ_0 8000000, map Sent_later calls, s)
              else (Stay, map Sent_later calls, s\<lparr>prev_sto_est := times_sto env\<rparr>)
      else (Stay, [], s))"

definition re_CFO_0 :: "re_env \<Rightarrow> re_fsm \<Rightarrow> re_next \<times> re_out list \<times> re_fsm" where
  "re_CFO_0 env s =
     (if times_cfo env - prev_cfo_est s = 2
      then let (failure, outs) = cfoState env
           in (After (if failure = 0 then BACKGROUND_SYNC else CFO_0) 1000, outs, s\<lparr>prev_cfo_est := times_cfo env\<rparr>)
      else (Stay, [], s))"

definition re_RE_FINESYNC :: "re_env \<Rightarrow> re_fsm \<Rightarrow> re_next \<times> re_out list \<times> re_fsm" where
  "re_RE_FINESYNC env s =
     (After RE_FINESYNC 2000000,
      snd (sfoState env) @ (if sto_adj env > 0 then map Sent_later (updatePartnerSto env (re_peer s) (sto_adj env)) else []), s)"

text \<open>The second test of the event sees it cleared by the first.\<close>

definition re_WAIT_EVENTS :: "re_fsm \<Rightarrow> re_next \<times> re_out list \<times> re_fsm" where
  "re_WAIT_EVENTS s =
     (if re_event s = (REQUEST_TDMA_EV, array_index s) then (Now GOT_TDMA_REQUEST, [], clearRecentEvent s)
      else if re_event s = (CHECK_TDMA_EV, array_index s) then (Now RECHECK_TDMA_0, [], clearRecentEvent s)
      else (Stay, [], s))"

definition re_TDMA_STATE_2_DOT_6 :: "re_fsm \<Rightarrow> re_next \<times> re_out list \<times> re_fsm" where
  "re_TDMA_STATE_2_DOT_6 s =
     (if needsUpdate (re_td s) then (After TDMA_STATE_0_0 1000, [], reset_tracking s)
      else (After TDMA_STATE_2_DOT_7 1000000, map Sent_ring (snd (alignSchedule4 (demod s))), s))"

definition re_TDMA_STATE_5 :: "re_fsm \<Rightarrow> re_next \<times> re_out list \<times> re_fsm" where
  "re_TDMA_STATE_5 s =
     (let (outs, s1) = re_setPartnerTDMA 20 0 s
      in (Now RE_WAIT_EVENTS, outs @ [Sent_event FINISHED_TDMA_EV (array_index s)],
          s1\<lparr>demod := setDemodEnabled False (demod s1)\<rparr>))"

definition re_RECHECK_TDMA_0 :: "re_fsm \<Rightarrow> re_next \<times> re_out list \<times> re_fsm" where
  "re_RECHECK_TDMA_0 s =
     (let s1 = reset_tracking (s\<lparr>save_tdma_mode := last_mode_sent (demod s), save_mask := should_mask_data_tone_tx_eq s\<rparr>);
          (outs, s2) = re_setPartnerTDMA 6 0 (s1\<lparr>demod := setDemodEnabled True (demod s1), should_mask_data_tone_tx_eq := False\<rparr>)
      in (After RECHECK_TDMA_1 (if save_mask s2 then 6000000 else 5000), outs, s2))"

definition re_RECHECK_TDMA_1 :: "re_fsm \<Rightarrow> re_next \<times> re_out list \<times> re_fsm" where
  "re_RECHECK_TDMA_1 s =
     (if lifetime_rx (re_td s) \<noteq> 0 \<or> lifetime_tx (re_td s) \<noteq> 0
      then let (outs, s1) = re_setPartnerTDMA (save_tdma_mode s) 0 s
           in (Now RE_WAIT_EVENTS, outs,
               s1\<lparr>demod := setDemodEnabled False (demod s1), should_mask_data_tone_tx_eq := save_mask s1\<rparr>)
      else (Stay, [], s))"

fun re_handler :: "re_env \<Rightarrow> re_state \<Rightarrow> re_fsm \<Rightarrow> re_next \<times> re_out list \<times> re_fsm" where
  "re_handler env DID_BOOT s = re_DID_BOOT env s"
| "re_handler env PRE_SFO_STATE_0 s = (After SFO_STATE_0 500000, [], s\<lparr>prev_sfo_est := times_sfo env + 1\<rparr>)"
| "re_handler env SFO_STATE_0 s = re_SFO_STATE_0 env s"
| "re_handler env STO_0 s = re_STO_0 env s"
| "re_handler env STO_EQ_0 s = (After CFO_0 1000, [], s\<lparr>prev_cfo_est := times_cfo env\<rparr>)"
| "re_handler env CFO_0 s = re_CFO_0 env s"
| "re_handler env BACKGROUND_SYNC s =
     (Now RE_FINESYNC, [Start_background, Sent_event RADIO_ENTERED_BG_EV (array_index s)], s)"
| "re_handler env RE_FINESYNC s = re_RE_FINESYNC env s"
| "re_handler env RE_WAIT_EVENTS s = re_WAIT_EVENTS s"
| "re_handler env GOT_TDMA_REQUEST s = (After TDMA_STATE_0_0 5000, [], s)"
| "re_handler env TDMA_STATE_0_0 s = (After TDMA_STATE_0_1 5000, re_partnerOp ''set'' 2 0 s, s)"
| "re_handler env TDMA_STATE_0_1 s =
     (After TDMA_STATE_2_DOT_5 5000, [],
      (reset_tracking s)\<lparr>demod := (demod (reset_tracking s))\<lparr>track_demod_against_rx_counter := True\<rparr>\<rparr>)"
| "re_handler env TDMA_STATE_2_DOT_5 s =
     (let (outs, s1) = re_setPartnerTDMA 6 0 s in (After TDMA_STATE_2_DOT_6 3000000, outs, s1))"
| "re_handler env TDMA_STATE_2_DOT_6 s = re_TDMA_STATE_2_DOT_6 s"
| "re_handler env TDMA_STATE_2_DOT_7 s = (After TDMA_STATE_3 3000000, [], reset_tracking s)"
| "re_handler env TDMA_STATE_3 s =
     (if lifetime_rx (re_td s) \<noteq> 0 \<or> lifetime_tx (re_td s) \<noteq> 0 then (Now TDMA_STATE_4, [], s) else (Stay, [], s))"
| "re_handler env TDMA_STATE_4 s = (Now RE_DEBUG_STALL, [], s)"
| "re_handler env TDMA_STATE_5 s = re_TDMA_STATE_5 s"
| "re_handler env RECHECK_TDMA_0 s = re_RECHECK_TDMA_0 s"
| "re_handler env RECHECK_TDMA_1 s = re_RECHECK_TDMA_1 s"
| "re_handler env RE_DEBUG_STALL s = (After RE_DEBUG_STALL 100000, [], s)"

text \<open>The timer to the next tick, what was sent, the state.\<close>

definition tick_localfsm :: "re_env \<Rightarrow> re_fsm \<Rightarrow> nat \<times> re_out list \<times> re_fsm" where
  "tick_localfsm env s =
     (if fsm_event_pending s \<noteq> NOOP_EV \<and> fsm_event_pending s \<noteq> fst (re_event s) then (1000000, [], s)
      else let s1 = s\<lparr>fsm_event_pending := NOOP_EV, radio_state := radio_state_pending s\<rparr>;
               (nxt, outs, s2) = re_handler env (radio_state s1) s1
           in case nxt of
                After st us \<Rightarrow> (us, outs, s2\<lparr>radio_state_pending := st\<rparr>)
              | Now st \<Rightarrow> (1, outs, s2\<lparr>radio_state_pending := st\<rparr>)
              | Stay \<Rightarrow> (1000, outs, s2\<lparr>radio_state_pending := radio_state s2\<rparr>))"

definition init_localfsm :: "nat \<Rightarrow> nat \<Rightarrow> re_fsm" where
  "init_localfsm i peer = \<lparr>array_index = of_nat i, re_peer = peer, radio_state = DID_BOOT, radio_state_pending = DID_BOOT,
     fsm_event_pending = NOOP_EV, re_event = (NOOP_EV, 0), prev_sfo_est = 0, prev_sto_est = 0, prev_cfo_est = 0,
     demod = setIndex (getIndexForDemodTDMA i) (RadioDemodTDMA peer 32 1024), should_mask_data_tone_tx_eq = False,
     save_tdma_mode = 0, save_mask = False\<rparr>"

section \<open>Masks\<close>

abbreviation SET_MASK_SC_CMD :: u32 where "SET_MASK_SC_CMD \<equiv> 0x63000000"

definition setMaskedSubcarriers :: "nat \<Rightarrow> u32 list \<Rightarrow> later_call list" where
  "setMaskedSubcarriers peer sc =
     (if sc = [] then [(peer, (RING_ADDR_TX_EQ, SET_MASK_SC_CMD), 0)]
      else map (\<lambda>i. (peer, (RING_ADDR_TX_EQ, SET_MASK_SC_CMD OR (0x10000 * of_nat i) OR (sc ! i AND 0x3ff)), int i)) [0..<length sc])"

definition maskAllSc :: "nat \<Rightarrow> later_call list" where
  "maskAllSc peer = setMaskedSubcarriers peer (map of_nat getAllTransmitTDMA)"

definition setTDMASc :: "nat \<Rightarrow> nat \<Rightarrow> later_call list" where
  "setTDMASc i peer = setPartnerTDMASubcarrier peer (of_nat (getScForTransmitTDMA i))"

section \<open>Histories\<close>

text \<open>
  Ticks with settings and estimates that satisfy \<open>P\<close>, events from outside, whatever the demodulator
  does in between, and the mask set from the dashboard; with all that was sent.
\<close>

inductive re_reaches :: "(re_env \<Rightarrow> bool) \<Rightarrow> re_fsm \<Rightarrow> re_out list \<Rightarrow> re_fsm \<Rightarrow> bool" for P s0 where
  Start: "re_reaches P s0 [] s0"
| Tick: "re_reaches P s0 outs s \<Longrightarrow> P env \<Longrightarrow> re_reaches P s0 (outs @ fst (snd (tick_localfsm env s))) (snd (snd (tick_localfsm env s)))"
| Event: "re_reaches P s0 outs s \<Longrightarrow> re_reaches P s0 outs (re_handleCustomEvent e s)"
| Demod: "re_reaches P s0 outs s \<Longrightarrow> re_reaches P s0 outs (s\<lparr>demod := d\<rparr>)"
| Mask: "re_reaches P s0 outs s \<Longrightarrow> re_reaches P s0 outs (s\<lparr>should_mask_data_tone_tx_eq := m\<rparr>)"

definition syncing :: "re_state \<Rightarrow> bool" where
  "syncing st \<longleftrightarrow> st \<in> {DID_BOOT, PRE_SFO_STATE_0, SFO_STATE_0, STO_0, STO_EQ_0, CFO_0, BACKGROUND_SYNC}"

fun is_event :: "u32 \<Rightarrow> re_out \<Rightarrow> bool" where
  "is_event ev (Sent_event d0 d1) \<longleftrightarrow> d0 = ev"
| "is_event ev _ \<longleftrightarrow> False"

definition events_of :: "u32 \<Rightarrow> re_out list \<Rightarrow> nat" where
  "events_of ev outs = length (filter (is_event ev) outs)"

lemma events_of_simps [simp]:
  "events_of ev [] = 0" "events_of ev (a @ b) = events_of ev a + events_of ev b"
  "events_of ev (o1 # os) = (if is_event ev o1 then 1 else 0) + events_of ev os"
  "events_of ev (map Sent_later cs) = 0" "events_of ev (map Sent_ring rs) = 0"
  by (simp_all add: events_of_def filter_empty_conv)

definition next_state :: "re_next \<Rightarrow> re_state \<Rightarrow> re_state" where
  "next_state nxt st = (case nxt of Stay \<Rightarrow> st | After st' _ \<Rightarrow> st' | Now st' \<Rightarrow> st')"

lemmas re_handlers = re_DID_BOOT_def re_SFO_STATE_0_def re_STO_0_def re_CFO_0_def re_RE_FINESYNC_def re_WAIT_EVENTS_def
  re_TDMA_STATE_2_DOT_6_def re_TDMA_STATE_5_def re_RECHECK_TDMA_0_def re_RECHECK_TDMA_1_def re_setPartnerTDMA_def re_partnerOp_def

lemma handler_state [simp]: "radio_state (snd (snd (re_handler env st s))) = radio_state s"
  by (cases st) (simp_all add: re_handlers Let_def split_beta reset_tracking_def clearRecentEvent_def)

lemma tick_pending:
  "radio_state_pending (snd (snd (tick_localfsm env s))) =
    (if fsm_event_pending s \<noteq> NOOP_EV \<and> fsm_event_pending s \<noteq> fst (re_event s) then radio_state_pending s
     else next_state (fst (re_handler env (radio_state_pending s) (s\<lparr>fsm_event_pending := NOOP_EV, radio_state := radio_state_pending s\<rparr>)))
       (radio_state_pending s))"
  "fst (snd (tick_localfsm env s)) =
    (if fsm_event_pending s \<noteq> NOOP_EV \<and> fsm_event_pending s \<noteq> fst (re_event s) then []
     else fst (snd (re_handler env (radio_state_pending s) (s\<lparr>fsm_event_pending := NOOP_EV, radio_state := radio_state_pending s\<rparr>))))"
proof -
  let ?s = "s\<lparr>fsm_event_pending := NOOP_EV, radio_state := radio_state_pending s\<rparr>"
  obtain nxt outs s2 where h: "re_handler env (radio_state_pending s) ?s = (nxt, outs, s2)" by (metis prod_cases3)
  have "radio_state s2 = radio_state_pending s" using handler_state [of env "radio_state_pending s" ?s] by (simp add: h)
  then show "radio_state_pending (snd (snd (tick_localfsm env s))) =
      (if fsm_event_pending s \<noteq> NOOP_EV \<and> fsm_event_pending s \<noteq> fst (re_event s) then radio_state_pending s
       else next_state (fst (re_handler env (radio_state_pending s) ?s)) (radio_state_pending s))"
    "fst (snd (tick_localfsm env s)) =
      (if fsm_event_pending s \<noteq> NOOP_EV \<and> fsm_event_pending s \<noteq> fst (re_event s) then []
       else fst (snd (re_handler env (radio_state_pending s) ?s)))"
    by (simp_all add: tick_localfsm_def h next_state_def split: re_next.split)
qed

lemma estimate_events [simp]: "events_of ev (snd (sfoState env)) = 0" "events_of ev (snd (cfoState env)) = 0"
  by (simp_all add: sfoState_def cfoState_def split: option.split bool.split)

lemma handler_reports:
  assumes "st \<noteq> TDMA_STATE_5"
  shows "next_state (fst (re_handler env st s)) st \<noteq> TDMA_STATE_5"
    and "events_of FINISHED_TDMA_EV (fst (snd (re_handler env st s))) = 0"
    and "\<not> syncing st \<longrightarrow> \<not> syncing (next_state (fst (re_handler env st s)) st) \<and>
      events_of RADIO_ENTERED_BG_EV (fst (snd (re_handler env st s))) = 0"
    and "syncing (next_state (fst (re_handler env st s)) st) \<longrightarrow> events_of RADIO_ENTERED_BG_EV (fst (snd (re_handler env st s))) = 0"
    and "events_of RADIO_ENTERED_BG_EV (fst (snd (re_handler env st s))) \<le> 1"
proof -
  note d = re_handlers next_state_def syncing_def Let_def split_beta
  show "next_state (fst (re_handler env st s)) st \<noteq> TDMA_STATE_5"
    using assms by (cases st) (simp_all add: d)
  show "events_of FINISHED_TDMA_EV (fst (snd (re_handler env st s))) = 0"
    using assms by (cases st) (simp_all add: d)
  show "\<not> syncing st \<longrightarrow> \<not> syncing (next_state (fst (re_handler env st s)) st) \<and>
      events_of RADIO_ENTERED_BG_EV (fst (snd (re_handler env st s))) = 0"
    using assms by (cases st) (simp_all add: d)
  show "syncing (next_state (fst (re_handler env st s)) st) \<longrightarrow> events_of RADIO_ENTERED_BG_EV (fst (snd (re_handler env st s))) = 0"
    using assms by (cases st) (simp_all add: d)
  show "events_of RADIO_ENTERED_BG_EV (fst (snd (re_handler env st s))) \<le> 1"
    using assms by (cases st) (simp_all add: d)
qed

definition reports_inv :: "re_out list \<Rightarrow> re_fsm \<Rightarrow> bool" where
  "reports_inv outs s \<longleftrightarrow> radio_state_pending s \<noteq> TDMA_STATE_5 \<and> events_of FINISHED_TDMA_EV outs = 0 \<and>
     events_of RADIO_ENTERED_BG_EV outs \<le> 1 \<and> (syncing (radio_state_pending s) \<longrightarrow> events_of RADIO_ENTERED_BG_EV outs = 0)"

lemma reports_tick:
  assumes "reports_inv outs s"
  shows "reports_inv (outs @ fst (snd (tick_localfsm env s))) (snd (snd (tick_localfsm env s)))"
proof -
  let ?st = "radio_state_pending s" and ?s = "s\<lparr>fsm_event_pending := NOOP_EV, radio_state := radio_state_pending s\<rparr>"
  show ?thesis
  proof (cases "fsm_event_pending s \<noteq> NOOP_EV \<and> fsm_event_pending s \<noteq> fst (re_event s)")
    case True
    then show ?thesis using assms by (simp add: reports_inv_def tick_pending)
  next
    case False
    have st: "?st \<noteq> TDMA_STATE_5" using assms by (simp add: reports_inv_def)
    note h = handler_reports [OF st, of env ?s]
    show ?thesis
    proof (cases "syncing ?st")
      case True
      then show ?thesis using assms h(1,2,4,5) unfolding reports_inv_def tick_pending if_not_P [OF False] by simp
    next
      case False
      then show ?thesis
        using assms h(1,2,3) unfolding reports_inv_def tick_pending if_not_P [OF \<open>\<not> (fsm_event_pending s \<noteq> NOOP_EV \<and> fsm_event_pending s \<noteq> fst (re_event s))\<close>]
        by simp
    qed
  qed
qed

lemma reports_invariant: "re_reaches P s0 outs s \<Longrightarrow> reports_inv [] s0 \<Longrightarrow> reports_inv outs s"
proof (induction rule: re_reaches.induct)
  case (Tick outs s env)
  then show ?case using reports_tick by blast
qed (simp_all add: reports_inv_def re_handleCustomEvent_def)

text \<open>Without the setting that skips the timing, a radio that tracks never waits for events again.\<close>

definition tracking_only :: "re_state \<Rightarrow> bool" where
  "tracking_only st \<longleftrightarrow> syncing st \<or> st = RE_FINESYNC \<or> st = RE_DEBUG_STALL"

lemma handler_tracks:
  "\<not> sto_skip env \<Longrightarrow> tracking_only st \<Longrightarrow> tracking_only (next_state (fst (re_handler env st s)) st)"
  by (cases st) (simp_all add: re_handlers next_state_def tracking_only_def syncing_def Let_def split_beta)

lemma requests_never_served:
  assumes "re_reaches (\<lambda>env. \<not> sto_skip env) s0 outs s" "radio_state_pending s0 = DID_BOOT"
  shows "radio_state_pending s \<notin> {RE_WAIT_EVENTS, GOT_TDMA_REQUEST, RECHECK_TDMA_0}"
proof -
  have "tracking_only (radio_state_pending s)"
    using assms
  proof (induction rule: re_reaches.induct)
    case (Tick outs s env)
    then show ?case using handler_tracks [OF Tick.hyps(2)] by (simp add: tick_pending)
  qed (simp_all add: tracking_only_def syncing_def re_handleCustomEvent_def)
  then show ?thesis by (auto simp: tracking_only_def syncing_def)
qed

section \<open>Progress\<close>

fun re_run :: "(nat \<Rightarrow> re_env) \<Rightarrow> re_fsm \<Rightarrow> nat \<Rightarrow> re_fsm" where
  "re_run env s 0 = s"
| "re_run env s (Suc n) = snd (snd (tick_localfsm (env n) (re_run env s n)))"

text \<open>A counter of estimates: it goes on, and by one at a time as the ticks see it.\<close>

definition counts :: "(nat \<Rightarrow> nat) \<Rightarrow> bool" where
  "counts c \<longleftrightarrow> (\<forall>n. c (Suc n) = c n \<or> c (Suc n) = Suc (c n)) \<and> (\<forall>m. \<exists>n. m \<le> c n)"

lemma counts_hits:
  assumes "counts c" "c n \<le> v"
  shows "\<exists>m \<ge> n. c m = v"
proof -
  have mono: "mono c" using assms(1) by (intro mono_iff_le_Suc [THEN iffD2]) (metis counts_def le_SucI order_refl)
  obtain m where m: "v \<le> c m" using assms(1) by (auto simp: counts_def)
  have "\<exists>k. c (n + k) = v" if "v \<le> c (n + j)" for j
    using that
  proof (induction j)
    case 0
    then show ?case using assms(2) by (intro exI [of _ 0]) simp
  next
    case (Suc j)
    show ?case
    proof (cases "v \<le> c (n + j)")
      case False
      then have "c (n + Suc j) = v" using Suc.prems assms(1) unfolding counts_def by (metis add_Suc_right le_antisym not_less_eq_eq)
      then show ?thesis by blast
    qed (use Suc.IH in blast)
  qed
  moreover have "v \<le> c (n + m)" using m mono by (meson le_add2 monoD order_trans)
  ultimately obtain k where "c (n + k) = v" by blast
  then show ?thesis by (intro exI [of _ "n + k"]) simp
qed

text \<open>A state that is kept until a test succeeds is left when the test succeeds at some time.\<close>

lemma kept_until:
  assumes "Q n" "\<And>m. n \<le> m \<Longrightarrow> Q m \<Longrightarrow> \<not> hits m \<Longrightarrow> Q (Suc m)" "\<exists>m \<ge> n. hits m"
  shows "\<exists>m \<ge> n. Q m \<and> hits m"
proof -
  define m where "m = (LEAST m. n \<le> m \<and> hits m)"
  have m: "n \<le> m" "hits m" unfolding m_def using LeastI_ex [OF assms(3)] by auto
  have before: "\<not> hits k" if "n \<le> k" "k < m" for k
    using not_less_Least [of k "\<lambda>m. n \<le> m \<and> hits m"] that unfolding m_def by blast
  have "Q (n + k)" if "n + k \<le> m" for k
    using that
  proof (induction k)
    case (Suc k)
    then show ?case using assms(2) [of "n + k"] before [of "n + k"] by simp
  qed (use assms(1) in simp)
  from this [of "m - n"] show ?thesis using m by (intro exI [of _ m]) simp
qed

lemma handler_index [simp]: "array_index (snd (snd (re_handler env st s))) = array_index s"
  by (cases st) (simp_all add: re_handlers Let_def split_beta reset_tracking_def clearRecentEvent_def)

lemma tick_at:
  assumes "fsm_event_pending s = NOOP_EV \<or> fsm_event_pending s = fst (re_event s)"
  shows "tick_localfsm env s =
    (let s1 = s\<lparr>fsm_event_pending := NOOP_EV, radio_state := radio_state_pending s\<rparr>;
         (nxt, outs, s2) = re_handler env (radio_state_pending s) s1
     in (case nxt of Stay \<Rightarrow> 1000 | After _ us \<Rightarrow> us | Now _ \<Rightarrow> 1, outs, s2\<lparr>radio_state_pending := next_state nxt (radio_state_pending s)\<rparr>))"
proof -
  let ?s = "s\<lparr>fsm_event_pending := NOOP_EV, radio_state := radio_state_pending s\<rparr>"
  obtain nxt outs s2 where h: "re_handler env (radio_state_pending s) ?s = (nxt, outs, s2)" by (metis prod_cases3)
  have "radio_state s2 = radio_state_pending s" using handler_state [of env "radio_state_pending s" ?s] by (simp add: h)
  then show ?thesis using assms by (auto simp: tick_localfsm_def h next_state_def split: re_next.split)
qed

definition running :: "re_state \<Rightarrow> u32 \<Rightarrow> re_fsm \<Rightarrow> bool" where
  "running st i s \<longleftrightarrow> radio_state_pending s = st \<and> fsm_event_pending s = NOOP_EV \<and> array_index s = i"

definition good_estimates :: "(nat \<Rightarrow> re_env) \<Rightarrow> nat \<Rightarrow> (nat \<Rightarrow> nat) \<Rightarrow> (nat \<Rightarrow> nat) \<Rightarrow> (nat \<Rightarrow> nat) \<Rightarrow> bool" where
  "good_estimates env wait a b c \<longleftrightarrow> (\<forall>n. \<not> fsm_js (env n) \<and> \<not> sto_skip (env n) \<and> sfo_wait (env n) = of_nat wait \<and>
     sfo_beyond (env n) = Some False \<and> cfo_beyond (env n) = Some False \<and> sto_adj (env n) \<le> 128 \<and>
     times_sfo (env n) = of_nat (a n) \<and> times_sto (env n) = of_nat (b n) \<and> times_cfo (env n) = of_nat (c n))"

lemma sto_succeeds: "sto_adj env \<le> 128 \<Longrightarrow> fst (stoState env peer) = 0"
  by (simp add: stoState_def Let_def not_less [symmetric])

lemma good_steps:
  assumes "good_estimates env w a b c"
  shows "radio_state_pending s = DID_BOOT \<Longrightarrow> fsm_event_pending s = NOOP_EV \<Longrightarrow>
      snd (snd (tick_localfsm (env n) s)) = s\<lparr>radio_state := DID_BOOT, fsm_event_pending := REQUEST_FINE_SYNC_EV, radio_state_pending := PRE_SFO_STATE_0\<rparr>"
    and "radio_state_pending s = PRE_SFO_STATE_0 \<Longrightarrow> fsm_event_pending s = fst (re_event s) \<Longrightarrow> array_index s = i \<Longrightarrow>
      running SFO_STATE_0 i (snd (snd (tick_localfsm (env n) s))) \<and> prev_sfo_est (snd (snd (tick_localfsm (env n) s))) = of_nat (a n + 1)"
    and "running SFO_STATE_0 i s \<Longrightarrow>
      (if of_nat (a n) - prev_sfo_est s = of_nat w
       then running STO_0 i (snd (snd (tick_localfsm (env n) s))) \<and> prev_sto_est (snd (snd (tick_localfsm (env n) s))) = of_nat (b n)
       else running SFO_STATE_0 i (snd (snd (tick_localfsm (env n) s))) \<and> prev_sfo_est (snd (snd (tick_localfsm (env n) s))) = prev_sfo_est s)"
    and "running STO_0 i s \<Longrightarrow>
      (if of_nat (b n) - prev_sto_est s = 2 then running STO_EQ_0 i (snd (snd (tick_localfsm (env n) s)))
       else running STO_0 i (snd (snd (tick_localfsm (env n) s))) \<and> prev_sto_est (snd (snd (tick_localfsm (env n) s))) = prev_sto_est s)"
    and "running STO_EQ_0 i s \<Longrightarrow>
      running CFO_0 i (snd (snd (tick_localfsm (env n) s))) \<and> prev_cfo_est (snd (snd (tick_localfsm (env n) s))) = of_nat (c n)"
    and "running CFO_0 i s \<Longrightarrow>
      (if of_nat (c n) - prev_cfo_est s = 2 then running BACKGROUND_SYNC i (snd (snd (tick_localfsm (env n) s)))
       else running CFO_0 i (snd (snd (tick_localfsm (env n) s))) \<and> prev_cfo_est (snd (snd (tick_localfsm (env n) s))) = prev_cfo_est s)"
    and "running BACKGROUND_SYNC i s \<Longrightarrow> fst (snd (tick_localfsm (env n) s)) = [Start_background, Sent_event RADIO_ENTERED_BG_EV i]"
proof -
  have g: "\<not> fsm_js (env n)" "\<not> sto_skip (env n)" "sfo_wait (env n) = of_nat w" "sfo_beyond (env n) = Some False"
    "cfo_beyond (env n) = Some False" "sto_adj (env n) \<le> 128" "times_sfo (env n) = of_nat (a n)" "times_sto (env n) = of_nat (b n)"
    "times_cfo (env n) = of_nat (c n)"
    using assms by (simp_all add: good_estimates_def)
  note d = g tick_at next_state_def re_handlers running_def sfoState_def cfoState_def sto_succeeds Let_def split_beta
  show "radio_state_pending s = DID_BOOT \<Longrightarrow> fsm_event_pending s = NOOP_EV \<Longrightarrow>
      snd (snd (tick_localfsm (env n) s)) = s\<lparr>radio_state := DID_BOOT, fsm_event_pending := REQUEST_FINE_SYNC_EV, radio_state_pending := PRE_SFO_STATE_0\<rparr>"
    by (cases s) (simp add: d)
  show "radio_state_pending s = PRE_SFO_STATE_0 \<Longrightarrow> fsm_event_pending s = fst (re_event s) \<Longrightarrow> array_index s = i \<Longrightarrow>
      running SFO_STATE_0 i (snd (snd (tick_localfsm (env n) s))) \<and> prev_sfo_est (snd (snd (tick_localfsm (env n) s))) = of_nat (a n + 1)"
    by (simp add: d)
  show "running SFO_STATE_0 i s \<Longrightarrow>
      (if of_nat (a n) - prev_sfo_est s = of_nat w
       then running STO_0 i (snd (snd (tick_localfsm (env n) s))) \<and> prev_sto_est (snd (snd (tick_localfsm (env n) s))) = of_nat (b n)
       else running SFO_STATE_0 i (snd (snd (tick_localfsm (env n) s))) \<and> prev_sfo_est (snd (snd (tick_localfsm (env n) s))) = prev_sfo_est s)"
    by (simp add: d)
  show "running STO_0 i s \<Longrightarrow>
      (if of_nat (b n) - prev_sto_est s = 2 then running STO_EQ_0 i (snd (snd (tick_localfsm (env n) s)))
       else running STO_0 i (snd (snd (tick_localfsm (env n) s))) \<and> prev_sto_est (snd (snd (tick_localfsm (env n) s))) = prev_sto_est s)"
    by (simp add: d)
  show "running STO_EQ_0 i s \<Longrightarrow>
      running CFO_0 i (snd (snd (tick_localfsm (env n) s))) \<and> prev_cfo_est (snd (snd (tick_localfsm (env n) s))) = of_nat (c n)"
    by (simp add: d)
  show "running CFO_0 i s \<Longrightarrow>
      (if of_nat (c n) - prev_cfo_est s = 2 then running BACKGROUND_SYNC i (snd (snd (tick_localfsm (env n) s)))
       else running CFO_0 i (snd (snd (tick_localfsm (env n) s))) \<and> prev_cfo_est (snd (snd (tick_localfsm (env n) s))) = prev_cfo_est s)"
    by (simp add: d)
  show "running BACKGROUND_SYNC i s \<Longrightarrow> fst (snd (tick_localfsm (env n) s)) = [Start_background, Sent_event RADIO_ENTERED_BG_EV i]"
    by (simp add: d)
qed

section \<open>Aligning the schedule\<close>

text \<open>The two ticks before the alignment leave a demodulator that waits for a beacon, and ask for one.\<close>

lemma reset_demod:
  "data_subcarrier_index (demod (reset_tracking s)) = data_subcarrier_index (demod s)"
  "tdma_phase (demod (reset_tracking s)) = - 1" "length (tdma (demod (reset_tracking s))) = length (tdma (demod s))"
  "demod_enabled (demod (reset_tracking s)) = demod_enabled (demod s)" "demod_words (demod (reset_tracking s)) = demod_words (demod s)"
  "subcarrier_chunk (demod (reset_tracking s)) = subcarrier_chunk (demod s)"
  "data_subcarrier_index (demod s) < length (tdma (demod s)) \<Longrightarrow> needsUpdate (re_td (reset_tracking s))"
  "radio_state_pending (reset_tracking s) = radio_state_pending s" "re_peer (reset_tracking s) = re_peer s"
  "fsm_event_pending (reset_tracking s) = fsm_event_pending s"
  by (simp_all add: reset_tracking_def resetTdmaAndLifetime_def resetDemodPhase_def resetTdmaIndexDefault_def upd_td_def
      tdma_reset_def re_td_def needsUpdate_def)

lemma asking_for_beacon:
  assumes "radio_state_pending s = TDMA_STATE_0_1" "fsm_event_pending s = NOOP_EV"
    and "data_subcarrier_index (demod s) < length (tdma (demod s))"
  shows "\<exists>s2. re_run env s 2 = s2 \<and> radio_state_pending s2 = TDMA_STATE_2_DOT_6 \<and> fsm_event_pending s2 = NOOP_EV \<and>
    fst (snd (tick_localfsm (env 0) s)) = [] \<and>
    fst (snd (tick_localfsm (env 1) (re_run env s 1))) = map Sent_later (setPartnerTDMA (re_peer s) 6 0) \<and>
    data_subcarrier_index (demod s2) = data_subcarrier_index (demod s) \<and> tdma_phase (demod s2) = - 1 \<and>
    length (tdma (demod s2)) = length (tdma (demod s)) \<and> demod_enabled (demod s2) = demod_enabled (demod s) \<and>
    demod_words (demod s2) = demod_words (demod s) \<and> subcarrier_chunk (demod s2) = subcarrier_chunk (demod s) \<and>
    needsUpdate (re_td s2)"
proof -
  define s1 where "s1 = re_run env s 1"
  have s1: "radio_state_pending s1 = TDMA_STATE_2_DOT_5" "fsm_event_pending s1 = NOOP_EV" "re_peer s1 = re_peer s"
    "fst (snd (tick_localfsm (env 0) s)) = []" "data_subcarrier_index (demod s1) = data_subcarrier_index (demod s)"
    "tdma_phase (demod s1) = - 1" "length (tdma (demod s1)) = length (tdma (demod s))" "demod_enabled (demod s1) = demod_enabled (demod s)"
    "demod_words (demod s1) = demod_words (demod s)" "subcarrier_chunk (demod s1) = subcarrier_chunk (demod s)"
    using assms(1,2) by (simp_all add: s1_def tick_at next_state_def reset_demod Let_def)
  have "needsUpdate (re_td s1)"
    using assms reset_demod(7) [of "s\<lparr>fsm_event_pending := NOOP_EV, radio_state := TDMA_STATE_0_1\<rparr>"]
    by (simp add: s1_def tick_at next_state_def Let_def re_td_def)
  moreover have "re_run env s 2 = snd (snd (tick_localfsm (env 1) s1))" by (simp add: s1_def numeral_2_eq_2)
  ultimately show ?thesis
    using s1 unfolding s1_def [symmetric]
    by (simp add: tick_at next_state_def re_setPartnerTDMA_def Let_def re_td_def)
qed

section \<open>Properties\<close>

text \<open>
  C39. The fine synchronisation ends. When the estimates are good and their counters go on, by one at a
  time as the ticks see them, a radio that has been asked for it gets, after finitely many ticks, to the
  tick that starts the background and reports it for this radio.
\<close>
theorem fine_sync_ends:
  assumes "good_estimates env w a b c" "counts a" "counts b" "counts c"
    and "radio_state_pending s = DID_BOOT" "fsm_event_pending s = NOOP_EV" "fst (re_event s) = REQUEST_FINE_SYNC_EV"
  shows "\<exists>n. fst (snd (tick_localfsm (env n) (re_run env s n))) = [Start_background, Sent_event RADIO_ENTERED_BG_EV (array_index s)]"
proof -
  let ?S = "re_run env s" and ?i = "array_index s"
  note step = good_steps [OF assms(1)]
  have unit: "f (Suc n) \<le> Suc (f n)" if "counts f" for f n using that by (metis counts_def le_SucI order_refl)
  have S1: "?S 1 = s\<lparr>radio_state := DID_BOOT, fsm_event_pending := REQUEST_FINE_SYNC_EV, radio_state_pending := PRE_SFO_STATE_0\<rparr>"
    using step(1) [OF assms(5,6), of 0] by simp
  have S2: "?S 2 = snd (snd (tick_localfsm (env 1) (?S 1)))" by (simp add: numeral_2_eq_2)
  have sfo: "running SFO_STATE_0 ?i (?S 2) \<and> prev_sfo_est (?S 2) = of_nat (a 1 + 1)"
    using step(2) [of "?S 1" ?i 1] assms(7) unfolding S2 S1 by simp
  have "\<exists>m \<ge> 2. a m = a 1 + 1 + w"
    using counts_hits [OF assms(2), of 2 "a 1 + 1 + w"] unit [OF assms(2), of 1] by (simp add: numeral_2_eq_2)
  then have "\<exists>m \<ge> 2. of_nat (a m) - of_nat (a 1 + 1) = (of_nat w :: u64)" by (metis add_diff_cancel_left' of_nat_add)
  from kept_until [of "\<lambda>m. running SFO_STATE_0 ?i (?S m) \<and> prev_sfo_est (?S m) = of_nat (a 1 + 1)", OF sfo _ this]
  obtain m where "running SFO_STATE_0 ?i (?S m)" "of_nat (a m) - prev_sfo_est (?S m) = of_nat w"
    using step(3) by fastforce
  then have sto: "running STO_0 ?i (?S (Suc m)) \<and> prev_sto_est (?S (Suc m)) = of_nat (b m)"
    using step(3) by simp
  have "\<exists>k \<ge> Suc m. b k = b m + 2"
    using counts_hits [OF assms(3), of "Suc m" "b m + 2"] unit [OF assms(3), of m] by simp
  then have "\<exists>k \<ge> Suc m. of_nat (b k) - of_nat (b m) = (2 :: u64)" by (metis add_diff_cancel_left' of_nat_add of_nat_numeral)
  from kept_until [of "\<lambda>k. running STO_0 ?i (?S k) \<and> prev_sto_est (?S k) = of_nat (b m)", OF sto _ this]
  obtain k where "running STO_0 ?i (?S k)" "of_nat (b k) - prev_sto_est (?S k) = 2"
    using step(4) by fastforce
  then have "running STO_EQ_0 ?i (?S (Suc k))" using step(4) by simp
  from step(5) [OF this, of "Suc k"]
  have cfo: "running CFO_0 ?i (?S (Suc (Suc k))) \<and> prev_cfo_est (?S (Suc (Suc k))) = of_nat (c (Suc k))" by simp
  have "\<exists>l \<ge> Suc (Suc k). c l = c (Suc k) + 2"
    using counts_hits [OF assms(4), of "Suc (Suc k)" "c (Suc k) + 2"] unit [OF assms(4), of "Suc k"] by simp
  then have "\<exists>l \<ge> Suc (Suc k). of_nat (c l) - of_nat (c (Suc k)) = (2 :: u64)"
    by (metis add_diff_cancel_left' of_nat_add of_nat_numeral)
  from kept_until [of "\<lambda>l. running CFO_0 ?i (?S l) \<and> prev_cfo_est (?S l) = of_nat (c (Suc k))", OF cfo _ this]
  obtain l where "running CFO_0 ?i (?S l)" "of_nat (c l) - prev_cfo_est (?S l) = 2"
    using step(6) by fastforce
  then have "running BACKGROUND_SYNC ?i (?S (Suc l))" using step(6) by simp
  from step(7) [OF this] show ?thesis by blast
qed

theorem fine_sync_ends_witness:
  "\<exists>n. let env = (\<lambda>n. \<lparr>fsm_js = False, sto_skip = False, sfo_wait = 4, sto_margin = 30, sto_disable_positive = False,
        times_sfo = of_nat n, times_sto = of_nat n, times_cfo = of_nat n, sfo_beyond = Some False, cfo_beyond = Some False,
        sto_sign = 1, sto_adj = 40\<rparr>)
    in fst (snd (tick_localfsm (env n) (re_run env ((init_localfsm 1 2)\<lparr>re_event := (REQUEST_FINE_SYNC_EV, 1)\<rparr>) n))) =
      [Start_background, Sent_event RADIO_ENTERED_BG_EV 1]"
proof -
  let ?env = "\<lambda>n. \<lparr>fsm_js = False, sto_skip = False, sfo_wait = 4, sto_margin = 30, sto_disable_positive = False,
        times_sfo = of_nat n, times_sto = of_nat n, times_cfo = of_nat n, sfo_beyond = Some False, cfo_beyond = Some False,
        sto_sign = 1, sto_adj = 40\<rparr>"
  let ?s = "(init_localfsm 1 2)\<lparr>re_event := (REQUEST_FINE_SYNC_EV, 1)\<rparr>"
  have c: "counts id" by (auto simp: counts_def)
  have "good_estimates ?env 4 id id id" by (simp add: good_estimates_def)
  from fine_sync_ends [OF this c c c, of ?s] show ?thesis by (simp add: init_localfsm_def)
qed

text \<open>
  C40. A radio reports once. In every history a radio reports that it tracks in the background at most
  once, and not while it synchronises; that it finished with the schedule it never reports, although
  the state machine of the receiving computer waits for it.
\<close>
theorem background_reported_once:
  assumes "re_reaches P s0 outs s" "radio_state_pending s0 = DID_BOOT"
  shows "events_of RADIO_ENTERED_BG_EV outs \<le> 1 \<and> (syncing (radio_state_pending s) \<longrightarrow> events_of RADIO_ENTERED_BG_EV outs = 0) \<and>
    events_of FINISHED_TDMA_EV outs = 0"
  using reports_invariant [OF assms(1)] assms(2) by (simp add: reports_inv_def)

theorem background_reported_once_witness:
  "\<forall>env. events_of FINISHED_TDMA_EV ([] @ fst (snd (tick_localfsm env (init_localfsm 0 1)))) = 0"
proof
  fix env
  have "re_reaches (\<lambda>_. True) (init_localfsm 0 1) ([] @ fst (snd (tick_localfsm env (init_localfsm 0 1))))
      (snd (snd (tick_localfsm env (init_localfsm 0 1))))"
    by (rule re_reaches.Tick [OF re_reaches.Start TrueI])
  from background_reported_once [OF this]
  show "events_of FINISHED_TDMA_EV ([] @ fst (snd (tick_localfsm env (init_localfsm 0 1)))) = 0" by (simp add: init_localfsm_def)
qed

text \<open>
  C12. The schedule is aligned. A radio about to look for a beacon forgets what it tracked, asks its peer
  for beacons, and when its tone then carries one behind anything that completes no keyword, its
  demodulator reads it and the next tick sends the peer the operation that makes the peer's counter the
  number of the frame in which it was received, or none when it is.
\<close>
theorem schedule_aligned:
  assumes "radio_state_pending s = TDMA_STATE_0_1" "fsm_event_pending s = NOOP_EV" "i = data_subcarrier_index (demod s)"
    and "i < length (tdma (demod s))" "i < length (demod_words (demod s))" "demod_words (demod s) ! i = []" "demod_enabled (demod s)"
    and "buf ! i = idle @ key @ concat nss @ tail" "i < length buf"
    and "subcarrier_chunk (demod s) \<le> length (idle @ key @ concat nss @ tail)" "eq \<noteq> 0"
    and "carries 0xdeadbeef key" "keyword_free 0 (idle @ take 15 key)" "list_all2 carries (c # e # h # 0xff000000 # ws) nss"
    and "frames_from f (idle @ key @ concat nss @ tail)" "length tail < 16" "F = f + of_nat (length idle + 15)" "F \<noteq> - 1"
    and "length ws > 995" "c \<noteq> 0 \<or> F + 16 \<noteq> 0"
  shows "\<exists>d' op adj. demod_run eq ((demod (re_run env s 2))\<lparr>demod_buf_accumulate := buf\<rparr>) = Some d' \<and>
    fst (snd (tick_localfsm (env 1) (re_run env s 1))) = map Sent_later (setPartnerTDMA (re_peer s) 6 0) \<and>
    counter_after op adj c = F + 16 \<and>
    fst (snd (tick_localfsm (env 2) ((re_run env s 2)\<lparr>demod := d'\<rparr>))) =
      map Sent_ring (if c = F + 16 then [] else demod_partnerOp op 0 adj d')"
proof -
  obtain s2 where s2: "re_run env s 2 = s2" "radio_state_pending s2 = TDMA_STATE_2_DOT_6" "fsm_event_pending s2 = NOOP_EV"
    "fst (snd (tick_localfsm (env 1) (re_run env s 1))) = map Sent_later (setPartnerTDMA (re_peer s) 6 0)"
    "data_subcarrier_index (demod s2) = i" "tdma_phase (demod s2) = - 1"
    "length (tdma (demod s2)) = length (tdma (demod s))" "demod_enabled (demod s2)"
    "demod_words (demod s2) = demod_words (demod s)" "subcarrier_chunk (demod s2) = subcarrier_chunk (demod s)" "needsUpdate (re_td s2)"
    using asking_for_beacon [OF assms(1,2), of env] assms(3,4,7) by blast
  let ?d = "(demod s2)\<lparr>demod_buf_accumulate := buf\<rparr>"
  have "\<exists>d' op adj. demod_run eq ?d = Some d' \<and> tdma_phase d' = F \<and> epoc_tx (tdma d' ! i) = e \<and>
      counter_after op adj c = F + 16 \<and> alignSchedule4 d' = (0, if c = F + 16 then [] else demod_partnerOp op 0 adj d')"
    by (rule beacon_aligns [where d = ?d, OF _ _ _ _ _ _ _ assms(11) _ _ _ assms(12-20)])
      (use assms(4-10) s2 in \<open>simp_all add: re_td_def\<close>)
  then obtain d' op adj where d': "demod_run eq ?d = Some d'" "counter_after op adj c = F + 16"
    "alignSchedule4 d' = (0, if c = F + 16 then [] else demod_partnerOp op 0 adj d')" by blast
  have td: "\<not> needsUpdate (tdma d' ! data_subcarrier_index d')"
    using d'(3) by (auto simp: alignSchedule4_def Let_def)
  have "fst (snd (tick_localfsm (env 2) (s2\<lparr>demod := d'\<rparr>))) = map Sent_ring (snd (alignSchedule4 d'))"
    using s2(2,3) td by (simp add: tick_at re_TDMA_STATE_2_DOT_6_def re_td_def Let_def)
  then show ?thesis using d' s2(4) unfolding s2(1) by auto
qed

theorem schedule_aligned_witness:
  "\<forall>env. \<exists>d' op adj. let s = (init_localfsm 0 2)\<lparr>radio_state_pending := TDMA_STATE_0_1\<rparr>
    in demod_run 1 ((demod (re_run env s 2))\<lparr>demod_buf_accumulate := replicate 31 [] @
        [word_samples 100 0xdeadbeef @ concat (tone_samples 116 ([7, 3, 0, 0xff000000] @ replicate 996 0))]\<rparr>) = Some d' \<and>
      counter_after op adj 7 = 131 \<and>
      fst (snd (tick_localfsm (env 2) ((re_run env s 2)\<lparr>demod := d'\<rparr>))) = map Sent_ring (demod_partnerOp op 0 adj d')"
proof
  fix env
  let ?ws = "7 # 3 # 0 # 0xff000000 # replicate 996 0 :: u32 list" and ?key = "word_samples 100 0xdeadbeef"
  let ?s = "(init_localfsm 0 2)\<lparr>radio_state_pending := TDMA_STATE_0_1\<rparr>"
  have f: "frames_from 100 ([] @ ?key @ concat (tone_samples 116 ?ws) @ [])"
    using tone_samples_carry(2) [of 100 "0xdeadbeef # ?ws"] by simp
  have len: "length (concat (tone_samples f xs)) = 16 * length xs" for f xs
    by (induction xs arbitrary: f) (simp_all add: word_samples_def)
  have i: "data_subcarrier_index (demod ?s) = 31"
    by (simp add: init_localfsm_def setIndex_def getIndexForDemodTDMA_def getAllDemodTDMA_def RadioDemodTDMA_def)
  have "\<exists>d' op adj. demod_run 1 ((demod (re_run env ?s 2))\<lparr>demod_buf_accumulate := replicate 31 [] @ [[] @ ?key @ concat (tone_samples 116 ?ws) @ []]\<rparr>) = Some d' \<and>
      fst (snd (tick_localfsm (env 1) (re_run env ?s 1))) = map Sent_later (setPartnerTDMA (re_peer ?s) 6 0) \<and>
      counter_after op adj 7 = 115 + 16 \<and>
      fst (snd (tick_localfsm (env 2) ((re_run env ?s 2)\<lparr>demod := d'\<rparr>))) = map Sent_ring (if 7 = (115 + 16 :: u32) then [] else demod_partnerOp op 0 adj d')"
    by (rule schedule_aligned [where i = 31 and idle = "[]" and tail = "[]" and key = ?key and f = 100 and h = 0 and ws = "replicate 996 0" and s = ?s,
          OF _ _ _ _ _ _ _ _ _ _ _ word_samples_carry _ tone_samples_carry(1) f])
      (simp_all add: i len key_keyword_free [OF word_samples_carry] init_localfsm_def setIndex_def RadioDemodTDMA_def
        getIndexForDemodTDMA_def getAllDemodTDMA_def nth_append)
  then show "\<exists>d' op adj. let s = (init_localfsm 0 2)\<lparr>radio_state_pending := TDMA_STATE_0_1\<rparr>
    in demod_run 1 ((demod (re_run env s 2))\<lparr>demod_buf_accumulate := replicate 31 [] @
        [word_samples 100 0xdeadbeef @ concat (tone_samples 116 ([7, 3, 0, 0xff000000] @ replicate 996 0))]\<rparr>) = Some d' \<and>
      counter_after op adj 7 = 131 \<and>
      fst (snd (tick_localfsm (env 2) ((re_run env s 2)\<lparr>demod := d'\<rparr>))) = map Sent_ring (demod_partnerOp op 0 adj d')"
    by (simp add: Let_def) blast
qed

end
