(* ===== verification/Spec2Isabelle.thy ===== *)
theory Spec2Isabelle
  imports Crc32 Mac_Header Packet_Words Demod_Packets Slicing Air_Transforms Interleaving
    Reed_Solomon Emulate_Mapmov Air_Link Safe_Queue Retransmission Udp_Reorder Tx_Fsm Tun_Thread Fb_Standalone Flush_Higgs
    Null_Split Ring_Bus Status_Code Peer_Handlers Peer_Ring Radio_Remote Radio_Fsm
begin

text \<open>
  s-modem is the host side of a software-defined OFDM modem. A transmitter reads IP packets from a
  tunnel device, strings them together behind their hashes, codes and interleaves them, and puts
  them with a header behind sync frames; radio boards map the words onto subcarriers. A receiver gets
  the demodulated words back over the feedback bus, looks for the sync frames, votes on the header,
  decodes, checks the hashes and writes the packets to its own tunnel. An arbiter node may hand the
  same packets to several transmitters at once; lost packets are asked for again by index. All paths
  below are under src/soapy/src.

  \<^bold>\<open>Theories and code.\<close> Each definition has the name of the function it models, and each theory
  starts with what it holds.

  \<^item> Vocabulary: \<open>Modem_Prelude\<close> (words, vectors, byte views), \<open>Std_Map\<close> (\<open>std::map\<close>, clock
    differences), \<open>Modem_Modes\<close> (mode enumerations), \<open>Interfaces\<close> (the contracts between
    components as locales, each interpreted by the theory of the component that provides it).
  \<^item> Packets and words: \<open>Crc32\<close> (common/crc32.cpp), \<open>Packet_Words\<close> (common/convert.cpp, the hashes
    of driver/VerifyHash.cpp), \<open>Slicing\<close> (common/convert.cpp, sliced words), \<open>Demod_Packets\<close>
    (the packet reassembly of driver/DemodThread.cpp), \<open>Tun_Thread\<close> (driver/HiggsTunThread.cpp).
  \<^item> The air: \<open>Mac_Header\<close> (driver/MacHeader.cpp), \<open>Interleaving\<close> (driver/Interleaver.cpp),
    \<open>Reed_Solomon\<close> (driver/ReedSolomon.cpp), \<open>Air_Transforms\<close>, \<open>Air_Messages\<close>,
    \<open>Air_Settings\<close>, \<open>Air_Outbound\<close>, \<open>Air_Inbound\<close> and \<open>Air_Link\<close> (driver/AirPacket.cpp),
    \<open>Emulate_Mapmov\<close> (driver/EmulateMapmov.cpp), \<open>Air_Bitrate\<close> (driver/AirMacBitrate.cpp).
  \<^item> Transmitting: \<open>Safe_Queue\<close> (common/SafeQueue.hpp), \<open>Retransmit\<close>
    (driver/RetransmitBuffer.cpp), \<open>Arbiter\<close> (driver/EventDspArbiter.cpp), \<open>Tx_Schedule\<close> and
    \<open>Tx_Fsm\<close> (driver/TxSchedule.cpp: the data path, the state machine), \<open>Flush_Higgs\<close>
    (driver/FlushHiggs.cpp: from two buffers to the socket), \<open>Ring_Bus\<close> (driver/HiggsRing.cpp,
    common/GenericOperator.cpp: control words to the radio and their replies).
  \<^item> Receiving: \<open>Verify_Hash\<close> (driver/VerifyHash.cpp), \<open>Retransmission\<close> (the handlers that join
    arbiter, receiver and transmitter), \<open>Udp_Reorder\<close> (driver/HiggsUdpOOO.hpp), \<open>Feedback_Bus\<close>
    (the framing of driver/HiggsSoapyFeedbackBus.cpp), \<open>Fb_Standalone\<close> (driver/StandAloneFbParse.cpp).
  \<^item> Between computers: \<open>Peer_Network\<close> (driver/HiggsZmq.cpp, the senders of driver/HiggsPartner.cpp, the
    event thread's buffer in driver/EventDsp.cpp), \<open>Peer_Handlers\<close> (driver/EventDspFetch.cpp and
    what driver/EventDsp.cpp does with each message), \<open>Peer_Ring\<close> (the commands of
    driver/HiggsPartner.cpp as delayed words, driver/EventDspFsm.cpp's timers).
  \<^item> Synchronising with a peer: \<open>Radio_Remote\<close> (words that radios report, driver/EventDspFsm.cpp,
    driver/AttachedEstimate.cpp, driver/RadioEstimate.cpp), \<open>Demod_Tdma\<close> (driver/RadioDemodTDMA.cpp:
    beacons on a tone), \<open>Radio_Fsm\<close> (the state machine of driver/RadioEstimate.cpp).
  \<^item> Around them: \<open>Status_Code\<close> (driver/StatusCode.cpp, driver/ScheduleData.cpp), \<open>Null_Split\<close>
    (common/NullBufferSplit.cpp).

  \<^bold>\<open>How the code is modelled.\<close> Objects are records, with the fields of the class; member functions
  take and return the record. \<open>uint8_t\<close> to \<open>uint64_t\<close> are words, so arithmetic wraps; \<open>size_t\<close>
  counts of elements that exist in memory are natural numbers. \<open>std::vector\<close> is a list. An operation
  that can read out of range, fail an assertion or not return has an \<open>option\<close> result, and \<open>None\<close>
  stands for all three. What is printed is left out. Loops are recursion over the data they visit;
  where a loop may not end it is a \<open>partial_function\<close>. There is fuel in three places, each with the
  bound of the code's own loop: the 255 missing sequence numbers of \<open>missing_loop\<close>, the five messages
  of \<open>load_rounds\<close>, and the readings of the clock in \<open>busy_loop\<close>, where too few readings are a wait
  that has not ended. Threads that share a queue, and the writes of other threads between the ticks of
  the transmitter, are step relations.

  \<^bold>\<open>Parameters.\<close> Code that is not in the repository is an argument: the schifra Reed-Solomon codec
  (\<open>schifra\<close>, assumed to recover a block when its own decoder says so), the predictions of the
  schedule and the duplex frame functions, the length function of the bus library (laws in the locale
  \<open>feedback_bus\<close>, satisfied by the simulator's version of it), the hash and the constants of the
  control words (\<open>ring_lib\<close>), the builder of packets between computers (layout in the locale
  \<open>peer_bus\<close>, satisfied by the simulator's), products with the drain rate in double
  precision, memory the code reads beside its
  buffers (\<open>slack\<close>, \<open>beyond\<close>), and the clock.

  \<^bold>\<open>What the lemmas show.\<close> Round trips: of each encoder with its decoder, of the whole path from
  one end of the air to the other (\<open>link_delivers\<close>) and from tunnel to tunnel (\<open>tun_to_tun\<close>).
  Searches: the header search (but for the duplex one) and the recovery find the first match and never
  read outside their buffer. Accounting: queues, reorder buffer, arbiter and feedback bus neither lose
  nor duplicate nor reorder, except where a lemma names the case in which they do; every word to the
  radio is settled by its reply, reported lost or still expected; packets and ring words between
  computers reach those they are for, in order. Invariants: the codecs fit the
  settings after any sequence of setters; the link is reported up while the transmitter
  sends and down in boot, recovery and stall;
  sleeping consumers are woken. Liveness: lost packets come back on the retransmission queue; the wait
  for low priority data ends; a fetched value arrives, and peers find each other;
  the fine synchronisation ends when the estimates are good, a beacon aligns the schedule, and sent
  equalizers are confirmed.

  \<^bold>\<open>Not modelled.\<close> Signal estimates in floating point (driver/RadioEstimate.cpp, HiggsFineSync.cpp,
  HiggsSNR.cpp, EVMThread.cpp) and the calibration procedures of the computers that wait for them
  (driver/EventDspFsm.cpp, EventDspFsmTx.cpp); sockets, timers and ZeroMQ beyond what they carry and
  when they fire, and the discovery of nodes; JSON settings and
  dashboards; the SoapySDR device; generated bindings; recorded data and tests.
\<close>

section \<open>The link\<close>

lemma link_roundtrip:
  assumes "AirPacket frames start_frame = Some a0" and "fold_option air_do cs a0 = Some a"
    and "list_ex sets_allocation cs" and "modulation_schema a = FEEDBACK_MAPMOV_QPSK" and "\<not> duplex_mode a"
    and "subcarrier_allocation a = MAPMOV_SUBCARRIER_128 \<or> subcarrier_allocation a = MAPMOV_SUBCARRIER_320"
    and "rs_ok S a ws" and "stage_words a (length ws) < 2 ^ 20" and "16 * sliced_word_count a \<le> t"
    and "(k + 32) * sliced_word_count a + stage_words a (length ws) + t = n * sliced_word_count a"
    and "n * sliced_word_count a \<le> 2 ^ 31"
  shows "\<exists>out q r rate' h. transform S a ws seq 0 = Some out \<and>
    emulateHiggsToHiggs a (replicate (k * sliced_word_count a) 0 @ out @ replicate t 0) counter = Some (Some q) \<and>
    demodulateSlicedSimple S a q [] r0 ms rate = Some (True, ws, r, rate') \<and>
    found_header r = (of_nat (stage_words a (length ws)), seq, 0) \<and>
    demodulateSlicedHeader a q r0 = Some h \<and> dout_valid h \<and> found_header h = found_header r \<and>
    found_length h = of_nat (stage_words a (length ws)) \<and> found_frame h = counter + of_nat k"
proof -
  let ?w = "sliced_word_count a"
  have "codecs_ok a0" "modes_ok a0" using AirPacket_ok [of frames start_frame] assms(1) by simp_all
  then have ok: "codecs_ok a" "modes_ok a" "numbers_ok a" using air_run_ok [OF assms(2)] assms(3) by blast+
  have mode: "qpsk_mode a ?w" using ok assms(4-6) by (intro qpsk_mode_reached)
  have "codable S a ws"
    using assms(7) schifra_ok_encodes by (auto simp: codable_def rs_ok_def)
  from transform_eq [OF ok this assms(5), of seq] obtain enc payload hw where
    st: "rs_stage S a ws = Some enc" "interleave_stage a enc = Some payload"
    "length payload = stage_words a (length ws)" "packHeader (of_nat (length payload), seq, 0) = Some hw"
    "transform S a ws seq 0 = Some (new_subcarrier_data_sync [] 0xBEEFBABE (16 * ?w) @
      new_subcarrier_data_sync [] hw (16 * ?w) @ payload)"
    using assms(4,8) by auto
  have hw: "unpackHeader hw = (of_nat (length payload), seq, 0)" using st(4) packHeader_iff by blast
  have "length (packet_stream ?w k hw payload t) = n * ?w"
    using assms(10) st(3) by (simp add: length_packet_stream)
  then have sent: "packet_sent a ?w k hw payload t n"
    using mode assms(8,9,11) st(3) hw by (simp add: packet_sent_def)
  note n = packet_sentD(4,7) [OF sent]
  obtain row0 where row0: "emulateHiggsToHiggs a (packet_stream ?w k hw payload t) counter =
      Some (Some (row0, received ?w (packet_stream ?w k hw payload t)))" "length row0 = n * ?w"
    "row0 ! (k * ?w) = counter + of_nat k"
    using air_received [OF mode ok(2) n(1), of counter] n(2) by auto
  have dec: "deinterleave_stage a payload = Some enc" "rs_decode_stage S a enc = Some ws"
    using coding.inner.dec_enc [of a enc] coding.outer.dec_enc [OF assms(7)] coding.ok_enc [OF assms(7)] st(1,2) by simp_all
  from packet_delivered [OF sent row0(2) dec, of r0 ms rate] obtain r rate' where
    "demodulateSlicedSimple S a (row0, received ?w (packet_stream ?w k hw payload t)) [] r0 ms rate = Some (True, ws, r, rate')"
    "found_header r = unpackHeader hw" by auto
  moreover obtain h where "demodulateSlicedHeader a (row0, received ?w (packet_stream ?w k hw payload t)) r0 = Some h"
    "dout_valid h" "found_header h = unpackHeader hw" "found_length h = of_nat (length payload)"
    "found_frame h = counter + of_nat k"
    using header_found [OF sent row0(2), of r0] row0(3) by auto
  ultimately show ?thesis
    using st(3,5) row0(1) hw by (auto simp: packet_stream_def)
qed

text \<open>
  C2. What one modem sends the other receives. In the two QPSK modes, after any sequence of
  settings that chose one of them, coded or not and interleaved or not, a message put through
  \<open>transform\<close>, sent after any number of idle frames and followed by at least sixteen frames of
  fill, comes out of \<open>demodulateSlicedSimple\<close> on the other side of the emulated air unchanged,
  with its sequence number and its coded length; and the header search that the receivers run on the
  same words, \<open>demodulateSlicedHeader\<close>, finds the number of the frame the packet started in
  (\<open>demodulateSlicedSimple\<close> keeps that number to itself). The library is assumed to decode what it encoded; the message must not end in the word a decoder strips.
\<close>
theorem link_delivers:
  assumes "AirPacket frames start_frame = Some a0" and "fold_option air_do cs a0 = Some a"
    and "list_ex sets_allocation cs" and "modulation_schema a = FEEDBACK_MAPMOV_QPSK" and "\<not> duplex_mode a"
    and "subcarrier_allocation a = MAPMOV_SUBCARRIER_128 \<or> subcarrier_allocation a = MAPMOV_SUBCARRIER_320"
    and "rs_ok S a ws" and "stage_words a (length ws) < 2 ^ 20" and "16 * sliced_word_count a \<le> t"
    and "(k + 32) * sliced_word_count a + stage_words a (length ws) + t = n * sliced_word_count a"
    and "n * sliced_word_count a \<le> 2 ^ 31"
  shows "\<exists>out q r rate' h. transform S a ws seq 0 = Some out \<and>
    emulateHiggsToHiggs a (replicate (k * sliced_word_count a) 0 @ out @ replicate t 0) counter = Some (Some q) \<and>
    demodulateSlicedSimple S a q [] r0 ms rate = Some (True, ws, r, rate') \<and>
    found_header r = (of_nat (stage_words a (length ws)), seq, 0) \<and>
    demodulateSlicedHeader a q r0 = Some h \<and> dout_valid h \<and> found_header h = found_header r \<and>
    found_length h = of_nat (stage_words a (length ws)) \<and> found_frame h = counter + of_nat k"
  using assms by (rule link_roundtrip)

text \<open>A setting for the examples: 128 subcarriers, Reed-Solomon and interleaver on, and a library
  that does nothing.\<close>

definition example_settings :: "air_command list" where
  "example_settings = [SetTestDefaults, SetRs 128, SetInterleave 8]"

definition example_library :: schifra where
  "example_library = \<lparr>sch_encode = \<lambda>fec m. Some m, sch_decode = \<lambda>fec b. Some b, sch_string = \<lambda>fec b n. Some (vec_resize n 0 b)\<rparr>"

definition example_found :: found where
  "example_found = \<lparr>dout_valid = False, found_length = 0, found_frame = 0, found_array_index = 0, found_header = (0, 0, 0), erase = 0\<rparr>"

lemma example_air:
  "\<exists>a0 a. AirPacket 100 1 = Some a0 \<and> fold_option air_do example_settings a0 = Some a \<and>
    list_ex sets_allocation example_settings \<and> modulation_schema a = FEEDBACK_MAPMOV_QPSK \<and> \<not> duplex_mode a \<and>
    sliced_word_count a = 8 \<and> subcarrier_allocation a = MAPMOV_SUBCARRIER_128 \<and>
    (\<forall>ws. length ws \<in> {2, 3} \<longrightarrow> stage_words a (length ws) = 64 \<and> rs_ok example_library a ws)"
proof -
  obtain a0 where a0: "AirPacket 100 1 = Some a0" using AirPacket_ok [of 100 1] by auto
  then have init: "every_interleaver a0 = []" "every_reed_solomon a0 = []" "\<not> duplex_mode a0"
    by (auto simp: AirPacket_def)
  obtain m where "setTestDefaults a0 = Some (settings_did_change ((set_modulation_schema FEEDBACK_MAPMOV_QPSK a0)
      \<lparr>enabled_subcarriers := 128, subcarrier_allocation := MAPMOV_SUBCARRIER_128, emulate_mapmov := m\<rparr>))"
    unfolding setTestDefaults_def using set_allocation_total [of MAPMOV_SUBCARRIER_128 128] by auto
  then obtain a where a: "fold_option air_do example_settings a0 = Some a" "code_type a = AIRPACKET_CODE_REED_SOLOMON"
    "ap_fec_length a = 128" "interleave_length a = 8" "modulation_schema a = FEEDBACK_MAPMOV_QPSK" "\<not> duplex_mode a"
    "sliced_word_count a = 8" "subcarrier_allocation a = MAPMOV_SUBCARRIER_128"
    using init by (simp add: example_settings_def set_rs_def set_code_type_def settings_valid_def set_interleave_def
        settings_did_change_def setSyncMessage_def set_modulation_schema_def)
  have "schifra_ok example_library 128"
    by (simp add: example_library_def schifra_ok_def string_lengths_def recovers_def vec_resize_shrink)
  moreover have "codecs_ok a" using AirPacket_ok [of 100 1] a0 air_run_ok [OF a(1)] by auto
  ultimately have "rs_ok example_library a ws" if "length ws \<in> {2, 3}" for ws
    using a that by (auto simp: rs_ok_def rs_words_def)
  moreover have "stage_words a n = 64" if "n \<in> {2, 3}" for n
    using a that by (auto simp: stage_words_def rs_stage_words_def calculate_words_for_code_def ceil_count_def rs_words_def Let_def)
  moreover have "list_ex sets_allocation example_settings" by (simp add: example_settings_def sets_allocation_def)
  ultimately show ?thesis using a0 a by blast
qed

theorem link_delivers_witness:
  "\<exists>a0 a out q r rate' h. AirPacket 100 1 = Some a0 \<and> fold_option air_do example_settings a0 = Some a \<and>
     transform example_library a [7, 8, 9] 5 0 = Some out \<and>
     emulateHiggsToHiggs a (replicate 24 0 @ out @ replicate 128 0) 1000 = Some (Some q) \<and>
     demodulateSlicedSimple example_library a q [] example_found 0 [] = Some (True, [7, 8, 9], r, rate') \<and>
     found_header r = (64, 5, 0) \<and> demodulateSlicedHeader a q example_found = Some h \<and> dout_valid h \<and>
     found_frame h = 1003"
proof -
  obtain a0 a where a: "AirPacket 100 1 = Some a0" "fold_option air_do example_settings a0 = Some a"
    "list_ex sets_allocation example_settings" "modulation_schema a = FEEDBACK_MAPMOV_QPSK" "\<not> duplex_mode a"
    "sliced_word_count a = 8" "subcarrier_allocation a = MAPMOV_SUBCARRIER_128"
    and coded: "\<And>ws. length ws \<in> {2, 3} \<Longrightarrow> stage_words a (length ws) = 64 \<and> rs_ok example_library a ws"
    using example_air by blast
  have w: "stage_words a (length [7, 8, 9 :: u32]) = 64" "rs_ok example_library a [7, 8, 9]"
    using coded [of "[7, 8, 9]"] by simp_all
  have side: "subcarrier_allocation a = MAPMOV_SUBCARRIER_128 \<or> subcarrier_allocation a = MAPMOV_SUBCARRIER_320"
    "stage_words a (length [7, 8, 9 :: u32]) < 2 ^ 20" "16 * sliced_word_count a \<le> 128"
    "(3 + 32) * sliced_word_count a + stage_words a (length [7, 8, 9 :: u32]) + 128 = 59 * sliced_word_count a"
    "59 * sliced_word_count a \<le> 2 ^ 31" unfolding w(1) using a by simp_all
  from link_delivers [OF a(1-5) side(1) w(2) side(2-5), of 5 1000 example_found 0 "[]"]
  obtain out q r rate' h where found: "transform example_library a [7, 8, 9] 5 0 = Some out"
    "emulateHiggsToHiggs a (replicate (3 * 8) 0 @ out @ replicate 128 0) 1000 = Some (Some q)"
    "demodulateSlicedSimple example_library a q [] example_found 0 [] = Some (True, [7, 8, 9], r, rate')"
    "found_header r = (of_nat 64, 5, 0)" "demodulateSlicedHeader a q example_found = Some h" "dout_valid h"
    "found_frame h = 1000 + of_nat 3" unfolding a(6) w(1) by blast
  have "emulateHiggsToHiggs a (replicate 24 0 @ out @ replicate 128 0) 1000 = Some (Some q)"
    "found_header r = (64, 5, 0)" "found_frame h = 1003" using found(2,4,7) by simp_all
  with a(1,2) found(1,3,5,6) show ?thesis by blast
qed

section \<open>From tunnel to tunnel\<close>

text \<open>What the transmitter strings together for a list of IP packets.\<close>

definition air_words :: "(nat \<Rightarrow> u8) \<Rightarrow> u8 list list \<Rightarrow> u32 list" where
  "air_words slack bs = concat (map (\<lambda>b. getHashForChars b # charVectorPacketToWordVector slack b) bs)"

lemma frames_of_packets:
  fixes slack :: "nat \<Rightarrow> u8"
  assumes "\<forall>b \<in> set bs. ip_packet b"
  defines "fs \<equiv> map (\<lambda>b. (b, charVectorPacketToWordVector slack b)) bs"
  shows "concat (map frame_words fs) = air_words slack bs" "\<forall>f \<in> set fs. frame_ok f"
    "map frame_bytes (filter frame_intact fs) = bs"
    "concat (map (\<lambda>p. getHashForWords p # p) (map (charVectorPacketToWordVector slack) bs)) = air_words slack bs"
proof -
  have b: "frame_ok f" "frame_intact f" "frame_bytes f = fst f" if "f \<in> set fs" for f
  proof -
    from that obtain b where f: "f = (b, charVectorPacketToWordVector slack b)" and ip: "ip_packet b"
      using assms(1) by (auto simp: fs_def)
    show "frame_ok f" using f ip by (simp add: frame_ok_def)
    show intact: "frame_intact f" using f getHashForWords_charVector [OF ip] by (simp add: frame_intact_def)
    show "frame_bytes f = fst f" using f intact charVector_bytes [of b slack] by (simp add: frame_bytes_def)
  qed
  show "\<forall>f \<in> set fs. frame_ok f" using b(1) by blast
  have "filter frame_intact fs = fs" using b(2) by (intro filter_True) blast
  then show "map frame_bytes (filter frame_intact fs) = bs"
    using b(3) by (simp add: fs_def cong: map_cong)
  show "concat (map frame_words fs) = air_words slack bs"
    by (simp add: fs_def air_words_def frame_words_def comp_def)
  show "concat (map (\<lambda>p. getHashForWords p # p) (map (charVectorPacketToWordVector slack) bs)) = air_words slack bs"
    using assms(1) by (simp add: air_words_def comp_def getHashForWords_charVector cong: map_cong)
qed

text \<open>
  C1. IP packets that enter one modem's tunnel leave the other's. The transmitter's tun thread reads
  the packets one by one; \<open>TxSchedule\<close> pulls them into one air packet; it crosses the emulated air
  between idle frames and fill; the receiver finds it, decodes it and takes it apart; and what
  \<open>demodGotPacket\<close> writes to its tunnel is the list of packets, byte for byte and in order. This
  holds in both QPSK modes with any combination of Reed-Solomon code and interleaver the settings
  allow. The sequence number on the air is whatever the uninitialised byte held.
\<close>
theorem tun_to_tun:
  assumes "AirPacket frames start_frame = Some a0" and "fold_option air_do cs a0 = Some (air (airTx s))"
    and "list_ex sets_allocation cs" and "modulation_schema (air (airTx s)) = FEEDBACK_MAPMOV_QPSK"
    and "\<not> duplex_mode (air (airTx s))"
    and "subcarrier_allocation (air (airTx s)) = MAPMOV_SUBCARRIER_128 \<or> subcarrier_allocation (air (airTx s)) = MAPMOV_SUBCARRIER_320"
    and "\<forall>b \<in> set bs. ip_packet b" and "bs \<noteq> []"
    and "demodRx2TunFifo node = []" and "tun_tx_queue node = []"
    and "tx_tun s = tun_tx_queue (fold (\<lambda>b. tunThreadAsTx_pass slack (Some b)) bs node)"
    and "need_retransmit (retransmitBuffer s) = []"
    and "rs_ok S (air (airTx s)) (air_words slack bs)"
    and "stage_words (air (airTx s)) (length (air_words slack bs)) < 2 ^ 20"
    and "16 * sliced_word_count (air (airTx s)) \<le> t"
    and "(k + 32) * sliced_word_count (air (airTx s)) + stage_words (air (airTx s)) (length (air_words slack bs)) + t =
      n * sliced_word_count (air (airTx s))"
    and "n * sliced_word_count (air (airTx s)) \<le> 2 ^ 31"
  shows "\<exists>out s' q ws r rate' d. pullAndPrepTunData S sq vh 0 s = Some (out, s') \<and> tx_waiting s' = [] \<and>
    emulateHiggsToHiggs (air (airTx s)) (replicate (k * sliced_word_count (air (airTx s))) 0 @ out @ replicate t 0) counter =
      Some (Some q) \<and>
    demodulateSlicedSimple S (air (airTx s)) q [] r0 ms rate = Some (True, ws, r, rate') \<and>
    fst (snd (found_header r)) = sq \<and>
    demodGotPacket True True sq ws (fst (snd (found_header r))) = (sq + 1, [], Some d) \<and> written d = bs"
proof -
  let ?a = "air (airTx s)" and ?ws = "air_words slack bs"
  let ?fs = "map (\<lambda>b. (b, charVectorPacketToWordVector slack b)) bs"
  note fs = frames_of_packets [OF assms(7), of slack]
  have "\<forall>b \<in> set bs. length b \<le> BUFSIZE" using assms(7) ip_packet_short by blast
  then have "tx_waiting s = map (charVectorPacketToWordVector slack) bs"
    using tun_reads_queued [OF assms(9), of bs slack] assms(10-12) by (simp add: tx_waiting_def)
  then have pull: "pullAndPrepTunData S sq vh 0 s = map_option (\<lambda>d. (d, tx_drained s)) (transform S ?a ?ws sq 0)"
    using fs(4) by (simp add: pullAndPrepTunData_all)
  from link_roundtrip [OF assms(1-6,13-17), of sq counter r0 ms rate] obtain out q r rate' where l:
    "transform S ?a ?ws sq 0 = Some out"
    "emulateHiggsToHiggs ?a (replicate (k * sliced_word_count ?a) 0 @ out @ replicate t 0) counter = Some (Some q)"
    "demodulateSlicedSimple S ?a q [] r0 ms rate = Some (True, ?ws, r, rate')"
    "fst (snd (found_header r)) = sq" by auto
  have "?fs \<noteq> []" using assms(8) by simp
  from receive_frames [OF this fs(2), of sq 0 sq, unfolded fs(1,3)] obtain d where
    "demodGotPacket True True sq ?ws sq = (sq + 1, map (\<lambda>w. (w, [0xFFFFFFFF])) (fst (check_seq sq sq)), Some d)"
    "written d = bs" by auto
  then show ?thesis
    using pull l by (intro exI [of _ out] exI [of _ "tx_drained s"] exI [of _ q] exI [of _ ?ws] exI [of _ r]
        exI [of _ rate'] exI [of _ d]) (simp add: check_seq_def)
qed

theorem tun_to_tun_witness:
  "\<exists>(s :: tx_sched) out s' q ws r rate' d.
    tx_tun s = tun_tx_queue (tunThreadAsTx_pass (\<lambda>_. 0) (Some [0x45, 0, 0, 4])
      \<lparr>tun_tx_queue = [], demodRx2TunFifo = [], to_tun = [], uplink_sent = []\<rparr>) \<and>
    pullAndPrepTunData example_library 9 True 0 s = Some (out, s') \<and>
    emulateHiggsToHiggs (air (airTx s)) (replicate (3 * 8) 0 @ out @ replicate 128 0) 1000 = Some (Some q) \<and>
    demodulateSlicedSimple example_library (air (airTx s)) q [] example_found 0 [] = Some (True, ws, r, rate') \<and>
    demodGotPacket True True 9 ws (fst (snd (found_header r))) = (10, [], Some d) \<and> written d = [[0x45, 0, 0, 4]]"
proof -
  let ?b = "[0x45, 0, 0, 4] :: u8 list"
  let ?n0 = "\<lparr>tun_tx_queue = [], demodRx2TunFifo = [], to_tun = [], uplink_sent = []\<rparr>"
  have ip: "\<forall>b \<in> set [?b]. ip_packet b" by (simp add: ip_packet_def)
  have len: "length (air_words (\<lambda>_. 0) [?b]) = 2" by (simp add: air_words_def words_for_def)
  obtain a0 a where a: "AirPacket 100 1 = Some a0" "fold_option air_do example_settings a0 = Some a"
    "list_ex sets_allocation example_settings" "modulation_schema a = FEEDBACK_MAPMOV_QPSK" "\<not> duplex_mode a"
    "sliced_word_count a = 8" "subcarrier_allocation a = MAPMOV_SUBCARRIER_128"
    and coded: "\<And>ws. length ws \<in> {2, 3} \<Longrightarrow> stage_words a (length ws) = 64 \<and> rs_ok example_library a ws"
    using example_air by blast
  have w: "stage_words a 2 = 64" "rs_ok example_library a (air_words (\<lambda>_. 0) [?b])"
    using coded [of "air_words (\<lambda>_. 0) [?b]"] len by simp_all
  let ?s = "\<lparr>airTx = \<lparr>air = a, tx_seq = 0\<rparr>, retransmitBuffer = RetransmitBuffer,
    tx_tun = tun_tx_queue (tunThreadAsTx_pass (\<lambda>_. 0) (Some ?b) ?n0), beamform_buffer = [], pending_valid = 0,
    pending_from_peer = 0, pending_epoc = 0, pending_ts = 0, pending_seq = 0, pending_packets = [], pending_lifetime = 0,
    debug_duplex = 0, debug_duplex_type = 1, debug_duplex_size = 40, debug_extra_gap = 0, debug_duplex_busy_until = 0,
    debug_busy_valid = False, debug_duplex_ahead = 5120, duplex_seq = 0, macBitrate = AirMacBitrateTx\<rparr>"
  have s: "air (airTx ?s) = a" "need_retransmit (retransmitBuffer ?s) = []" by (simp_all add: RetransmitBuffer_def)
  have "\<exists>out s' q ws r rate' d. pullAndPrepTunData example_library 9 True 0 ?s = Some (out, s') \<and> tx_waiting s' = [] \<and>
    emulateHiggsToHiggs (air (airTx ?s)) (replicate (3 * sliced_word_count (air (airTx ?s))) 0 @ out @ replicate 128 0) 1000 =
      Some (Some q) \<and>
    demodulateSlicedSimple example_library (air (airTx ?s)) q [] example_found 0 [] = Some (True, ws, r, rate') \<and>
    fst (snd (found_header r)) = 9 \<and>
    demodGotPacket True True 9 ws (fst (snd (found_header r))) = (9 + 1, [], Some d) \<and> written d = [?b]"
    by (rule tun_to_tun [OF a(1), where s = ?s and cs = example_settings and slack = "\<lambda>_. 0" and bs = "[?b]" and
        node = ?n0 and n = 59]) (use a w ip len s in simp_all)
  then show ?thesis unfolding s(1) a(6) by (intro exI [of _ ?s]) auto
qed

end
